(* ===== verification/Prelude.thy ===== *)
theory Prelude
  imports Main "HOL-Library.Word" "HOL-Library.Signed_Division"
begin

text \<open>
  Shared vocabulary of the development: the machine integers of the Rust sources as words, the
  bit-counting operations of the Rust standard library, the results of code that may panic, and
  the interfaces (locales) that several components implement: a machine whose operations keep an
  invariant, and a device whose state is captured by a snapshot.

  Arithmetic is the arithmetic of the release profile the README builds: \<open>+\<close>, \<open>-\<close>, \<open>*\<close> wrap at
  the width of their type, and a shift amount is reduced modulo the width of the shifted type.
\<close>

unbundle bit_operations_syntax

type_synonym u8 = "8 word"
type_synonym u16 = "16 word"
type_synonym u32 = "32 word"
type_synonym u64 = "64 word"
type_synonym u128 = "128 word"

named_theorems bits \<open>facts that reduce word equations to equations between bits\<close>
named_theorems dev \<open>definitions of the device operations, unfolded by the component proofs\<close>

section \<open>Shifts and bit counts of the Rust standard library\<close>

definition wrapping_shl :: "'a::len word \<Rightarrow> nat \<Rightarrow> 'a word" where
  "wrapping_shl x n = push_bit (n mod LENGTH('a)) x"

definition wrapping_shr :: "'a::len word \<Rightarrow> nat \<Rightarrow> 'a word" where
  "wrapping_shr x n = drop_bit (n mod LENGTH('a)) x"

definition trailing_ones :: "'a::len word \<Rightarrow> nat" where
  "trailing_ones x = length (takeWhile (bit x) [0..<LENGTH('a)])"

definition trailing_zeros :: "'a::len word \<Rightarrow> nat" where
  "trailing_zeros x = length (takeWhile (\<lambda>i. \<not> bit x i) [0..<LENGTH('a)])"

definition leading_zeros :: "'a::len word \<Rightarrow> nat" where
  "leading_zeros x = length (takeWhile (\<lambda>i. \<not> bit x i) (rev [0..<LENGTH('a)]))"

definition count_ones :: "'a::len word \<Rightarrow> nat" where
  "count_ones x = length (filter (bit x) [0..<LENGTH('a)])"

text \<open>\<open>swap_bytes_n n x\<close> reverses the order of the low \<open>n\<close> bytes of \<open>x\<close> (the \<open>swap_bytes\<close> of an
  \<open>8 * n\<close> bit integer).\<close>

definition swap_bytes_n :: "nat \<Rightarrow> 'a::len word \<Rightarrow> 'a word" where
  "swap_bytes_n n x =
     foldr (\<lambda>i acc. push_bit (8 * (n - 1 - i)) (take_bit 8 (drop_bit (8 * i) x)) OR acc) [0..<n] 0"

text \<open>Rust's \<open>true as u128\<close>.\<close>

abbreviation of_bool_word :: "bool \<Rightarrow> 'a::len word" where
  "of_bool_word b \<equiv> of_bool b"

section \<open>Facts about bits\<close>

lemma word_eq_bits [bits]:
  fixes x y :: "'a::len word"
  shows "x = y \<longleftrightarrow> (\<forall>i < LENGTH('a). bit x i = bit y i)"
  by (auto intro: bit_word_eqI)

lemma bit_high_False: "LENGTH('a) \<le> i \<Longrightarrow> \<not> bit (x :: 'a::len word) i"
  by (meson bit_imp_le_length not_less)

lemma bit_test: "(x :: 'a::len word) AND push_bit n 1 \<noteq> 0 \<longleftrightarrow> bit x n"
  by (simp add: push_bit_of_1 and_exp_eq_0_iff_not_bit)

lemma bit_and_1: "drop_bit i x AND 1 \<noteq> 0 \<longleftrightarrow> bit x i" for x :: "'a::len word"
  using bit_test [of "drop_bit i x" 0] by (simp add: bit_drop_bit_eq)

lemma ucast_up_down [simp]:
  "LENGTH('a) \<le> LENGTH('b) \<Longrightarrow> ucast (ucast (x :: 'a::len word) :: 'b::len word) = x"
  by (rule bit_word_eqI) (simp add: bit_simps)

lemma ucast_down_up: "ucast (ucast (v :: 'b::len word) :: 'a::len word) = take_bit LENGTH('a) v"
  by (auto simp: bits bit_simps)

lemma take_bit_ucast [simp]:
  "LENGTH('a) \<le> n \<Longrightarrow> take_bit n (ucast (x :: 'a::len word) :: 'b::len word) = ucast x"
  by (auto simp: bits bit_simps dest: bit_imp_le_length)

lemma take_bit_full [simp]: "LENGTH('a) \<le> n \<Longrightarrow> take_bit n (x :: 'a::len word) = x"
  by (rule take_bit_word_eq_self)

lemma takeWhile_upt_ge:
  "n \<le> length (takeWhile P [0..<m]) \<longleftrightarrow> n \<le> m \<and> (\<forall>i < n. P i)"
proof (induction m)
  case 0
  then show ?case by auto
next
  case (Suc m)
  show ?case
  proof (cases "\<forall>i < m. P i")
    case True
    then have "takeWhile P [0..<m] = [0..<m]"
      by (auto simp: takeWhile_eq_all_conv)
    then have "takeWhile P [0..<Suc m] = [0..<m] @ (if P m then [m] else [])"
      by (auto simp: takeWhile_append)
    then show ?thesis using True by (auto simp: less_Suc_eq le_Suc_eq)
  next
    case False
    then have "takeWhile P [0..<Suc m] = takeWhile P [0..<m]"
      by (auto simp: takeWhile_append1)
    moreover have "\<not> (\<forall>i < n. P i)" if "n = Suc m"
      using False that less_SucI by blast
    ultimately show ?thesis using Suc by (auto simp: le_Suc_eq)
  qed
qed

lemma trailing_ones_ge:
  fixes x :: "'a::len word"
  shows "n \<le> trailing_ones x \<longleftrightarrow> n \<le> LENGTH('a) \<and> (\<forall>i < n. bit x i)"
  by (simp add: trailing_ones_def takeWhile_upt_ge)

lemma trailing_zeros_ge:
  fixes x :: "'a::len word"
  shows "n \<le> trailing_zeros x \<longleftrightarrow> n \<le> LENGTH('a) \<and> (\<forall>i < n. \<not> bit x i)"
  by (simp add: trailing_zeros_def takeWhile_upt_ge)

lemma trailing_ones_le: "trailing_ones (x :: 'a::len word) \<le> LENGTH('a)"
  using trailing_ones_ge [of "trailing_ones x" x] by simp

lemma trailing_zeros_le: "trailing_zeros (x :: 'a::len word) \<le> LENGTH('a)"
  using trailing_zeros_ge [of "trailing_zeros x" x] by simp

lemma takeWhile_rev_upt_ge:
  "n \<le> length (takeWhile P (rev [0..<m])) \<longleftrightarrow> n \<le> m \<and> (\<forall>i < n. P (m - 1 - i))"
proof (induction m arbitrary: n)
  case 0
  then show ?case by auto
next
  case (Suc m)
  show ?case
  proof (cases n)
    case (Suc k)
    have shift: "(\<forall>i < Suc k. P (m - i)) \<longleftrightarrow> P m \<and> (\<forall>i < k. P (m - 1 - i))"
      by (metis One_nat_def diff_diff_left diff_zero less_Suc_eq_0_disj plus_1_eq_Suc)
    show ?thesis using Suc Suc.IH [of k] shift by auto
  qed simp
qed

lemma leading_zeros_ge:
  fixes x :: "'a::len word"
  shows "n \<le> leading_zeros x \<longleftrightarrow> n \<le> LENGTH('a) \<and> (\<forall>i < n. \<not> bit x (LENGTH('a) - 1 - i))"
  by (simp add: leading_zeros_def takeWhile_rev_upt_ge)

lemma leading_zeros_le: "leading_zeros (x :: 'a::len word) \<le> LENGTH('a)"
  using leading_zeros_ge [of "leading_zeros x" x] by simp

lemma leading_zeros_clear:
  fixes x :: "'a::len word"
  assumes "LENGTH('a) - leading_zeros x \<le> i"
  shows "\<not> bit x i"
proof (cases "i < LENGTH('a)")
  case True
  let ?j = "LENGTH('a) - 1 - i"
  have "?j < leading_zeros x" using assms True leading_zeros_le [of x] by linarith
  then have "\<not> bit x (LENGTH('a) - 1 - ?j)"
    using leading_zeros_ge [of "leading_zeros x" x] by simp
  then show ?thesis using True by simp
qed (simp add: bit_high_False)

text \<open>A word whose ones are all at the bottom is a mask (the test \<open>c.trailing_ones() +
  c.leading_zeros() == 128\<close> of the source).\<close>

lemma low_ones_mask:
  fixes x :: "'a::len word"
  assumes "trailing_ones x + leading_zeros x = LENGTH('a)"
  shows "x = mask (trailing_ones x)"
proof (rule bit_word_eqI)
  fix i assume i: "i < LENGTH('a)"
  show "bit x i = bit (mask (trailing_ones x) :: 'a word) i"
  proof (cases "i < trailing_ones x")
    case True
    then show ?thesis
      using trailing_ones_ge [of "trailing_ones x" x] i by (simp add: bit_mask_iff)
  next
    case False
    then show ?thesis
      using leading_zeros_clear [of x i] assms by (simp add: bit_mask_iff)
  qed
qed

lemma count_ones_mask:
  fixes x :: "'a::len word"
  assumes sub: "x AND mask n = x" and n: "n \<le> LENGTH('a)" and c: "count_ones x = n"
  shows "x = mask n"
proof -
  let ?S = "{i. i < LENGTH('a) \<and> bit x i}"
  have "?S \<subseteq> {..<n}"
    using sub by (auto simp: bits bit_and_iff bit_mask_iff)
  moreover have "card ?S = n"
    using c by (simp add: count_ones_def length_filter_conv_card cong: conj_cong)
  ultimately have "?S = {..<n}"
    by (metis card_lessThan card_subset_eq finite_lessThan)
  then show ?thesis using n by (auto simp: bits bit_mask_iff)
qed

lemma count_ones_0: "count_ones (x :: 'a::len word) = 0 \<longleftrightarrow> x = 0"
  by (auto simp: count_ones_def filter_empty_conv bits)

section \<open>Interfaces shared by the components\<close>

text \<open>A machine with operations (the events) that may panic (\<open>None\<close>), and an invariant that every
  operation keeps. A run stops at the first panic.\<close>

fun run :: "('s \<Rightarrow> 'e \<Rightarrow> 's option) \<Rightarrow> 's \<Rightarrow> 'e list \<Rightarrow> 's option" where
  "run step s [] = Some s"
| "run step s (e # es) = (case step s e of None \<Rightarrow> None | Some s' \<Rightarrow> run step s' es)"

locale invariant_machine =
  fixes step :: "'s \<Rightarrow> 'e \<Rightarrow> 's option" and inv :: "'s \<Rightarrow> bool"
  assumes step_inv: "inv s \<Longrightarrow> step s e = Some s' \<Longrightarrow> inv s'"
begin

lemma run_inv: "inv s \<Longrightarrow> run step s es = Some s' \<Longrightarrow> inv s'"
  by (induction es arbitrary: s) (auto split: option.splits dest: step_inv)

end

text \<open>The events that \<open>ok\<close> admits never panic on the states the invariant describes.\<close>

locale total_machine = invariant_machine +
  fixes ok :: "'e \<Rightarrow> bool"
  assumes step_total: "inv s \<Longrightarrow> ok e \<Longrightarrow> \<exists>s'. step s e = Some s'"
begin

lemma run_total: "inv s \<Longrightarrow> \<forall>e \<in> set es. ok e \<Longrightarrow> \<exists>s'. run step s es = Some s' \<and> inv s'"
proof (induction es arbitrary: s)
  case (Cons e es)
  then obtain s' where s': "step s e = Some s'" using step_total by fastforce
  with Cons.prems have "inv s'" using step_inv by blast
  with Cons.IH Cons.prems s' show ?case by simp
qed simp

end

text \<open>A machine whose steps implement the steps of an abstract one, as long as the abstract machine
  admits them.\<close>

fun admitted :: "('a \<Rightarrow> 'e \<Rightarrow> 'a) \<Rightarrow> ('a \<Rightarrow> 'e \<Rightarrow> bool) \<Rightarrow> 'a \<Rightarrow> 'e list \<Rightarrow> bool" where
  "admitted astep ok a [] = True"
| "admitted astep ok a (e # es) = (ok a e \<and> admitted astep ok (astep a e) es)"

locale refined_machine =
  fixes step :: "'s \<Rightarrow> 'e \<Rightarrow> 's option" and inv :: "'s \<Rightarrow> bool" and abs :: "'s \<Rightarrow> 'a"
    and astep :: "'a \<Rightarrow> 'e \<Rightarrow> 'a" and ok :: "'a \<Rightarrow> 'e \<Rightarrow> bool"
  assumes step_refines: "inv s \<Longrightarrow> ok (abs s) e \<Longrightarrow> \<exists>s'. step s e = Some s' \<and> inv s' \<and> abs s' = astep (abs s) e"
begin

lemma run_refines:
  "inv s \<Longrightarrow> admitted astep ok (abs s) es \<Longrightarrow>
     \<exists>s'. run step s es = Some s' \<and> inv s' \<and> abs s' = foldl astep (abs s) es"
proof (induction es arbitrary: s)
  case (Cons e es)
  then obtain s1 where s1: "step s e = Some s1" "inv s1" "abs s1 = astep (abs s) e"
    using step_refines [of s e] by auto
  with Cons.IH [of s1] Cons.prems(2) show ?case by auto
qed simp

end

text \<open>A device that is saved and restored: \<open>restore\<close> overwrites a device of the same machine with
  a snapshot. \<open>view\<close> is what the guest-visible operations depend on, and \<open>compat\<close> says when the
  target of the restore is a fresh enough device.\<close>

locale snapshot_device =
  fixes snapshot :: "'s \<Rightarrow> 'z" and restore :: "'s \<Rightarrow> 'z \<Rightarrow> 's"
    and view :: "'s \<Rightarrow> 'v" and compat :: "'s \<Rightarrow> 's \<Rightarrow> bool"
  assumes restore_view: "compat t s \<Longrightarrow> view (restore t (snapshot s)) = view s"
    and snapshot_view: "view s = view t \<Longrightarrow> snapshot s = snapshot t"
begin

lemma snapshot_restore: "compat t s \<Longrightarrow> snapshot (restore t (snapshot s)) = snapshot s"
  by (rule snapshot_view) (rule restore_view)

end

text \<open>The same for a restore that may panic. A total restore is a restore that never does.\<close>

locale fallible_snapshot_device =
  fixes snapshot :: "'s \<Rightarrow> 'z" and restore :: "'s \<Rightarrow> 'z \<Rightarrow> 's option"
    and view :: "'s \<Rightarrow> 'v" and compat :: "'s \<Rightarrow> 's \<Rightarrow> bool"
  assumes restore_view: "compat t s \<Longrightarrow> \<exists>t'. restore t (snapshot s) = Some t' \<and> view t' = view s"
    and snapshot_view: "view s = view t \<Longrightarrow> snapshot s = snapshot t"
begin

lemma snapshot_restore: "compat t s \<Longrightarrow> map_option snapshot (restore t (snapshot s)) = Some (snapshot s)"
proof -
  assume "compat t s"
  then obtain t' where t': "restore t (snapshot s) = Some t'" "view t' = view s" using restore_view by blast
  then show ?thesis using snapshot_view [OF t'(2)] by simp
qed

end

sublocale snapshot_device \<subseteq> fallible: fallible_snapshot_device snapshot "\<lambda>t z. Some (restore t z)" view compat
  by unfold_locales (simp add: restore_view, rule snapshot_view)

text \<open>A set of indices that is stored in bits: three containers of the program have these operations,
  which also tell whether they changed anything. \<open>fits s i\<close> says that the index has a place.\<close>

datatype SetOp = Put nat | Take nat

fun op_index :: "SetOp \<Rightarrow> nat" where
  "op_index (Put i) = i"
| "op_index (Take i) = i"

fun exec_ops :: "('s \<Rightarrow> nat \<Rightarrow> ('s \<times> bool) option) \<Rightarrow> ('s \<Rightarrow> nat \<Rightarrow> ('s \<times> bool) option) \<Rightarrow> 's \<Rightarrow> SetOp list
    \<Rightarrow> ('s \<times> bool list) option" where
  "exec_ops put del s [] = Some (s, [])"
| "exec_ops put del s (p # ps) =
     (case (case p of Put i \<Rightarrow> put s i | Take i \<Rightarrow> del s i) of
        None \<Rightarrow> None
      | Some (s', b) \<Rightarrow> map_option (\<lambda>(t, bs). (t, b # bs)) (exec_ops put del s' ps))"

text \<open>The same on a mathematical set.\<close>

fun set_ops :: "nat set \<Rightarrow> SetOp list \<Rightarrow> nat set \<times> bool list" where
  "set_ops A [] = (A, [])"
| "set_ops A (Put i # ps) = (let (B, bs) = set_ops (insert i A) ps in (B, (i \<notin> A) # bs))"
| "set_ops A (Take i # ps) = (let (B, bs) = set_ops (A - {i}) ps in (B, (i \<in> A) # bs))"

locale bit_container =
  fixes get :: "'s \<Rightarrow> nat \<Rightarrow> bool option"
    and put :: "'s \<Rightarrow> nat \<Rightarrow> ('s \<times> bool) option" and del :: "'s \<Rightarrow> nat \<Rightarrow> ('s \<times> bool) option"
    and members :: "'s \<Rightarrow> nat set" and wf :: "'s \<Rightarrow> bool" and fits :: "nat \<Rightarrow> bool"
  assumes get_member: "wf s \<Longrightarrow> fits i \<Longrightarrow> get s i = Some (i \<in> members s)"
    and put_member: "wf s \<Longrightarrow> fits i \<Longrightarrow>
      \<exists>s'. put s i = Some (s', i \<notin> members s) \<and> wf s' \<and> members s' = insert i (members s)"
    and del_member: "wf s \<Longrightarrow> fits i \<Longrightarrow>
      \<exists>s'. del s i = Some (s', i \<in> members s) \<and> wf s' \<and> members s' = members s - {i}"
begin

lemma exec_ops_refines:
  "wf s \<Longrightarrow> \<forall>p \<in> set ops. fits (op_index p) \<Longrightarrow>
     \<exists>s' bs. exec_ops put del s ops = Some (s', bs) \<and> wf s' \<and> set_ops (members s) ops = (members s', bs)"
proof (induction ops arbitrary: s)
  case (Cons p ps)
  from Cons.prems have fit: "fits (op_index p)" by simp
  show ?case
  proof (cases p)
    case (Put i)
    with put_member [OF Cons.prems(1)] fit obtain s1 where
      s1: "put s i = Some (s1, i \<notin> members s)" "wf s1" "members s1 = insert i (members s)" by auto
    with Cons.IH [of s1] Cons.prems(2) Put show ?thesis by auto
  next
    case (Take i)
    with del_member [OF Cons.prems(1)] fit obtain s1 where
      s1: "del s i = Some (s1, i \<in> members s)" "wf s1" "members s1 = members s - {i}" by auto
    with Cons.IH [of s1] Cons.prems(2) Take show ?thesis by auto
  qed
qed simp

end

end
