(* ===== verification/IL_Ops.thy ===== *)
theory IL_Ops
  imports Prelude
begin

text \<open>
  The operators of the intermediate language (\<open>sem86-core/src/il/mod.rs\<close>): integer operators on
  128-bit values with their execution, the conversion applied when an operand is read, the
  precision reduction of 80-bit floats, and the data sizes of \<open>codegen/mod.rs\<close> and byte ranges of
  \<open>liblisa/src/state/locs.rs\<close>. The other floating-point operators are thin wrappers around the
  SoftFloat C library; they appear here by name only and are parameters of the evaluators.
\<close>

section \<open>Binary operators\<close>

datatype BinOp = Add | Sub | Mul | Xor | Or | And | Shl | Shr | Rol u8 | Ror u8 | Sar u8
  | Div | Mod | SignedMod64 | CmpGt | CmpLt | CmpEq | SignedDiv64

fun is_commutative :: "BinOp \<Rightarrow> bool" where
  "is_commutative Add = True"
| "is_commutative Mul = True"
| "is_commutative Xor = True"
| "is_commutative Or = True"
| "is_commutative And = True"
| "is_commutative _ = False"

text \<open>\<open>y as u32\<close> for a 128-bit value, as the number of positions of a shift.\<close>

definition as_u32 :: "u128 \<Rightarrow> nat" where
  "as_u32 y = unat (ucast y :: u32)"

text \<open>\<open>checked_rem\<close> and \<open>checked_div\<close> on \<open>i64\<close>, with \<open>None\<close> (division by zero or overflow) read as 0.\<close>

definition i64_checked :: "(int \<Rightarrow> int \<Rightarrow> int) \<Rightarrow> u128 \<Rightarrow> u128 \<Rightarrow> u128" where
  "i64_checked f x y =
     (let a = sint (ucast x :: u64); b = sint (ucast y :: u64)
      in if b = 0 \<or> (a = - (2 ^ 63) \<and> b = - 1) then 0
         else ucast (word_of_int (f a b) :: u64))"

definition sar_execute :: "u64 \<Rightarrow> u128 \<Rightarrow> u128" where
  "sar_execute x y = scast (signed_drop_bit (as_u32 y mod 64) x)"

text \<open>\<open>None\<close> is a panic: a rotation of width 0 (a remainder by zero) or an arithmetic shift of a
  width other than 1, 2 or 4 bytes (\<open>unreachable!\<close>).\<close>

fun binop_execute :: "BinOp \<Rightarrow> u128 \<Rightarrow> u128 \<Rightarrow> u128 option" where
  "binop_execute Add x y = Some (x + y)"
| "binop_execute Sub x y = Some (x - y)"
| "binop_execute Mul x y = Some (x * y)"
| "binop_execute Xor x y = Some (x XOR y)"
| "binop_execute Or x y = Some (x OR y)"
| "binop_execute And x y = Some (x AND y)"
| "binop_execute Shl x y = Some (wrapping_shl x (as_u32 y))"
| "binop_execute Shr x y = Some (wrapping_shr x (as_u32 y))"
| "binop_execute (Rol num_bits) x y =
     (if num_bits = 0 then None
      else let k = as_u32 y mod unat num_bits
           in Some (wrapping_shl x k OR wrapping_shr x (unat num_bits - k)))"
| "binop_execute (Ror num_bits) x y =
     (if num_bits = 0 then None
      else let k = as_u32 y mod unat num_bits
           in Some (wrapping_shr x k OR wrapping_shl x (unat num_bits - k)))"
| "binop_execute (Sar num_bytes) x y =
     (if num_bytes = 1 then Some (sar_execute (scast (ucast x :: u8)) y)
      else if num_bytes = 2 then Some (sar_execute (scast (ucast x :: u16)) y)
      else if num_bytes = 4 then Some (sar_execute (scast (ucast x :: u32)) y)
      else None)"
| "binop_execute Div x y = Some (if y = 0 then 0 else x div y)"
| "binop_execute Mod x y = Some (if y = 0 then 0 else x mod y)"
| "binop_execute SignedMod64 x y = Some (i64_checked (\<lambda>a b. a smod b) x y)"
| "binop_execute CmpGt x y = Some (of_bool (x > y))"
| "binop_execute CmpLt x y = Some (of_bool (x < y))"
| "binop_execute CmpEq x y = Some (of_bool (x = y))"
| "binop_execute SignedDiv64 x y = Some (i64_checked (\<lambda>a b. a sdiv b) x y)"

text \<open>The operators whose execution never panics.\<close>

fun binop_valid :: "BinOp \<Rightarrow> bool" where
  "binop_valid (Rol n) = (n \<noteq> 0)"
| "binop_valid (Ror n) = (n \<noteq> 0)"
| "binop_valid (Sar n) = (n = 1 \<or> n = 2 \<or> n = 4)"
| "binop_valid _ = True"

section \<open>Unary operators\<close>

datatype UnOp = Id | ByteSwap16 | ByteSwap32 | ByteSwap64 | IsZero | SelectBit u8 | SignExtend u8
  | Parity | TrailingZeros | HighestBitSet

fun unop_execute :: "UnOp \<Rightarrow> u128 \<Rightarrow> u128" where
  "unop_execute Id s = s"
| "unop_execute ByteSwap16 s = ucast (swap_bytes_n 2 (ucast s :: u16))"
| "unop_execute ByteSwap32 s = ucast (swap_bytes_n 4 (ucast s :: u32))"
| "unop_execute ByteSwap64 s = ucast (swap_bytes_n 8 (ucast s :: u64))"
| "unop_execute IsZero s = of_bool (s = 0)"
| "unop_execute (SelectBit n) s = wrapping_shr s (unat n) AND 1"
| "unop_execute (SignExtend n) s =
     (let k = unat (128 - n) mod 128 in signed_drop_bit k (push_bit k s))"
| "unop_execute Parity s = word_of_nat (count_ones (s AND 0xff) + 1) AND 1"
| "unop_execute TrailingZeros s = word_of_nat (trailing_zeros s)"
| "unop_execute HighestBitSet s = 127 - word_of_nat (leading_zeros s)"

section \<open>Floating-point operators\<close>

datatype FpBinOp = F80Add | F80Sub | F80Mul | F80Div | F80Rem | F80CmpLt | F80CmpEq | F80Scale

datatype FpUnOp = F32ToF80 | F64ToF80 | F80ToF64 | F80ToF32 | F80ToF64IsPrecise
  | F80ToF32IsPrecise | I64ToF32 | I64ToF64 | I64ToF80 | F80ToI64 | RoundToIntF80 | SinF80
  | CosF80 | TanF80 | SqrtF80 | F2Xm1F80 | RoundF80ToF32 | RoundF80ToF64 | Log2F80 | ArcTanF80

datatype RoundingControl = ToNearest | Down | Up | TowardsZero

definition SOFTFLOAT_FLAG_ROUNDED_UP :: u128 where
  "SOFTFLOAT_FLAG_ROUNDED_UP = 16"

definition reduce_f80_precision :: "nat \<Rightarrow> u128 \<Rightarrow> RoundingControl \<Rightarrow> u128" where
  "reduce_f80_precision BITS val rc =
     (let round_mask = mask BITS;
          round_max = push_bit BITS 1;
          round_bits = val AND round_mask;
          is_negative = bit val 79;
          lsb_kept = bit val BITS;
          round_up =
            (case rc of
               ToNearest \<Rightarrow> (if round_bits > round_max div 2 then True
                             else if round_bits < round_max div 2 then False
                             else lsb_kept)
             | Down \<Rightarrow> is_negative
             | Up \<Rightarrow> \<not> is_negative
             | TowardsZero \<Rightarrow> False)
      in if round_up
         then ((val + round_mask) AND NOT round_mask) OR 0x8000000000000000
                OR push_bit 120 SOFTFLOAT_FLAG_ROUNDED_UP
         else val AND NOT round_mask)"

section \<open>Conversion of an operand\<close>

text \<open>\<open>Val::apply_conversion\<close>: byte swap, then sign extension from \<open>source_bits\<close>, then truncation to
  \<open>target_bits\<close>. \<open>None\<close> is the \<open>todo!\<close> for swaps wider than 64 bits.\<close>

definition conv_swap :: "u128 \<Rightarrow> u8 \<Rightarrow> u128 option" where
  "conv_swap v source_bits =
     (if source_bits = 8 then Some v
      else if source_bits = 16 then Some (ucast (swap_bytes_n 2 (ucast v :: u16)))
      else if source_bits = 32 then Some (ucast (swap_bytes_n 4 (ucast v :: u32)))
      else if source_bits \<le> 64
        then Some (wrapping_shr (swap_bytes_n 16 v) (unat (((64 - source_bits) div 8) * 8)))
      else None)"

definition conv_sign_extend :: "u128 \<Rightarrow> u8 \<Rightarrow> u128" where
  "conv_sign_extend v source_bits =
     (let s = unat (64 - source_bits) mod 64
      in scast (signed_drop_bit s (push_bit s (ucast v :: u64))))"

definition apply_conversion :: "u128 \<Rightarrow> u8 \<Rightarrow> bool \<Rightarrow> bool \<Rightarrow> u8 \<Rightarrow> u128 option" where
  "apply_conversion v source_bits sign_extend swap_endianness target_bits =
     (case (if swap_endianness then conv_swap v source_bits else Some v) of
        None \<Rightarrow> None
      | Some v1 \<Rightarrow>
          let v2 = (if sign_extend then conv_sign_extend v1 source_bits else v1)
          in Some (v2 AND NOT (if unat target_bits < 128 then push_bit (unat target_bits) (- 1)
                               else 0)))"

section \<open>Data sizes and byte ranges\<close>

datatype Ptr = CpuState | K

datatype DataSize = Byte | Word | Dword | Qword | F80 | Oword

fun ds_num_bytes :: "DataSize \<Rightarrow> nat" where
  "ds_num_bytes Byte = 1"
| "ds_num_bytes Word = 2"
| "ds_num_bytes Dword = 4"
| "ds_num_bytes Qword = 8"
| "ds_num_bytes F80 = 10"
| "ds_num_bytes Oword = 16"

definition ds_num_bits :: "DataSize \<Rightarrow> nat" where
  "ds_num_bits s = ds_num_bytes s * 8"

definition try_from_bits :: "nat \<Rightarrow> DataSize option" where
  "try_from_bits bits =
     (if bits = 8 then Some Byte else if bits = 16 then Some Word else if bits = 32 then Some Dword
      else if bits = 64 then Some Qword else if bits = 80 then Some F80
      else if bits = 128 then Some Oword else None)"

definition try_from_bytes :: "nat \<Rightarrow> DataSize option" where
  "try_from_bytes n = try_from_bits (n * 8)"

record Size =
  start_byte :: u16
  end_byte :: u16

definition size_num_bytes :: "Size \<Rightarrow> nat" where
  "size_num_bytes s = unat (end_byte s - start_byte s) + 1"

definition size_contains :: "Size \<Rightarrow> Size \<Rightarrow> bool" where
  "size_contains s t \<longleftrightarrow> start_byte s \<le> start_byte t \<and> end_byte t \<le> end_byte s"

definition size_overlaps :: "Size \<Rightarrow> Size \<Rightarrow> bool" where
  "size_overlaps s t \<longleftrightarrow> start_byte t \<le> end_byte s \<and> start_byte s \<le> end_byte t"

definition size_union :: "Size \<Rightarrow> Size \<Rightarrow> Size" where
  "size_union s t =
     \<lparr>start_byte = min (start_byte s) (start_byte t), end_byte = max (end_byte s) (end_byte t)\<rparr>"

section \<open>Facts about the operators\<close>

lemma binop_valid_executes: "binop_valid op \<Longrightarrow> \<exists>v. binop_execute op x y = Some v"
  by (cases op) (auto simp: Let_def)

lemma binop_invalid_panics: "\<not> binop_valid op \<Longrightarrow> binop_execute op x y = None"
  by (cases op) (auto simp: Let_def)

lemma unop_bit_bound:
  "unop_execute (SelectBit n) s AND 1 = unop_execute (SelectBit n) s"
  "unop_execute IsZero s AND 1 = unop_execute IsZero s"
  "unop_execute Parity s AND 1 = unop_execute Parity s"
  by (simp_all add: and.assoc)

lemma ds_bits_roundtrip: "try_from_bits (ds_num_bits s) = Some s"
  by (cases s) (simp_all add: try_from_bits_def ds_num_bits_def)

lemma try_from_bits_bits: "try_from_bits n = Some s \<Longrightarrow> ds_num_bits s = n"
  by (auto simp: try_from_bits_def ds_num_bits_def split: if_splits)

lemma ds_num_bits_le: "ds_num_bits s \<le> 128"
  by (cases s) (simp_all add: ds_num_bits_def)

text \<open>The mask applied at the end of a conversion keeps the low \<open>target_bits\<close> bits.\<close>

lemma conv_mask:
  "(v :: u128) AND NOT (if unat t < 128 then push_bit (unat t) (- 1) else 0) = take_bit (unat (t :: u8)) v"
  by (auto simp: bits bit_simps)

lemma bit_conv_sign_extend:
  assumes "0 < sb" "sb \<le> 64" "i < 128"
  shows "bit (conv_sign_extend v sb) i \<longleftrightarrow> bit v (min i (unat sb - 1))"
proof -
  have sb: "0 < unat sb" "unat sb \<le> 64"
    using assms by (auto simp: word_less_nat_alt word_le_nat_alt)
  have s: "unat (64 - sb) mod 64 = 64 - unat sb"
    using sb assms(2) by (simp add: unat_sub)
  let ?s = "64 - unat sb"
  have "bit (scast (signed_drop_bit ?s (push_bit ?s (ucast v :: u64))) :: u128) i
      \<longleftrightarrow> bit (signed_drop_bit ?s (push_bit ?s (ucast v :: u64))) (min i 63)"
    using assms(3) by (auto simp: bit_simps min_def not_le)
  also have "\<dots> \<longleftrightarrow> bit v (min i (unat sb - 1))"
    using sb by (cases "unat sb = 64") (auto simp: bit_simps min_def bit_signed_drop_bit_iff)
  finally show ?thesis using s by (simp add: conv_sign_extend_def Let_def)
qed

lemma byte_index: "8 * m \<le> i \<and> i - 8 * m < 8 \<longleftrightarrow> m = i div (8::nat)"
  by (rule iffI; linarith)

lemma bit_swap_bytes_n:
  fixes x :: "'a::len word"
  assumes "8 * n \<le> LENGTH('a)" "i < LENGTH('a)"
  shows "bit (swap_bytes_n n x) i \<longleftrightarrow> i < 8 * n \<and> bit x (8 * (n - 1 - i div 8) + i mod 8)"
proof -
  let ?byte = "\<lambda>j. n - 1 - j = i div 8 \<and> bit x (8 * j + (i - 8 * (n - 1 - j)))"
  have "bit (foldr (\<lambda>j a. push_bit (8 * (n - 1 - j)) (take_bit 8 (drop_bit (8 * j) x)) OR a) js 0) i
      \<longleftrightarrow> (\<exists>j \<in> set js. 8 * (n - 1 - j) \<le> i \<and> i - 8 * (n - 1 - j) < 8
             \<and> bit x (8 * j + (i - 8 * (n - 1 - j))))" for js
    using assms(2) by (induction js) (auto simp: bit_simps)
  then have swap: "bit (swap_bytes_n n x) i \<longleftrightarrow> (\<exists>j < n. ?byte j)"
    unfolding swap_bytes_n_def by (simp flip: conj_assoc add: byte_index Bex_def)
  have inv: "(n - 1 - j = i div 8) = (j = n - 1 - i div 8)" if "j < n" "i < 8 * n" for j
    using that by linarith
  have low: "i - 8 * (i div 8) = i mod 8" by (rule minus_mult_div_eq_mod)
  show ?thesis
  proof (cases "i < 8 * n")
    case True
    then have n: "n - 1 - i div 8 < n" "n - 1 - (n - 1 - i div 8) = i div 8" by linarith+
    have "(\<exists>j < n. ?byte j) \<longleftrightarrow> ?byte (n - 1 - i div 8)"
      using inv [OF _ True] n by blast
    then show ?thesis unfolding swap using True n low by simp
  next
    case False
    then have "n - 1 - j \<noteq> i div 8" if "j < n" for j using that by linarith
    then show ?thesis unfolding swap using False by blast
  qed
qed

lemma bit_swap_bytes [bits]:
  fixes x :: "'a::len word"
  assumes "8 * n \<le> LENGTH('a)"
  shows "bit (swap_bytes_n n x) i \<longleftrightarrow> i < 8 * n \<and> bit x (8 * (n - 1 - i div 8) + i mod 8)"
  using bit_swap_bytes_n [OF assms] assms bit_high_False [of i "swap_bytes_n n x"]
  by (cases "i < LENGTH('a)") auto

lemma swap_bytes_twice:
  fixes x :: "'a::len word"
  assumes "8 * n = LENGTH('a)"
  shows "swap_bytes_n n (swap_bytes_n n x) = x"
proof (rule bit_word_eqI)
  fix i assume "i < LENGTH('a)"
  then have "i div 8 < n" using assms by linarith
  moreover from this have "(8 * (n - 1 - i div 8) + i mod 8) div 8 = n - 1 - i div 8"
    "n - 1 - (n - 1 - i div 8) = i div 8" "8 * (n - 1 - i div 8) + i mod 8 < 8 * n"
    by linarith+
  ultimately show "bit (swap_bytes_n n (swap_bytes_n n x)) i = bit x i"
    using \<open>i < LENGTH('a)\<close> assms by (simp add: bit_swap_bytes)
qed

lemma swap_bytes_16_high:
  fixes v :: u128
  assumes "take_bit 64 v = v" "i < 64"
  shows "\<not> bit (swap_bytes_n 16 v) i"
proof -
  have "i div 8 \<le> 7" using assms(2) by linarith
  then have "64 \<le> 8 * (15 - i div 8) + i mod 8" by linarith
  then have "\<not> bit (take_bit 64 v) (8 * (15 - i div 8) + i mod 8)" by (simp add: bit_take_bit_iff)
  then show ?thesis using assms(1) by (simp add: bit_swap_bytes)
qed

section \<open>Properties\<close>

text \<open>C2: An operand read through a sign-extending conversion (no byte swap, between 1 and 64 source
  bits) is the low \<open>source_bits\<close> bits of the value with the top one of them repeated, cut to
  \<open>target_bits\<close> bits; the conversion never panics on these arguments.\<close>

theorem apply_conversion_sign_extends:
  assumes "0 < sb" "sb \<le> 64"
  shows "\<exists>r. apply_conversion v sb True False tb = Some r
           \<and> (\<forall>i < 128. bit r i \<longleftrightarrow> i < unat tb \<and> bit v (min i (unat sb - 1)))"
  using bit_conv_sign_extend [OF assms]
  by (auto simp: apply_conversion_def conv_mask bit_simps)

theorem apply_conversion_sign_extends_witness:
  "\<exists>r. apply_conversion 0x80 8 True False 32 = Some r
     \<and> (\<forall>i < 128. bit r i \<longleftrightarrow> i < 32 \<and> bit (0x80 :: u128) (min i 7))"
  using apply_conversion_sign_extends [of 8 "0x80" 32] by simp

text \<open>Swapping the bytes of an 8, 16 or 32 bit operand twice gives back the operand truncated to
  its width: the byte swaps of these widths are lossless and never panic.\<close>

lemma apply_conversion_swap_roundtrip:
  assumes "sb \<in> {8, 16, 32}"
  shows "\<exists>w. apply_conversion v sb False True sb = Some w
           \<and> apply_conversion w sb False True sb = Some (take_bit (unat sb) v)"
  using assms
  by (auto simp: apply_conversion_def conv_mask conv_swap_def swap_bytes_twice ucast_down_up
      simp flip: take_bit_eq_mask)

text \<open>The byte swap of a 64-bit operand loses the operand: the source reverses all 16 bytes of
  the 128-bit carrier and shifts by \<open>64 - 64\<close>, so every 64-bit value is converted to 0 (while the
  operator \<open>ByteSwap64\<close> reverses the eight bytes).\<close>

lemma apply_conversion_swap64_is_zero:
  assumes "take_bit 64 v = v"
  shows "apply_conversion v 64 se True 64 = Some 0
       \<and> unop_execute ByteSwap64 (unop_execute ByteSwap64 v) = v"
proof -
  have low: "take_bit 64 (swap_bytes_n 16 v) = 0" "ucast (swap_bytes_n 16 v) = (0 :: u64)"
    using swap_bytes_16_high [OF assms] by (auto simp: bits bit_simps)
  have "unop_execute ByteSwap64 (unop_execute ByteSwap64 v) = v"
    using assms by (simp add: swap_bytes_twice ucast_down_up)
  moreover have "conv_sign_extend (swap_bytes_n 16 v) 64 = 0"
    using low by (simp add: conv_sign_extend_def)
  ultimately show ?thesis
    using low by (simp add: apply_conversion_def conv_mask conv_swap_def wrapping_shr_def
        flip: take_bit_eq_mask)
qed

text \<open>The operators the source calls commutative really are: exchanging their operands never
  changes the result of executing them.\<close>

lemma is_commutative_sound:
  assumes "is_commutative op"
  shows "binop_execute op x y = binop_execute op y x"
  using assms by (cases op) (simp_all add: ac_simps)

lemma rotate_index: "k < n \<Longrightarrow> i < n \<Longrightarrow> ((i + k) mod n + n - k) mod n = (i :: nat)"
proof (cases "i + k < n")
  case False
  assume "k < n" "i < n"
  with False have "(i + k) mod n = i + k - n" by (simp add: mod_if)
  with False \<open>i < n\<close> show ?thesis by simp
qed simp

lemma rol_bit:
  assumes n: "0 < n" "n < 128" and x: "take_bit n x = (x :: u128)" and k: "k < n" and i: "i < n"
  shows "bit (wrapping_shl x k OR wrapping_shr x (n - k)) i \<longleftrightarrow> bit x ((i + n - k) mod n)"
proof (cases "k \<le> i")
  case True
  have "\<not> i + (n - k) < n" using True k by linarith
  then have "\<not> bit (take_bit n x) (i + (n - k))" by (simp only: bit_take_bit_iff simp_thms)
  moreover have "(i + n - k) mod n = i - k" using True i k by (simp add: mod_if)
  ultimately show ?thesis
    using True n k i x by (simp add: wrapping_shl_def wrapping_shr_def bit_simps add.commute)
next
  case False
  then have "(i + n - k) mod n = i + (n - k)" using k i by simp
  with False show ?thesis
    using n k i by (simp add: wrapping_shl_def wrapping_shr_def bit_simps add.commute)
qed

lemma ror_bit:
  assumes n: "0 < n" "n < 128" and x: "take_bit n x = (x :: u128)" and k: "k < n" and i: "i < n"
  shows "bit (wrapping_shr x k OR wrapping_shl x (n - k)) i \<longleftrightarrow> bit x ((i + k) mod n)"
proof (cases "i + k < n")
  case True
  then have "\<not> n - k \<le> i" by simp
  with True show ?thesis
    using n k i by (cases k) (simp_all add: wrapping_shl_def wrapping_shr_def bit_simps add.commute)
next
  case False
  then have "\<not> bit (take_bit n x) (i + k)" by (simp add: bit_take_bit_iff)
  moreover have "(i + k) mod n = i - (n - k)" "n - k \<le> i" using False i k by (auto simp: mod_if)
  ultimately show ?thesis
    using False n k i x by (cases k) (simp_all add: wrapping_shl_def wrapping_shr_def bit_simps add.commute)
qed

text \<open>The documentation crops the count to 64 bits, the code to 32. The two agree for counts below
  \<open>2 ^ 32\<close>, and for widths that divide it.\<close>

lemma rotate_count:
  assumes "unat n dvd 2 ^ 32 \<or> unat y < 2 ^ 32"
  shows "as_u32 y mod unat (n :: u8) = unat y mod 2 ^ 64 mod unat n"
proof -
  have "as_u32 y = unat y mod 2 ^ 32" by (simp add: as_u32_def unsigned_ucast_eq take_bit_nat_def)
  moreover have "unat y mod 2 ^ 32 mod unat n = unat y mod 2 ^ 64 mod unat n" if "unat n dvd 2 ^ 32"
  proof -
    have "unat n dvd 2 ^ 64" using dvd_trans [OF that, of "2 ^ 64"] by (simp add: le_imp_power_dvd)
    then show ?thesis using that by (simp only: mod_mod_cancel)
  qed
  moreover have "unat y mod 2 ^ 32 = unat y \<and> unat y mod 2 ^ 64 = unat y" if "unat y < 2 ^ 32"
  proof -
    have "(2 ^ 32 :: nat) \<le> 2 ^ 64" by (rule power_increasing) simp_all
    then show ?thesis using that less_le_trans by (metis mod_less)
  qed
  ultimately show ?thesis using assms by auto
qed

text \<open>For the widths 9, 17, 33 and 65 of the rotations through carry they can differ.\<close>

lemma rotate_count_diverges: "as_u32 (2 ^ 32) mod 9 = 0 \<and> unat (2 ^ 32 :: u128) mod 2 ^ 64 mod 9 = 4"
  by (simp add: as_u32_def)

text \<open>C1: For a value that fits in \<open>n\<close> bits, \<open>Rol n\<close> leaves in the low \<open>n\<close> bits of its result the value
  rotated left by \<open>k\<close>, \<open>Ror n\<close> the value rotated right by \<open>k\<close>, and rotating right what was rotated left
  gives the value back. Here \<open>k\<close> is the count modulo \<open>2 ^ 32\<close> modulo \<open>n\<close>. The documentation of the two
  operators crops the count to 64 bits instead: \<open>k\<close> is that documented count when \<open>n\<close> divides
  \<open>2 ^ 32\<close> (the widths 8, 16 and 32), and for any other width when the count is below \<open>2 ^ 32\<close>.\<close>

theorem rotate_spec:
  assumes n: "0 < n" "n < 128" and x: "take_bit (unat n) x = x" and k: "k = unat y mod 2 ^ 32 mod unat n"
  shows "\<exists>r q h. binop_execute (Rol n) x y = Some r \<and> binop_execute (Ror n) x y = Some q
     \<and> binop_execute (Ror n) (take_bit (unat n) r) y = Some h
     \<and> (\<forall>i < unat n. bit r i = bit x ((i + unat n - k) mod unat n) \<and> bit q i = bit x ((i + k) mod unat n) \<and> bit h i = bit x i)
     \<and> (unat n dvd 2 ^ 32 \<or> unat y < 2 ^ 32 \<longrightarrow> k = unat y mod 2 ^ 64 mod unat n)"
proof -
  let ?n = "unat n"
  have k': "as_u32 y mod ?n = k" by (simp add: k as_u32_def unsigned_ucast_eq take_bit_nat_def)
  have n': "0 < ?n" "?n < 128" "k < ?n" using n by (auto simp: word_less_nat_alt k)
  define r where "r = wrapping_shl x k OR wrapping_shr x (?n - k)"
  define q where "q = wrapping_shr x k OR wrapping_shl x (?n - k)"
  define h where "h = wrapping_shr (take_bit ?n r) k OR wrapping_shl (take_bit ?n r) (?n - k)"
  have r: "bit r j = bit x ((j + ?n - k) mod ?n)" if "j < ?n" for j
    unfolding r_def by (rule rol_bit [OF n'(1,2) x n'(3) that])
  have q: "bit q j = bit x ((j + k) mod ?n)" if "j < ?n" for j
    unfolding q_def by (rule ror_bit [OF n'(1,2) x n'(3) that])
  have h: "bit h j = bit x j" if "j < ?n" for j
  proof -
    have "bit h j = bit (take_bit ?n r) ((j + k) mod ?n)"
      unfolding h_def by (rule ror_bit [OF n'(1,2) _ n'(3) that]) simp
    then show ?thesis using n'(1) r [of "(j + k) mod ?n"] rotate_index [OF n'(3) that] by (simp add: bit_take_bit_iff)
  qed
  have "binop_execute (Rol n) x y = Some r" "binop_execute (Ror n) x y = Some q"
    "binop_execute (Ror n) (take_bit ?n r) y = Some h"
    using n(1) by (auto simp: Let_def k' r_def q_def h_def)
  then show ?thesis using r q h rotate_count [of n y] k' by (intro exI conjI) auto
qed

theorem rotate_spec_witness:
  "\<exists>r q h. binop_execute (Rol 8) 0x81 10 = Some r \<and> binop_execute (Ror 8) 0x81 10 = Some q
     \<and> binop_execute (Ror 8) (take_bit 8 r) 10 = Some h
     \<and> (\<forall>i < 8. bit r i = bit (0x81 :: u128) ((i + 8 - 2) mod 8) \<and> bit q i = bit (0x81 :: u128) ((i + 2) mod 8)
          \<and> bit h i = bit (0x81 :: u128) i)"
  using rotate_spec [of 8 "0x81" 2 10] by simp

end
