(* ===== verification/MIR_Val.thy ===== *)
theory MIR_Val
  imports IL_Ops
begin

text \<open>
  The value graph of the middle intermediate representation
  (\<open>sem86-core/src/codegen/mir/val.rs\<close>): value nodes in SSA form, the hash-consing builder and its
  peephole simplifications. Every builder operation takes the builder and returns it updated.

  \<open>binop\<close> and \<open>extract\<close> call each other in the source. Here each is one unfolding of its body
  (\<open>binop_step\<close>, \<open>extract_step\<close>) over the two recursive calls, and \<open>binop\<close>/\<open>extract_val\<close> tie the knot
  with a fuel argument; \<open>MIR_Sound\<close> shows how much fuel is enough.
\<close>

section \<open>Value nodes\<close>

type_synonym ValId = nat
type_synonym VarId = nat

text \<open>\<open>BinOp op lhs rhs\<close>, \<open>FpBinOp op lhs rhs rc\<close>, \<open>FpUnOp op arg rc\<close>, \<open>Blend lhs rhs mask\<close>,
  \<open>Extract val skip tk\<close>, \<open>Ite cond if_zero if_nonzero\<close>, \<open>LoadPtr ptr offset sz\<close>.\<close>

datatype ValNode =
    Const u128
  | Var VarId
  | BinOp BinOp ValId ValId
  | FpBinOp FpBinOp ValId ValId ValId
  | FpUnOp FpUnOp ValId ValId
  | UnOp UnOp ValId
  | Blend ValId ValId u128
  | Extract ValId u8 u8
  | Ite ValId ValId ValId
  | LoadPtr Ptr ValId DataSize
  | LoadPtrImm Ptr u16 DataSize
  | InstrLen
  | PartValues

fun referenced_nodes :: "ValNode \<Rightarrow> ValId list" where
  "referenced_nodes (Const _) = []"
| "referenced_nodes (Var _) = []"
| "referenced_nodes InstrLen = []"
| "referenced_nodes PartValues = []"
| "referenced_nodes (BinOp _ a b) = [a, b]"
| "referenced_nodes (FpBinOp _ a b rc) = [a, b, rc]"
| "referenced_nodes (FpUnOp _ a rc) = [a, rc]"
| "referenced_nodes (UnOp _ a) = [a]"
| "referenced_nodes (Ite c z n) = [c, z, n]"
| "referenced_nodes (LoadPtr _ off _) = [off]"
| "referenced_nodes (LoadPtrImm _ _ _) = []"
| "referenced_nodes (Blend l r _) = [l, r]"
| "referenced_nodes (Extract v _ _) = [v]"

text \<open>The patterns the simplifications match on.\<close>

fun const_of :: "ValNode \<Rightarrow> u128 option" where
  "const_of (Const c) = Some c"
| "const_of _ = None"

fun binop_of :: "ValNode \<Rightarrow> (BinOp \<times> ValId \<times> ValId) option" where
  "binop_of (BinOp op a b) = Some (op, a, b)"
| "binop_of _ = None"

definition args_of :: "BinOp \<Rightarrow> ValNode \<Rightarrow> (ValId \<times> ValId) option" where
  "args_of op n = (case binop_of n of Some (op', a, b) \<Rightarrow> if op' = op then Some (a, b) else None
                   | None \<Rightarrow> None)"

fun blend_of :: "ValNode \<Rightarrow> (ValId \<times> ValId \<times> u128) option" where
  "blend_of (Blend l r m) = Some (l, r, m)"
| "blend_of _ = None"

fun extract_of :: "ValNode \<Rightarrow> (ValId \<times> u8 \<times> u8) option" where
  "extract_of (Extract v skip tk) = Some (v, skip, tk)"
| "extract_of _ = None"

fun ite_of :: "ValNode \<Rightarrow> (ValId \<times> ValId \<times> ValId) option" where
  "ite_of (Ite c z n) = Some (c, z, n)"
| "ite_of _ = None"

fun load_size :: "ValNode \<Rightarrow> DataSize option" where
  "load_size (LoadPtr _ _ s) = Some s"
| "load_size (LoadPtrImm _ _ s) = Some s"
| "load_size _ = None"

text \<open>\<open>UnOp::Parity | UnOp::IsZero | UnOp::SelectBit(_)\<close>: operators with a one-bit result.\<close>

fun one_bit_unop :: "ValNode \<Rightarrow> bool" where
  "one_bit_unop (UnOp Parity _) = True"
| "one_bit_unop (UnOp IsZero _) = True"
| "one_bit_unop (UnOp (SelectBit _) _) = True"
| "one_bit_unop _ = False"

section \<open>The builder\<close>

record ValBuilder =
  value_tree :: "ValNode list"
  vmap :: "ValNode \<Rightarrow> ValId option"

text \<open>What a builder call does: it returns an identifier (or another value) and the builder, it
  panics with the builder as it is at that point, or the fuel given to the model runs out.\<close>

datatype 'a outcome = Done ValBuilder 'a | Panic ValBuilder | NoFuel

definition and_then :: "'a outcome \<Rightarrow> (ValBuilder \<Rightarrow> 'a \<Rightarrow> 'c outcome) \<Rightarrow> 'c outcome" where
  "and_then r k = (case r of Done b x \<Rightarrow> k b x | Panic b \<Rightarrow> Panic b | NoFuel \<Rightarrow> NoFuel)"

text \<open>Indexing \<open>self.value_tree[id.index()]\<close> panics out of range, \<open>bitmask_u128(n)\<close> panics for
  \<open>n > 128\<close>.\<close>

definition with_node :: "ValBuilder \<Rightarrow> ValId \<Rightarrow> (ValNode \<Rightarrow> 'a outcome) \<Rightarrow> 'a outcome" where
  "with_node b i k = (if i < length (value_tree b) then k (value_tree b ! i) else Panic b)"

definition bitmask_u128 :: "nat \<Rightarrow> u128 option" where
  "bitmask_u128 n =
     (if n \<le> 128 then Some (if 128 - n < 128 then drop_bit (128 - n) (- 1) else 0) else None)"

definition with_bitmask :: "ValBuilder \<Rightarrow> nat \<Rightarrow> (u128 \<Rightarrow> 'a outcome) \<Rightarrow> 'a outcome" where
  "with_bitmask b n k = (case bitmask_u128 n of Some m \<Rightarrow> k m | None \<Rightarrow> Panic b)"

definition new_builder :: ValBuilder where
  "new_builder = \<lparr>value_tree = [], vmap = Map.empty\<rparr>"

text \<open>\<open>ValId::from_usize\<close> panics when the index does not fit in 32 bits.\<close>

definition get_or_insert :: "ValBuilder \<Rightarrow> ValNode \<Rightarrow> ValId outcome" where
  "get_or_insert b n =
     (case vmap b n of
        Some i \<Rightarrow> Done b i
      | None \<Rightarrow>
          (let i = length (value_tree b)
           in if i < 2 ^ 32
              then Done (b\<lparr>value_tree := value_tree b @ [n], vmap := (vmap b)(n \<mapsto> i)\<rparr>) i
              else Panic b))"

definition imm :: "ValBuilder \<Rightarrow> u128 \<Rightarrow> ValId outcome" where
  "imm b c = get_or_insert b (Const c)"

definition unop :: "ValBuilder \<Rightarrow> UnOp \<Rightarrow> ValId \<Rightarrow> ValId outcome" where
  "unop b op arg =
     with_node b arg (\<lambda>n.
       case const_of n of
         Some c \<Rightarrow> get_or_insert b (Const (unop_execute op c))
       | None \<Rightarrow> get_or_insert b (UnOp op arg))"

definition fp_binop :: "ValBuilder \<Rightarrow> FpBinOp \<Rightarrow> ValId \<Rightarrow> ValId \<Rightarrow> ValId \<Rightarrow> ValId outcome" where
  "fp_binop b op a0 a1 rc = get_or_insert b (FpBinOp op a0 a1 rc)"

definition fp_unop :: "ValBuilder \<Rightarrow> FpUnOp \<Rightarrow> ValId \<Rightarrow> ValId \<Rightarrow> ValId outcome" where
  "fp_unop b op arg rc = get_or_insert b (FpUnOp op arg rc)"

definition load_ptr_imm :: "ValBuilder \<Rightarrow> Ptr \<Rightarrow> DataSize \<Rightarrow> u16 \<Rightarrow> ValId outcome" where
  "load_ptr_imm b ptr sz offset = get_or_insert b (LoadPtrImm ptr offset sz)"

definition load_ptr_offset :: "ValBuilder \<Rightarrow> Ptr \<Rightarrow> DataSize \<Rightarrow> ValId \<Rightarrow> ValId outcome" where
  "load_ptr_offset b ptr sz offset = get_or_insert b (LoadPtr ptr offset sz)"

definition load_ptr :: "ValBuilder \<Rightarrow> Ptr \<Rightarrow> DataSize \<Rightarrow> ValId outcome" where
  "load_ptr b ptr sz = load_ptr_imm b ptr sz 0"

definition use_var :: "ValBuilder \<Rightarrow> VarId \<Rightarrow> ValId outcome" where
  "use_var b v = get_or_insert b (Var v)"

definition instr_len :: "ValBuilder \<Rightarrow> ValId outcome" where
  "instr_len b = get_or_insert b InstrLen"

definition part_values :: "ValBuilder \<Rightarrow> ValId outcome" where
  "part_values b = get_or_insert b PartValues"

section \<open>Deciding equality of two values\<close>

record EqualityState =
  es_val :: ValId
  es_offset :: u128
  es_skip :: u8
  es_take :: u8

text \<open>One side of the search: what the next step makes of the state \<open>s\<close>. \<open>Stop\<close> is the \<open>return
  None\<close> of an \<open>Extract\<close> below an offset, \<open>Stuck\<close> means no pattern of this side applies.\<close>

datatype eq_step = Move EqualityState | Stop | Stuck

definition eq_extract_step :: "ValNode list \<Rightarrow> EqualityState \<Rightarrow> eq_step" where
  "eq_extract_step ns s =
     (case extract_of (ns ! es_val s) of
        Some (val, skip, tk) \<Rightarrow>
          if es_offset s \<noteq> 0 then Stop
          else Move \<lparr>es_val = val, es_offset = 0, es_skip = es_skip s + skip,
                     es_take = min (es_take s) (tk - es_skip s)\<rparr>
      | None \<Rightarrow> Stuck)"

definition eq_addsub_step :: "ValNode list \<Rightarrow> EqualityState \<Rightarrow> eq_step" where
  "eq_addsub_step ns s =
     (case binop_of (ns ! es_val s) of
        Some (op, x, y) \<Rightarrow>
          (case const_of (ns ! y) of
             Some c \<Rightarrow>
               if op = Add then Move (s\<lparr>es_val := x, es_offset := es_offset s + c\<rparr>)
               else if op = Sub then Move (s\<lparr>es_val := x, es_offset := es_offset s - c\<rparr>)
               else Stuck
           | None \<Rightarrow> Stuck)
      | None \<Rightarrow> Stuck)"

text \<open>\<open>try_solve_equality_internal\<close>; the outer \<open>None\<close> is running out of fuel.\<close>

fun try_solve_equality_internal ::
  "nat \<Rightarrow> ValNode list \<Rightarrow> EqualityState \<Rightarrow> EqualityState \<Rightarrow> bool option option" where
  "try_solve_equality_internal 0 ns lhs rhs = None"
| "try_solve_equality_internal (Suc fuel) ns lhs rhs =
     (if es_val lhs = es_val rhs \<and> es_skip lhs = 0 \<and> es_skip rhs = 0 \<and> es_take lhs = es_take rhs
      then Some (Some (es_offset lhs AND mask (unat (es_take lhs)) = es_offset rhs AND mask (unat (es_take rhs))))
      else case eq_extract_step ns lhs of
        Stop \<Rightarrow> Some None
      | Move lhs' \<Rightarrow> try_solve_equality_internal fuel ns lhs' rhs
      | Stuck \<Rightarrow> (case eq_extract_step ns rhs of
          Stop \<Rightarrow> Some None
        | Move rhs' \<Rightarrow> try_solve_equality_internal fuel ns lhs rhs'
        | Stuck \<Rightarrow> (case eq_addsub_step ns lhs of
            Move lhs' \<Rightarrow> try_solve_equality_internal fuel ns lhs' rhs
          | _ \<Rightarrow> (case eq_addsub_step ns rhs of
              Move rhs' \<Rightarrow> try_solve_equality_internal fuel ns lhs rhs'
            | _ \<Rightarrow> Some None))))"

definition eq_start :: "ValId \<Rightarrow> EqualityState" where
  "eq_start v = \<lparr>es_val = v, es_offset = 0, es_skip = 0, es_take = 128\<rparr>"

definition try_solve_equality :: "ValBuilder \<Rightarrow> ValId \<Rightarrow> ValId \<Rightarrow> bool option option" where
  "try_solve_equality b lhs rhs =
     try_solve_equality_internal (Suc (lhs + rhs)) (value_tree b) (eq_start lhs) (eq_start rhs)"

section \<open>Binary operations\<close>

type_synonym binop_fun = "ValBuilder \<Rightarrow> BinOp \<Rightarrow> ValId \<Rightarrow> ValId \<Rightarrow> ValId outcome"
type_synonym extract_fun = "ValBuilder \<Rightarrow> ValId \<Rightarrow> u8 \<Rightarrow> u8 \<Rightarrow> ValId outcome"

definition plain_binop :: binop_fun where
  "plain_binop b op a0 a1 = get_or_insert b (BinOp op a0 a1)"

text \<open>\<open>let c = self.imm(c); return self.binop(op, [x, c])\<close> and \<open>... [c, x]\<close>.\<close>

definition re_binop_r :: "binop_fun \<Rightarrow> ValBuilder \<Rightarrow> BinOp \<Rightarrow> ValId \<Rightarrow> u128 \<Rightarrow> ValId outcome" where
  "re_binop_r rb b op x c = and_then (imm b c) (\<lambda>b1 i. rb b1 op x i)"

definition re_binop_l :: "binop_fun \<Rightarrow> ValBuilder \<Rightarrow> BinOp \<Rightarrow> u128 \<Rightarrow> ValId \<Rightarrow> ValId outcome" where
  "re_binop_l rb b op c x = and_then (imm b c) (\<lambda>b1 i. rb b1 op i x)"

definition binop_add :: "binop_fun \<Rightarrow> ValBuilder \<Rightarrow> ValId \<Rightarrow> ValId \<Rightarrow> ValNode \<Rightarrow> ValNode \<Rightarrow> ValId outcome" where
  "binop_add rb b a0 a1 n0 n1 =
     (if n0 = Const 0 then get_or_insert b n1
      else if n1 = Const 0 then get_or_insert b n0
      else case const_of n1 of
        None \<Rightarrow> plain_binop b Add a0 a1
      | Some c1 \<Rightarrow>
          (case args_of Add n0 of
             Some (i0, i1) \<Rightarrow> with_node b i0 (\<lambda>m0. with_node b i1 (\<lambda>m1.
               case const_of m0 of
                 Some c2 \<Rightarrow> re_binop_r rb b Add i1 (c1 + c2)
               | None \<Rightarrow> (case const_of m1 of
                   Some c2 \<Rightarrow> re_binop_r rb b Add i0 (c1 + c2)
                 | None \<Rightarrow> plain_binop b Add a0 a1)))
           | None \<Rightarrow> (case args_of Sub n0 of
               Some (i0, i1) \<Rightarrow> with_node b i0 (\<lambda>m0. with_node b i1 (\<lambda>m1.
                 case const_of m1 of
                   Some c2 \<Rightarrow> re_binop_r rb b Add i0 (c1 - c2)
                 | None \<Rightarrow> (case const_of m0 of
                     Some c2 \<Rightarrow> re_binop_l rb b Sub (c1 + c2) i1
                   | None \<Rightarrow> plain_binop b Add a0 a1)))
             | None \<Rightarrow> plain_binop b Add a0 a1)))"

definition binop_sub :: "binop_fun \<Rightarrow> ValBuilder \<Rightarrow> ValId \<Rightarrow> ValId \<Rightarrow> ValNode \<Rightarrow> ValNode \<Rightarrow> ValId outcome" where
  "binop_sub rb b a0 a1 n0 n1 =
     (if n1 = Const 0 then get_or_insert b n0
      else if n0 = n1 then get_or_insert b (Const 0)
      else case const_of n1 of
        None \<Rightarrow> plain_binop b Sub a0 a1
      | Some c1 \<Rightarrow>
          (case args_of Sub n0 of
             Some (i0, i1) \<Rightarrow> with_node b i0 (\<lambda>m0. with_node b i1 (\<lambda>m1.
               case const_of m1 of
                 Some c2 \<Rightarrow> re_binop_r rb b Sub i0 (c1 + c2)
               | None \<Rightarrow> (case const_of m0 of
                   Some c2 \<Rightarrow> re_binop_l rb b Sub (c2 - c1) i1
                 | None \<Rightarrow> plain_binop b Sub a0 a1)))
           | None \<Rightarrow> (case args_of Add n0 of
               Some (i0, i1) \<Rightarrow> with_node b i0 (\<lambda>m0. with_node b i1 (\<lambda>m1.
                 case const_of m0 of
                   Some c2 \<Rightarrow> re_binop_r rb b Add i1 (c2 - c1)
                 | None \<Rightarrow> (case const_of m1 of
                     Some c2 \<Rightarrow> re_binop_r rb b Add i0 (c2 - c1)
                   | None \<Rightarrow> plain_binop b Sub a0 a1)))
             | None \<Rightarrow> plain_binop b Sub a0 a1)))"

definition binop_or :: "ValBuilder \<Rightarrow> ValId \<Rightarrow> ValId \<Rightarrow> ValNode \<Rightarrow> ValNode \<Rightarrow> ValId outcome" where
  "binop_or b a0 a1 n0 n1 =
     (if n0 = Const 0 then get_or_insert b n1
      else if n1 = Const 0 then get_or_insert b n0
      else case (args_of Or n0, const_of n1) of
        (Some (i0, i1), Some c1) \<Rightarrow> with_node b i0 (\<lambda>m0. with_node b i1 (\<lambda>m1.
           case const_of m0 of
             Some c2 \<Rightarrow> and_then (imm b (c1 OR c2)) (\<lambda>b1 i. get_or_insert b1 (BinOp Or i1 i))
           | None \<Rightarrow> (case const_of m1 of
               Some c2 \<Rightarrow> and_then (imm b (c1 OR c2)) (\<lambda>b1 i. get_or_insert b1 (BinOp Or i0 i))
             | None \<Rightarrow> plain_binop b Or a0 a1)))
      | _ \<Rightarrow> plain_binop b Or a0 a1)"

definition binop_xor :: "ValBuilder \<Rightarrow> ValId \<Rightarrow> ValId \<Rightarrow> ValNode \<Rightarrow> ValNode \<Rightarrow> ValId outcome" where
  "binop_xor b a0 a1 n0 n1 =
     (if n0 = Const 0 then get_or_insert b n1
      else if n1 = Const 0 then get_or_insert b n0
      else if n0 = n1 then get_or_insert b (Const 0)
      else plain_binop b Xor a0 a1)"

text \<open>\<open>x & c\<close> with a constant right operand.\<close>

definition and_or_const :: "binop_fun \<Rightarrow> ValBuilder \<Rightarrow> ValId \<Rightarrow> u128 \<Rightarrow> u128 \<Rightarrow> ValId outcome" where
  "and_or_const rb b other c1 c2 =
     and_then (imm b c1) (\<lambda>b1 i. and_then (rb b1 And other i) (\<lambda>b2 v.
       and_then (imm b2 (c1 AND c2)) (\<lambda>b3 j. get_or_insert b3 (BinOp Or v j))))"

definition and_const ::
  "binop_fun \<Rightarrow> extract_fun \<Rightarrow> ValBuilder \<Rightarrow> ValId \<Rightarrow> ValId \<Rightarrow> ValNode \<Rightarrow> u128 \<Rightarrow> ValId outcome" where
  "and_const rb re b a0 a1 n0 c =
     (if one_bit_unop n0 then get_or_insert b (if c AND 1 \<noteq> 0 then n0 else Const 0)
      else if trailing_ones c + leading_zeros c = 128
        then re b a0 0 (word_of_nat (trailing_ones c))
      else case args_of And n0 of
        Some (i0, i1) \<Rightarrow> with_node b i0 (\<lambda>m0. with_node b i1 (\<lambda>m1.
          case const_of m0 of
            Some c2 \<Rightarrow> and_then (imm b (c AND c2)) (\<lambda>b1 i. get_or_insert b1 (BinOp And i1 i))
          | None \<Rightarrow> (case const_of m1 of
              Some c2 \<Rightarrow> and_then (imm b (c AND c2)) (\<lambda>b1 i. get_or_insert b1 (BinOp And i0 i))
            | None \<Rightarrow> plain_binop b And a0 a1)))
      | None \<Rightarrow> (case args_of Or n0 of
          Some (i0, i1) \<Rightarrow> with_node b i0 (\<lambda>m0. with_node b i1 (\<lambda>m1.
            case const_of m0 of
              Some c2 \<Rightarrow> and_or_const rb b i1 c c2
            | None \<Rightarrow> (case const_of m1 of
                Some c2 \<Rightarrow> and_or_const rb b i0 c c2
              | None \<Rightarrow> plain_binop b And a0 a1)))
        | None \<Rightarrow> (case blend_of n0 of
            Some (lhs, rhs, m) \<Rightarrow>
              if m AND c = c then and_then (imm b c) (\<lambda>b1 i. get_or_insert b1 (BinOp And rhs i))
              else plain_binop b And a0 a1
          | None \<Rightarrow> (case extract_of n0 of
              Some (v, skip, tk) \<Rightarrow> with_bitmask b (unat tk) (\<lambda>m.
                if c = m then Done b a0
                else if skip = 0 then re_binop_r rb b And v (c AND m)
                else plain_binop b And a0 a1)
            | None \<Rightarrow> (case load_size n0 of
                Some s \<Rightarrow>
                  if ds_num_bits s \<le> trailing_ones c then Done b a0
                  else if ds_num_bits s \<le> trailing_zeros c then imm b 0
                  else plain_binop b And a0 a1
              | None \<Rightarrow> plain_binop b And a0 a1)))))"

definition binop_and ::
  "binop_fun \<Rightarrow> extract_fun \<Rightarrow> ValBuilder \<Rightarrow> ValId \<Rightarrow> ValId \<Rightarrow> ValNode \<Rightarrow> ValNode \<Rightarrow> ValId outcome" where
  "binop_and rb re b a0 a1 n0 n1 =
     (if n0 = Const 0 \<or> n1 = Const 0 then get_or_insert b (Const 0)
      else case const_of n1 of
        Some c \<Rightarrow> and_const rb re b a0 a1 n0 c
      | None \<Rightarrow> (case (const_of n0, args_of Shl n1) of
          (Some and_c, Some (i0, i1)) \<Rightarrow> with_node b i0 (\<lambda>m0. with_node b i1 (\<lambda>m1.
            case const_of m1 of
              Some shift_amount \<Rightarrow>
                and_then (imm b (wrapping_shr and_c (as_u32 shift_amount))) (\<lambda>b1 i.
                  and_then (rb b1 And i0 i) (\<lambda>b2 v. get_or_insert b2 (BinOp Shl v i1)))
            | None \<Rightarrow> plain_binop b And a0 a1))
        | _ \<Rightarrow> plain_binop b And a0 a1))"

text \<open>The \<open>match op\<close>, and the whole function: two constants are folded first.\<close>

definition binop_arms ::
  "binop_fun \<Rightarrow> extract_fun \<Rightarrow> ValBuilder \<Rightarrow> BinOp \<Rightarrow> ValId \<Rightarrow> ValId \<Rightarrow> ValNode \<Rightarrow> ValNode \<Rightarrow> ValId outcome" where
  "binop_arms rb re b op a0 a1 n0 n1 =
     (case op of
        CmpEq \<Rightarrow>
          if a0 = a1 then imm b 1
          else (case try_solve_equality b a0 a1 of
                  None \<Rightarrow> NoFuel
                | Some (Some eq) \<Rightarrow> imm b (of_bool eq)
                | Some None \<Rightarrow> plain_binop b CmpEq a0 a1)
      | Or \<Rightarrow> binop_or b a0 a1 n0 n1
      | Xor \<Rightarrow> binop_xor b a0 a1 n0 n1
      | Add \<Rightarrow> binop_add rb b a0 a1 n0 n1
      | Sub \<Rightarrow> binop_sub rb b a0 a1 n0 n1
      | Shl \<Rightarrow> if n1 = Const 0 then get_or_insert b n0 else plain_binop b Shl a0 a1
      | Shr \<Rightarrow>
          if n1 = Const 0 then get_or_insert b n0
          else (case const_of n1 of
                  Some c \<Rightarrow> re b a0 (ucast c) (128 - ucast c)
                | None \<Rightarrow> plain_binop b Shr a0 a1)
      | And \<Rightarrow> binop_and rb re b a0 a1 n0 n1
      | Mul \<Rightarrow> if n0 = Const 0 \<or> n1 = Const 0 then get_or_insert b (Const 0)
               else plain_binop b Mul a0 a1
      | _ \<Rightarrow> plain_binop b op a0 a1)"

definition binop_step :: "binop_fun \<Rightarrow> extract_fun \<Rightarrow> binop_fun" where
  "binop_step rb re b op a0 a1 =
     with_node b a0 (\<lambda>n0. with_node b a1 (\<lambda>n1.
       case (const_of n0, const_of n1) of
         (Some l, Some r) \<Rightarrow>
           (case binop_execute op l r of Some v \<Rightarrow> get_or_insert b (Const v) | None \<Rightarrow> Panic b)
       | _ \<Rightarrow> binop_arms rb re b op a0 a1 n0 n1))"

section \<open>Extracting a bit range\<close>

definition plain_extract :: extract_fun where
  "plain_extract b val skip tk = get_or_insert b (Extract val skip tk)"

text \<open>\<open>let inner = self.binop(op, [x, y]); return self.extract(inner, skip, take)\<close>\<close>

definition binop_then_extract ::
  "binop_fun \<Rightarrow> extract_fun \<Rightarrow> ValBuilder \<Rightarrow> BinOp \<Rightarrow> ValId \<Rightarrow> ValId \<Rightarrow> u8 \<Rightarrow> u8 \<Rightarrow> ValId outcome" where
  "binop_then_extract rb re b op x y skip tk =
     and_then (rb b op x y) (\<lambda>b1 inner. re b1 inner skip tk)"

text \<open>The part of the bitwise case after the \<open>match\<close>: the extraction is pushed into both operands.\<close>

definition extract_split ::
  "binop_fun \<Rightarrow> extract_fun \<Rightarrow> ValBuilder \<Rightarrow> ValId \<Rightarrow> BinOp \<Rightarrow> ValId \<Rightarrow> ValId \<Rightarrow> u8 \<Rightarrow> u8 \<Rightarrow> ValId outcome" where
  "extract_split rb re b val op i0 i1 skip tk =
     (if op = Or \<or> op = And \<or> op = Xor
      then and_then (re b i0 skip tk) (\<lambda>b1 l. and_then (re b1 i1 skip tk) (\<lambda>b2 r. rb b2 op l r))
      else plain_extract b val skip tk)"

text \<open>\<open>(x & c)[i..j] == x[i..j] & c[i..j]\<close>\<close>

definition extract_and_const ::
  "binop_fun \<Rightarrow> extract_fun \<Rightarrow> ValBuilder \<Rightarrow> ValId \<Rightarrow> u128 \<Rightarrow> u8 \<Rightarrow> u8 \<Rightarrow> ValId outcome" where
  "extract_and_const rb re b inner c skip tk =
     and_then (re b inner skip tk) (\<lambda>b1 v. with_bitmask b1 (unat tk) (\<lambda>m.
       and_then (imm b1 (wrapping_shr c (unat skip) AND m)) (\<lambda>b2 i. rb b2 And v i)))"

definition low_extract :: "u8 \<Rightarrow> u8 \<Rightarrow> ValNode \<Rightarrow> ValId option" where
  "low_extract skip tk m =
     (case extract_of m of
        Some (v, inner_skip, inner_take) \<Rightarrow>
          if inner_skip = 0 \<and> skip = 0 \<and> tk \<le> inner_take then Some v else None
      | None \<Rightarrow> None)"

definition extract_bitwise ::
  "binop_fun \<Rightarrow> extract_fun \<Rightarrow> ValBuilder \<Rightarrow> ValId \<Rightarrow> BinOp \<Rightarrow> ValId \<Rightarrow> ValId \<Rightarrow> u8 \<Rightarrow> u8 \<Rightarrow> ValId outcome" where
  "extract_bitwise rb re b val op i0 i1 skip tk =
     with_node b i0 (\<lambda>m0. with_node b i1 (\<lambda>m1.
       case low_extract skip tk m0 of
         Some v \<Rightarrow> binop_then_extract rb re b op v i1 skip tk
       | None \<Rightarrow> (case low_extract skip tk m1 of
           Some v \<Rightarrow> binop_then_extract rb re b op v i0 skip tk
         | None \<Rightarrow> (case args_of And m0 of
             Some (j0, j1) \<Rightarrow> with_node b j0 (\<lambda>k0. with_node b j1 (\<lambda>k1.
               case const_of k0 of
                 Some c \<Rightarrow>
                   if skip = 0 \<and> unat tk \<le> trailing_ones c
                   then binop_then_extract rb re b op j1 i1 skip tk
                   else extract_split rb re b val op i0 i1 skip tk
               | None \<Rightarrow> extract_split rb re b val op i0 i1 skip tk))
           | None \<Rightarrow>
               if op = And then (case const_of m0 of
                   Some c \<Rightarrow> extract_and_const rb re b i1 c skip tk
                 | None \<Rightarrow> (case const_of m1 of
                     Some c \<Rightarrow> extract_and_const rb re b i0 c skip tk
                   | None \<Rightarrow> extract_split rb re b val op i0 i1 skip tk))
               else extract_split rb re b val op i0 i1 skip tk))))"

definition extract_shl ::
  "binop_fun \<Rightarrow> extract_fun \<Rightarrow> ValBuilder \<Rightarrow> ValId \<Rightarrow> ValId \<Rightarrow> ValId \<Rightarrow> u8 \<Rightarrow> u8 \<Rightarrow> ValId outcome" where
  "extract_shl rb re b val i0 i1 skip tk =
     with_node b i0 (\<lambda>m0. with_node b i1 (\<lambda>m1.
       case const_of m1 of
         Some c \<Rightarrow>
           if ucast (skip + tk) \<le> c then imm b 0
           else if c \<le> ucast skip then re b i0 (skip - ucast c) tk
           else if \<not> (ucast skip < c \<and> c < ucast (skip + tk)) then Panic b
           else and_then (imm b (ucast (ucast c - skip))) (\<lambda>b1 shift.
                  and_then (rb b1 Shl i0 shift) (\<lambda>b2 inner. get_or_insert b2 (Extract inner 0 tk)))
       | None \<Rightarrow> plain_extract b val skip tk))"

text \<open>The last simplification: \<open>extract(extract(x \<plusminus> c2) - c1)\<close> with the same range.\<close>

definition extract_sub ::
  "binop_fun \<Rightarrow> extract_fun \<Rightarrow> ValBuilder \<Rightarrow> ValId \<Rightarrow> ValId \<Rightarrow> ValId \<Rightarrow> u8 \<Rightarrow> u8 \<Rightarrow> ValId outcome" where
  "extract_sub rb re b val lhs rhs skip tk =
     with_node b rhs (\<lambda>nr.
       case const_of nr of
         None \<Rightarrow> plain_extract b val skip tk
       | Some c1 \<Rightarrow> with_node b lhs (\<lambda>nl.
           case extract_of nl of
             None \<Rightarrow> plain_extract b val skip tk
           | Some (v, inner_skip, inner_take) \<Rightarrow>
               if skip = 0 \<and> inner_skip = skip \<and> inner_take = tk
               then with_node b v (\<lambda>nv.
                 case binop_of nv of
                   None \<Rightarrow> plain_extract b val skip tk
                 | Some (inner_op, inner_lhs, inner_rhs) \<Rightarrow>
                     if inner_op = Add \<or> inner_op = Sub
                     then with_node b inner_rhs (\<lambda>ni.
                       case const_of ni of
                         None \<Rightarrow> plain_extract b val skip tk
                       | Some c2 \<Rightarrow>
                           and_then (re_binop_r rb b Sub inner_lhs
                               (if inner_op = Sub then c1 + c2 else c1 - c2))
                             (\<lambda>b1 x. re b1 x skip tk))
                     else plain_extract b val skip tk)
               else plain_extract b val skip tk))"

definition extract_load ::
  "extract_fun \<Rightarrow> ValBuilder \<Rightarrow> ValId \<Rightarrow> Ptr \<Rightarrow> ValId \<Rightarrow> DataSize \<Rightarrow> u8 \<Rightarrow> u8 \<Rightarrow> ValId outcome" where
  "extract_load re b val ptr offset sz skip tk =
     (if ds_num_bits sz < unat skip + unat tk then
        if ds_num_bits sz \<le> unat skip then imm b 0
        else re b val skip (word_of_nat (ds_num_bits sz - unat skip))
      else if skip = 0 \<and> ds_num_bits sz \<le> unat tk then Done b val
      else case (skip = 0, try_from_bits (unat tk)) of
        (True, Some ds) \<Rightarrow> load_ptr_offset b ptr ds offset
      | _ \<Rightarrow> plain_extract b val skip tk)"

definition extract_load_imm ::
  "ValBuilder \<Rightarrow> ValId \<Rightarrow> Ptr \<Rightarrow> u16 \<Rightarrow> DataSize \<Rightarrow> u8 \<Rightarrow> u8 \<Rightarrow> ValId outcome" where
  "extract_load_imm b val ptr offset sz skip tk =
     (if skip = 0 \<and> ds_num_bits sz \<le> unat tk then Done b val
      else if ds_num_bits sz \<le> unat skip then imm b 0
      else if unat skip mod 8 = 0 \<and> tk \<in> {8, 16, 32, 64, 128} \<and> unat skip + unat tk < ds_num_bits sz
      then (case try_from_bits (unat tk) of
              Some ds \<Rightarrow> load_ptr_imm b ptr ds (offset + ucast (skip div 8))
            | None \<Rightarrow> Panic b)
      else plain_extract b val skip tk)"

definition extract_blend ::
  "extract_fun \<Rightarrow> ValBuilder \<Rightarrow> ValId \<Rightarrow> ValId \<Rightarrow> ValId \<Rightarrow> u128 \<Rightarrow> u8 \<Rightarrow> u8 \<Rightarrow> ValId outcome" where
  "extract_blend re b val lhs rhs m skip tk =
     with_bitmask b (unat tk) (\<lambda>bm.
       let mask_taken = wrapping_shr m (unat skip) AND bm
       in if count_ones mask_taken = unat tk then re b rhs skip tk
          else if count_ones mask_taken = 0 then re b lhs skip tk
          else plain_extract b val skip tk)"

definition extract_step :: "binop_fun \<Rightarrow> extract_fun \<Rightarrow> extract_fun" where
  "extract_step rb re b val skip tk =
     with_node b val (\<lambda>node.
       case node of
         Const n \<Rightarrow> with_bitmask b (unat tk) (\<lambda>m. imm b (wrapping_shr n (unat skip) AND m))
       | Extract v skip_inner take_inner \<Rightarrow>
           if take_inner \<le> skip then imm b 0
           else re b v (skip + skip_inner) (min tk (take_inner - skip))
       | UnOp op a \<Rightarrow>
           if one_bit_unop node then (if skip = 0 then Done b val else imm b 0)
           else plain_extract b val skip tk
       | LoadPtr ptr offset sz \<Rightarrow> extract_load re b val ptr offset sz skip tk
       | LoadPtrImm ptr offset sz \<Rightarrow> extract_load_imm b val ptr offset sz skip tk
       | Blend lhs rhs m \<Rightarrow> extract_blend re b val lhs rhs m skip tk
       | BinOp op i0 i1 \<Rightarrow>
           if op = Add \<or> op = Or \<or> op = And \<or> op = Xor
           then extract_bitwise rb re b val op i0 i1 skip tk
           else if op = Shl then extract_shl rb re b val i0 i1 skip tk
           else if op = Sub then extract_sub rb re b val i0 i1 skip tk
           else plain_extract b val skip tk
       | Ite c if_zero if_nonzero \<Rightarrow>
           and_then (re b if_zero skip tk) (\<lambda>b1 z.
             and_then (re b1 if_nonzero skip tk) (\<lambda>b2 n. get_or_insert b2 (Ite c z n)))
       | _ \<Rightarrow> plain_extract b val skip tk)"

text \<open>\<open>ValBuilder::binop\<close> and \<open>ValBuilder::extract\<close>, with the depth of the recursion bounded by the
  fuel.\<close>

fun binop :: "nat \<Rightarrow> binop_fun" and extract_val :: "nat \<Rightarrow> extract_fun" where
  "binop 0 b op a0 a1 = NoFuel"
| "binop (Suc n) b op a0 a1 = binop_step (binop n) (extract_val n) b op a0 a1"
| "extract_val 0 b val skip tk = NoFuel"
| "extract_val (Suc n) b val skip tk = extract_step (binop n) (extract_val n) b val skip tk"

section \<open>Conditional values\<close>

fun ite :: "nat \<Rightarrow> ValBuilder \<Rightarrow> ValId \<Rightarrow> ValId \<Rightarrow> ValId \<Rightarrow> ValId outcome" where
  "ite 0 b c z n = NoFuel"
| "ite (Suc fuel) b c if_zero if_nonzero =
     with_node b c (\<lambda>nc.
       case const_of nc of
         Some v \<Rightarrow> Done b (if v = 0 then if_zero else if_nonzero)
       | None \<Rightarrow> with_node b if_zero (\<lambda>nz.
           let plain = with_node b if_nonzero (\<lambda>nn.
             case ite_of nn of
               Some (inner_cond, _, inner_if_nonzero) \<Rightarrow>
                 if c = inner_cond then ite fuel b c if_zero inner_if_nonzero
                 else get_or_insert b (Ite c if_zero if_nonzero)
             | None \<Rightarrow> get_or_insert b (Ite c if_zero if_nonzero))
           in case ite_of nz of
                Some (inner_cond, inner_if_zero, _) \<Rightarrow>
                  if c = inner_cond then ite fuel b c inner_if_zero if_nonzero else plain
              | None \<Rightarrow> plain))"

text \<open>\<open>optimize_as_if_zero\<close>: the value behind a chain of \<open>IsZero\<close> tests, and whether the test flips.
  The recursion descends to smaller identifiers (a node refers to earlier nodes only); \<open>None\<close> is an
  index out of range.\<close>

fun is_zero_arg :: "ValNode \<Rightarrow> ValId option" where
  "is_zero_arg (UnOp IsZero a) = Some a"
| "is_zero_arg _ = None"

fun optimize_as_if_zero :: "nat \<Rightarrow> ValNode list \<Rightarrow> ValId \<Rightarrow> (ValId \<times> bool) option" where
  "optimize_as_if_zero 0 ns c = None"
| "optimize_as_if_zero (Suc fuel) ns c =
     (if c < length ns then
        (case is_zero_arg (ns ! c) of
           Some inner \<Rightarrow> map_option (\<lambda>(v, flip). (v, \<not> flip)) (optimize_as_if_zero fuel ns inner)
         | None \<Rightarrow> Some (c, False))
      else None)"

section \<open>Writing part of a value\<close>

definition insert_blend :: "ValBuilder \<Rightarrow> ValId \<Rightarrow> ValId \<Rightarrow> u128 \<Rightarrow> ValId outcome" where
  "insert_blend b old new m = get_or_insert b (Blend old new m)"

text \<open>\<open>let mask_val = self.imm(m); self.binop(And, [x, mask_val])\<close> (and with the operands exchanged).\<close>

definition mask_val_r :: "nat \<Rightarrow> ValBuilder \<Rightarrow> ValId \<Rightarrow> u128 \<Rightarrow> ValId outcome" where
  "mask_val_r n b x m = and_then (imm b m) (\<lambda>b1 i. binop n b1 And x i)"

definition mask_val_l :: "nat \<Rightarrow> ValBuilder \<Rightarrow> u128 \<Rightarrow> ValId \<Rightarrow> ValId outcome" where
  "mask_val_l n b m x = and_then (imm b m) (\<lambda>b1 i. binop n b1 And i x)"

fun combine_old_and_new_mask :: "nat \<Rightarrow> ValBuilder \<Rightarrow> ValId \<Rightarrow> ValId \<Rightarrow> u128 \<Rightarrow> ValId outcome" where
  "combine_old_and_new_mask 0 b old new m = NoFuel"
| "combine_old_and_new_mask (Suc n) b old new m =
     with_node b old (\<lambda>no. with_node b new (\<lambda>_.
       case blend_of no of
         Some (old_inner, new_inner, mask_inner) \<Rightarrow>
           if m AND mask_inner = mask_inner then combine_old_and_new_mask n b old_inner new m
           else if m AND mask_inner = 0 then
             and_then (mask_val_l n b mask_inner new_inner) (\<lambda>b1 new_inner'.
               and_then (mask_val_r n b1 new m) (\<lambda>b2 new'.
                 and_then (binop n b2 Or new_inner' new') (\<lambda>b3 both.
                   combine_old_and_new_mask n b3 old_inner both (mask_inner OR m))))
           else insert_blend b old new m
       | None \<Rightarrow> insert_blend b old new m))"

text \<open>\<open>(new & unshifted_mask) << shift\<close>, with the constants interned in the order of the source.\<close>

definition mask_and_shift :: "nat \<Rightarrow> ValBuilder \<Rightarrow> ValId \<Rightarrow> u128 \<Rightarrow> nat \<Rightarrow> ValId outcome" where
  "mask_and_shift n b new um sh =
     and_then (imm b (word_of_nat sh)) (\<lambda>b1 shift.
       and_then (mask_val_r n b1 new um) (\<lambda>b2 new'. binop n b2 Shl new' shift))"

text \<open>The end of \<open>combine_old_and_new\<close>: shift the new value into place and blend.\<close>

definition shift_and_blend ::
  "nat \<Rightarrow> ValBuilder \<Rightarrow> ValId \<Rightarrow> ValId \<Rightarrow> u128 \<Rightarrow> nat \<Rightarrow> ValId outcome" where
  "shift_and_blend n b old new m sh =
     and_then (imm b (word_of_nat sh)) (\<lambda>b1 shift.
       and_then (binop n b1 Shl new shift) (\<lambda>b2 new'. combine_old_and_new_mask n b2 old new' m))"

text \<open>The operand below an \<open>And\<close> with a constant that keeps the low \<open>w\<close> bits.\<close>

definition low_masked :: "nat \<Rightarrow> ValNode \<Rightarrow> ValNode \<Rightarrow> ValId \<Rightarrow> ValId \<Rightarrow> ValId option" where
  "low_masked w k0 k1 j0 j1 =
     (case const_of k0 of
        Some c \<Rightarrow> if w \<le> trailing_ones c then Some j1
                   else (case const_of k1 of Some c' \<Rightarrow> if w \<le> trailing_ones c' then Some j0 else None
                                           | None \<Rightarrow> None)
      | None \<Rightarrow> (case const_of k1 of Some c' \<Rightarrow> if w \<le> trailing_ones c' then Some j0 else None
                                    | None \<Rightarrow> None))"

text \<open>The part of the new value that is not needed is dropped: \<open>new\<close> is \<open>op(x, y)\<close> with \<open>op\<close> one of
  \<open>Add\<close>, \<open>Or\<close>, \<open>Xor\<close>.\<close>

definition simplify_new ::
  "nat \<Rightarrow> ValBuilder \<Rightarrow> ValId \<Rightarrow> BinOp \<Rightarrow> ValId \<Rightarrow> ValId \<Rightarrow> nat \<Rightarrow> ValId outcome" where
  "simplify_new n b new op i0 i1 w =
     with_node b i0 (\<lambda>m0. with_node b i1 (\<lambda>m1.
       case low_extract 0 (word_of_nat w) m0 of
         Some v \<Rightarrow> binop n b op v i1
       | None \<Rightarrow> (case low_extract 0 (word_of_nat w) m1 of
           Some v \<Rightarrow> binop n b op v i0
         | None \<Rightarrow> (case args_of And m0 of
             Some (j0, j1) \<Rightarrow> with_node b j0 (\<lambda>k0. with_node b j1 (\<lambda>k1.
               case low_masked w k0 k1 j0 j1 of
                 Some lhs \<Rightarrow> binop n b op lhs i1
               | None \<Rightarrow> Done b new))
           | None \<Rightarrow> Done b new))))"

type_synonym combine_fun = "ValBuilder \<Rightarrow> ValId \<Rightarrow> ValId \<Rightarrow> ValId outcome"

text \<open>The arms that match on the new value, then the general case.\<close>

definition combine_new_arms ::
  "nat \<Rightarrow> combine_fun \<Rightarrow> ValBuilder \<Rightarrow> ValId \<Rightarrow> ValId \<Rightarrow> ValNode \<Rightarrow> u128 \<Rightarrow> nat \<Rightarrow> nat \<Rightarrow> ValId outcome" where
  "combine_new_arms n rc b old new nn m w sh =
     (case binop_of nn of
        Some (op, i0, i1) \<Rightarrow>
          if op = And then with_node b i0 (\<lambda>k0. with_node b i1 (\<lambda>k1.
            case low_masked w k0 k1 i0 i1 of
              Some other \<Rightarrow> rc b old other
            | None \<Rightarrow> shift_and_blend n b old new m sh))
          else if op = Add \<or> op = Or \<or> op = Xor
            then and_then (simplify_new n b new op i0 i1 w)
                   (\<lambda>b1 new'. shift_and_blend n b1 old new' m sh)
          else shift_and_blend n b old new m sh
      | None \<Rightarrow> shift_and_blend n b old new m sh)"

text \<open>The arms for a blend or a pointer load as the old value.\<close>

definition combine_old_arms ::
  "nat \<Rightarrow> combine_fun \<Rightarrow> ValBuilder \<Rightarrow> ValId \<Rightarrow> ValId \<Rightarrow> ValNode \<Rightarrow> ValNode \<Rightarrow> u128 \<Rightarrow> u128 \<Rightarrow> nat \<Rightarrow> nat
     \<Rightarrow> ValId outcome" where
  "combine_old_arms n rc b old new no nn um m w sh =
     (case blend_of no of
        Some (old_inner, new_inner, mask_inner) \<Rightarrow>
          if m AND mask_inner = mask_inner then rc b old_inner new
          else if m AND mask_inner = 0 then
            and_then (mask_val_l n b mask_inner new_inner) (\<lambda>b1 new_inner'.
              and_then (mask_and_shift n b1 new um sh) (\<lambda>b2 new'.
                and_then (binop n b2 Or new_inner' new') (\<lambda>b3 both.
                  combine_old_and_new_mask n b3 old_inner both (mask_inner OR m))))
          else combine_new_arms n rc b old new nn m w sh
      | None \<Rightarrow>
          (case load_size no of
             Some ds \<Rightarrow> if ds_num_bits ds \<le> trailing_ones m then mask_and_shift n b new um sh
                        else combine_new_arms n rc b old new nn m w sh
           | None \<Rightarrow> combine_new_arms n rc b old new nn m w sh))"

definition combine_const_arm ::
  "nat \<Rightarrow> combine_fun \<Rightarrow> ValBuilder \<Rightarrow> ValId \<Rightarrow> ValId \<Rightarrow> ValNode \<Rightarrow> ValNode \<Rightarrow> u128 \<Rightarrow> u128 \<Rightarrow> nat \<Rightarrow> nat
     \<Rightarrow> ValId outcome" where
  "combine_const_arm n rc b old new no nn um m w sh =
     (case const_of nn of
        Some c \<Rightarrow>
          and_then (mask_val_r n b old (NOT m)) (\<lambda>b1 old'.
            and_then (imm b1 (wrapping_shl c sh AND m)) (\<lambda>b2 new'. binop n b2 Or old' new'))
      | None \<Rightarrow> combine_old_arms n rc b old new no nn um m w sh)"

definition combine_step :: "nat \<Rightarrow> combine_fun \<Rightarrow> ValBuilder \<Rightarrow> ValId \<Rightarrow> ValId \<Rightarrow> Size \<Rightarrow> ValId outcome" where
  "combine_step n rc b old new sz =
     (let w = size_num_bytes sz * 8; sh = unat (start_byte sz) * 8 in
      with_bitmask b w (\<lambda>um. let m = wrapping_shl um sh in
      with_node b old (\<lambda>no. with_node b new (\<lambda>nn.
        case extract_of no of
          Some (v, skip, tk) \<Rightarrow> with_bitmask b (unat tk) (\<lambda>bm.
            if NOT m AND bm = 0 then mask_and_shift n b new um sh
            else combine_const_arm n rc b old new no nn um m w sh)
        | None \<Rightarrow> if no = Const 0 then mask_and_shift n b new um sh
                  else combine_const_arm n rc b old new no nn um m w sh))))"

fun combine_old_and_new :: "nat \<Rightarrow> ValBuilder \<Rightarrow> ValId \<Rightarrow> ValId \<Rightarrow> Size \<Rightarrow> ValId outcome" where
  "combine_old_and_new 0 b old new sz = NoFuel"
| "combine_old_and_new (Suc n) b old new sz =
     combine_step n (\<lambda>b1 o1 n1. combine_old_and_new n b1 o1 n1 sz) b old new sz"

definition determine_updated_bytes_in :: "ValBuilder \<Rightarrow> ValId \<Rightarrow> ValId \<Rightarrow> nat option option" where
  "determine_updated_bytes_in b new_val original_value =
     (if new_val < length (value_tree b) then
        Some (case blend_of (value_tree b ! new_val) of
                Some (lhs, rhs, m) \<Rightarrow>
                  if lhs = original_value then Some ((128 - leading_zeros m) div 8) else None
              | None \<Rightarrow> None)
      else None)"

end
