(* ===== verification/MIR_Sem.thy ===== *)
theory MIR_Sem
  imports MIR_Val
begin

text \<open>
  What a value graph means: the value of every node in an environment (the values of the SSA
  variables, the bytes of the CPU state, the SoftFloat operations), as the LIR interpreter
  (\<open>codegen/backends/interpreter.rs\<close>) computes it for the operation a node is lowered to. Beside
  the value, every node gets a weight, the measure behind the termination of the builder, and
  \<open>wf_builder\<close> is the invariant the builder keeps.
\<close>

section \<open>Attributes computed along the graph\<close>

text \<open>A node refers to earlier nodes only, so an attribute of all nodes is computed in one pass.\<close>

definition scan :: "('v list \<Rightarrow> 'n \<Rightarrow> 'v) \<Rightarrow> 'n list \<Rightarrow> 'v list" where
  "scan f ns = foldl (\<lambda>vs n. vs @ [f vs n]) [] ns"

lemma scan_Nil [simp]: "scan f [] = []"
  by (simp add: scan_def)

lemma scan_snoc [simp]: "scan f (ns @ [n]) = scan f ns @ [f (scan f ns) n]"
  by (simp add: scan_def)

lemma length_scan [simp]: "length (scan f ns) = length ns"
  by (induction ns rule: rev_induct) auto

lemma scan_append_nth: "i < length ns \<Longrightarrow> scan f (ns @ ms) ! i = scan f ns ! i"
  by (induction ms rule: rev_induct) (auto simp: nth_append simp flip: append_assoc)

lemma scan_nth: "i < length ns \<Longrightarrow> scan f ns ! i = f (take i (scan f ns)) (ns ! i)"
proof (induction ns rule: rev_induct)
  case (snoc n ns)
  then show ?case
    by (cases "i < length ns") (auto simp: nth_append less_Suc_eq)
qed simp

section \<open>Values\<close>

record env =
  var_val :: "VarId \<Rightarrow> u128"
  mem_byte :: "Ptr \<Rightarrow> nat \<Rightarrow> u8"
  instr_len_val :: u128
  part_values_val :: u128
  fp_binop_execute :: "FpBinOp \<Rightarrow> u128 \<Rightarrow> u128 \<Rightarrow> u8 \<Rightarrow> u128"
  fp_unop_execute :: "FpUnOp \<Rightarrow> u128 \<Rightarrow> u8 \<Rightarrow> u128"

text \<open>An unaligned little-endian read of the bytes behind a pointer.\<close>

definition load_bytes :: "(nat \<Rightarrow> u8) \<Rightarrow> nat \<Rightarrow> nat \<Rightarrow> u128" where
  "load_bytes mem off n = foldr (\<lambda>i acc. push_bit (8 * i) (ucast (mem (off + i))) OR acc) [0..<n] 0"

definition load_val :: "env \<Rightarrow> Ptr \<Rightarrow> nat \<Rightarrow> DataSize \<Rightarrow> u128" where
  "load_val e ptr off sz = load_bytes (mem_byte e ptr) off (ds_num_bytes sz)"

fun node_val :: "env \<Rightarrow> u128 list \<Rightarrow> ValNode \<Rightarrow> u128" where
  "node_val e vs (Const c) = c"
| "node_val e vs (Var v) = var_val e v"
| "node_val e vs (BinOp op a b) = the (binop_execute op (vs ! a) (vs ! b))"
| "node_val e vs (FpBinOp op a b rc) = fp_binop_execute e op (vs ! a) (vs ! b) (ucast (vs ! rc))"
| "node_val e vs (FpUnOp op a rc) = fp_unop_execute e op (vs ! a) (ucast (vs ! rc))"
| "node_val e vs (UnOp op a) = unop_execute op (vs ! a)"
| "node_val e vs (Blend l r m) = (vs ! l AND NOT m) OR (vs ! r AND m)"
| "node_val e vs (Extract v skip tk) = wrapping_shr (vs ! v) (unat skip) AND mask (unat tk)"
| "node_val e vs (Ite c z n) = (if vs ! c = 0 then vs ! z else vs ! n)"
| "node_val e vs (LoadPtr ptr off sz) = load_val e ptr (unat (ucast (vs ! off) :: u64)) sz"
| "node_val e vs (LoadPtrImm ptr off sz) = load_val e ptr (unat off) sz"
| "node_val e vs InstrLen = instr_len_val e"
| "node_val e vs PartValues = part_values_val e"

definition V :: "env \<Rightarrow> ValBuilder \<Rightarrow> ValId \<Rightarrow> u128" where
  "V e b i = scan (node_val e) (value_tree b) ! i"

fun node_weight :: "nat list \<Rightarrow> ValNode \<Rightarrow> nat" where
  "node_weight ws (BinOp op a b) = 2 * ws ! a + 2 * ws ! b + 4"
| "node_weight ws (FpBinOp op a b rc) = ws ! a + ws ! b + ws ! rc + 1"
| "node_weight ws (FpUnOp op a rc) = ws ! a + ws ! rc + 1"
| "node_weight ws (UnOp op a) = ws ! a + 1"
| "node_weight ws (Blend l r m) = ws ! l + ws ! r + 1"
| "node_weight ws (Extract v skip tk) = 2 * ws ! v + 1"
| "node_weight ws (Ite c z n) = ws ! c + ws ! z + ws ! n + 1"
| "node_weight ws (LoadPtr ptr off sz) = ws ! off + 1"
| "node_weight ws _ = 1"

definition W :: "ValBuilder \<Rightarrow> ValId \<Rightarrow> nat" where
  "W b i = scan node_weight (value_tree b) ! i"

section \<open>Well-formed builders\<close>

text \<open>\<open>x + c\<close> or \<open>x - c\<close> with a constant right operand.\<close>

definition addsub_const :: "ValNode list \<Rightarrow> ValNode \<Rightarrow> bool" where
  "addsub_const ns n =
     (case binop_of n of
        Some (op, x, y) \<Rightarrow> (op = Add \<or> op = Sub) \<and> const_of (ns ! y) \<noteq> None
      | None \<Rightarrow> False)"

definition range_ok :: "u8 \<Rightarrow> u8 \<Rightarrow> bool" where
  "range_ok skip tk \<longleftrightarrow> unat skip < 128 \<and> 0 < unat tk \<and> unat skip + unat tk \<le> 128"

fun node_ok :: "ValNode list \<Rightarrow> ValNode \<Rightarrow> bool" where
  "node_ok ns (BinOp op x y) =
     (binop_valid op
      \<and> (\<forall>c. const_of (ns ! y) = Some c \<longrightarrow>
           (op = Shl \<longrightarrow> c < 128)
           \<and> (op = Add \<or> op = Sub \<longrightarrow> c \<noteq> 0 \<and> \<not> addsub_const ns (ns ! x))))"
| "node_ok ns (Extract v skip tk) = (range_ok skip tk \<and> extract_of (ns ! v) = None)"
| "node_ok ns (LoadPtrImm ptr off sz) = (unat off + ds_num_bytes sz \<le> 2 ^ 16)"
| "node_ok ns _ = True"

definition wf_tree :: "ValNode list \<Rightarrow> bool" where
  "wf_tree ns \<longleftrightarrow> (\<forall>i < length ns. (\<forall>j \<in> set (referenced_nodes (ns ! i)). j < i) \<and> node_ok ns (ns ! i))"

definition map_ok :: "ValBuilder \<Rightarrow> bool" where
  "map_ok b \<longleftrightarrow> (\<forall>n i. vmap b n = Some i \<longleftrightarrow> i < length (value_tree b) \<and> value_tree b ! i = n)"

definition wf_builder :: "ValBuilder \<Rightarrow> bool" where
  "wf_builder b \<longleftrightarrow> map_ok b \<and> wf_tree (value_tree b)"

abbreviation ids :: "ValBuilder \<Rightarrow> nat" where
  "ids b \<equiv> length (value_tree b)"

definition extends :: "ValBuilder \<Rightarrow> ValBuilder \<Rightarrow> bool" where
  "extends b b' \<longleftrightarrow> (\<exists>ms. value_tree b' = value_tree b @ ms)"

section \<open>Basic facts\<close>

lemma node_val_cong:
  "(\<And>j. j \<in> set (referenced_nodes n) \<Longrightarrow> vs ! j = vs' ! j) \<Longrightarrow> node_val e vs n = node_val e vs' n"
  by (cases n) auto

lemma node_weight_cong:
  "(\<And>j. j \<in> set (referenced_nodes n) \<Longrightarrow> ws ! j = ws' ! j) \<Longrightarrow> node_weight ws n = node_weight ws' n"
  by (cases n) auto

lemma wf_refs: "wf_builder b \<Longrightarrow> i < ids b \<Longrightarrow> j \<in> set (referenced_nodes (value_tree b ! i)) \<Longrightarrow> j < i"
  by (auto simp: wf_builder_def wf_tree_def)

lemma wf_node_ok: "wf_builder b \<Longrightarrow> i < ids b \<Longrightarrow> node_ok (value_tree b) (value_tree b ! i)"
  by (auto simp: wf_builder_def wf_tree_def)

lemma V_node: "wf_builder b \<Longrightarrow> i < ids b \<Longrightarrow>
    V e b i = node_val e (scan (node_val e) (value_tree b)) (value_tree b ! i)"
  unfolding V_def by (subst scan_nth, assumption) (rule node_val_cong, auto dest: wf_refs)

lemma W_node: "wf_builder b \<Longrightarrow> i < ids b \<Longrightarrow>
    W b i = node_weight (scan node_weight (value_tree b)) (value_tree b ! i)"
  unfolding W_def by (subst scan_nth, assumption) (rule node_weight_cong, auto dest: wf_refs)

lemma W_pos: "wf_builder b \<Longrightarrow> i < ids b \<Longrightarrow> 0 < W b i"
  by (simp add: W_node) (cases "value_tree b ! i"; simp)

lemma extends_refl [simp, intro]: "extends b b"
  by (simp add: extends_def)

lemma extends_trans [trans]: "extends a b \<Longrightarrow> extends b c \<Longrightarrow> extends a c"
  by (auto simp: extends_def)

lemma extends_ids: "extends b b' \<Longrightarrow> ids b \<le> ids b'"
  by (auto simp: extends_def)

lemma extends_node: "extends b b' \<Longrightarrow> i < ids b \<Longrightarrow> value_tree b' ! i = value_tree b ! i"
  by (auto simp: extends_def nth_append)

lemma extends_V: "extends b b' \<Longrightarrow> i < ids b \<Longrightarrow> V e b' i = V e b i"
  by (auto simp: extends_def V_def scan_append_nth)

lemma extends_W: "extends b b' \<Longrightarrow> i < ids b \<Longrightarrow> W b' i = W b i"
  by (auto simp: extends_def W_def scan_append_nth)

lemma extends_less: "extends b b' \<Longrightarrow> i < ids b \<Longrightarrow> i < ids b'"
  using extends_ids by fastforce

lemmas extends_simps = extends_node extends_V extends_W extends_less

section \<open>Pattern lemmas\<close>

lemma const_of_Some [simp]: "const_of n = Some c \<longleftrightarrow> n = Const c"
  by (cases n) auto

lemma const_of_None: "const_of n = None \<longleftrightarrow> (\<forall>c. n \<noteq> Const c)"
  by (cases n) auto

lemma binop_of_Some [simp]: "binop_of n = Some (op, x, y) \<longleftrightarrow> n = BinOp op x y"
  by (cases n) auto

lemma args_of_Some [simp]: "args_of op n = Some (x, y) \<longleftrightarrow> n = BinOp op x y"
  by (cases n) (auto simp: args_of_def)

lemma args_of_None: "args_of op n = None \<longleftrightarrow> (\<forall>x y. n \<noteq> BinOp op x y)"
  by (metis args_of_Some not_Some_eq option.distinct(1) surj_pair)

lemma blend_of_Some [simp]: "blend_of n = Some (l, r, m) \<longleftrightarrow> n = Blend l r m"
  by (cases n) auto

lemma extract_of_Some [simp]: "extract_of n = Some (v, s, t) \<longleftrightarrow> n = Extract v s t"
  by (cases n) auto

lemma ite_of_Some [simp]: "ite_of n = Some (c, z, m) \<longleftrightarrow> n = Ite c z m"
  by (cases n) auto

lemma low_extract_Some:
  "low_extract skip tk n = Some v \<longleftrightarrow> (\<exists>t. n = Extract v 0 t \<and> skip = 0 \<and> tk \<le> t)"
  by (cases n) (auto simp: low_extract_def)

lemma bitmask_u128_mask: "n \<le> 128 \<Longrightarrow> bitmask_u128 n = Some (mask n)"
  by (auto simp: bitmask_u128_def bits bit_simps)

section \<open>Memory reads\<close>

lemma bit_load_bytes:
  assumes "n \<le> 16"
  shows "bit (load_bytes mem off n) i \<longleftrightarrow> i < 8 * n \<and> bit (mem (off + i div 8)) (i mod 8)"
proof -
  have "bit (foldr (\<lambda>j acc. push_bit (8 * j) (ucast (mem (off + j)) :: u128) OR acc) js 0) i
      \<longleftrightarrow> (\<exists>j \<in> set js. 8 * j \<le> i \<and> i - 8 * j < 8 \<and> bit (mem (off + j)) (i - 8 * j))"
    if "\<forall>j \<in> set js. 8 * j + 8 \<le> 128" for js
    using that by (induction js) (auto simp: bit_simps dest: bit_imp_le_length)
  moreover have "\<forall>j \<in> set [0..<n]. 8 * j + 8 \<le> 128" using assms by auto
  ultimately have "bit (load_bytes mem off n) i \<longleftrightarrow>
      (\<exists>j < n. 8 * j \<le> i \<and> i - 8 * j < 8 \<and> bit (mem (off + j)) (i - 8 * j))"
    by (simp add: load_bytes_def Bex_def)
  also have "\<dots> \<longleftrightarrow> (\<exists>j < n. j = i div 8 \<and> bit (mem (off + j)) (i - 8 * j))"
    using byte_index [of _ i] by blast
  also have "\<dots> \<longleftrightarrow> i div 8 < n \<and> bit (mem (off + i div 8)) (i - 8 * (i div 8))"
    by blast
  also have "(i div 8 < n) = (i < 8 * n)" by (rule iffI; linarith)
  finally show ?thesis by (simp add: minus_mult_div_eq_mod)
qed

lemma ds_num_bytes_le: "ds_num_bytes sz \<le> 16"
  by (cases sz) auto

lemma bit_load_val:
  "bit (load_val e ptr off sz) i \<longleftrightarrow> i < ds_num_bits sz \<and> bit (mem_byte e ptr (off + i div 8)) (i mod 8)"
  by (simp add: load_val_def bit_load_bytes ds_num_bytes_le ds_num_bits_def mult.commute)

end
