(* ===== verification/MIR_Contract.thy ===== *)
theory MIR_Contract
  imports MIR_Sem
begin

text \<open>
  Correctness of the value builder: every simplification of \<open>binop\<close>, \<open>extract\<close>, \<open>ite\<close>, \<open>unop\<close> and
  \<open>combine_old_and_new\<close> keeps the value of the expression it is asked for, in every environment;
  the builder stays well-formed, existing nodes keep their values, and the mutual recursion of
  \<open>binop\<close> and \<open>extract\<close> ends, with a bound given by the weight of the operands.

  The locale \<open>val_recursion\<close> is the interface between one unfolding of the two functions and their
  recursive calls; it is interpreted on the functions themselves once the induction is done.
\<close>

section \<open>Contracts\<close>

text \<open>\<open>good b v w b' i\<close>: the builder \<open>b'\<close> is well-formed, extends \<open>b\<close>, and its node \<open>i\<close> has the value
  \<open>v\<close> and a weight of at most \<open>w\<close>.\<close>

definition good :: "ValBuilder \<Rightarrow> (env \<Rightarrow> u128) \<Rightarrow> nat \<Rightarrow> ValBuilder \<Rightarrow> ValId \<Rightarrow> bool" where
  "good b v w b' i \<longleftrightarrow> wf_builder b' \<and> extends b b' \<and> i < ids b' \<and> (\<forall>e. V e b' i = v e) \<and> W b' i \<le> w"

text \<open>A call returns a good node, panics because the table of nodes is full, or (when \<open>F\<close> allows it)
  runs out of fuel.\<close>

definition ok_res :: "ValBuilder \<Rightarrow> (env \<Rightarrow> u128) \<Rightarrow> nat \<Rightarrow> bool \<Rightarrow> ValId outcome \<Rightarrow> bool" where
  "ok_res b v w F r =
     (case r of
        Done b' i \<Rightarrow> good b v w b' i
      | Panic b' \<Rightarrow> extends b b' \<and> 2 ^ 32 \<le> ids b'
      | NoFuel \<Rightarrow> F)"

lemma ok_res_Done [simp]: "ok_res b v w F (Done b' i) \<longleftrightarrow> good b v w b' i"
  by (simp add: ok_res_def)

lemma ok_res_NoFuel [simp]: "ok_res b v w F NoFuel \<longleftrightarrow> F"
  by (simp add: ok_res_def)

lemma goodD:
  assumes "good b v w b' i"
  shows "wf_builder b'" "extends b b'" "i < ids b'" "\<And>e. V e b' i = v e" "W b' i \<le> w"
  using assms by (auto simp: good_def)

lemma good_self: "wf_builder b \<Longrightarrow> i < ids b \<Longrightarrow> (\<And>e. V e b i = v e) \<Longrightarrow> W b i \<le> w \<Longrightarrow> good b v w b i"
  by (simp add: good_def)

lemma ok_res_weaken:
  "ok_res b v w F r \<Longrightarrow> (\<And>e. v e = v' e) \<Longrightarrow> w \<le> w' \<Longrightarrow> (F \<Longrightarrow> F') \<Longrightarrow> ok_res b v' w' F' r"
  by (auto simp: ok_res_def good_def split: outcome.splits)

lemma ok_res_extends: "extends a b \<Longrightarrow> ok_res b v w F r \<Longrightarrow> ok_res a v w F r"
  by (auto simp: ok_res_def good_def split: outcome.splits intro: extends_trans)

lemma ok_and_then:
  assumes "ok_res b v1 w1 F1 r" and "F1 \<Longrightarrow> F"
    and "\<And>b1 i. r = Done b1 i \<Longrightarrow> good b v1 w1 b1 i \<Longrightarrow> ok_res b1 v w F (k b1 i)"
  shows "ok_res b v w F (and_then r k)"
proof (cases r)
  case (Done b1 i)
  with assms(1) have "good b v1 w1 b1 i" by simp
  with assms(3) [OF Done] have "extends b b1" "ok_res b1 v w F (k b1 i)" by (auto simp: good_def)
  then show ?thesis using Done by (simp add: and_then_def ok_res_extends)
qed (use assms(1,2) in \<open>auto simp: and_then_def ok_res_def\<close>)

lemma with_node_in [simp]: "i < ids b \<Longrightarrow> with_node b i k = k (value_tree b ! i)"
  by (simp add: with_node_def)

lemma with_bitmask_in [simp]: "n \<le> 128 \<Longrightarrow> with_bitmask b n k = k (mask n)"
  by (simp add: with_bitmask_def bitmask_u128_mask)

section \<open>Nodes of a well-formed builder\<close>

lemma node_refs:
  "wf_builder b \<Longrightarrow> i < ids b \<Longrightarrow> j \<in> set (referenced_nodes (value_tree b ! i)) \<Longrightarrow> j < ids b"
  by (meson less_trans wf_refs)

lemma at_BinOp:
  assumes "wf_builder b" "i < ids b" "value_tree b ! i = BinOp op x y"
  shows "x < ids b" "y < ids b" "V e b i = the (binop_execute op (V e b x) (V e b y))"
    "W b i = 2 * W b x + 2 * W b y + 4" "binop_valid op"
  using assms node_refs [of b i] V_node [of b i e] W_node [of b i] wf_node_ok [of b i]
  by (auto simp: V_def W_def)

lemma at_Const:
  assumes "wf_builder b" "i < ids b" "value_tree b ! i = Const c"
  shows "V e b i = c" "W b i = 1"
  using assms V_node [of b i e] W_node [of b i] by auto

lemma at_Extract:
  assumes "wf_builder b" "i < ids b" "value_tree b ! i = Extract v s t"
  shows "v < ids b" "V e b i = take_bit (unat t) (drop_bit (unat s) (V e b v))"
    "W b i = 2 * W b v + 1" "range_ok s t" "extract_of (value_tree b ! v) = None"
proof -
  have ok: "range_ok s t" "extract_of (value_tree b ! v) = None"
    using wf_node_ok [OF assms(1,2)] assms(3) by auto
  show "v < ids b" "W b i = 2 * W b v + 1" "range_ok s t" "extract_of (value_tree b ! v) = None"
    using assms node_refs [of b i] W_node [of b i] ok by (auto simp: W_def)
  show "V e b i = take_bit (unat t) (drop_bit (unat s) (V e b v))"
    using assms V_node [of b i e] ok(1)
    by (simp add: V_def wrapping_shr_def range_ok_def take_bit_eq_mask)
qed

lemma at_Blend:
  assumes "wf_builder b" "i < ids b" "value_tree b ! i = Blend l r m"
  shows "l < ids b" "r < ids b" "V e b i = (V e b l AND NOT m) OR (V e b r AND m)"
    "W b i = W b l + W b r + 1"
  using assms node_refs [of b i] V_node [of b i e] W_node [of b i] by (auto simp: V_def W_def)

lemma at_Ite:
  assumes "wf_builder b" "i < ids b" "value_tree b ! i = Ite c z n"
  shows "c < i" "z < i" "n < i" "V e b i = (if V e b c = 0 then V e b z else V e b n)"
    "W b i = W b c + W b z + W b n + 1"
  using assms wf_refs [of b i] V_node [of b i e] W_node [of b i] by (auto simp: V_def W_def)

lemma at_UnOp:
  assumes "wf_builder b" "i < ids b" "value_tree b ! i = UnOp op a"
  shows "a < i" "V e b i = unop_execute op (V e b a)" "W b i = W b a + 1"
  using assms wf_refs [of b i] V_node [of b i e] W_node [of b i] by (auto simp: V_def W_def)

lemma at_LoadPtr:
  assumes "wf_builder b" "i < ids b" "value_tree b ! i = LoadPtr ptr off sz"
  shows "off < ids b" "V e b i = load_val e ptr (unat (ucast (V e b off) :: u64)) sz" "W b i = W b off + 1"
  using assms node_refs [of b i] V_node [of b i e] W_node [of b i] by (auto simp: V_def W_def)

lemma at_LoadPtrImm:
  assumes "wf_builder b" "i < ids b" "value_tree b ! i = LoadPtrImm ptr off sz"
  shows "V e b i = load_val e ptr (unat off) sz" "W b i = 1" "unat off + ds_num_bytes sz \<le> 2 ^ 16"
  using assms V_node [of b i e] W_node [of b i] wf_node_ok [of b i] by (auto simp: V_def W_def)

section \<open>Interning a node\<close>

lemma addsub_const_append:
  "set (referenced_nodes n) \<subseteq> {..<length ns} \<Longrightarrow> addsub_const (ns @ ms) n = addsub_const ns n"
  by (cases n) (auto simp: addsub_const_def nth_append)

lemma node_ok_append:
  assumes "wf_tree ns" "set (referenced_nodes n) \<subseteq> {..<length ns}"
  shows "node_ok (ns @ ms) n = node_ok ns n"
proof -
  have "addsub_const (ns @ ms) (ns ! x) = addsub_const ns (ns ! x)" if "x < length ns" for x
    using assms(1) that by (intro addsub_const_append) (force simp: wf_tree_def)
  then show ?thesis using assms(2) by (cases n) (auto simp: nth_append)
qed

lemma wf_tree_snoc:
  assumes wf: "wf_tree ns" and refs: "set (referenced_nodes n) \<subseteq> {..<length ns}" and ok: "node_ok ns n"
  shows "wf_tree (ns @ [n])"
proof -
  have sub: "set (referenced_nodes (ns ! i)) \<subseteq> {..<length ns}" if "i < length ns" for i
    using wf that by (fastforce simp: wf_tree_def)
  show ?thesis
    using wf refs ok node_ok_append [OF wf refs, of "[n]"] node_ok_append [OF wf sub, of _ "[n]"]
    by (auto simp: wf_tree_def nth_append less_Suc_eq)
qed

lemma get_or_insert_existing:
  assumes "wf_builder b" "i < ids b"
  shows "get_or_insert b (value_tree b ! i) = Done b i"
proof -
  have "vmap b (value_tree b ! i) = Some i" using assms by (simp add: wf_builder_def map_ok_def)
  then show ?thesis by (simp add: get_or_insert_def)
qed

lemma get_or_insert_node:
  "wf_builder b \<Longrightarrow> get_or_insert b n = Done b' i \<Longrightarrow> value_tree b' ! i = n"
  by (auto simp: get_or_insert_def wf_builder_def map_ok_def Let_def split: option.splits if_splits)

lemma get_or_insert_ok:
  assumes wf: "wf_builder b" and refs: "set (referenced_nodes n) \<subseteq> {..<ids b}"
    and ok: "node_ok (value_tree b) n"
    and v: "\<And>e. node_val e (scan (node_val e) (value_tree b)) n = v e"
    and w: "node_weight (scan node_weight (value_tree b)) n \<le> w"
  shows "ok_res b v w F (get_or_insert b n)"
proof (cases "vmap b n")
  case (Some i)
  then have "i < ids b" "value_tree b ! i = n" using wf by (auto simp: wf_builder_def map_ok_def)
  then show ?thesis
    using Some wf v w by (simp add: get_or_insert_def good_def V_node W_node)
next
  case None
  let ?b = "b\<lparr>value_tree := value_tree b @ [n], vmap := (vmap b)(n \<mapsto> ids b)\<rparr>"
  have new: "\<forall>i < ids b. value_tree b ! i \<noteq> n"
    using None wf by (auto simp: wf_builder_def map_ok_def) (metis option.distinct(1))
  have "map_ok ?b" using wf new by (auto simp: wf_builder_def map_ok_def nth_append less_Suc_eq)
  moreover have "wf_tree (value_tree ?b)" using wf refs ok by (simp add: wf_builder_def wf_tree_snoc)
  ultimately have "wf_builder ?b" by (simp add: wf_builder_def)
  then show ?thesis
    using None v w by (auto simp: get_or_insert_def Let_def ok_res_def good_def extends_def V_def W_def nth_append)
qed

lemma imm_ok: "wf_builder b \<Longrightarrow> ok_res b (\<lambda>_. c) 1 F (imm b c)"
  unfolding imm_def by (rule get_or_insert_ok) auto

lemma imm_Done: "wf_builder b \<Longrightarrow> imm b c = Done b1 i \<Longrightarrow> value_tree b1 ! i = Const c"
  unfolding imm_def by (rule get_or_insert_node)

text \<open>A node whose children are all in the table, by kind.\<close>

lemma insert_BinOp_ok:
  assumes "wf_builder b" "x < ids b" "y < ids b" "binop_valid op"
    and "\<And>c. value_tree b ! y = Const c \<Longrightarrow>
           (op = Shl \<longrightarrow> c < 128) \<and> (op = Add \<or> op = Sub \<longrightarrow> c \<noteq> 0 \<and> \<not> addsub_const (value_tree b) (value_tree b ! x))"
    and "\<And>e. the (binop_execute op (V e b x) (V e b y)) = v e" and "2 * W b x + 2 * W b y + 4 \<le> w"
  shows "ok_res b v w F (get_or_insert b (BinOp op x y))"
  using assms by (intro get_or_insert_ok) (auto simp flip: V_def W_def)

lemma insert_Extract_ok:
  assumes "wf_builder b" "x < ids b" "range_ok s t" "extract_of (value_tree b ! x) = None"
    and "\<And>e. take_bit (unat t) (drop_bit (unat s) (V e b x)) = v e" and "2 * W b x + 1 \<le> w"
  shows "ok_res b v w F (get_or_insert b (Extract x s t))"
  using assms
  by (intro get_or_insert_ok) (auto simp: V_def W_def wrapping_shr_def range_ok_def take_bit_eq_mask)

lemma insert_Ite_ok:
  assumes "wf_builder b" "c < ids b" "z < ids b" "n < ids b"
    and "\<And>e. (if V e b c = 0 then V e b z else V e b n) = v e" and "W b c + W b z + W b n + 1 \<le> w"
  shows "ok_res b v w F (get_or_insert b (Ite c z n))"
  using assms by (intro get_or_insert_ok) (simp_all flip: V_def W_def add: assms(5) [symmetric])

lemma insert_Blend_ok:
  assumes "wf_builder b" "x < ids b" "y < ids b"
    and "\<And>e. (V e b x AND NOT m) OR (V e b y AND m) = v e" and "W b x + W b y + 1 \<le> w"
  shows "ok_res b v w F (get_or_insert b (Blend x y m))"
  using assms by (intro get_or_insert_ok) (auto simp flip: V_def W_def)

section \<open>The recursion interface\<close>

text \<open>What a caller of \<open>binop\<close> guarantees: a valid operator, and no shift by a constant of 128 or
  more (the bit range \<open>128..\<close> does not exist).\<close>

definition binop_pre :: "ValBuilder \<Rightarrow> BinOp \<Rightarrow> ValId \<Rightarrow> bool" where
  "binop_pre b op y \<longleftrightarrow>
     binop_valid op \<and> (op = Shl \<or> op = Shr \<longrightarrow> (\<forall>c. value_tree b ! y = Const c \<longrightarrow> c < 128))"

definition bval :: "ValBuilder \<Rightarrow> BinOp \<Rightarrow> ValId \<Rightarrow> ValId \<Rightarrow> env \<Rightarrow> u128" where
  "bval b op x y e = the (binop_execute op (V e b x) (V e b y))"

definition bwt :: "ValBuilder \<Rightarrow> ValId \<Rightarrow> ValId \<Rightarrow> nat" where
  "bwt b x y = 2 * W b x + 2 * W b y + 4"

definition xval :: "ValBuilder \<Rightarrow> ValId \<Rightarrow> u8 \<Rightarrow> u8 \<Rightarrow> env \<Rightarrow> u128" where
  "xval b v s t e = take_bit (unat t) (drop_bit (unat s) (V e b v))"

definition xwt :: "ValBuilder \<Rightarrow> ValId \<Rightarrow> nat" where
  "xwt b v = 2 * W b v + 1"

text \<open>An extraction that reaches beyond a loaded value is cropped first, by one extra call.\<close>

definition crop :: "ValBuilder \<Rightarrow> ValId \<Rightarrow> u8 \<Rightarrow> u8 \<Rightarrow> nat" where
  "crop b v s t =
     (case load_size (value_tree b ! v) of
        Some sz \<Rightarrow> if ds_num_bits sz < unat s + unat t then 1 else 0
      | None \<Rightarrow> 0)"

definition binop_ok :: "nat \<Rightarrow> binop_fun \<Rightarrow> bool" where
  "binop_ok n rb \<longleftrightarrow>
     (\<forall>b op x y. wf_builder b \<longrightarrow> x < ids b \<longrightarrow> y < ids b \<longrightarrow> binop_pre b op y \<longrightarrow>
        ok_res b (bval b op x y) (bwt b x y) (n < 2 * bwt b x y) (rb b op x y)
        \<and> (\<forall>b' i c. op = Shl \<longrightarrow> value_tree b ! y = Const c \<longrightarrow> c \<noteq> 0 \<longrightarrow> rb b op x y = Done b' i \<longrightarrow>
             extract_of (value_tree b' ! i) = None))"

definition extract_ok :: "nat \<Rightarrow> extract_fun \<Rightarrow> bool" where
  "extract_ok n re \<longleftrightarrow>
     (\<forall>b v s t. wf_builder b \<longrightarrow> v < ids b \<longrightarrow> range_ok s t \<longrightarrow>
        ok_res b (xval b v s t) (xwt b v) (n < 2 * xwt b v + crop b v s t) (re b v s t))"

lemma crop_le: "crop b v s t \<le> 1"
  by (auto simp: crop_def split: option.splits)

lemma binop_pre_easy: "binop_valid op \<Longrightarrow> op \<noteq> Shl \<Longrightarrow> op \<noteq> Shr \<Longrightarrow> binop_pre b op y"
  by (simp add: binop_pre_def)

locale val_recursion =
  fixes n :: nat and rb :: binop_fun and re :: extract_fun
  assumes binop_contract: "binop_ok n rb" and extract_contract: "extract_ok n re"
begin

lemma rb_ok:
  assumes "wf_builder b" "x < ids b" "y < ids b" "binop_pre b op y"
  shows "ok_res b (bval b op x y) (bwt b x y) (n < 2 * bwt b x y) (rb b op x y)"
  using binop_contract assms by (auto simp: binop_ok_def)

lemma rb_Shl_shape:
  assumes "wf_builder b" "x < ids b" "y < ids b" "value_tree b ! y = Const c" "c \<noteq> 0" "c < 128"
    "rb b Shl x y = Done b' i"
  shows "extract_of (value_tree b' ! i) = None"
proof -
  have "binop_pre b Shl y" using assms by (simp add: binop_pre_def)
  then show ?thesis using binop_contract assms unfolding binop_ok_def by blast
qed

lemma re_ok:
  assumes "wf_builder b" "v < ids b" "range_ok s t"
  shows "ok_res b (xval b v s t) (xwt b v) (n < 2 * xwt b v + 1) (re b v s t)"
proof -
  have "ok_res b (xval b v s t) (xwt b v) (n < 2 * xwt b v + crop b v s t) (re b v s t)"
    using extract_contract assms by (auto simp: extract_ok_def)
  then show ?thesis by (rule ok_res_weaken) (use crop_le [of b v s t] in auto)
qed

lemma re_binop_r_ok:
  assumes "wf_builder b" "x < ids b" "binop_valid op" "op = Shl \<or> op = Shr \<longrightarrow> c < 128"
    and "\<And>e. the (binop_execute op (V e b x) c) = v e" "2 * W b x + 6 \<le> w" "n < 2 * (2 * W b x + 6) \<Longrightarrow> F"
  shows "ok_res b v w F (re_binop_r rb b op x c)"
  unfolding re_binop_r_def
proof (rule ok_and_then [OF imm_ok [OF assms(1)]])
  fix b1 i assume im: "imm b c = Done b1 i" and g: "good b (\<lambda>_. c) 1 b1 i"
  note d = goodD [OF g]
  have node: "value_tree b1 ! i = Const c" by (rule imm_Done [OF assms(1) im])
  have wt: "bwt b1 x i \<le> 2 * W b x + 6" using d assms(2) by (simp add: bwt_def extends_simps)
  show "ok_res b1 v w F (rb b1 op x i)"
  proof (rule ok_res_weaken [OF rb_ok])
    show "binop_pre b1 op i" using assms(3,4) node by (auto simp: binop_pre_def)
    show "bval b1 op x i e = v e" for e using assms(2,5) d by (simp add: bval_def extends_simps)
  qed (use d assms(2,6,7) wt in \<open>auto simp: extends_simps\<close>)
qed simp

lemma re_binop_l_ok:
  assumes "wf_builder b" "x < ids b" "binop_valid op" "op \<noteq> Shl" "op \<noteq> Shr"
    and "\<And>e. the (binop_execute op c (V e b x)) = v e" "2 * W b x + 6 \<le> w" "n < 2 * (2 * W b x + 6) \<Longrightarrow> F"
  shows "ok_res b v w F (re_binop_l rb b op c x)"
  unfolding re_binop_l_def
proof (rule ok_and_then [OF imm_ok [OF assms(1)]])
  fix b1 i assume "imm b c = Done b1 i" and g: "good b (\<lambda>_. c) 1 b1 i"
  note d = goodD [OF g]
  have wt: "bwt b1 i x \<le> 2 * W b x + 6" using d assms(2) by (simp add: bwt_def extends_simps)
  show "ok_res b1 v w F (rb b1 op i x)"
  proof (rule ok_res_weaken [OF rb_ok])
    show "bval b1 op i x e = v e" for e using assms(2,6) d by (simp add: bval_def extends_simps)
  qed (use d assms wt in \<open>auto simp: extends_simps intro: binop_pre_easy\<close>)
qed simp

end

text \<open>The default arm inserts the operation as it is.\<close>

lemma plain_binop_ok:
  assumes "wf_builder b" "x < ids b" "y < ids b" "binop_pre b op y"
    and "\<And>c. op = Add \<or> op = Sub \<Longrightarrow> value_tree b ! y = Const c \<Longrightarrow>
           c \<noteq> 0 \<and> \<not> addsub_const (value_tree b) (value_tree b ! x)"
  shows "ok_res b (bval b op x y) (bwt b x y) F (plain_binop b op x y)"
  unfolding plain_binop_def using assms
  by (intro insert_BinOp_ok) (auto simp: bval_def bwt_def binop_pre_def)

lemma addsub_const_BinOp:
  "addsub_const ns (BinOp op x y) \<longleftrightarrow> (op = Add \<or> op = Sub) \<and> (\<exists>c. ns ! y = Const c)"
  by (cases "ns ! y") (auto simp: addsub_const_def)

lemma not_addsub_const: "args_of Add n = None \<Longrightarrow> args_of Sub n = None \<Longrightarrow> \<not> addsub_const ns n"
  by (cases n) (auto simp: addsub_const_def args_of_def split: if_splits)

lemma existing_ok:
  assumes "wf_builder b" "i < ids b" "value_tree b ! i = nd" "\<And>e. V e b i = v e" "W b i \<le> w"
  shows "ok_res b v w F (get_or_insert b nd)"
  using assms get_or_insert_existing [of b i] by (simp add: good_self)

lemma const_ok: "wf_builder b \<Longrightarrow> (\<And>e. v e = c) \<Longrightarrow> 1 \<le> w \<Longrightarrow> ok_res b v w F (get_or_insert b (Const c))"
  by (rule get_or_insert_ok) auto

text \<open>An operator other than \<open>Add\<close>, \<open>Sub\<close> and \<open>Shl\<close> applied to an interned constant.\<close>

lemma imm_BinOp_ok:
  assumes "wf_builder b" "x < ids b" "binop_valid op" "op \<noteq> Add" "op \<noteq> Sub" "op \<noteq> Shl"
    and "\<And>e. the (binop_execute op (V e b x) c) = v e" "2 * W b x + 6 \<le> w"
  shows "ok_res b v w F (and_then (imm b c) (\<lambda>b1 i. get_or_insert b1 (BinOp op x i)))"
proof (rule ok_and_then [OF imm_ok [OF assms(1)]])
  fix b1 i assume g: "good b (\<lambda>_. c) 1 b1 i"
  note d = goodD [OF g]
  show "ok_res b1 v w F (get_or_insert b1 (BinOp op x i))"
    using d assms by (intro insert_BinOp_ok) (auto simp: extends_simps)
qed simp

context val_recursion
begin

lemma binop_add_ok:
  assumes wf: "wf_builder b" and a: "a0 < ids b" "a1 < ids b"
  shows "ok_res b (bval b Add a0 a1) (bwt b a0 a1) (Suc n < 2 * bwt b a0 a1)
           (binop_add rb b a0 a1 (value_tree b ! a0) (value_tree b ! a1))"
proof -
  let ?n0 = "value_tree b ! a0" and ?n1 = "value_tree b ! a1"
  let ?G = "ok_res b (bval b Add a0 a1) (bwt b a0 a1) (Suc n < 2 * bwt b a0 a1)
              (binop_add rb b a0 a1 ?n0 ?n1)"
  have plain: "ok_res b (bval b Add a0 a1) (bwt b a0 a1) (Suc n < 2 * bwt b a0 a1) (plain_binop b Add a0 a1)"
    if "\<And>c. ?n1 = Const c \<Longrightarrow> c \<noteq> 0 \<and> \<not> addsub_const (value_tree b) ?n0"
    using that wf a by (intro plain_binop_ok) (auto simp: binop_pre_def)
  note V0 = at_BinOp [OF wf a(1)] and C1 = at_Const [OF wf a(2)]
  consider "?n0 = Const 0 \<or> ?n1 = Const 0" | "?n0 \<noteq> Const 0" "const_of ?n1 = None"
    | c1 where "?n0 \<noteq> Const 0" "?n1 = Const c1" "c1 \<noteq> 0" by (cases "const_of ?n1") auto
  then show ?thesis
  proof cases
    case 1
    then show ?thesis
      using at_Const [OF wf a(1)] at_Const [OF wf a(2)] existing_ok [OF wf a(1) refl] existing_ok [OF wf a(2) refl]
      by (auto simp: binop_add_def bval_def bwt_def)
  next
    case 2
    then show ?thesis using plain by (auto simp: binop_add_def const_of_None split: option.split)
  next
    case (3 c1)
    then have v1: "V e b a1 = c1" "W b a1 = 1" for e using C1 by auto
    consider (add) i0 i1 where "?n0 = BinOp Add i0 i1" | (sub) i0 i1 where "?n0 = BinOp Sub i0 i1"
      | (other) "args_of Add ?n0 = None" "args_of Sub ?n0 = None"
      by (metis args_of_Some option.exhaust surj_pair)
    then show ?thesis
    proof cases
      case add
      note f = V0 [OF add]
      show ?thesis
        using 3 add f v1 at_Const [OF wf f(1)] at_Const [OF wf f(2)] wf
        by (auto simp: binop_add_def args_of_def addsub_const_BinOp const_of_None split: option.split
              intro!: re_binop_r_ok re_binop_l_ok plain; simp add: bval_def bwt_def algebra_simps)
    next
      case sub
      note f = V0 [OF sub]
      show ?thesis
        using 3 sub f v1 at_Const [OF wf f(1)] at_Const [OF wf f(2)] wf
        by (auto simp: binop_add_def args_of_def addsub_const_BinOp const_of_None split: option.split
              intro!: re_binop_r_ok re_binop_l_ok plain; simp add: bval_def bwt_def algebra_simps)
    next
      case other
      then show ?thesis using 3 plain not_addsub_const by (auto simp: binop_add_def)
    qed
  qed
qed

lemma binop_sub_ok:
  assumes wf: "wf_builder b" and a: "a0 < ids b" "a1 < ids b"
  shows "ok_res b (bval b Sub a0 a1) (bwt b a0 a1) (Suc n < 2 * bwt b a0 a1)
           (binop_sub rb b a0 a1 (value_tree b ! a0) (value_tree b ! a1))"
proof -
  let ?n0 = "value_tree b ! a0" and ?n1 = "value_tree b ! a1"
  have plain: "ok_res b (bval b Sub a0 a1) (bwt b a0 a1) (Suc n < 2 * bwt b a0 a1) (plain_binop b Sub a0 a1)"
    if "\<And>c. ?n1 = Const c \<Longrightarrow> c \<noteq> 0 \<and> \<not> addsub_const (value_tree b) ?n0"
    using that wf a by (intro plain_binop_ok) (auto simp: binop_pre_def)
  note V0 = at_BinOp [OF wf a(1)] and C1 = at_Const [OF wf a(2)]
  have same: "V e b a0 = V e b a1" if "?n0 = ?n1" for e using that V_node [OF wf] a by simp
  consider "?n1 = Const 0" | "?n1 \<noteq> Const 0" "?n0 = ?n1" | "const_of ?n1 = None" "?n0 \<noteq> ?n1"
    | c1 where "?n0 \<noteq> ?n1" "?n1 = Const c1" "c1 \<noteq> 0" by (cases "const_of ?n1") auto
  then show ?thesis
  proof cases
    case 1
    then show ?thesis
      using at_Const [OF wf a(2)] existing_ok [OF wf a(1) refl] by (auto simp: binop_sub_def bval_def bwt_def)
  next
    case 2
    then show ?thesis using wf same by (auto simp: binop_sub_def bval_def bwt_def intro!: const_ok)
  next
    case 3
    then show ?thesis using plain by (auto simp: binop_sub_def const_of_None split: option.split)
  next
    case (4 c1)
    then have v1: "V e b a1 = c1" "W b a1 = 1" for e using C1 by auto
    consider (add) i0 i1 where "?n0 = BinOp Add i0 i1" | (sub) i0 i1 where "?n0 = BinOp Sub i0 i1"
      | (other) "args_of Add ?n0 = None" "args_of Sub ?n0 = None"
      by (metis args_of_Some option.exhaust surj_pair)
    then show ?thesis
    proof cases
      case add
      note f = V0 [OF add]
      show ?thesis
        using 4 add f v1 at_Const [OF wf f(1)] at_Const [OF wf f(2)] wf
        by (auto simp: binop_sub_def args_of_def addsub_const_BinOp const_of_None split: option.split
              intro!: re_binop_r_ok re_binop_l_ok plain; simp add: bval_def bwt_def algebra_simps)
    next
      case sub
      note f = V0 [OF sub]
      show ?thesis
        using 4 sub f v1 at_Const [OF wf f(1)] at_Const [OF wf f(2)] wf
        by (auto simp: binop_sub_def args_of_def addsub_const_BinOp const_of_None split: option.split
              intro!: re_binop_r_ok re_binop_l_ok plain; simp add: bval_def bwt_def algebra_simps)
    next
      case other
      then show ?thesis using 4 plain not_addsub_const by (auto simp: binop_sub_def)
    qed
  qed
qed

end

lemma plain_binop_easy_ok:
  assumes "wf_builder b" "x < ids b" "y < ids b" "binop_pre b op y" "op \<noteq> Add" "op \<noteq> Sub"
  shows "ok_res b (bval b op x y) (bwt b x y) F (plain_binop b op x y)"
  using assms by (intro plain_binop_ok) auto

lemma binop_or_ok:
  assumes wf: "wf_builder b" and a: "a0 < ids b" "a1 < ids b"
  shows "ok_res b (bval b Or a0 a1) (bwt b a0 a1) F (binop_or b a0 a1 (value_tree b ! a0) (value_tree b ! a1))"
proof -
  let ?n0 = "value_tree b ! a0" and ?n1 = "value_tree b ! a1"
  note plain = plain_binop_easy_ok [OF wf a binop_pre_easy, of Or F, simplified]
  consider "?n0 = Const 0 \<or> ?n1 = Const 0" | "?n0 \<noteq> Const 0" "?n1 \<noteq> Const 0" "args_of Or ?n0 = None \<or> const_of ?n1 = None"
    | i0 i1 c1 where "?n1 \<noteq> Const 0" "?n0 = BinOp Or i0 i1" "?n1 = Const c1"
    by (metis args_of_Some const_of_Some option.exhaust surj_pair)
  then show ?thesis
  proof cases
    case 1
    then show ?thesis
      using at_Const [OF wf a(1)] at_Const [OF wf a(2)] existing_ok [OF wf a(1) refl] existing_ok [OF wf a(2) refl]
      by (auto simp: binop_or_def bval_def bwt_def)
  next
    case 2
    then show ?thesis using plain by (auto simp: binop_or_def const_of_None args_of_None split: option.split)
  next
    case (3 i0 i1 c1)
    note f = at_BinOp [OF wf a(1) 3(2)]
    show ?thesis
      using 3 f at_Const [OF wf a(2)] at_Const [OF wf f(1)] at_Const [OF wf f(2)] wf plain
      by (auto simp: binop_or_def args_of_def bval_def bwt_def or.assoc or.commute or.left_commute
          split: option.split intro!: imm_BinOp_ok)
  qed
qed

lemma binop_xor_ok:
  assumes wf: "wf_builder b" and a: "a0 < ids b" "a1 < ids b"
  shows "ok_res b (bval b Xor a0 a1) (bwt b a0 a1) F (binop_xor b a0 a1 (value_tree b ! a0) (value_tree b ! a1))"
proof -
  let ?n0 = "value_tree b ! a0" and ?n1 = "value_tree b ! a1"
  have "V e b a0 = V e b a1" if "?n0 = ?n1" for e using that V_node [OF wf] a by simp
  then show ?thesis
    using at_Const [OF wf a(1)] at_Const [OF wf a(2)] existing_ok [OF wf a(1) refl] existing_ok [OF wf a(2) refl]
      plain_binop_easy_ok [OF wf a binop_pre_easy, of Xor F, simplified] wf
    by (auto simp: binop_xor_def bval_def bwt_def intro!: const_ok)
qed

end
