(* ===== verification/MIR_Binop.thy ===== *)
theory MIR_Binop
  imports MIR_Contract
begin

text \<open>
  One unfolding of \<open>ValBuilder::binop\<close> keeps the contract of \<open>MIR_Contract\<close>: the masks (\<open>x & c\<close>), the
  equality solver of comparisons, and the whole \<open>match\<close>.
\<close>

section \<open>Masks\<close>

lemma one_bit_val:
  assumes "wf_builder b" "i < ids b" "one_bit_unop (value_tree b ! i)"
  shows "V e b i AND 1 = V e b i"
proof -
  obtain op a where n: "value_tree b ! i = UnOp op a" and op: "op = Parity \<or> op = IsZero \<or> (\<exists>k. op = SelectBit k)"
    using assms(3) by (cases "value_tree b ! i" rule: one_bit_unop.cases) auto
  show ?thesis using at_UnOp(2) [OF assms(1,2) n, of e] op unop_bit_bound by auto
qed

lemma one_bit_cases: "(x :: 'a::len word) AND 1 = x \<Longrightarrow> x = 0 \<or> x = 1"
  by (metis (no_types) and_one_eq mod2_eq_if)

lemma one_bit_and:
  assumes "(x :: u128) AND 1 = x"
  shows "x AND c = (if c AND 1 \<noteq> 0 then x else 0)"
  using one_bit_cases [OF assms] by (auto simp: one_and_eq and_one_eq mod2_eq_if)

lemma load_bits:
  assumes "wf_builder b" "i < ids b" "load_size (value_tree b ! i) = Some sz"
  shows "take_bit (ds_num_bits sz) (V e b i) = V e b i"
proof -
  obtain off ptr where "V e b i = load_val e ptr off sz"
    using assms by (cases "value_tree b ! i") (auto dest: at_LoadPtr at_LoadPtrImm)
  then show ?thesis by (auto simp: bits bit_simps bit_load_val)
qed

lemma and_ones: "take_bit n x = x \<Longrightarrow> n \<le> trailing_ones c \<Longrightarrow> x AND c = (x :: u128)"
  by (auto simp: bits bit_simps trailing_ones_ge)

lemma and_zeros: "take_bit n x = x \<Longrightarrow> n \<le> trailing_zeros c \<Longrightarrow> x AND c = (0 :: u128)"
  by (auto simp: bits bit_simps trailing_zeros_ge)

lemma as_u32_less: "c < 128 \<Longrightarrow> as_u32 c < 128"
  by (simp add: as_u32_def unsigned_ucast_eq take_bit_nat_def word_less_nat_alt)

lemma as_u32_unat: "c < 128 \<Longrightarrow> as_u32 c = unat c"
  by (simp add: as_u32_def unsigned_ucast_eq take_bit_nat_def word_less_nat_alt)

context val_recursion
begin

lemma and_or_const_ok:
  assumes wf: "wf_builder b" and x: "x < ids b" and v: "\<And>e. (V e b x OR c2) AND c1 = v e"
    and w: "4 * W b x + 18 \<le> w" and F: "n < 4 * W b x + 12 \<Longrightarrow> F"
  shows "ok_res b v w F (and_or_const rb b x c1 c2)"
  unfolding and_or_const_def
proof (rule ok_and_then [OF imm_ok [OF wf]])
  fix b1 i assume g1: "good b (\<lambda>_. c1) 1 b1 i"
  note d1 = goodD [OF g1]
  have x1: "x < ids b1" "W b1 x = W b x" using d1 x by (auto simp: extends_simps)
  show "ok_res b1 v w F (and_then (rb b1 And x i) (\<lambda>b2 u. and_then (imm b2 (c1 AND c2))
          (\<lambda>b3 j. get_or_insert b3 (BinOp Or u j))))"
  proof (rule ok_and_then [OF rb_ok [OF d1(1) x1(1) d1(3) binop_pre_easy]])
    show F if "n < 2 * bwt b1 x i" using that d1(5) x1 F by (simp add: bwt_def)
    fix b2 u assume g2: "good b1 (bval b1 And x i) (bwt b1 x i) b2 u"
    note d2 = goodD [OF g2]
    have "V e b2 u = V e b x AND c1" for e
      using d2(4) [of e] d1 x by (simp add: bval_def extends_simps)
    then show "ok_res b2 v w F (and_then (imm b2 (c1 AND c2)) (\<lambda>b3 j. get_or_insert b3 (BinOp Or u j)))"
      using d2 d1(5) x1 w v [symmetric]
      by (intro imm_BinOp_ok) (auto simp: bwt_def bit.conj_disj_distrib and.commute)
  qed auto
qed simp

lemma and_const_ok:
  assumes wf: "wf_builder b" and a: "a0 < ids b" "a1 < ids b" and c: "value_tree b ! a1 = Const c" "c \<noteq> 0"
  shows "ok_res b (bval b And a0 a1) (bwt b a0 a1) (Suc n < 2 * bwt b a0 a1)
           (and_const rb re b a0 a1 (value_tree b ! a0) c)"
proof -
  let ?n0 = "value_tree b ! a0"
  let ?ok = "ok_res b (bval b And a0 a1) (bwt b a0 a1) (Suc n < 2 * bwt b a0 a1)"
  have plain: "?ok (plain_binop b And a0 a1)"
    using wf a by (intro plain_binop_easy_ok binop_pre_easy) auto
  have vw: "bval b And a0 a1 e = V e b a0 AND c" "bwt b a0 a1 = 2 * W b a0 + 6" for e
    using at_Const [OF wf a(2) c(1)] by (simp_all add: bval_def bwt_def)
  consider (one) "one_bit_unop ?n0" | (low) "\<not> one_bit_unop ?n0" "trailing_ones c + leading_zeros c = 128"
    | (gen) "\<not> one_bit_unop ?n0" "trailing_ones c + leading_zeros c \<noteq> 128" by blast
  then show ?thesis
  proof cases
    case one
    then show ?thesis
      using one_bit_and [OF one_bit_val [OF wf a(1) one], of _ c] existing_ok [OF wf a(1) refl] const_ok [OF wf]
      by (simp add: and_const_def vw)
  next
    case low
    define t where "t = trailing_ones c"
    have cm: "c = mask t" using low(2) low_ones_mask [of c] by (simp add: t_def)
    then have "t \<noteq> 0" using c(2) by (metis mask_0)
    moreover have "t \<le> 128" using trailing_ones_le [of c] by (simp add: t_def)
    ultimately have un: "unat (word_of_nat t :: u8) = t" and r: "range_ok 0 (word_of_nat t)"
      by (auto simp: unat_of_nat range_ok_def)
    have "?ok (re b a0 0 (word_of_nat t))"
      by (rule ok_res_weaken [OF re_ok [OF wf a(1) r]])
        (simp_all add: vw xval_def xwt_def un cm take_bit_eq_mask)
    then show ?thesis using low by (simp add: and_const_def t_def)
  next
    case gen
    show ?thesis
    proof (cases ?n0)
      case (BinOp op i0 i1)
      note f = at_BinOp [OF wf a(1) BinOp]
      show ?thesis using gen BinOp f wf at_Const [OF wf f(1)] at_Const [OF wf f(2)] plain
        by (auto simp: and_const_def args_of_def vw ac_simps split: option.split
            intro!: imm_BinOp_ok and_or_const_ok)
    next
      case (Blend l r m)
      note f = at_Blend [OF wf a(1) Blend]
      have "(x AND NOT m OR y AND m) AND c = y AND c" if "m AND c = c" for x y :: u128
        using that by (auto simp: bits bit_simps)
      then show ?thesis using gen Blend f wf plain
        by (auto simp: and_const_def args_of_def vw intro!: imm_BinOp_ok)
    next
      case (Extract v s t)
      note f = at_Extract [OF wf a(1) Extract]
      have t: "unat t \<le> 128" using f(4) by (simp add: range_ok_def)
      have m: "x AND (c AND mask k) = take_bit k x AND c" for x :: u128 and k
        by (simp add: take_bit_eq_mask ac_simps)
      show ?thesis using gen Extract f wf plain t
        by (auto simp: and_const_def args_of_def vw m take_bit_eq_mask intro!: re_binop_r_ok good_self a)
    next
      case (LoadPtr ptr off sz)
      note f = and_ones [OF load_bits [OF wf a(1), of sz]] and_zeros [OF load_bits [OF wf a(1), of sz]]
      show ?thesis using gen LoadPtr f wf plain
        by (auto simp: and_const_def args_of_def vw imm_def intro!: const_ok good_self a)
    next
      case (LoadPtrImm ptr off sz)
      note f = and_ones [OF load_bits [OF wf a(1), of sz]] and_zeros [OF load_bits [OF wf a(1), of sz]]
      show ?thesis using gen LoadPtrImm f wf plain
        by (auto simp: and_const_def args_of_def vw imm_def intro!: const_ok good_self a)
    qed (use gen plain in \<open>auto simp: and_const_def args_of_def split: option.split\<close>)
  qed
qed

lemma binop_and_ok:
  assumes wf: "wf_builder b" and a: "a0 < ids b" "a1 < ids b"
  shows "ok_res b (bval b And a0 a1) (bwt b a0 a1) (Suc n < 2 * bwt b a0 a1)
           (binop_and rb re b a0 a1 (value_tree b ! a0) (value_tree b ! a1))"
proof -
  let ?n0 = "value_tree b ! a0" and ?n1 = "value_tree b ! a1"
  let ?ok = "ok_res b (bval b And a0 a1) (bwt b a0 a1) (Suc n < 2 * bwt b a0 a1)"
  have plain: "?ok (plain_binop b And a0 a1)"
    using wf a by (intro plain_binop_easy_ok binop_pre_easy) auto
  consider (zero) "?n0 = Const 0 \<or> ?n1 = Const 0" | (const) c where "?n0 \<noteq> Const 0" "?n1 = Const c" "c \<noteq> 0"
    | (shl) m i0 i1 sh where "?n0 = Const m" "?n0 \<noteq> Const 0" "?n1 = BinOp Shl i0 i1" "value_tree b ! i1 = Const sh"
    | (other) "?n0 \<noteq> Const 0" "const_of ?n1 = None"
        "\<And>m i0 i1. ?n0 = Const m \<Longrightarrow> ?n1 = BinOp Shl i0 i1 \<Longrightarrow> const_of (value_tree b ! i1) = None"
    by (metis const_of_Some const_of_None option.exhaust)
  then show ?thesis
  proof cases
    case zero
    then show ?thesis
      using at_Const [OF wf a(1)] at_Const [OF wf a(2)] wf
      by (auto simp: binop_and_def bval_def bwt_def intro!: const_ok)
  next
    case const
    then show ?thesis using and_const_ok [OF wf a const(2,3)] by (simp add: binop_and_def)
  next
    case shl
    note f = at_BinOp [OF wf a(2) shl(3)] and v0 = at_Const [OF wf a(1) shl(1)]
    note v1 = at_Const [OF wf f(2) shl(4)]
    have sh: "sh < 128" using wf_node_ok [OF wf a(2)] shl by auto
    then have k: "as_u32 sh < 128" by (rule as_u32_less)
    let ?c = "wrapping_shr m (as_u32 sh)"
    have eq: "wrapping_shl (x AND ?c) (as_u32 sh) = m AND wrapping_shl x (as_u32 sh)" for x
      using k by (auto simp: wrapping_shl_def wrapping_shr_def bits bit_simps)
    have "?ok (and_then (imm b ?c) (\<lambda>b1 i. and_then (rb b1 And i0 i) (\<lambda>b2 v. get_or_insert b2 (BinOp Shl v i1))))"
    proof (rule ok_and_then [OF imm_ok [OF wf]])
      fix b1 i assume g1: "good b (\<lambda>_. ?c) 1 b1 i"
      note d1 = goodD [OF g1]
      show "ok_res b1 (bval b And a0 a1) (bwt b a0 a1) (Suc n < 2 * bwt b a0 a1)
              (and_then (rb b1 And i0 i) (\<lambda>b2 v. get_or_insert b2 (BinOp Shl v i1)))"
      proof (rule ok_and_then [OF rb_ok [OF d1(1) _ d1(3) binop_pre_easy]])
        show "i0 < ids b1" using d1 f by (simp add: extends_simps)
        show "Suc n < 2 * bwt b a0 a1" if "n < 2 * bwt b1 i0 i"
          using that d1 f v0 v1 by (simp add: bwt_def extends_simps)
        fix b2 u assume g2: "good b1 (bval b1 And i0 i) (bwt b1 i0 i) b2 u"
        note d2 = goodD [OF g2]
        have e2: "extends b b2" by (rule extends_trans [OF d1(2) d2(2)])
        have "W b2 u \<le> 2 * W b i0 + 6" using d1 d2(5) f by (simp add: bwt_def extends_simps)
        then show "ok_res b2 (bval b And a0 a1) (bwt b a0 a1) (Suc n < 2 * bwt b a0 a1) (get_or_insert b2 (BinOp Shl u i1))"
          using d1 d2 f v0 v1 e2 shl sh eq
          by (intro insert_BinOp_ok) (auto simp: bval_def bwt_def extends_simps)
      qed auto
    qed simp
    then show ?thesis using shl f by (simp add: binop_and_def args_of_def)
  next
    case other
    then show ?thesis
      using plain at_BinOp(1,2) [OF wf a(2)]
      by (auto simp: binop_and_def split: option.split)
  qed
qed

end

section \<open>The equality solver\<close>

text \<open>A state of the search stands for the bits \<open>skip .. skip + take\<close> of \<open>val + offset\<close>.\<close>

definition state_val :: "env \<Rightarrow> ValBuilder \<Rightarrow> EqualityState \<Rightarrow> u128" where
  "state_val e b s = take_bit (unat (es_take s)) (drop_bit (unat (es_skip s)) (V e b (es_val s) + es_offset s))"

definition eq_inv :: "ValBuilder \<Rightarrow> EqualityState \<Rightarrow> bool" where
  "eq_inv b s \<longleftrightarrow>
     es_val s < ids b \<and> unat (es_take s) \<le> 128
     \<and> (es_offset s \<noteq> 0 \<longrightarrow> \<not> addsub_const (value_tree b) (value_tree b ! es_val s))
     \<and> (es_offset s = 0 \<longrightarrow> es_skip s \<noteq> 0 \<longrightarrow> extract_of (value_tree b ! es_val s) = None)
     \<and> (es_take s \<noteq> 128 \<longrightarrow> es_offset s = 0 \<longrightarrow> extract_of (value_tree b ! es_val s) = None)"

definition eq_moves :: "ValBuilder \<Rightarrow> EqualityState \<Rightarrow> EqualityState \<Rightarrow> bool" where
  "eq_moves b s s' \<longleftrightarrow> eq_inv b s' \<and> es_val s' < es_val s \<and> (\<forall>e. state_val e b s' = state_val e b s)"

lemma eq_start_inv: "v < ids b \<Longrightarrow> eq_inv b (eq_start v)"
  by (simp add: eq_inv_def eq_start_def)

lemma eq_start_val: "state_val e b (eq_start v) = V e b v"
  by (simp add: state_val_def eq_start_def)

lemma eq_extract_step_moves:
  assumes wf: "wf_builder b" and inv: "eq_inv b s" and st: "eq_extract_step (value_tree b) s = Move s'"
  shows "eq_moves b s s'"
proof -
  obtain v skip tk where n: "value_tree b ! es_val s = Extract v skip tk" and off: "es_offset s = 0"
    and s': "s' = \<lparr>es_val = v, es_offset = 0, es_skip = es_skip s + skip, es_take = min (es_take s) (tk - es_skip s)\<rparr>"
    using st by (auto simp: eq_extract_step_def split: option.splits if_splits)
  have i: "es_val s < ids b" using inv by (simp add: eq_inv_def)
  note f = at_Extract [OF wf i n]
  have z: "es_skip s = 0" "es_take s = 128" using inv n off by (auto simp: eq_inv_def)
  have t: "unat tk \<le> 128" using f(4) by (simp add: range_ok_def)
  then have m: "min 128 tk = tk" by (intro min_absorb2) (simp add: word_le_nat_alt)
  have "v < es_val s" using wf_refs [OF wf i] n by simp
  then show ?thesis
    using f t m z off by (auto simp: eq_moves_def eq_inv_def state_val_def s')
qed

lemma eq_addsub_step_moves:
  assumes wf: "wf_builder b" and inv: "eq_inv b s" and st: "eq_addsub_step (value_tree b) s = Move s'"
  shows "eq_moves b s s'"
proof -
  obtain op x y c where n: "value_tree b ! es_val s = BinOp op x y" "value_tree b ! y = Const c"
    and op: "op = Add \<or> op = Sub"
    and s': "s' = s\<lparr>es_val := x, es_offset := if op = Add then es_offset s + c else es_offset s - c\<rparr>"
    using st by (auto simp: eq_addsub_step_def split: option.splits if_splits)
  have i: "es_val s < ids b" and t: "unat (es_take s) \<le> 128" using inv by (simp_all add: eq_inv_def)
  note f = at_BinOp [OF wf i n(1)]
  have "addsub_const (value_tree b) (value_tree b ! es_val s)" using n op by (auto simp: addsub_const_def)
  then have off: "es_offset s = 0" using inv by (auto simp: eq_inv_def)
  have ok: "c \<noteq> 0" "\<not> addsub_const (value_tree b) (value_tree b ! x)"
    using wf_node_ok [OF wf i] n op by auto
  have "x < es_val s" using wf_refs [OF wf i] n by simp
  then show ?thesis
    using f op ok t off at_Const [OF wf f(2) n(2)] by (auto simp: eq_moves_def eq_inv_def state_val_def s')
qed

lemma take_bit_add_word: "take_bit n (take_bit n x + take_bit n y) = take_bit n (x + y :: 'a::len word)"
  by transfer (simp add: take_bit_add min_def)

lemma take_bit_add_cancel:
  "take_bit n (x + y) = take_bit n (x + z) \<longleftrightarrow> take_bit n y = take_bit n (z :: 'a::len word)"
proof
  assume "take_bit n (x + y) = take_bit n (x + z)"
  then have "take_bit n (take_bit n (x + y) + take_bit n (- x)) = take_bit n (take_bit n (x + z) + take_bit n (- x))"
    by simp
  then show "take_bit n y = take_bit n z" by (simp add: take_bit_add_word)
next
  assume "take_bit n y = take_bit n z"
  then show "take_bit n (x + y) = take_bit n (x + z)" by (metis take_bit_add_word)
qed

lemma try_solve_equality_internal_sound:
  assumes wf: "wf_builder b" and "eq_inv b s" "eq_inv b t" "es_val s + es_val t < fuel"
  shows "\<exists>r. try_solve_equality_internal fuel (value_tree b) s t = Some r
           \<and> (\<forall>q e. r = Some q \<longrightarrow> (state_val e b s = state_val e b t) = q)"
  using assms(2-4)
proof (induction fuel arbitrary: s t)
  case 0
  then show ?case by simp
next
  case (Suc fuel)
  have l: "\<exists>r. try_solve_equality_internal fuel (value_tree b) s' t = Some r
           \<and> (\<forall>q e. r = Some q \<longrightarrow> (state_val e b s = state_val e b t) = q)" if "eq_moves b s s'" for s'
    using that Suc.IH [of s' t] Suc.prems by (auto simp: eq_moves_def)
  have r: "\<exists>r. try_solve_equality_internal fuel (value_tree b) s t' = Some r
           \<and> (\<forall>q e. r = Some q \<longrightarrow> (state_val e b s = state_val e b t) = q)" if "eq_moves b t t'" for t'
    using that Suc.IH [of s t'] Suc.prems by (auto simp: eq_moves_def)
  have ans: "(state_val e b s = state_val e b t) =
      (es_offset s AND mask (unat (es_take s)) = es_offset t AND mask (unat (es_take t)))"
    if "es_val s = es_val t" "es_skip s = 0" "es_skip t = 0" "es_take s = es_take t" for e
    using that by (simp add: state_val_def take_bit_add_cancel flip: take_bit_eq_mask)
  note m = eq_extract_step_moves [OF wf] eq_addsub_step_moves [OF wf]
  show ?case
    using l [OF m(1) [OF Suc.prems(1)]] l [OF m(2) [OF Suc.prems(1)]]
      r [OF m(1) [OF Suc.prems(2)]] r [OF m(2) [OF Suc.prems(2)]] ans
    by (simp split: eq_step.split)
qed

lemma try_solve_equality_sound:
  assumes "wf_builder b" "x < ids b" "y < ids b"
  shows "\<exists>r. try_solve_equality b x y = Some r \<and> (\<forall>q e. r = Some q \<longrightarrow> (V e b x = V e b y) = q)"
  using try_solve_equality_internal_sound [OF assms(1) eq_start_inv [OF assms(2)] eq_start_inv [OF assms(3)],
      of "Suc (x + y)"]
  unfolding try_solve_equality_def eq_start_val by (simp add: eq_start_def del: try_solve_equality_internal.simps)

section \<open>One step of binop\<close>

context val_recursion
begin

lemma shr_const_ok:
  assumes wf: "wf_builder b" and a: "a0 < ids b" "a1 < ids b" and c: "value_tree b ! a1 = Const c" "c \<noteq> 0" "c < 128"
  shows "ok_res b (bval b Shr a0 a1) (bwt b a0 a1) (Suc n < 2 * bwt b a0 a1) (re b a0 (ucast c) (128 - ucast c))"
proof -
  have u: "unat (ucast c :: u8) = unat c"
    using c(3) by (simp add: unsigned_ucast_eq take_bit_nat_def word_less_nat_alt)
  have c': "0 < unat c" "unat c < 128" using c by (auto simp: word_less_nat_alt unat_gt_0)
  then have "(ucast c :: u8) \<le> 128" using u by (simp add: word_le_nat_alt)
  then have d: "unat (128 - ucast c :: u8) = 128 - unat c" by (simp add: unat_sub u)
  have r: "range_ok (ucast c) (128 - ucast c)" using c' by (simp add: range_ok_def u d)
  have e: "take_bit (128 - unat c) (drop_bit (unat c) x) = drop_bit (unat c) x" for x :: u128
    by (auto simp: bits bit_simps dest: bit_imp_le_length)
  show ?thesis
    by (rule ok_res_weaken [OF re_ok [OF wf a(1) r]])
      (use at_Const [OF wf a(2) c(1)] c' c(3) in
        \<open>simp_all add: xval_def bval_def xwt_def bwt_def u d e as_u32_unat wrapping_shr_def\<close>)
qed

lemma binop_step_ok:
  assumes wf: "wf_builder b" and a: "a0 < ids b" "a1 < ids b" and pre: "binop_pre b op a1"
  shows "ok_res b (bval b op a0 a1) (bwt b a0 a1) (Suc n < 2 * bwt b a0 a1) (binop_step rb re b op a0 a1)"
proof (cases "\<exists>l r. value_tree b ! a0 = Const l \<and> value_tree b ! a1 = Const r")
  case True
  then obtain l r where c: "value_tree b ! a0 = Const l" "value_tree b ! a1 = Const r" by blast
  then obtain v where "binop_execute op l r = Some v"
    using binop_valid_executes [of op l r] pre by (auto simp: binop_pre_def)
  then show ?thesis
    using c a at_Const [OF wf a(1) c(1)] at_Const [OF wf a(2) c(2)] wf
    by (auto simp: binop_step_def bval_def bwt_def intro!: const_ok)
next
  case False
  note plain = plain_binop_easy_ok [OF wf a pre]
  let ?ok = "ok_res b (bval b op a0 a1) (bwt b a0 a1) (Suc n < 2 * bwt b a0 a1)"
  have arms: "binop_step rb re b op a0 a1 = binop_arms rb re b op a0 a1 (value_tree b ! a0) (value_tree b ! a1)"
    using False a by (auto simp: binop_step_def split: option.split)
  have shift0: "?ok (get_or_insert b (value_tree b ! a0))" if "op = Shl \<or> op = Shr" "value_tree b ! a1 = Const 0"
    using that at_Const [OF wf a(2)] existing_ok [OF wf a(1) refl]
    by (auto simp: bval_def bwt_def as_u32_def wrapping_shl_def wrapping_shr_def)
  have "?ok (binop_arms rb re b op a0 a1 (value_tree b ! a0) (value_tree b ! a1))"
  proof (cases op)
    case CmpEq
    then show ?thesis
      using try_solve_equality_sound [OF wf a] plain wf
      by (auto simp: binop_arms_def imm_def bval_def bwt_def split: option.split intro!: const_ok)
  next
    case Shr
    then show ?thesis
      using shr_const_ok [OF wf a] plain shift0 pre by (auto simp: binop_arms_def binop_pre_def split: option.split)
  next
    case Mul
    then show ?thesis
      using plain wf at_Const [OF wf a(1)] at_Const [OF wf a(2)]
      by (auto simp: binop_arms_def bval_def bwt_def intro!: const_ok)
  next
    case Add
    then show ?thesis using binop_add_ok [OF wf a] by (simp add: binop_arms_def)
  next
    case Sub
    then show ?thesis using binop_sub_ok [OF wf a] by (simp add: binop_arms_def)
  next
    case Or
    then show ?thesis using binop_or_ok [OF wf a] by (simp add: binop_arms_def)
  next
    case Xor
    then show ?thesis using binop_xor_ok [OF wf a] by (simp add: binop_arms_def)
  next
    case And
    then show ?thesis using binop_and_ok [OF wf a] by (simp add: binop_arms_def)
  next
    case Shl
    then show ?thesis using plain shift0 by (simp add: binop_arms_def)
  qed (use plain in \<open>simp_all add: binop_arms_def\<close>)
  then show ?thesis by (simp only: arms)
qed

lemma binop_step_Shl_shape:
  assumes wf: "wf_builder b" and a: "a0 < ids b" "a1 < ids b" and c: "value_tree b ! a1 = Const c" "c \<noteq> 0"
    and r: "binop_step rb re b Shl a0 a1 = Done b' i"
  shows "extract_of (value_tree b' ! i) = None"
proof -
  obtain nd where "get_or_insert b nd = Done b' i" "extract_of nd = None"
    using r a c by (auto simp: binop_step_def binop_arms_def plain_binop_def split: option.splits)
  then show ?thesis using get_or_insert_node [OF wf] by simp
qed

end

end
