(* ===== verification/MIR_Extract.thy ===== *)
theory MIR_Extract
  imports MIR_Binop
begin

text \<open>
  One unfolding of \<open>ValBuilder::extract\<close> keeps the contract of \<open>MIR_Contract\<close>.
\<close>

section \<open>Bit ranges\<close>

lemma range_okD: "range_ok s t \<Longrightarrow> unat s < 128 \<and> 0 < unat t \<and> unat t \<le> 128 \<and> unat s + unat t \<le> 128"
  by (simp add: range_ok_def)

lemma unat_plus_range: "unat (x :: u8) + unat y \<le> 255 \<Longrightarrow> unat (x + y) = unat x + unat y"
  by (simp add: unat_word_ariths)

lemma unat_minus_range: "unat (y :: u8) \<le> unat x \<Longrightarrow> unat (x - y) = unat x - unat y"
  by (simp add: unat_sub word_le_nat_alt)

lemma unat_ucast_u8 [simp]: "unat (ucast (x :: u8) :: u128) = unat x"
  using unsigned_less [of x, where 'a = nat] by (simp add: unsigned_ucast_eq take_bit_nat_eq_self)

lemma unat_min_word: "unat (min x y :: 'a::len word) = min (unat x) (unat y)"
  by (simp add: min_def word_le_nat_alt)

lemma plain_extract_ok:
  assumes "wf_builder b" "v < ids b" "range_ok s t" "extract_of (value_tree b ! v) = None"
  shows "ok_res b (xval b v s t) (xwt b v) F (plain_extract b v s t)"
  unfolding plain_extract_def using assms by (intro insert_Extract_ok) (auto simp: xval_def xwt_def)

lemma take_bit_op_low:
  fixes x y :: u128
  assumes "op = Add \<or> op = Or \<or> op = And \<or> op = Xor" "\<And>i. i < k \<Longrightarrow> bit x i = bit x' i"
  shows "take_bit k (the (binop_execute op x y)) = take_bit k (the (binop_execute op x' y))"
    "take_bit k (the (binop_execute op y x)) = take_bit k (the (binop_execute op x' y))"
proof -
  have x: "take_bit k x = take_bit k x'" using assms(2) by (auto simp: bits bit_simps)
  have add: "take_bit k (x + y) = take_bit k (x' + y)"
    using x take_bit_add_word [of k x y] take_bit_add_word [of k x' y] by simp
  show "take_bit k (the (binop_execute op x y)) = take_bit k (the (binop_execute op x' y))"
    using assms add by (auto simp: bits bit_simps)
  then show "take_bit k (the (binop_execute op y x)) = take_bit k (the (binop_execute op x' y))"
    using assms(1) by (auto simp: ac_simps)
qed

context val_recursion
begin

section \<open>Recursive calls\<close>

lemma re_call:
  assumes "wf_builder b" "i < ids b" "range_ok s t" "\<And>e. take_bit (unat t) (drop_bit (unat s) (V e b i)) = v e"
    "2 * W b i + 1 \<le> w" "n < 4 * W b i + 3 \<Longrightarrow> F"
  shows "ok_res b v w F (re b i s t)"
  by (rule ok_res_weaken [OF re_ok [OF assms(1-3)]]) (use assms in \<open>auto simp: xval_def xwt_def\<close>)

lemma rb_call:
  assumes "wf_builder b" "x < ids b" "y < ids b" "binop_valid op" "op \<noteq> Shl" "op \<noteq> Shr"
    "\<And>e. the (binop_execute op (V e b x) (V e b y)) = v e"
    "2 * W b x + 2 * W b y + 4 \<le> w" "n < 4 * W b x + 4 * W b y + 8 \<Longrightarrow> F"
  shows "ok_res b v w F (rb b op x y)"
  by (rule ok_res_weaken [OF rb_ok [OF assms(1-3) binop_pre_easy]])
    (use assms in \<open>auto simp: bval_def bwt_def\<close>)

text \<open>\<open>extract(binop(op, [x, y]), skip, take)\<close> and \<open>binop(op, [extract(x), extract(y)])\<close>.\<close>

lemma binop_then_extract_ok:
  assumes wf: "wf_builder b" and xy: "x < ids b" "y < ids b" and op: "binop_valid op" "op \<noteq> Shl" "op \<noteq> Shr"
    and r: "range_ok s t"
    and v: "\<And>e. take_bit (unat t) (drop_bit (unat s) (the (binop_execute op (V e b x) (V e b y)))) = v e"
    and w: "4 * W b x + 4 * W b y + 9 \<le> w" and F: "n < 8 * W b x + 8 * W b y + 19 \<Longrightarrow> F"
  shows "ok_res b v w F (binop_then_extract rb re b op x y s t)"
  unfolding binop_then_extract_def
proof (rule ok_and_then [OF rb_ok [OF wf xy binop_pre_easy [OF op]]])
  show F if "n < 2 * bwt b x y" using that F by (simp add: bwt_def)
  fix b1 i assume "good b (bval b op x y) (bwt b x y) b1 i"
  note d = goodD [OF this]
  show "ok_res b1 v w F (re b1 i s t)"
    by (rule re_call) (use d r v w F in \<open>auto simp: bval_def bwt_def\<close>)
qed

lemma extract_both_ok:
  assumes wf: "wf_builder b" and xy: "x < ids b" "y < ids b" and op: "op = Or \<or> op = And \<or> op = Xor"
    and r: "range_ok s t"
    and v: "\<And>e. take_bit (unat t) (drop_bit (unat s) (the (binop_execute op (V e b x) (V e b y)))) = v e"
    and w: "4 * W b x + 4 * W b y + 8 \<le> w" and F: "n < 8 * W b x + 8 * W b y + 16 \<Longrightarrow> F"
  shows "ok_res b v w F (and_then (re b x s t) (\<lambda>b1 l. and_then (re b1 y s t) (\<lambda>b2 r. rb b2 op l r)))"
proof (rule ok_and_then [OF re_ok [OF wf xy(1) r]])
  show F if "n < 2 * xwt b x + 1" using that F by (simp add: xwt_def)
  fix b1 l assume "good b (xval b x s t) (xwt b x) b1 l"
  note d1 = goodD [OF this]
  have y1: "y < ids b1" using d1 xy by (simp add: extends_simps)
  show "ok_res b1 v w F (and_then (re b1 y s t) (\<lambda>b2 r. rb b2 op l r))"
  proof (rule ok_and_then [OF re_ok [OF d1(1) y1 r]])
    show F if "n < 2 * xwt b1 y + 1" using that F d1 xy by (simp add: xwt_def extends_simps)
    fix b2 q assume "good b1 (xval b1 y s t) (xwt b1 y) b2 q"
    note d2 = goodD [OF this]
    have vl: "V e b2 l = xval b x s t e" "V e b2 q = xval b y s t e" for e
      using d1 d2 xy by (simp_all add: xval_def extends_simps)
    have wl: "W b2 l \<le> 2 * W b x + 1" "W b2 q \<le> 2 * W b y + 1"
      using d1 d2 xy by (simp_all add: xwt_def extends_simps)
    have e: "the (binop_execute op (xval b x s t e) (xval b y s t e)) = v e" for e
      using op v [of e] by (auto simp: xval_def)
    show "ok_res b2 v w F (rb b2 op l q)"
      by (rule rb_call) (use d1 d2 op e vl wl w F in \<open>auto simp: extends_simps\<close>)
  qed
qed

lemma extract_and_const_ok:
  assumes wf: "wf_builder b" and x: "x < ids b" and r: "range_ok s t"
    and v: "\<And>e. take_bit (unat t) (drop_bit (unat s) (V e b x AND c)) = v e"
    and w: "4 * W b x + 8 \<le> w" and F: "n < 8 * W b x + 16 \<Longrightarrow> F"
  shows "ok_res b v w F (extract_and_const rb re b x c s t)"
  unfolding extract_and_const_def
proof (rule ok_and_then [OF re_ok [OF wf x r]])
  show F if "n < 2 * xwt b x + 1" using that F by (simp add: xwt_def)
  fix b1 l assume "good b (xval b x s t) (xwt b x) b1 l"
  note d1 = goodD [OF this]
  let ?c = "wrapping_shr c (unat s) AND mask (unat t)"
  have e: "xval b x s t e AND ?c = v e" for e
    using r by (simp add: xval_def wrapping_shr_def range_ok_def flip: v take_bit_eq_mask)
  have "ok_res b1 v w F (re_binop_r rb b1 And l ?c)"
    by (rule re_binop_r_ok) (use d1 e w F in \<open>auto simp: xwt_def\<close>)
  then show "ok_res b1 v w F (with_bitmask b1 (unat t) (\<lambda>m.
       and_then (imm b1 (wrapping_shr c (unat s) AND m)) (\<lambda>b2 i. rb b2 And l i)))"
    using r by (simp add: range_ok_def re_binop_r_def)
qed

section \<open>The arms\<close>

abbreviation (input) extracts :: "ValBuilder \<Rightarrow> ValId \<Rightarrow> u8 \<Rightarrow> u8 \<Rightarrow> ValId outcome \<Rightarrow> bool" where
  "extracts b val s t r \<equiv> ok_res b (xval b val s t) (xwt b val) (Suc n < 2 * xwt b val + crop b val s t) r"

lemma extract_split_ok:
  assumes wf: "wf_builder b" and i: "val < ids b" and nd: "value_tree b ! val = BinOp op i0 i1"
    and op: "op = Add \<or> op = Or \<or> op = And \<or> op = Xor" and r: "range_ok s t"
  shows "extracts b val s t (extract_split rb re b val op i0 i1 s t)"
proof -
  note f = at_BinOp [OF wf i nd]
  show ?thesis
  proof (cases "op = Or \<or> op = And \<or> op = Xor")
    case True
    have "extracts b val s t (and_then (re b i0 s t) (\<lambda>b1 l. and_then (re b1 i1 s t) (\<lambda>b2 r. rb b2 op l r)))"
      by (rule extract_both_ok) (use wf f True r in \<open>auto simp: xval_def xwt_def\<close>)
    then show ?thesis using True by (simp add: extract_split_def)
  next
    case False
    then show ?thesis using plain_extract_ok [OF wf i r] nd by (simp add: extract_split_def)
  qed
qed

lemma extract_bitwise_ok:
  assumes wf: "wf_builder b" and i: "val < ids b" and nd: "value_tree b ! val = BinOp op i0 i1"
    and op: "op = Add \<or> op = Or \<or> op = And \<or> op = Xor" and r: "range_ok s t"
  shows "extracts b val s t (extract_bitwise rb re b val op i0 i1 s t)"
proof -
  note f = at_BinOp [OF wf i nd]
  let ?m0 = "value_tree b ! i0" and ?m1 = "value_tree b ! i1"
  have valid: "binop_valid op" "op \<noteq> Shl" "op \<noteq> Shr" using op by auto
  have low: "extracts b val s t (binop_then_extract rb re b op x y s t)"
    if "x < ids b" "y < ids b" "W b x + W b y < W b i0 + W b i1" "s = 0"
      "\<And>e. take_bit (unat t) (the (binop_execute op (V e b x) (V e b y)))
          = take_bit (unat t) (the (binop_execute op (V e b i0) (V e b i1)))" for x y
    by (rule binop_then_extract_ok) (use that wf f valid r in \<open>auto simp: xval_def xwt_def\<close>)
  have l: "extracts b val s t (binop_then_extract rb re b op v i1 s t)"
    if l: "low_extract s t ?m0 = Some v" for v
  proof -
    obtain t0 where e: "?m0 = Extract v 0 t0" "s = 0" "t \<le> t0" using l by (auto simp: low_extract_Some)
    note g = at_Extract [OF wf f(1) e(1)]
    show ?thesis
      using e(2,3) g f(2)
      by (intro low take_bit_op_low(1) [OF op]) (auto simp: bit_simps word_le_nat_alt dest: bit_imp_le_length)
  qed
  have r': "extracts b val s t (binop_then_extract rb re b op v i0 s t)"
    if l: "low_extract s t ?m1 = Some v" for v
  proof -
    obtain t0 where e: "?m1 = Extract v 0 t0" "s = 0" "t \<le> t0" using l by (auto simp: low_extract_Some)
    note g = at_Extract [OF wf f(2) e(1)]
    show ?thesis
      using e(2,3) g f(1)
      by (intro low take_bit_op_low(2) [OF op, symmetric])
        (auto simp: bit_simps word_le_nat_alt dest: bit_imp_le_length)
  qed
  have a: "extracts b val s t (binop_then_extract rb re b op j1 i1 s t)"
    if a: "?m0 = BinOp And j0 j1" "value_tree b ! j0 = Const c" "s = 0" "unat t \<le> trailing_ones c" for j0 j1 c
  proof -
    note g = at_BinOp [OF wf f(1) a(1)]
    show ?thesis
      using a(3,4) g f(2) at_Const [OF wf g(1) a(2)]
      by (intro low take_bit_op_low(1) [OF op]) (auto simp: bit_simps trailing_ones_ge)
  qed
  have c0: "extracts b val s t (extract_and_const rb re b i1 c s t)" if "op = And" "?m0 = Const c" for c
    by (rule extract_and_const_ok)
      (use that wf f r at_Const [OF wf f(1)] in \<open>auto simp: xval_def xwt_def and.commute\<close>)
  have c1: "extracts b val s t (extract_and_const rb re b i0 c s t)" if "op = And" "?m1 = Const c" for c
    by (rule extract_and_const_ok)
      (use that wf f r at_Const [OF wf f(2)] in \<open>auto simp: xval_def xwt_def and.commute\<close>)
  show ?thesis
    using f l r' a c0 c1 extract_split_ok [OF wf i nd op r] at_BinOp(1,2) [OF wf f(1)]
    by (auto simp: extract_bitwise_def split: option.split)
qed

lemma extract_shl_ok:
  assumes wf: "wf_builder b" and i: "val < ids b" and nd: "value_tree b ! val = BinOp Shl i0 i1" and r: "range_ok s t"
  shows "extracts b val s t (extract_shl rb re b val i0 i1 s t)"
proof (cases "const_of (value_tree b ! i1)")
  case None
  then show ?thesis
    using at_BinOp(1,2) [OF wf i nd] plain_extract_ok [OF wf i r] nd by (simp add: extract_shl_def)
next
  case (Some c)
  note f = at_BinOp [OF wf i nd] and rr = range_okD [OF r]
  from Some have c: "value_tree b ! i1 = Const c" by simp
  note v1 = at_Const [OF wf f(2) c]
  have "c < 128" using wf_node_ok [OF wf i] nd c by auto
  then have k: "unat c < 128" "as_u32 c = unat c" by (simp_all add: word_less_nat_alt as_u32_unat)
  have st: "unat (s + t) = unat s + unat t" using rr by (intro unat_plus_range) simp
  have uc: "unat (ucast c :: u8) = unat c" using k by (simp add: unsigned_ucast_eq take_bit_nat_def)
  have vv: "xval b val s t e = take_bit (unat t) (drop_bit (unat s) (push_bit (unat c) (V e b i0)))" for e
    using f(3) [of e] v1(1) [of e] k by (simp add: xval_def wrapping_shl_def)
  have ww: "xwt b val = 4 * W b i0 + 13" using f v1 by (simp add: xwt_def)
  have cmp: "ucast (s + t) \<le> c \<longleftrightarrow> unat s + unat t \<le> unat c" "c \<le> ucast s \<longleftrightarrow> unat c \<le> unat s"
    "ucast s < c \<longleftrightarrow> unat s < unat c" "c < ucast (s + t) \<longleftrightarrow> unat c < unat s + unat t"
    by (simp_all add: word_le_nat_alt word_less_nat_alt st)
  consider (hi) "unat s + unat t \<le> unat c" | (lo) "unat c \<le> unat s" | (mid) "unat s < unat c" "unat c < unat s + unat t"
    by linarith
  then show ?thesis
  proof cases
    case hi
    then have "take_bit (unat t) (drop_bit (unat s) (push_bit (unat c) x)) = 0" for x :: u128
      by (auto simp: bits bit_simps)
    then show ?thesis using hi c f(1,2) wf by (auto simp: extract_shl_def cmp imm_def vv ww intro!: const_ok)
  next
    case lo
    have un: "unat (s - ucast c) = unat s - unat c" using lo uc by (simp add: unat_minus_range)
    have "take_bit (unat t) (drop_bit (unat s - unat c) x) = take_bit (unat t) (drop_bit (unat s) (push_bit (unat c) x))" for x :: u128
      using lo rr by (auto simp: bits bit_simps)
    then have "extracts b val s t (re b i0 (s - ucast c) t)"
      using wf f rr lo by (intro re_call) (auto simp: un vv ww range_ok_def)
    then show ?thesis using lo c f(1,2) rr by (simp add: extract_shl_def cmp)
  next
    case mid
    have un: "unat (ucast c - s) = unat c - unat s" using mid uc by (simp add: unat_minus_range)
    let ?d = "ucast (ucast c - s :: u8) :: u128"
    have ud: "unat ?d = unat c - unat s" "?d < 128" "?d \<noteq> 0"
      using un mid k by (auto simp: word_less_nat_alt simp flip: unat_gt_0)
    have "extracts b val s t (and_then (imm b ?d) (\<lambda>b1 shift. and_then (rb b1 Shl i0 shift)
        (\<lambda>b2 inner. get_or_insert b2 (Extract inner 0 t))))"
    proof (rule ok_and_then [OF imm_ok [OF wf]])
      fix b1 j assume im: "imm b ?d = Done b1 j" and "good b (\<lambda>_. ?d) 1 b1 j"
      note d1 = goodD [OF this(2)] and n1 = imm_Done [OF wf im]
      have i0: "i0 < ids b1" "W b1 i0 = W b i0" using f d1 by (auto simp: extends_simps)
      have pre: "binop_pre b1 Shl j" using n1 ud by (simp add: binop_pre_def)
      show "ok_res b1 (xval b val s t) (xwt b val) (Suc n < 2 * xwt b val + crop b val s t)
              (and_then (rb b1 Shl i0 j) (\<lambda>b2 inner. get_or_insert b2 (Extract inner 0 t)))"
      proof (rule ok_and_then [OF rb_ok [OF d1(1) i0(1) d1(3) pre]])
        show "Suc n < 2 * xwt b val + crop b val s t" if "n < 2 * bwt b1 i0 j"
          using that i0 d1(5) by (simp add: bwt_def ww)
        fix b2 u assume dn: "rb b1 Shl i0 j = Done b2 u" and g: "good b1 (bval b1 Shl i0 j) (bwt b1 i0 j) b2 u"
        note d2 = goodD [OF g]
        have "extract_of (value_tree b2 ! u) = None"
          by (rule rb_Shl_shape [OF d1(1) i0(1) d1(3) n1 ud(3,2) dn])
        moreover have "V e b2 u = push_bit (unat c - unat s) (V e b i0)" for e
          using d1 d2(4) [of e] f(1) ud mid k by (simp add: bval_def extends_simps wrapping_shl_def as_u32_unat)
        moreover have "take_bit (unat t) (push_bit (unat c - unat s) x) =
            take_bit (unat t) (drop_bit (unat s) (push_bit (unat c) x))" for x :: u128
          using mid rr by (auto simp: bits bit_simps add.commute)
        ultimately show "ok_res b2 (xval b val s t) (xwt b val) (Suc n < 2 * xwt b val + crop b val s t)
              (get_or_insert b2 (Extract u 0 t))"
          using d2 i0 d1(5) rr by (intro insert_Extract_ok) (auto simp: vv ww bwt_def range_ok_def)
      qed
    qed simp
    then show ?thesis using mid c f(1,2) by (simp add: extract_shl_def cmp)
  qed
qed

lemma extract_sub_ok:
  assumes wf: "wf_builder b" and i: "val < ids b" and nd: "value_tree b ! val = BinOp Sub l y" and r: "range_ok s t"
  shows "extracts b val s t (extract_sub rb re b val l y s t)"
proof -
  note f = at_BinOp [OF wf i nd]
  have plain: "extracts b val s t (plain_extract b val s t)" using plain_extract_ok [OF wf i r] nd by simp
  have deep: "extracts b val s t (and_then (re_binop_r rb b Sub x c) (\<lambda>b1 j. re b1 j s t))"
    if h: "value_tree b ! y = Const c1" "value_tree b ! l = Extract v 0 t" "s = 0"
      "value_tree b ! v = BinOp op x z" "value_tree b ! z = Const c2" "op = Add \<or> op = Sub"
      "c = (if op = Sub then c1 + c2 else c1 - c2)" for c c1 v op x z c2
  proof -
    note g = at_Extract [OF wf f(1) h(2)] and v1 = at_Const [OF wf f(2) h(1)]
    note g' = at_BinOp [OF wf g(1) h(4)]
    note v2 = at_Const [OF wf g'(2) h(5)]
    have tb: "take_bit k (take_bit k (p + q) + r) = take_bit k (p + (q + r))" for k and p q r :: u128
      using take_bit_add_word [of k "p + q" r] take_bit_add_word [of k "take_bit k (p + q)" r] by (simp add: add.assoc)
    have val: "xval b val s t e = take_bit (unat t) (V e b x - c)" for e
    proof -
      have "xval b val s t e = take_bit (unat t) (take_bit (unat t) (V e b v) + (- c1))"
        using f(3) [of e] g(2) [of e] v1(1) [of e] h(3) by (simp add: xval_def)
      also have "V e b v = V e b x + (if op = Sub then - c2 else c2)"
        using g'(3) [of e] v2(1) [of e] h(6) by auto
      also have "take_bit (unat t) (take_bit (unat t) (V e b x + (if op = Sub then - c2 else c2)) + (- c1))
          = take_bit (unat t) (V e b x - c)"
        unfolding tb using h(7) by (simp add: algebra_simps)
      finally show ?thesis .
    qed
    show ?thesis
    proof (rule ok_and_then [OF re_binop_r_ok [OF wf g'(1)]])
      fix b1 j assume "good b (\<lambda>e. V e b x - c) (2 * W b x + 6) b1 j"
      note d = goodD [OF this]
      show "ok_res b1 (xval b val s t) (xwt b val) (Suc n < 2 * xwt b val + crop b val s t) (re b1 j s t)"
        by (rule re_call) (use d r h(3) val f g g' in \<open>auto simp: xwt_def\<close>)
    qed (use f g g' in \<open>auto simp: xwt_def\<close>)
  qed
  have in1: "v < ids b" if "value_tree b ! l = Extract v s0 t0" for v s0 t0
    using at_Extract(1) [OF wf f(1) that] .
  have in2: "z < ids b" if "value_tree b ! l = Extract v s0 t0" "value_tree b ! v = BinOp op x z" for v s0 t0 op x z
    using at_BinOp(2) [OF wf in1 [OF that(1)] that(2)] .
  note deep2 = deep [where op = Add, OF _ _ _ _ _ disjI1 [OF refl] refl, simplified]
    deep [where op = Sub, OF _ _ _ _ _ disjI2 [OF refl] refl, simplified]
  show ?thesis
    using f(1,2) in1 in2 plain by (auto simp: extract_sub_def split: option.split intro: deep2)
qed

lemma extract_load_ok:
  assumes wf: "wf_builder b" and i: "val < ids b" and nd: "value_tree b ! val = LoadPtr ptr off sz" and r: "range_ok s t"
  shows "extracts b val s t (extract_load re b val ptr off sz s t)"
proof -
  note f = at_LoadPtr [OF wf i nd] and rr = range_okD [OF r]
  have sz: "ds_num_bits sz \<le> 128" by (rule ds_num_bits_le)
  have vb: "bit (V e b val) k \<Longrightarrow> k < ds_num_bits sz" for e k using f(2) by (simp add: bit_load_val)
  have zero: "xval b val s t e = 0" if "ds_num_bits sz \<le> unat s" for e
    using that vb by (fastforce simp: xval_def bits bit_simps)
  have cropped: "extracts b val s t (re b val s (word_of_nat (ds_num_bits sz - unat s)))"
    if h: "ds_num_bits sz < unat s + unat t" "\<not> ds_num_bits sz \<le> unat s"
  proof -
    let ?t = "word_of_nat (ds_num_bits sz - unat s) :: u8"
    have u: "unat ?t = ds_num_bits sz - unat s" using sz by (simp add: unat_of_nat)
    have "range_ok s ?t" using h sz rr by (simp add: range_ok_def u del: of_nat_diff)
    then have "ok_res b (xval b val s ?t) (xwt b val) (n < 2 * xwt b val + crop b val s ?t) (re b val s ?t)"
      using extract_contract wf i by (auto simp: extract_ok_def)
    moreover have "xval b val s ?t e = xval b val s t e" for e
      using h vb by (fastforce simp: xval_def u bits bit_simps simp del: of_nat_diff)
    moreover have "crop b val s ?t = 0" "crop b val s t = 1" using h nd by (simp_all add: crop_def u del: of_nat_diff)
    ultimately show ?thesis by (auto intro: ok_res_weaken)
  qed
  have whole: "extracts b val 0 t (Done b val)" if "s = 0" "ds_num_bits sz \<le> unat t"
    using that wf i take_bit_take_bit [of "unat t" "ds_num_bits sz" "V _ b val"]
      load_bits [OF wf i, of sz] nd by (auto simp: xwt_def xval_def min_absorb2 intro!: good_self)
  have narrow: "extracts b val 0 t (load_ptr_offset b ptr ds off)"
    if "s = 0" "try_from_bits (unat t) = Some ds" "unat t \<le> ds_num_bits sz" for ds
    unfolding load_ptr_offset_def using wf f that try_from_bits_bits [OF that(2)]
    by (intro get_or_insert_ok)
      (auto simp: xval_def xwt_def bits bit_simps bit_load_val simp flip: V_def W_def)
  show ?thesis
    using wf zero cropped whole narrow plain_extract_ok [OF wf i r] nd
    by (auto simp: extract_load_def imm_def xwt_def split: option.split bool.split intro!: const_ok)
qed

lemma extract_load_imm_ok:
  assumes wf: "wf_builder b" and i: "val < ids b" and nd: "value_tree b ! val = LoadPtrImm ptr off sz" and r: "range_ok s t"
  shows "extracts b val s t (extract_load_imm b val ptr off sz s t)"
proof -
  note f = at_LoadPtrImm [OF wf i nd] and rr = range_okD [OF r]
  have vb': "bit (V e b val) k \<longleftrightarrow> k < ds_num_bits sz \<and> bit (mem_byte e ptr (unat off + k div 8)) (k mod 8)" for e k
    using f(1) by (simp add: bit_load_val)
  then have vb: "bit (V e b val) k \<Longrightarrow> k < ds_num_bits sz" for e k by blast
  have zero: "xval b val s t e = 0" if "ds_num_bits sz \<le> unat s" for e
    using that vb by (fastforce simp: xval_def bits bit_simps)
  have whole: "extracts b val 0 t (Done b val)" if "s = 0" "ds_num_bits sz \<le> unat t"
    using that wf i take_bit_take_bit [of "unat t" "ds_num_bits sz" "V _ b val"]
      load_bits [OF wf i, of sz] nd by (auto simp: xwt_def xval_def min_absorb2 intro!: good_self)
  have narrow: "extracts b val s t (load_ptr_imm b ptr ds (off + ucast (s div 8)))"
    if h: "unat s mod 8 = 0" "try_from_bits (unat t) = Some ds" "unat s + unat t < ds_num_bits sz" for ds
  proof -
    obtain k where k: "unat s = 8 * k" using h(1) by auto
    have ds: "unat t = ds_num_bytes ds * 8" using try_from_bits_bits [OF h(2)] by (simp add: ds_num_bits_def)
    have kb: "k + ds_num_bytes ds < ds_num_bytes sz" using h(3) k ds by (simp add: ds_num_bits_def)
    have "unat (ucast (s div 8) :: u16) = k"
      using k rr by (simp add: unsigned_ucast_eq unat_div take_bit_nat_def)
    then have u: "unat (off + ucast (s div 8)) = unat off + k"
      using f(3) kb by (simp add: unat_word_ariths)
    have div: "(8 * k + j) div 8 = k + j div 8" "(8 * k + j) mod 8 = j mod 8" for j by auto
    show ?thesis
      unfolding load_ptr_imm_def using wf f(3) kb k ds h(3)
      by (intro get_or_insert_ok)
        (auto simp: xval_def xwt_def bits bit_simps bit_load_val vb' u div ds_num_bits_def add.assoc)
  qed
  have tk: "try_from_bits (unat t) \<noteq> None" if "t \<in> {8, 16, 32, 64, 128}"
    using that by (auto simp: try_from_bits_def)
  show ?thesis
    using wf zero whole narrow tk plain_extract_ok [OF wf i r] nd
    by (auto simp: extract_load_imm_def imm_def xwt_def split: option.split intro!: const_ok)
qed

lemma extract_blend_ok:
  assumes wf: "wf_builder b" and i: "val < ids b" and nd: "value_tree b ! val = Blend l y m" and r: "range_ok s t"
  shows "extracts b val s t (extract_blend re b val l y m s t)"
proof -
  note f = at_Blend [OF wf i nd] and rr = range_okD [OF r]
  let ?m = "wrapping_shr m (unat s) AND mask (unat t)"
  have mt: "?m = take_bit (unat t) (drop_bit (unat s) m)" using rr by (simp add: wrapping_shr_def take_bit_eq_mask)
  have rhs: "extracts b val s t (re b y s t)" if "count_ones ?m = unat t"
  proof -
    have "?m = mask (unat t)" by (rule count_ones_mask) (use that rr in \<open>auto simp: and.assoc\<close>)
    then have "bit m (unat s + j)" if "j < unat t" for j
      using that rr unfolding mt by (auto simp: bits bit_simps dest: spec [of _ j])
    then show ?thesis using wf f r rr
      by (intro re_call) (auto simp: xval_def xwt_def bits bit_simps)
  qed
  have lhs: "extracts b val s t (re b l s t)" if "count_ones ?m = 0"
  proof -
    have "?m = 0" using that by (simp add: count_ones_0)
    then have "\<not> bit m (unat s + j)" if "j < unat t" for j
      using that rr unfolding mt by (auto simp: bits bit_simps dest: spec [of _ j])
    then show ?thesis using wf f r rr
      by (intro re_call) (auto simp: xval_def xwt_def bits bit_simps)
  qed
  show ?thesis using rr rhs lhs plain_extract_ok [OF wf i r] nd by (simp add: extract_blend_def Let_def)
qed

section \<open>One step of extract\<close>

lemma extract_extract_ok:
  assumes wf: "wf_builder b" and i: "val < ids b" and nd: "value_tree b ! val = Extract v s' t'"
    and r: "range_ok s t" and lt: "\<not> t' \<le> s"
  shows "extracts b val s t (re b v (s + s') (min t (t' - s)))"
proof -
  note f = at_Extract [OF wf i nd] and rr = range_okD [OF r]
  note rr' = range_okD [OF f(4)]
  have st: "unat s < unat t'" using lt by (simp add: word_le_nat_alt)
  have u: "unat (s + s') = unat s + unat s'" using rr rr' st by (intro unat_plus_range) simp
  have m: "unat (min t (t' - s)) = min (unat t) (unat t' - unat s)"
    using st by (simp add: unat_min_word unat_minus_range)
  have "take_bit (min k (k' - j)) (drop_bit (j + j') x) = take_bit k (drop_bit j (take_bit k' (drop_bit j' x)))"
    for k k' j j' and x :: u128 by (auto simp: bits bit_simps add.assoc add.left_commute)
  then show ?thesis using wf f rr rr' st
    by (intro re_call) (auto simp: u m xval_def xwt_def range_ok_def)
qed

lemma extract_ite_ok:
  assumes wf: "wf_builder b" and i: "val < ids b" and nd: "value_tree b ! val = Ite c z m" and r: "range_ok s t"
  shows "extracts b val s t (and_then (re b z s t) (\<lambda>b1 z'. and_then (re b1 m s t) (\<lambda>b2 m'. get_or_insert b2 (Ite c z' m'))))"
proof -
  note f = at_Ite [OF wf i nd]
  have lt: "c < ids b" "z < ids b" "m < ids b" using f(1-3) i by auto
  show ?thesis
  proof (rule ok_and_then [OF re_ok [OF wf lt(2) r]])
    show "Suc n < 2 * xwt b val + crop b val s t" if "n < 2 * xwt b z + 1" using that f by (simp add: xwt_def)
    fix b1 z' assume "good b (xval b z s t) (xwt b z) b1 z'"
    note d1 = goodD [OF this]
    have m1: "m < ids b1" using d1 lt by (simp add: extends_simps)
    show "ok_res b1 (xval b val s t) (xwt b val) (Suc n < 2 * xwt b val + crop b val s t)
        (and_then (re b1 m s t) (\<lambda>b2 m'. get_or_insert b2 (Ite c z' m')))"
    proof (rule ok_and_then [OF re_ok [OF d1(1) m1 r]])
      show "Suc n < 2 * xwt b val + crop b val s t" if "n < 2 * xwt b1 m + 1"
        using that f d1 lt by (simp add: xwt_def extends_simps)
      fix b2 m' assume "good b1 (xval b1 m s t) (xwt b1 m) b2 m'"
      note d2 = goodD [OF this]
      show "ok_res b2 (xval b val s t) (xwt b val) (Suc n < 2 * xwt b val + crop b val s t) (get_or_insert b2 (Ite c z' m'))"
        by (rule insert_Ite_ok) (use d1 d2 lt f in \<open>auto simp: extends_simps xval_def xwt_def\<close>)
    qed
  qed
qed

lemma extract_step_ok:
  assumes wf: "wf_builder b" and i: "val < ids b" and r: "range_ok s t"
  shows "extracts b val s t (extract_step rb re b val s t)"
proof -
  note plain = plain_extract_ok [OF wf i r] and rr = range_okD [OF r]
  show ?thesis
  proof (cases "value_tree b ! val")
    case (Const c)
    then show ?thesis
      using i rr wf at_Const [OF wf i Const]
      by (auto simp: extract_step_def imm_def xval_def xwt_def wrapping_shr_def take_bit_eq_mask intro!: const_ok)
  next
    case (Extract v s' t')
    note f = at_Extract [OF wf i Extract]
    have "xval b val s t e = 0" if "t' \<le> s" for e
      unfolding xval_def f(2) using that by (auto simp: bits bit_simps word_le_nat_alt)
    then show ?thesis
      using i extract_extract_ok [OF wf i Extract r] wf
      by (auto simp: extract_step_def Extract imm_def xwt_def intro!: const_ok)
  next
    case (UnOp op a)
    have "xval b val 0 t e = V e b val" if "one_bit_unop (UnOp op a)" for e
      using one_bit_cases [OF one_bit_val [OF wf i, of e]] that UnOp rr by (auto simp: xval_def)
    moreover have "xval b val s t e = 0" if "one_bit_unop (UnOp op a)" "s \<noteq> 0" for e
      using one_bit_cases [OF one_bit_val [OF wf i, of e]] that UnOp
      by (auto simp: xval_def bit_simps unat_eq_zero intro!: bit_word_eqI)
    ultimately show ?thesis
      using i plain wf by (auto simp: extract_step_def UnOp imm_def xwt_def intro!: const_ok good_self)
  next
    case (BinOp op i0 i1)
    then show ?thesis
      using i plain extract_bitwise_ok [OF wf i BinOp _ r] extract_shl_ok [OF wf i _ r] extract_sub_ok [OF wf i _ r]
      by (auto simp: extract_step_def)
  qed (use i plain extract_load_ok [OF wf i _ r] extract_load_imm_ok [OF wf i _ r] extract_blend_ok [OF wf i _ r]
        extract_ite_ok [OF wf i _ r] in \<open>simp_all add: extract_step_def\<close>)
qed

end

end
