(* ===== verification/MIR_Sound.thy ===== *)
theory MIR_Sound
  imports MIR_Extract
begin

text \<open>
  Correctness of the value builder: every simplification of \<open>binop\<close>, \<open>extract\<close>, \<open>ite\<close>, \<open>unop\<close> and
  \<open>combine_old_and_new\<close> keeps the value of the expression it is asked for, in every environment;
  the builder stays well-formed, existing nodes keep their values, and the mutual recursion of
  \<open>binop\<close> and \<open>extract\<close> ends, with a bound given by the weight of the operands.
\<close>

section \<open>Tying the knot\<close>

lemma val_contract: "binop_ok n (binop n) \<and> extract_ok n (extract_val n)"
proof (induction n)
  case 0
  show ?case by (auto simp: binop_ok_def extract_ok_def bwt_def xwt_def)
next
  case (Suc n)
  have loc: "val_recursion n (binop n) (extract_val n)" using Suc by unfold_locales auto
  show ?case
    using val_recursion.binop_step_ok [OF loc] val_recursion.binop_step_Shl_shape [OF loc]
      val_recursion.extract_step_ok [OF loc]
    by (auto simp: binop_ok_def extract_ok_def)
qed

interpretation vb: val_recursion n "binop n" "extract_val n" for n
  using val_contract by unfold_locales auto

section \<open>Conditional values\<close>

lemma ite_ok:
  assumes "wf_builder b" "c < ids b" "z < ids b" "m < ids b"
  shows "ok_res b (\<lambda>e. if V e b c = 0 then V e b z else V e b m) (W b c + W b z + W b m + 1) (fuel \<le> z + m)
           (ite fuel b c z m)"
  using assms(3,4)
proof (induction fuel arbitrary: z m)
  case 0
  then show ?case by simp
next
  case (Suc fuel)
  let ?v = "\<lambda>e. if V e b c = 0 then V e b z else V e b m"
  let ?ok = "ok_res b ?v (W b c + W b z + W b m + 1) (Suc fuel \<le> z + m)"
  note wf = assms(1) and c = assms(2) and z = Suc.prems(1) and m = Suc.prems(2)
  have plain: "?ok (get_or_insert b (Ite c z m))" using wf c z m by (intro insert_Ite_ok) auto
  have inz: "?ok (ite fuel b c z' m)" if "value_tree b ! z = Ite c z' q" for z' q
    by (rule ok_res_weaken [OF Suc.IH]) (use at_Ite [OF wf z that] z m in auto)
  have inm: "?ok (ite fuel b c z m')" if "value_tree b ! m = Ite c q m'" for m' q
    by (rule ok_res_weaken [OF Suc.IH]) (use at_Ite [OF wf m that] z m in auto)
  show ?case
    using wf c z m plain inz inm at_Const [OF wf c]
    by (auto simp: Let_def split: option.split intro!: good_self)
qed

lemma optimize_as_if_zero_ok:
  assumes wf: "wf_builder b" and "c < ids b" "c < fuel"
  shows "\<exists>v flip. optimize_as_if_zero fuel (value_tree b) c = Some (v, flip) \<and> v < ids b
           \<and> (\<forall>e. (V e b c = 0) = ((V e b v = 0) \<noteq> flip))"
  using assms(2,3)
proof (induction fuel arbitrary: c)
  case (Suc fuel)
  show ?case
  proof (cases "is_zero_arg (value_tree b ! c)")
    case None
    then show ?thesis using Suc.prems by (intro exI [of _ c] exI [of _ False]) simp
  next
    case (Some a)
    then have n: "value_tree b ! c = UnOp IsZero a" by (cases "value_tree b ! c" rule: is_zero_arg.cases) auto
    note f = at_UnOp [OF wf Suc.prems(1) n]
    obtain v flip where "optimize_as_if_zero fuel (value_tree b) a = Some (v, flip)" "v < ids b"
      "\<And>e. (V e b a = 0) = ((V e b v = 0) \<noteq> flip)" using Suc.IH [of a] f Suc.prems by auto
    then show ?thesis using Some Suc.prems f by auto
  qed
qed simp

section \<open>Writing part of a value\<close>

text \<open>The bits of the mask come from the new value, the others from the old one.\<close>

definition blended :: "u128 \<Rightarrow> u128 \<Rightarrow> u128 \<Rightarrow> u128" where
  "blended old new m = (old AND NOT m) OR (new AND m)"

text \<open>Calls with enough fuel: no running out, and the weight of the result is bounded.\<close>

lemma binop_call:
  assumes "wf_builder b" "x < ids b" "y < ids b" "binop_pre b op y"
    and "\<And>e. the (binop_execute op (V e b x) (V e b y)) = v e"
    and "2 * W b x + 2 * W b y + 4 \<le> w" "4 * W b x + 4 * W b y + 8 \<le> n"
  shows "ok_res b v w False (binop n b op x y)"
  by (rule ok_res_weaken [OF vb.rb_ok [OF assms(1-4)]]) (use assms(5-7) in \<open>auto simp: bval_def bwt_def\<close>)

lemma mask_val_r_ok:
  assumes "wf_builder b" "x < ids b" "\<And>e. V e b x AND m = v e" "2 * W b x + 6 \<le> w" "4 * W b x + 12 \<le> n"
  shows "ok_res b v w False (mask_val_r n b x m)"
  using vb.re_binop_r_ok [where n = n and op = And and c = m and F = False, OF assms(1,2)] assms(3-5)
  by (simp add: mask_val_r_def re_binop_r_def)

lemma mask_val_l_ok:
  assumes "wf_builder b" "x < ids b" "\<And>e. V e b x AND m = v e" "2 * W b x + 6 \<le> w" "4 * W b x + 12 \<le> n"
  shows "ok_res b v w False (mask_val_l n b m x)"
  using vb.re_binop_l_ok [where n = n and op = And and c = m and F = False, OF assms(1,2)] assms(3-5)
  by (simp add: mask_val_l_def re_binop_l_def and.commute)

lemma shl_const_ok:
  assumes wf: "wf_builder b" and x: "x < ids b" and sh: "sh < 128" and "\<And>e. push_bit sh (V e b x) = v e"
    and "2 * W b x + 6 \<le> w" "4 * W b x + 12 \<le> n"
  shows "ok_res b v w False (re_binop_r (binop n) b Shl x (word_of_nat sh))"
proof -
  have "word_of_nat sh < (128 :: u128)" "as_u32 (word_of_nat sh) = sh"
    using sh by (simp_all add: word_less_nat_alt unat_of_nat as_u32_unat)
  then show ?thesis using assms(4-6) sh
    by (intro vb.re_binop_r_ok [OF wf x]) (auto simp: wrapping_shl_def)
qed

definition mask_fuel :: "nat \<Rightarrow> nat \<Rightarrow> nat" where
  "mask_fuel wo wn = 8 * 4 ^ wo * (wn + wo + 28)"

lemma mask_fuel_step:
  assumes "wo = o1 + i1 + 1"
  shows "mask_fuel o1 (4 * i1 + 4 * wn + 28) < mask_fuel wo wn" "8 * i1 + 8 * wn + 56 < mask_fuel wo wn"
    "mask_fuel o1 wn < mask_fuel wo wn"
proof -
  have p: "(1::nat) \<le> 4 ^ i1" "(1::nat) \<le> 4 ^ o1" by simp_all
  have e: "mask_fuel wo wn = 8 * 4 ^ o1 * (4 ^ i1 * (4 * (wn + o1 + i1 + 29)))"
    using assms by (simp add: mask_fuel_def power_add algebra_simps)
  have "4 * (wn + o1 + i1 + 29) \<le> 4 ^ i1 * (4 * (wn + o1 + i1 + 29))" using p(1) by simp
  then have lb: "8 * 4 ^ o1 * (4 * (wn + o1 + i1 + 29)) \<le> mask_fuel wo wn" unfolding e by (rule mult_le_mono2)
  have "8 * 4 ^ o1 * (4 * i1 + 4 * wn + 28 + o1 + 28) < 8 * 4 ^ o1 * (4 * (wn + o1 + i1 + 29))"
    by (rule mult_less_mono2) auto
  from less_le_trans [OF this lb] show "mask_fuel o1 (4 * i1 + 4 * wn + 28) < mask_fuel wo wn"
    unfolding mask_fuel_def [of o1] .
  have "8 * 4 ^ o1 * (wn + o1 + 28) < 8 * 4 ^ o1 * (4 * (wn + o1 + i1 + 29))" by (rule mult_less_mono2) auto
  from less_le_trans [OF this lb] show "mask_fuel o1 wn < mask_fuel wo wn" unfolding mask_fuel_def [of o1] .
  have q: "8 * 1 * (4 * (wn + o1 + i1 + 29)) \<le> 8 * 4 ^ o1 * (4 * (wn + o1 + i1 + 29))"
    by (intro mult_le_mono1 mult_le_mono2) (rule p(2))
  have "8 * i1 + 8 * wn + 56 < 8 * 1 * (4 * (wn + o1 + i1 + 29))" by simp
  from less_le_trans [OF this le_trans [OF q lb]] show "8 * i1 + 8 * wn + 56 < mask_fuel wo wn" .
qed

text \<open>The weight of the result is not bounded here: nothing recurses on it.\<close>

definition computes :: "ValBuilder \<Rightarrow> (env \<Rightarrow> u128) \<Rightarrow> ValId outcome \<Rightarrow> bool" where
  "computes b v r =
     (case r of
        Done b' i \<Rightarrow> wf_builder b' \<and> extends b b' \<and> i < ids b' \<and> (\<forall>e. V e b' i = v e)
      | Panic b' \<Rightarrow> extends b b' \<and> 2 ^ 32 \<le> ids b'
      | NoFuel \<Rightarrow> False)"

lemma computesI: "ok_res b v w False r \<Longrightarrow> computes b v r"
  by (auto simp: ok_res_def computes_def good_def split: outcome.splits)

lemma computes_extends: "extends a b \<Longrightarrow> computes b v r \<Longrightarrow> computes a v r"
  by (auto simp: computes_def split: outcome.splits intro: extends_trans)

lemma computes_cong: "computes b v r \<Longrightarrow> (\<And>e. v e = v' e) \<Longrightarrow> computes b v' r"
  by (auto simp: computes_def split: outcome.splits)

lemma computes_and_then:
  assumes "ok_res b v1 w1 False r"
    and "\<And>b1 i. r = Done b1 i \<Longrightarrow> good b v1 w1 b1 i \<Longrightarrow> computes b1 v (k b1 i)"
  shows "computes b v (and_then r k)"
proof (cases r)
  case (Done b1 i)
  with assms(1) have "good b v1 w1 b1 i" by simp
  with assms(2) [OF Done] show ?thesis
    using Done by (auto simp: and_then_def good_def intro: computes_extends)
qed (use assms(1) in \<open>auto simp: and_then_def ok_res_def computes_def\<close>)

lemma combine_old_and_new_mask_ok:
  assumes "wf_builder b" "old < ids b" "new < ids b" "mask_fuel (W b old) (W b new) \<le> n"
  shows "computes b (\<lambda>e. blended (V e b old) (V e b new) m) (combine_old_and_new_mask n b old new m)"
  using assms
proof (induction n arbitrary: b old new m)
  case 0
  then show ?case by (simp add: mask_fuel_def)
next
  case (Suc n)
  note wf = Suc.prems(1) and o = Suc.prems(2) and w = Suc.prems(3)
  let ?v = "\<lambda>e. blended (V e b old) (V e b new) m"
  have plain: "computes b ?v (insert_blend b old new m)"
    unfolding insert_blend_def blended_def
    by (rule computesI, rule insert_Blend_ok [OF wf o w refl le_refl])
  show ?case
  proof (cases "blend_of (value_tree b ! old)")
    case None
    then show ?thesis using plain o w by simp
  next
    case (Some p)
    then obtain o1 i1 mi where nd: "value_tree b ! old = Blend o1 i1 mi" by (cases "value_tree b ! old") auto
    note f = at_Blend [OF wf o nd]
    note fu = mask_fuel_step [OF f(4), of "W b new"] and fn = Suc.prems(4)
    have cover: "computes b ?v (combine_old_and_new_mask n b o1 new m)" if "m AND mi = mi"
    proof (rule computes_cong [OF Suc.IH])
      show "blended (V e b o1) (V e b new) m = blended (V e b old) (V e b new) m" for e
        unfolding blended_def f(3) using that by (auto simp: bits bit_simps)
    qed (use wf f w fu fn in auto)
    have disjoint: "computes b ?v (and_then (mask_val_l n b mi i1) (\<lambda>b1 x.
               and_then (mask_val_r n b1 new m) (\<lambda>b2 y.
                 and_then (binop n b2 Or x y) (\<lambda>b3 both.
                   combine_old_and_new_mask n b3 o1 both (mi OR m)))))" if dj: "m AND mi = 0"
    proof (rule computes_and_then [OF mask_val_l_ok [OF wf f(2) refl le_refl]])
      show "4 * W b i1 + 12 \<le> n" using fu fn by simp
      fix b1 x assume "good b (\<lambda>e. V e b i1 AND mi) (2 * W b i1 + 6) b1 x"
      note d1 = goodD [OF this]
      have n1: "new < ids b1" using d1 w by (simp add: extends_simps)
      show "computes b1 ?v (and_then (mask_val_r n b1 new m) (\<lambda>b2 y.
                 and_then (binop n b2 Or x y) (\<lambda>b3 both.
                   combine_old_and_new_mask n b3 o1 both (mi OR m))))"
      proof (rule computes_and_then [OF mask_val_r_ok [OF d1(1) n1 refl le_refl]])
        show "4 * W b1 new + 12 \<le> n" using fu fn d1 w by (simp add: extends_simps)
        fix b2 y assume "good b1 (\<lambda>e. V e b1 new AND m) (2 * W b1 new + 6) b2 y"
        note d2 = goodD [OF this]
        have x2: "x < ids b2" "W b2 x \<le> 2 * W b i1 + 6" "W b2 y \<le> 2 * W b new + 6"
          using d1 d2 w by (auto simp: extends_simps)
        have v2: "V e b2 x OR V e b2 y = V e b i1 AND mi OR V e b new AND m" for e
          using d1 d2 w by (simp add: extends_simps)
        have pre: "binop_pre b2 Or y" by (rule binop_pre_easy) auto
        show "computes b2 ?v (and_then (binop n b2 Or x y) (\<lambda>b3 both. combine_old_and_new_mask n b3 o1 both (mi OR m)))"
        proof (rule computes_and_then [OF binop_call [OF d2(1) x2(1) d2(3) pre]])
          show "2 * W b2 x + 2 * W b2 y + 4 \<le> 4 * W b i1 + 4 * W b new + 28"
            "4 * W b2 x + 4 * W b2 y + 8 \<le> n" using x2 fu fn by auto
          fix b3 j assume "good b2 (\<lambda>e. V e b i1 AND mi OR V e b new AND m) (4 * W b i1 + 4 * W b new + 28) b3 j"
          note d3 = goodD [OF this]
          have e3: "extends b b3" using d1 d2 d3 by (blast intro: extends_trans)
          have o3: "o1 < ids b3" "W b3 o1 = W b o1" using e3 f by (auto simp: extends_simps)
          have "mask_fuel (W b o1) (W b3 j) \<le> mask_fuel (W b o1) (4 * W b i1 + 4 * W b new + 28)"
            using d3(5) by (simp add: mask_fuel_def)
          then have fl: "mask_fuel (W b3 o1) (W b3 j) \<le> n" using fu fn o3 by simp
          show "computes b3 ?v (combine_old_and_new_mask n b3 o1 j (mi OR m))"
          proof (rule computes_cong [OF Suc.IH [OF d3(1) o3(1) d3(3) fl]])
            have "V e b3 o1 = V e b o1" for e using e3 f by (simp add: extends_simps)
            then show "blended (V e b3 o1) (V e b3 j) (mi OR m) = blended (V e b old) (V e b new) m" for e
              unfolding blended_def f(3) d3(4) using dj by (auto simp: bits bit_simps)
          qed
        qed (use v2 in simp)
      qed
    qed
    show ?thesis using nd o w plain cover disjoint by simp
  qed
qed

lemma mask_fuel_ge: "8 * (wn + wo + 28) \<le> mask_fuel wo wn"
proof -
  have "8 * 1 * (wn + wo + 28) \<le> 8 * 4 ^ wo * (wn + wo + 28)" by (intro mult_le_mono1 mult_le_mono2) simp
  then show ?thesis by (simp add: mask_fuel_def)
qed

lemma mask_fuel_scale:
  assumes "x + wo + 28 \<le> k * (wn + wo + 28)" shows "mask_fuel wo x \<le> k * mask_fuel wo wn"
proof -
  have "8 * 4 ^ wo * (x + wo + 28) \<le> 8 * 4 ^ wo * (k * (wn + wo + 28))" by (rule mult_le_mono2) (rule assms)
  then show ?thesis by (simp add: mask_fuel_def mult.left_commute)
qed

definition comb_fuel :: "nat \<Rightarrow> nat \<Rightarrow> nat" where
  "comb_fuel wo wn = 8 * mask_fuel wo wn"

lemma mask_and_shift_ok:
  assumes wf: "wf_builder b" and new: "new < ids b" and sh: "sh < 128"
    and v: "\<And>e. push_bit sh (V e b new AND um) = v e" and w: "4 * W b new + 18 \<le> w" and fu: "8 * W b new + 36 \<le> n"
  shows "ok_res b v w False (mask_and_shift n b new um sh)"
  unfolding mask_and_shift_def
proof (rule ok_and_then [OF imm_ok [OF wf]])
  fix b1 i assume im: "imm b (word_of_nat sh) = Done b1 i" and "good b (\<lambda>_. word_of_nat sh) 1 b1 i"
  note d1 = goodD [OF this(2)] and nd = imm_Done [OF wf im]
  have c: "word_of_nat sh < (128 :: u128)" "as_u32 (word_of_nat sh) = sh"
    using sh by (simp_all add: word_less_nat_alt unat_of_nat as_u32_unat)
  have n1: "new < ids b1" "W b1 new = W b new" using d1 new by (auto simp: extends_simps)
  show "ok_res b1 v w False (and_then (mask_val_r n b1 new um) (\<lambda>b2 new'. binop n b2 Shl new' i))"
  proof (rule ok_and_then [OF mask_val_r_ok [OF d1(1) n1(1) refl le_refl]])
    show "4 * W b1 new + 12 \<le> n" using fu n1 by simp
    fix b2 j assume "good b1 (\<lambda>e. V e b1 new AND um) (2 * W b1 new + 6) b2 j"
    note d2 = goodD [OF this]
    have i2: "i < ids b2" "value_tree b2 ! i = Const (word_of_nat sh)" "W b2 i \<le> 1"
      using d1 d2 nd by (auto simp: extends_simps)
    have "V e b2 j = V e b new AND um" "V e b2 i = word_of_nat sh" for e
      using d1 d2 new by (auto simp: extends_simps)
    then show "ok_res b2 v w False (binop n b2 Shl j i)"
      using d2 i2 c n1 sh v w fu
      by (intro binop_call) (auto simp: binop_pre_def wrapping_shl_def)
  qed simp
qed simp

lemma shift_and_blend_ok:
  assumes wf: "wf_builder b" and o: "old < ids b" and new: "new < ids b" and sh: "sh < 128"
    and fu: "2 * mask_fuel (W b old) (W b new) \<le> n"
  shows "computes b (\<lambda>e. blended (V e b old) (push_bit sh (V e b new)) m) (shift_and_blend n b old new m sh)"
proof -
  have fu': "8 * (W b new + W b old + 28) \<le> n" using mask_fuel_ge [of "W b new" "W b old"] fu by simp
  have assoc: "shift_and_blend n b old new m sh =
      and_then (re_binop_r (binop n) b Shl new (word_of_nat sh)) (\<lambda>b2 new'. combine_old_and_new_mask n b2 old new' m)"
    by (auto simp: shift_and_blend_def re_binop_r_def and_then_def split: outcome.split)
  show ?thesis
    unfolding assoc
  proof (rule computes_and_then [OF shl_const_ok [OF wf new sh refl le_refl]])
    show "4 * W b new + 12 \<le> n" using fu' by simp
    fix b1 j assume "good b (\<lambda>e. push_bit sh (V e b new)) (2 * W b new + 6) b1 j"
    note d = goodD [OF this]
    have o1: "old < ids b1" "W b1 old = W b old" using d o by (auto simp: extends_simps)
    have "mask_fuel (W b old) (W b1 j) \<le> 2 * mask_fuel (W b old) (W b new)"
      by (rule mask_fuel_scale) (use d(5) in simp)
    then have fl: "mask_fuel (W b1 old) (W b1 j) \<le> n" using fu o1 by simp
    show "computes b1 (\<lambda>e. blended (V e b old) (push_bit sh (V e b new)) m) (combine_old_and_new_mask n b1 old j m)"
      by (rule computes_cong [OF combine_old_and_new_mask_ok [OF d(1) o1(1) d(3) fl]])
        (use d o in \<open>simp add: extends_simps\<close>)
  qed
qed

text \<open>The part of the new value above the written bits does not matter.\<close>

lemma low_masked_Some:
  assumes "low_masked w k0 k1 j0 j1 = Some r"
  shows "(\<exists>c. k0 = Const c \<and> w \<le> trailing_ones c \<and> r = j1) \<or> (\<exists>c. k1 = Const c \<and> w \<le> trailing_ones c \<and> r = j0)"
  using assms by (auto simp: low_masked_def split: option.splits if_splits)

lemma low_masked_val:
  assumes wf: "wf_builder b" and i: "x < ids b" and nd: "value_tree b ! x = BinOp And j0 j1"
    and lm: "low_masked w (value_tree b ! j0) (value_tree b ! j1) j0 j1 = Some r"
  shows "r < ids b" "W b r < W b x" "\<And>e i. i < w \<Longrightarrow> bit (V e b r) i = bit (V e b x) i"
proof -
  note f = at_BinOp [OF wf i nd]
  note c = at_Const [OF wf f(1)] at_Const [OF wf f(2)] and l = low_masked_Some [OF lm]
  show "r < ids b" "W b r < W b x" using l f by auto
  show "bit (V e b r) i = bit (V e b x) i" if "i < w" for e i
    using l c that f(3) [of e] by (auto simp: bit_simps trailing_ones_ge)
qed

lemma simplify_new_ok:
  assumes wf: "wf_builder b" and i: "new < ids b" and nd: "value_tree b ! new = BinOp op i0 i1"
    and op: "op = Add \<or> op = Or \<or> op = Xor" and w: "w \<le> 128" and fu: "2 * W b new \<le> n"
  shows "\<exists>v. ok_res b v (W b new) False (simplify_new n b new op i0 i1 w)
           \<and> (\<forall>e. take_bit w (v e) = take_bit w (V e b new))"
proof -
  note f = at_BinOp [OF wf i nd]
  let ?m0 = "value_tree b ! i0" and ?m1 = "value_tree b ! i1"
  have op': "op = Add \<or> op = Or \<or> op = And \<or> op = Xor" using op by blast
  have uw: "unat (word_of_nat w :: u8) = w" using w by (simp add: unat_of_nat)
  have call: "\<exists>v. ok_res b v (W b new) False (binop n b op x y) \<and> (\<forall>e. take_bit w (v e) = take_bit w (V e b new))"
    if h: "x < ids b" "y < ids b" "W b x + W b y \<le> W b i0 + W b i1"
      "\<And>e. take_bit w (the (binop_execute op (V e b x) (V e b y))) = take_bit w (V e b new)" for x y
  proof (intro exI conjI allI)
    show "ok_res b (\<lambda>e. the (binop_execute op (V e b x) (V e b y))) (W b new) False (binop n b op x y)"
      by (rule binop_call) (use wf h f op fu in \<open>auto intro: binop_pre_easy\<close>)
  qed (rule h(4))
  have keep: "\<exists>v. ok_res b v (W b new) False (Done b new) \<and> (\<forall>e. take_bit w (v e) = take_bit w (V e b new))"
    using wf i by (intro exI [of _ "\<lambda>e. V e b new"]) (auto intro: good_self)
  have l: "\<exists>v. ok_res b v (W b new) False (binop n b op x i1) \<and> (\<forall>e. take_bit w (v e) = take_bit w (V e b new))"
    if le: "low_extract 0 (word_of_nat w) ?m0 = Some x" for x
  proof -
    obtain t0 where e: "?m0 = Extract x 0 t0" "w \<le> unat t0"
      using le uw by (auto simp: low_extract_Some word_le_nat_alt)
    note g = at_Extract [OF wf f(1) e(1)]
    show ?thesis
      by (rule call, use g f in simp, use f in simp, use g in simp, unfold f(3), rule take_bit_op_low(1) [OF op'])
        (use g e w in \<open>auto simp: bit_simps dest: bit_imp_le_length\<close>)
  qed
  have r: "\<exists>v. ok_res b v (W b new) False (binop n b op x i0) \<and> (\<forall>e. take_bit w (v e) = take_bit w (V e b new))"
    if le: "low_extract 0 (word_of_nat w) ?m1 = Some x" for x
  proof -
    obtain t0 where e: "?m1 = Extract x 0 t0" "w \<le> unat t0"
      using le uw by (auto simp: low_extract_Some word_le_nat_alt)
    note g = at_Extract [OF wf f(2) e(1)]
    show ?thesis
      by (rule call, use g f in simp, use f in simp, use g in simp, unfold f(3), rule take_bit_op_low(2) [OF op', symmetric])
        (use g e w in \<open>auto simp: bit_simps dest: bit_imp_le_length\<close>)
  qed
  have a: "\<exists>v. ok_res b v (W b new) False (binop n b op x i1) \<and> (\<forall>e. take_bit w (v e) = take_bit w (V e b new))"
    if h: "?m0 = BinOp And j0 j1" "low_masked w (value_tree b ! j0) (value_tree b ! j1) j0 j1 = Some x" for j0 j1 x
  proof -
    note g = low_masked_val [OF wf f(1) h]
    show ?thesis
      by (rule call, rule g(1), rule f(2), use g(2) in simp, unfold f(3), rule take_bit_op_low(1) [OF op'], rule g(3))
  qed
  show ?thesis
    using f(1,2) l r a keep at_BinOp(1,2) [OF wf f(1)] by (auto simp: simplify_new_def split: option.split)
qed

text \<open>The write of \<open>w\<close> bits at position \<open>sh\<close>, and what a recursive call of \<open>combine_old_and_new\<close>
  promises.\<close>

definition written :: "nat \<Rightarrow> nat \<Rightarrow> ValBuilder \<Rightarrow> ValId \<Rightarrow> ValId \<Rightarrow> env \<Rightarrow> u128" where
  "written w sh b old new e = blended (V e b old) (push_bit sh (V e b new)) (push_bit sh (mask w))"

definition size_ok :: "Size \<Rightarrow> bool" where
  "size_ok sz \<longleftrightarrow> start_byte sz \<le> end_byte sz \<and> end_byte sz \<le> 15"

lemma size_ok_range:
  assumes "size_ok sz"
  shows "unat (start_byte sz) * 8 + size_num_bytes sz * 8 \<le> 128" "0 < size_num_bytes sz * 8"
proof -
  have "unat (end_byte sz - start_byte sz) = unat (end_byte sz) - unat (start_byte sz)"
    using assms by (simp add: size_ok_def unat_sub)
  then show "unat (start_byte sz) * 8 + size_num_bytes sz * 8 \<le> 128"
    using assms by (auto simp: size_ok_def size_num_bytes_def word_le_nat_alt)
qed (simp add: size_num_bytes_def)

text \<open>The interface between one step of \<open>combine_old_and_new\<close> and its recursive calls.\<close>

locale combine_call =
  fixes n :: nat and sz :: Size and rc :: combine_fun
  assumes rc_ok: "size_ok sz \<Longrightarrow> wf_builder b \<Longrightarrow> old < ids b \<Longrightarrow> new < ids b \<Longrightarrow>
      comb_fuel (W b old) (W b new) \<le> n \<Longrightarrow>
      computes b (written (size_num_bytes sz * 8) (unat (start_byte sz) * 8) b old new) (rc b old new)"
begin

abbreviation (input) "w \<equiv> size_num_bytes sz * 8"
abbreviation (input) "sh \<equiv> unat (start_byte sz) * 8"
abbreviation (input) "m \<equiv> push_bit sh (mask w) :: u128"

lemma written_low:
  assumes "take_bit w x = take_bit w y"
  shows "blended z (push_bit sh x) m = blended z (push_bit sh y) m"
proof -
  have "bit x i = bit y i" if "i < w" for i using assms that by (metis bit_take_bit_iff)
  then show ?thesis by (auto simp: blended_def bits bit_simps)
qed

lemma written_clear:
  "size_ok sz \<Longrightarrow> x AND NOT m = 0 \<Longrightarrow> blended x (push_bit sh y) m = push_bit sh (y AND mask w)"
  using size_ok_range [of sz] by (auto simp: blended_def bits bit_simps)

lemma shl_ok:
  assumes "size_ok sz" "wf_builder b" "old < ids b" "new < ids b" "comb_fuel (W b old) (W b new) \<le> Suc n"
    "\<And>e. V e b old AND NOT m = 0"
  shows "computes b (written w sh b old new) (mask_and_shift n b new (mask w) sh)"
proof (rule computesI [OF mask_and_shift_ok])
  show "8 * W b new + 36 \<le> n" using assms(5) mask_fuel_ge [of "W b new" "W b old"] by (simp add: comb_fuel_def)
qed (use assms size_ok_range [OF assms(1)] in \<open>auto simp: written_def written_clear\<close>)

lemma combine_new_arms_ok:
  assumes ok: "size_ok sz" and wf: "wf_builder b" and o: "old < ids b" and i: "new < ids b" and fu: "comb_fuel (W b old) (W b new) \<le> Suc n"
  shows "computes b (written w sh b old new) (combine_new_arms n rc b old new (value_tree b ! new) m w sh)"
proof -
  have ge: "8 * (W b new + W b old + 28) \<le> mask_fuel (W b old) (W b new)" by (rule mask_fuel_ge)
  then have pos: "0 < mask_fuel (W b old) (W b new)" by simp
  have sh: "sh < 128" using size_ok_range [OF ok] by simp
  have plain: "computes b (written w sh b old new) (shift_and_blend n b old new m sh)"
    unfolding written_def by (rule shift_and_blend_ok [OF wf o i sh]) (use fu pos in \<open>simp add: comb_fuel_def\<close>)
  have msk: "computes b (written w sh b old new) (rc b old other)"
    if h: "value_tree b ! new = BinOp And i0 i1" "low_masked w (value_tree b ! i0) (value_tree b ! i1) i0 i1 = Some other"
    for i0 i1 other
  proof -
    note g = low_masked_val [OF wf i h]
    have "comb_fuel (W b old) (W b other) < comb_fuel (W b old) (W b new)"
      using g(2) by (simp add: comb_fuel_def mask_fuel_def)
    then have "computes b (written w sh b old other) (rc b old other)" using fu by (intro rc_ok ok wf o g(1)) simp
    moreover have "written w sh b old other e = written w sh b old new e" for e
      unfolding written_def by (rule written_low) (use g(3) in \<open>auto simp: bits bit_simps\<close>)
    ultimately show ?thesis by (rule computes_cong)
  qed
  have simplified: "computes b (written w sh b old new)
      (and_then (simplify_new n b new op i0 i1 w) (\<lambda>b1 new'. shift_and_blend n b1 old new' m sh))"
    if h: "value_tree b ! new = BinOp op i0 i1" "op = Add \<or> op = Or \<or> op = Xor" for op i0 i1
  proof -
    have "w \<le> 128" "2 * W b new \<le> n" using size_ok_range [OF ok] fu ge by (simp_all add: comb_fuel_def)
    then obtain v where v: "ok_res b v (W b new) False (simplify_new n b new op i0 i1 w)"
      and low: "\<And>e. take_bit w (v e) = take_bit w (V e b new)" using simplify_new_ok [OF wf i h] by blast
    show ?thesis
    proof (rule computes_and_then [OF v])
      fix b1 j assume "good b v (W b new) b1 j"
      note d = goodD [OF this]
      have o1: "old < ids b1" "W b1 old = W b old" using d o by (auto simp: extends_simps)
      have "mask_fuel (W b old) (W b1 j) \<le> 1 * mask_fuel (W b old) (W b new)"
        by (rule mask_fuel_scale) (use d(5) in simp)
      then have fl: "2 * mask_fuel (W b1 old) (W b1 j) \<le> n" using fu pos o1 by (simp add: comb_fuel_def)
      show "computes b1 (written w sh b old new) (shift_and_blend n b1 old j m sh)"
      proof (rule computes_cong [OF shift_and_blend_ok [OF d(1) o1(1) d(3) sh fl]])
        show "blended (V e b1 old) (push_bit sh (V e b1 j)) m = written w sh b old new e" for e
          unfolding written_def d(4) extends_V [OF d(2) o] by (rule written_low) (rule low)
      qed
    qed
  qed
  show ?thesis
  proof (cases "binop_of (value_tree b ! new)")
    case None
    then show ?thesis using plain by (simp add: combine_new_arms_def)
  next
    case (Some p)
    then obtain op i0 i1 where nd: "value_tree b ! new = BinOp op i0 i1" by (cases p) auto
    note f = at_BinOp(1,2) [OF wf i nd]
    show ?thesis
    proof (cases "op = And")
      case True
      then show ?thesis
        using plain msk [of i0 i1] nd f by (cases "low_masked w (value_tree b ! i0) (value_tree b ! i1) i0 i1")
          (simp_all add: combine_new_arms_def)
    next
      case False
      then show ?thesis using plain simplified [OF nd] by (simp add: combine_new_arms_def nd)
    qed
  qed
qed

lemma combine_disjoint_ok:
  assumes ok: "size_ok sz" and wf: "wf_builder b" and o: "old < ids b" and i: "new < ids b" and fu: "comb_fuel (W b old) (W b new) \<le> Suc n"
    and nd: "value_tree b ! old = Blend o1 i1 mi" and dj: "m AND mi = 0"
  shows "computes b (written w sh b old new)
     (and_then (mask_val_l n b mi i1) (\<lambda>b1 x. and_then (mask_and_shift n b1 new (mask w) sh) (\<lambda>b2 y.
        and_then (binop n b2 Or x y) (\<lambda>b3 both. combine_old_and_new_mask n b3 o1 both (mi OR m)))))"
proof -
  note f = at_Blend [OF wf o nd]
  have sh: "sh < 128" using size_ok_range [OF ok] by simp
  have big: "8 * mask_fuel (W b old) (W b new) \<le> Suc n" "8 * W b i1 + 8 * W b new + 56 < mask_fuel (W b old) (W b new)"
    using fu mask_fuel_step(2) [OF f(4), of "W b new"] by (simp_all add: comb_fuel_def)
  show ?thesis
  proof (rule computes_and_then [OF mask_val_l_ok [OF wf f(2) refl le_refl]])
    show "4 * W b i1 + 12 \<le> n" using big by simp
    fix b1 x assume "good b (\<lambda>e. V e b i1 AND mi) (2 * W b i1 + 6) b1 x"
    note d1 = goodD [OF this]
    have n1: "new < ids b1" "W b1 new = W b new" using d1 i by (auto simp: extends_simps)
    show "computes b1 (written w sh b old new) (and_then (mask_and_shift n b1 new (mask w) sh) (\<lambda>b2 y.
        and_then (binop n b2 Or x y) (\<lambda>b3 both. combine_old_and_new_mask n b3 o1 both (mi OR m))))"
    proof (rule computes_and_then [OF mask_and_shift_ok [OF d1(1) n1(1) sh refl le_refl]])
      show "8 * W b1 new + 36 \<le> n" using big n1 by simp
      fix b2 y assume "good b1 (\<lambda>e. push_bit sh (V e b1 new AND mask w)) (4 * W b1 new + 18) b2 y"
      note d2 = goodD [OF this]
      have x2: "x < ids b2" "W b2 x \<le> 2 * W b i1 + 6" "W b2 y \<le> 4 * W b new + 18"
        using d1 d2 n1 by (auto simp: extends_simps)
      have v2: "the (binop_execute Or (V e b2 x) (V e b2 y)) = (V e b i1 AND mi) OR push_bit sh (V e b new AND mask w)" for e
        using d1 d2 i by (simp add: extends_simps)
      have pre: "binop_pre b2 Or y" by (rule binop_pre_easy) auto
      show "computes b2 (written w sh b old new)
          (and_then (binop n b2 Or x y) (\<lambda>b3 both. combine_old_and_new_mask n b3 o1 both (mi OR m)))"
      proof (rule computes_and_then [OF binop_call [OF d2(1) x2(1) d2(3) pre v2]])
        show "2 * W b2 x + 2 * W b2 y + 4 \<le> 4 * W b i1 + 8 * W b new + 52" "4 * W b2 x + 4 * W b2 y + 8 \<le> n"
          using x2 big by auto
        fix b3 j assume "good b2 (\<lambda>e. (V e b i1 AND mi) OR push_bit sh (V e b new AND mask w)) (4 * W b i1 + 8 * W b new + 52) b3 j"
        note d3 = goodD [OF this]
        have e3: "extends b b3" using d1 d2 d3 by (blast intro: extends_trans)
        have o3: "o1 < ids b3" "W b3 o1 = W b o1" "V e b3 o1 = V e b o1" for e using e3 f by (auto simp: extends_simps)
        have "mask_fuel (W b o1) (W b3 j) \<le> 2 * mask_fuel (W b o1) (4 * W b i1 + 4 * W b new + 28)"
          by (rule mask_fuel_scale) (use d3(5) in simp)
        moreover have "mask_fuel (W b o1) (4 * W b i1 + 4 * W b new + 28) < mask_fuel (W b old) (W b new)"
          by (rule mask_fuel_step(1) [OF f(4)])
        ultimately have fl: "mask_fuel (W b3 o1) (W b3 j) \<le> n" using big(1) unfolding o3(2) by linarith
        show "computes b3 (written w sh b old new) (combine_old_and_new_mask n b3 o1 j (mi OR m))"
        proof (rule computes_cong [OF combine_old_and_new_mask_ok [OF d3(1) o3(1) d3(3) fl]])
          show "blended (V e b3 o1) (V e b3 j) (mi OR m) = written w sh b old new e" for e
            unfolding blended_def written_def f(3) d3(4) o3(3) using dj size_ok_range [OF ok] by (auto simp: bits bit_simps)
        qed
      qed
    qed
  qed
qed

lemma and_not_zero: "x AND k = x \<Longrightarrow> x AND NOT k = (0 :: u128)"
  by (auto simp: bits bit_simps)

lemma combine_old_arms_ok:
  assumes ok: "size_ok sz" and wf: "wf_builder b" and o: "old < ids b" and i: "new < ids b" and fu: "comb_fuel (W b old) (W b new) \<le> Suc n"
  shows "computes b (written w sh b old new)
     (combine_old_arms n rc b old new (value_tree b ! old) (value_tree b ! new) (mask w) m w sh)"
proof -
  have cover: "computes b (written w sh b old new) (rc b o1 new)"
    if h: "value_tree b ! old = Blend o1 i1 mi" "m AND mi = mi" for o1 i1 mi
  proof -
    note f = at_Blend [OF wf o h(1)]
    have "comb_fuel (W b o1) (W b new) < comb_fuel (W b old) (W b new)"
      using mask_fuel_step(3) [OF f(4)] by (simp add: comb_fuel_def)
    then have "computes b (written w sh b o1 new) (rc b o1 new)" using fu by (intro rc_ok ok wf f(1) i) simp
    moreover have "written w sh b o1 new e = written w sh b old new e" for e
      unfolding written_def blended_def f(3) using h(2) by (auto simp: bits bit_simps)
    ultimately show ?thesis by (rule computes_cong)
  qed
  have load: "computes b (written w sh b old new) (mask_and_shift n b new (mask w) sh)"
    if h: "load_size (value_tree b ! old) = Some ds" "ds_num_bits ds \<le> trailing_ones m" for ds
  proof (rule shl_ok [OF ok wf o i fu])
    show "V e b old AND NOT m = 0" for e
      using and_ones [OF load_bits [OF wf o h(1)] h(2), of e] by (rule and_not_zero)
  qed
  show ?thesis
    using cover load combine_disjoint_ok [OF ok wf o i fu] combine_new_arms_ok [OF ok wf o i fu]
    by (auto simp: combine_old_arms_def split: option.split)
qed

lemma combine_const_arm_ok:
  assumes ok: "size_ok sz" and wf: "wf_builder b" and o: "old < ids b" and i: "new < ids b" and fu: "comb_fuel (W b old) (W b new) \<le> Suc n"
  shows "computes b (written w sh b old new)
     (combine_const_arm n rc b old new (value_tree b ! old) (value_tree b ! new) (mask w) m w sh)"
proof (cases "const_of (value_tree b ! new)")
  case None
  then show ?thesis using combine_old_arms_ok [OF assms] by (simp add: combine_const_arm_def)
next
  case (Some c)
  then have c: "V e b new = c" for e using at_Const [OF wf i] by simp
  have ge: "8 * (8 * (W b new + W b old + 28)) \<le> Suc n"
    using mask_fuel_ge [of "W b new" "W b old"] fu by (simp add: comb_fuel_def)
  have "computes b (written w sh b old new) (and_then (mask_val_r n b old (NOT m)) (\<lambda>b1 old'.
            and_then (imm b1 (wrapping_shl c sh AND m)) (\<lambda>b2 new'. binop n b2 Or old' new')))"
  proof (rule computes_and_then [OF mask_val_r_ok [OF wf o refl le_refl]])
    show "4 * W b old + 12 \<le> n" using ge by simp
    fix b1 x assume "good b (\<lambda>e. V e b old AND NOT m) (2 * W b old + 6) b1 x"
    note d1 = goodD [OF this]
    have "wrapping_shl c sh = push_bit sh c" using size_ok_range [OF ok] by (simp add: wrapping_shl_def)
    then have "computes b1 (written w sh b old new) (re_binop_r (binop n) b1 Or x (wrapping_shl c sh AND m))"
      using d1 ge by (intro computesI [OF vb.re_binop_r_ok [OF d1(1,3)]]) (auto simp: written_def blended_def c)
    then show "computes b1 (written w sh b old new)
        (and_then (imm b1 (wrapping_shl c sh AND m)) (\<lambda>b2 new'. binop n b2 Or x new'))"
      by (simp add: re_binop_r_def)
  qed
  then show ?thesis using Some by (simp add: combine_const_arm_def)
qed

lemma combine_step_ok:
  assumes ok: "size_ok sz" and wf: "wf_builder b" and o: "old < ids b" and i: "new < ids b" and fu: "comb_fuel (W b old) (W b new) \<le> Suc n"
  shows "computes b (written w sh b old new) (combine_step n rc b old new sz)"
proof -
  note const = combine_const_arm_ok [OF ok wf o i fu] and shl = shl_ok [OF ok wf o i fu]
  have m: "wrapping_shl (mask w :: u128) sh = m" using size_ok_range [OF ok] by (simp add: wrapping_shl_def)
  have w: "w \<le> 128" using size_ok_range [OF ok] by simp
  have zero: "V e b old AND NOT m = 0" if "value_tree b ! old = Const 0" for e
    using at_Const [OF wf o that] by simp
  have ext: "V e b old AND NOT m = 0" if "value_tree b ! old = Extract v s t" "NOT m AND mask (unat t) = 0" for e v s t
    unfolding at_Extract(2) [OF wf o that(1)] using that(2) by (auto simp: bits bit_simps)
  have tk: "unat t \<le> 128" if "value_tree b ! old = Extract v s t" for v s t
    using at_Extract(4) [OF wf o that] by (simp add: range_ok_def)
  show ?thesis
    using o i w const shl [OF zero] shl [OF ext] tk
    by (cases "value_tree b ! old") (simp_all add: combine_step_def Let_def m)
qed

end

text \<open>What \<open>combine_old_and_new\<close> is for: the bytes \<open>start_byte ..= end_byte\<close> of the old value are
  overwritten with the low bytes of the new one.\<close>

abbreviation overwritten :: "Size \<Rightarrow> ValBuilder \<Rightarrow> ValId \<Rightarrow> ValId \<Rightarrow> env \<Rightarrow> u128" where
  "overwritten sz \<equiv> written (size_num_bytes sz * 8) (unat (start_byte sz) * 8)"

lemma combine_old_and_new_ok:
  assumes "size_ok sz" "wf_builder b" "old < ids b" "new < ids b" "comb_fuel (W b old) (W b new) \<le> n"
  shows "computes b (overwritten sz b old new) (combine_old_and_new n b old new sz)"
  using assms(2-5)
proof (induction n arbitrary: b old new)
  case 0
  then show ?case by (simp add: comb_fuel_def mask_fuel_def)
next
  case (Suc n)
  have loc: "combine_call n sz (\<lambda>b1 o1 n1. combine_old_and_new n b1 o1 n1 sz)"
    using Suc.IH by unfold_locales auto
  show ?case using combine_call.combine_step_ok [OF loc assms(1) Suc.prems] by simp
qed

interpretation comb: combine_call n sz "\<lambda>b old new. combine_old_and_new n b old new sz" for n sz
  using combine_old_and_new_ok by unfold_locales

section \<open>A builder from its table\<close>

text \<open>The builder whose table is a given list of distinct nodes.\<close>

definition table :: "ValNode list \<Rightarrow> ValBuilder" where
  "table ns = \<lparr>value_tree = ns, vmap = map_of (zip ns [0..<length ns])\<rparr>"

lemma table_wf: "distinct ns \<Longrightarrow> wf_tree ns \<Longrightarrow> wf_builder (table ns)"
  by (auto simp: wf_builder_def map_ok_def table_def in_set_zip nth_eq_iff_index_eq dest: map_of_SomeD)

lemma ids_table [simp]: "value_tree (table ns) = ns"
  by (simp add: table_def)

text \<open>Two variables, \<open>v0 + 5\<close>, the low byte of \<open>v1\<close> over \<open>v0\<close>, and a zero test.\<close>

definition sample :: ValBuilder where
  "sample = table [Var 0, Const 5, BinOp Add 0 1, Var 1, Blend 0 3 255, UnOp IsZero 3]"

lemma sample_wf: "wf_builder sample"
  unfolding sample_def by (rule table_wf) (auto simp: wf_tree_def less_Suc_eq nth_Cons' addsub_const_def)

lemma sample_W: "W sample 0 = 1" "W sample 1 = 1" "W sample 2 = 8" "W sample 3 = 1" "W sample 4 = 3" "W sample 5 = 2"
  by (simp_all add: W_def sample_def scan_def nth_append)

lemma sample_V: "V e sample 0 = var_val e 0" "V e sample 1 = 5" "V e sample 2 = var_val e 0 + 5" "V e sample 3 = var_val e 1"
  by (simp_all add: V_def sample_def scan_def nth_append)

section \<open>Properties\<close>





text \<open>C6: the equality solver ends on every well-formed graph (the sum of the two identifiers bounds the
  number of steps), and when it answers, the answer is right in every environment.\<close>

theorem try_solve_equality_correct:
  assumes "wf_builder b" "x < ids b" "y < ids b"
  shows "\<exists>r. try_solve_equality b x y = Some r \<and> (\<forall>q e. r = Some q \<longrightarrow> (V e b x = V e b y) = q)"
  using try_solve_equality_sound [OF assms] .

theorem try_solve_equality_correct_witness:
  "try_solve_equality sample 0 2 = Some (Some False) \<and> (\<forall>e. V e sample 0 \<noteq> V e sample 2)"
proof -
  have r: "try_solve_equality sample 0 2 = Some (Some False)" unfolding sample_def by code_simp
  show ?thesis using try_solve_equality_correct [OF sample_wf, of 0 2] r by (auto simp: sample_def)
qed

text \<open>C7: \<open>ValBuilder::ite\<close> is correct and returns: the result is the first value when the condition is
  zero and the second one otherwise.\<close>

theorem ite_sound:
  assumes "wf_builder b" "c < ids b" "z < ids b" "m < ids b" "z + m < fuel"
  shows "computes b (\<lambda>e. if V e b c = 0 then V e b z else V e b m) (ite fuel b c z m)"
  using ite_ok [OF assms(1-4), of fuel] assms(5) by (intro computesI) (auto intro: ok_res_weaken)

theorem ite_sound_witness:
  "computes sample (\<lambda>e. if V e sample 3 = 0 then V e sample 0 else V e sample 2) (ite 3 sample 3 0 2)"
  by (rule ite_sound [OF sample_wf]) (simp_all add: sample_def)

text \<open>C8: \<open>ValBuilder::unop\<close> is correct: folding a constant and inserting a node both give the value of
  the operator applied to the value of the operand.\<close>

theorem unop_sound:
  assumes "wf_builder b" "arg < ids b"
  shows "computes b (\<lambda>e. unop_execute op (V e b arg)) (unop b op arg)"
proof (cases "const_of (value_tree b ! arg)")
  case None
  have "ok_res b (\<lambda>e. unop_execute op (V e b arg)) (W b arg + 1) False (get_or_insert b (UnOp op arg))"
    using assms by (intro get_or_insert_ok) (auto simp: V_def W_def)
  then show ?thesis using None assms by (auto simp: unop_def intro: computesI)
next
  case (Some c)
  then show ?thesis using assms at_Const [OF assms] by (auto simp: unop_def intro!: computesI [OF const_ok])
qed

theorem unop_sound_witness: "computes sample (\<lambda>e. unop_execute ByteSwap32 (V e sample 0)) (unop sample ByteSwap32 0)"
  by (rule unop_sound [OF sample_wf]) (simp add: sample_def)

text \<open>\<open>optimize_as_if_zero\<close> ends and is correct: testing the value it returns, flipped when it says
  so, is the same as testing the condition.\<close>

lemma optimize_as_if_zero_sound:
  assumes "wf_builder b" "c < ids b"
  shows "\<exists>v flip. optimize_as_if_zero (Suc c) (value_tree b) c = Some (v, flip) \<and> v < ids b
           \<and> (\<forall>e. (V e b c = 0) = ((V e b v = 0) \<noteq> flip))"
  using assms by (intro optimize_as_if_zero_ok) auto

text \<open>C5: \<open>combine_old_and_new\<close> is correct and returns: for a byte range inside 16 bytes, the result has
  the low bytes of the new value at \<open>start_byte ..= end_byte\<close> and the bytes of the old value
  elsewhere, whichever of its simplifications applies.\<close>

theorem combine_old_and_new_sound:
  assumes "size_ok sz" "wf_builder b" "old < ids b" "new < ids b" "comb_fuel (W b old) (W b new) \<le> fuel"
  shows "computes b
     (\<lambda>e. let m = push_bit (unat (start_byte sz) * 8) (mask (size_num_bytes sz * 8))
          in (V e b old AND NOT m) OR (push_bit (unat (start_byte sz) * 8) (V e b new) AND m))
     (combine_old_and_new fuel b old new sz)"
  using combine_old_and_new_ok [OF assms] by (simp add: written_def [abs_def] blended_def Let_def)

theorem combine_old_and_new_sound_witness:
  "computes sample
     (\<lambda>e. let m = push_bit (unat (1::u16) * 8) (mask (size_num_bytes \<lparr>start_byte = 1, end_byte = 2\<rparr> * 8))
          in (V e sample 4 AND NOT m) OR (push_bit (unat (1::u16) * 8) (V e sample 3) AND m))
     (combine_old_and_new 131072 sample 4 3 \<lparr>start_byte = 1, end_byte = 2\<rparr>)"
  using combine_old_and_new_sound [of "\<lparr>start_byte = 1, end_byte = 2\<rparr>" sample 4 3 131072] sample_wf
  by (simp add: size_ok_def comb_fuel_def mask_fuel_def sample_W) (simp add: sample_def)

text \<open>Interning a sequence of nodes, one after the other.\<close>

fun intern_all :: "ValBuilder \<Rightarrow> ValNode list \<Rightarrow> ValId list outcome" where
  "intern_all b [] = Done b []"
| "intern_all b (n # ns) = and_then (get_or_insert b n) (\<lambda>b i. and_then (intern_all b ns) (\<lambda>b js. Done b (i # js)))"

lemma map_ok_distinct: "map_ok b \<Longrightarrow> distinct (value_tree b)"
  unfolding distinct_conv_nth map_ok_def by (metis option.inject)

lemma get_or_insert_cases:
  assumes "map_ok b"
  shows "case get_or_insert b n of
      Done b' i \<Rightarrow> map_ok b' \<and> extends b b' \<and> set (value_tree b') = insert n (set (value_tree b)) \<and> i < ids b' \<and> value_tree b' ! i = n
    | Panic b' \<Rightarrow> b' = b \<and> 2 ^ 32 \<le> ids b \<and> n \<notin> set (value_tree b)
    | NoFuel \<Rightarrow> False"
proof (cases "vmap b n")
  case (Some i)
  then have "i < ids b" "value_tree b ! i = n" using assms by (auto simp: map_ok_def)
  then show ?thesis using Some assms by (auto simp: get_or_insert_def)
next
  case None
  have new: "n \<notin> set (value_tree b)" using None assms by (auto simp: map_ok_def in_set_conv_nth) (metis option.distinct(1))
  have "map_ok (b\<lparr>value_tree := value_tree b @ [n], vmap := (vmap b)(n \<mapsto> ids b)\<rparr>)"
    using assms new by (auto simp: map_ok_def nth_append less_Suc_eq)
  then show ?thesis using None new by (auto simp: get_or_insert_def Let_def extends_def)
qed

lemma intern_all_ok:
  assumes "map_ok b"
  shows "case intern_all b ns of
      Done b' js \<Rightarrow> map_ok b' \<and> extends b b' \<and> set (value_tree b') = set (value_tree b) \<union> set ns
        \<and> length js = length ns \<and> (\<forall>k < length ns. js ! k < ids b' \<and> value_tree b' ! (js ! k) = ns ! k)
    | Panic b' \<Rightarrow> 2 ^ 32 < card (set (value_tree b) \<union> set ns)
    | NoFuel \<Rightarrow> False"
  using assms
proof (induction ns arbitrary: b)
  case (Cons n ns)
  show ?case
  proof (cases "get_or_insert b n")
    case (Done b1 i)
    then have b1: "map_ok b1" "extends b b1" "set (value_tree b1) = insert n (set (value_tree b))" "i < ids b1" "value_tree b1 ! i = n"
      using get_or_insert_cases [OF Cons.prems, of n] by auto
    show ?thesis using Cons.IH [OF b1(1)] b1 Done
      by (auto simp: and_then_def nth_Cons' extends_simps intro: extends_trans split: outcome.splits)
  next
    case (Panic b1)
    then have p: "2 ^ 32 \<le> ids b" "n \<notin> set (value_tree b)" using get_or_insert_cases [OF Cons.prems, of n] by auto
    have "Suc (ids b) = card (insert n (set (value_tree b)))"
      using map_ok_distinct [OF Cons.prems] p(2) by (simp add: distinct_card)
    also have "\<dots> \<le> card (set (value_tree b) \<union> set (n # ns))" by (rule card_mono) auto
    finally have "2 ^ 32 < card (set (value_tree b) \<union> set (n # ns))" using p(1) by (simp only: less_eq_Suc_le)
    then show ?thesis using Panic by (simp add: and_then_def)
  qed (use get_or_insert_cases [OF Cons.prems, of n] in auto)
qed simp

text \<open>C9: hash consing. Interning any sequence of nodes into an empty builder gives equal nodes the same
  identifier and different nodes different ones, whatever was interned between them; each identifier
  stands for its node, and the table holds each node once and nothing else. The only panic is a
  sequence of more than 2^32 different nodes.\<close>

theorem get_or_insert_interns:
  "case intern_all new_builder ns of
     Done b js \<Rightarrow> length js = length ns \<and> distinct (value_tree b) \<and> set (value_tree b) = set ns
       \<and> (\<forall>k < length ns. value_tree b ! (js ! k) = ns ! k \<and> (\<forall>l < length ns. js ! k = js ! l \<longleftrightarrow> ns ! k = ns ! l))
   | Panic b \<Rightarrow> 2 ^ 32 < card (set ns)
   | NoFuel \<Rightarrow> False"
proof -
  have ok: "map_ok new_builder" by (simp add: map_ok_def new_builder_def)
  show ?thesis
  proof (cases "intern_all new_builder ns")
    case (Done b js)
    then have b: "map_ok b" "set (value_tree b) = set ns" "length js = length ns"
      "\<forall>k < length ns. js ! k < ids b \<and> value_tree b ! (js ! k) = ns ! k"
      using intern_all_ok [OF ok, of ns] by (auto simp: new_builder_def)
    have d: "distinct (value_tree b)" using b(1) by (rule map_ok_distinct)
    have "js ! k = js ! l \<longleftrightarrow> ns ! k = ns ! l" if "k < length ns" "l < length ns" for k l
      using nth_eq_iff_index_eq [OF d, of "js ! k" "js ! l"] b(4) that by auto
    then show ?thesis using Done b d by simp
  qed (use intern_all_ok [OF ok, of ns] in \<open>auto simp: new_builder_def\<close>)
qed

theorem get_or_insert_interns_witness:
  "\<exists>b i j. intern_all new_builder [Const 5, Var 0, Const 5] = Done b [i, j, i] \<and> i \<noteq> j \<and> length (value_tree b) = 2"
proof -
  obtain b where b: "intern_all new_builder [Const 5, Var 0, Const 5] = Done b [0, 1, 0]" "length (value_tree b) = 2"
    by (simp add: get_or_insert_def new_builder_def and_then_def Let_def)
  show ?thesis using get_or_insert_interns [of "[Const 5, Var 0, Const 5]"] b by (auto intro!: exI [of _ 0] exI [of _ 1])
qed

text \<open>C10: \<open>determine_updated_bytes_in\<close>: when it reports \<open>n\<close> updated bytes for a blend whose mask ends at a
  byte boundary, every byte from \<open>n\<close> on is the one of the original value.\<close>

theorem determine_updated_bytes_sound:
  assumes "wf_builder b" "determine_updated_bytes_in b new orig = Some (Some n)"
    and "value_tree b ! new = Blend l r m" "8 dvd 128 - leading_zeros m"
  shows "drop_bit (8 * n) (V e b new) = drop_bit (8 * n) (V e b orig)"
proof -
  have i: "new < ids b" and l: "l = orig" and n: "n = (128 - leading_zeros m) div 8"
    using assms(2,3) by (auto simp: determine_updated_bytes_in_def split: if_splits)
  have "\<not> bit m (8 * n + k)" for k
    using assms(4) by (intro leading_zeros_clear) (simp add: n)
  then show ?thesis
    unfolding at_Blend(3) [OF assms(1) i assms(3)] l by (auto simp: bits bit_simps dest: bit_imp_le_length)
qed

theorem determine_updated_bytes_sound_witness:
  "determine_updated_bytes_in sample 4 0 = Some (Some 1) \<and> (\<forall>e. drop_bit 8 (V e sample 4) = drop_bit 8 (V e sample 0))"
proof -
  have r: "determine_updated_bytes_in sample 4 0 = Some (Some 1)" unfolding sample_def by code_simp
  have "8 dvd 128 - leading_zeros (255 :: u128)" by code_simp
  then show ?thesis
    using determine_updated_bytes_sound [OF sample_wf r, of 0 3 255] r by (simp add: sample_def)
qed

text \<open>a shift right by a constant of 128 is folded to zero (an extraction of no bits), while the
  operation itself takes the shift amount modulo 128 and returns the operand: outside the
  precondition of the previous statement the two differ.\<close>

lemma shr_const_128_diverges:
  "\<exists>b' i. binop 2 (table [Var 0, Const 128]) Shr 0 1 = Done b' i \<and> (\<forall>e. V e b' i = 0)
     \<and> (\<forall>e. binop_execute Shr (var_val e 0) 128 = Some (var_val e 0))"
proof -
  let ?b = "table [Var 0, Const 128]"
  let ?b' = "\<lparr>value_tree = [Var 0, Const 128, Extract 0 128 0],
     vmap = (vmap ?b)(Extract 0 128 0 \<mapsto> Suc (Suc 0))\<rparr>"
  have "binop (Suc (Suc 0)) ?b Shr 0 1 = extract_val (Suc 0) ?b 0 128 0"
    by (simp add: binop_step_def binop_arms_def with_node_def)
  also have "\<dots> = Done ?b' 2"
    by (simp add: extract_step_def with_node_def plain_extract_def get_or_insert_def table_def)
  finally have "binop 2 ?b Shr 0 1 = Done ?b' 2" by (simp only: numeral_2_eq_2)
  moreover have "V e ?b' 2 = 0" for e by (simp add: V_def scan_def nth_append)
  moreover have "binop_execute Shr x 128 = Some x" for x :: u128
    by (simp add: wrapping_shr_def as_u32_def)
  ultimately show ?thesis by blast
qed

end
