(* ===== verification/Hw_Pic.thy ===== *)
theory Hw_Pic
  imports Prelude
begin

text \<open>
  The two legacy interrupt controllers (\<open>sem86-core/src/hw/pic/legacy.rs\<close>) and the interrupt request
  counter they share with the CPU (\<open>sem86-core/src/hw/intr.rs\<close>).

  The atomics are fields of the records: an operation is one step of one thread. An index out of
  range, a reached \<open>unreachable!\<close> and the failed assertion of a dropped request are \<open>None\<close>.
\<close>

section \<open>The interrupt request counter\<close>

text \<open>\<open>Intr\<close> as its handles see it. \<open>request\<close> counts up; dropping the request counts down and panics
  when the count was zero. Both do nothing once the counter is gone.\<close>

record Intr =
  intr_count :: u32
  pointer_is_valid :: bool

definition intr_new :: Intr where
  "intr_new = \<lparr>intr_count = 0, pointer_is_valid = True\<rparr>"

definition any_pending :: "Intr \<Rightarrow> bool" where
  "any_pending i \<longleftrightarrow> intr_count i > 0"

definition handle_any_pending :: "Intr \<Rightarrow> bool" where
  "handle_any_pending i \<longleftrightarrow> pointer_is_valid i \<and> intr_count i > 0"

definition intr_request :: "Intr \<Rightarrow> Intr" where
  "intr_request i = (if pointer_is_valid i then i\<lparr>intr_count := intr_count i + 1\<rparr> else i)"

definition drop_request :: "Intr \<Rightarrow> Intr option" where
  "drop_request i =
     (if pointer_is_valid i
      then if intr_count i = 0 then None else Some (i\<lparr>intr_count := intr_count i - 1\<rparr>)
      else Some i)"

section \<open>Line priorities\<close>

definition INTERRUPT_LINE_PRIORITY_ORDER :: "u8 list" where
  "INTERRUPT_LINE_PRIORITY_ORDER = [0, 1, 2, 8, 9, 10, 11, 12, 13, 14, 15, 3, 4, 5, 6, 7]"

definition highest_priority_line :: "u16 \<Rightarrow> u8 \<times> u8 option" where
  "highest_priority_line lines =
     (case find (\<lambda>(_, line). lines AND push_bit (unat line) 1 \<noteq> 0) (enumerate 0 INTERRUPT_LINE_PRIORITY_ORDER) of
        Some (p, l) \<Rightarrow> (word_of_nat p, Some l)
      | None \<Rightarrow> (0xff, None))"

section \<open>The shared core\<close>

record SharedPicCore =
  core_intr :: Intr
  pending_request :: bool
  pending_interrupts :: "u8 list"
  in_service :: "u8 list"
  imr :: "u8 list"
  vector_offset :: "u8 list"

definition pic_core_new :: "Intr \<Rightarrow> SharedPicCore" where
  "pic_core_new i =
     \<lparr>core_intr = i, pending_request = False, pending_interrupts = [0, 0], in_service = [0, 0],
      imr = [0, 0], vector_offset = [0, 0]\<rparr>"

text \<open>\<open>zip\<close> stops at the shorter array; all of them have two entries.\<close>

definition effective_pending_interrupts :: "SharedPicCore \<Rightarrow> u16" where
  "effective_pending_interrupts c =
     foldl (\<lambda>acc (index, val). acc OR wrapping_shl (ucast val) (index * 8)) 0
       (enumerate 0 (map (\<lambda>((p, s), m). p AND NOT s AND NOT m)
          (zip (zip (pending_interrupts c) (in_service c)) (imr c))))"

definition from_le_bytes :: "u8 \<Rightarrow> u8 \<Rightarrow> u16" where
  "from_le_bytes lo hi = ucast lo OR push_bit 8 (ucast hi)"

definition in_service_interrupt_priority :: "SharedPicCore \<Rightarrow> u8" where
  "in_service_interrupt_priority c = fst (highest_priority_line (from_le_bytes (in_service c ! 0) (in_service c ! 1)))"

definition update_pending_interrupt :: "SharedPicCore \<Rightarrow> SharedPicCore option" where
  "update_pending_interrupt c =
     (let pending = effective_pending_interrupts c;
          in_service_priority = in_service_interrupt_priority c;
          (pending_priority, _) = highest_priority_line pending
      in if pending \<noteq> 0 \<and> pending_priority < in_service_priority
         then if \<not> pending_request c
              then Some (c\<lparr>pending_request := True, core_intr := intr_request (core_intr c)\<rparr>)
              else Some c
         else if pending_request c
              then map_option (\<lambda>i. c\<lparr>pending_request := False, core_intr := i\<rparr>) (drop_request (core_intr c))
              else Some c)"

definition start_servicing_interrupt :: "SharedPicCore \<Rightarrow> u8 \<Rightarrow> SharedPicCore option" where
  "start_servicing_interrupt c index =
     (let n = unat index div 8 in
      if n < length (in_service c)
      then update_pending_interrupt
             (c\<lparr>in_service := (in_service c)[n := in_service c ! n OR wrapping_shl 1 (unat (index mod 8))]\<rparr>)
      else None)"

text \<open>The outer \<open>None\<close> is a panic, the inner one that there is no interrupt to deliver.\<close>

definition get_next_interrupt :: "SharedPicCore \<Rightarrow> (SharedPicCore \<times> u8 option) option" where
  "get_next_interrupt c =
     (let pending = effective_pending_interrupts c in
      if pending \<noteq> 0
      then (case highest_priority_line pending of
              (pending_priority, Some line) \<Rightarrow>
                if pending_priority < in_service_interrupt_priority c
                then (case start_servicing_interrupt c line of
                        None \<Rightarrow> None
                      | Some c' \<Rightarrow>
                          if unat line div 8 < length (vector_offset c')
                          then Some (c', Some (line mod 8 + vector_offset c' ! (unat line div 8)))
                          else None)
                else Some (c, None)
            | (_, None) \<Rightarrow> None)
      else Some (c, None))"

record SharedPicCoreSnapshot =
  has_pending_request :: bool
  snap_pending_interrupts :: "u8 list"
  snap_in_service :: "u8 list"
  snap_imr :: "u8 list"
  snap_vector_offset :: "u8 list"

definition core_snapshot :: "SharedPicCore \<Rightarrow> SharedPicCoreSnapshot" where
  "core_snapshot c =
     \<lparr>has_pending_request = pending_request c, snap_pending_interrupts = pending_interrupts c,
      snap_in_service = in_service c, snap_imr = imr c, snap_vector_offset = vector_offset c\<rparr>"

text \<open>Assigning the new request drops the request that was there.\<close>

definition core_restore :: "SharedPicCore \<Rightarrow> SharedPicCoreSnapshot \<Rightarrow> SharedPicCore option" where
  "core_restore c z =
     (let with_request =
        (if has_pending_request z
         then (let i = intr_request (core_intr c) in
               if pending_request c
               then map_option (\<lambda>i'. c\<lparr>core_intr := i'\<rparr>) (drop_request i)
               else Some (c\<lparr>core_intr := i, pending_request := True\<rparr>))
         else Some c)
      in map_option (\<lambda>c'. c'\<lparr>pending_interrupts := snap_pending_interrupts z, in_service := snap_in_service z,
           imr := snap_imr z, vector_offset := snap_vector_offset z\<rparr>) with_request)"

section \<open>One controller\<close>

datatype PicState = Ready | Icw2 bool | Icw3 bool | Icw4

datatype Cascade = Single u8 | CascadeMap u8

datatype Adi = Interval4 | Interval8

datatype TriggerMode = Level | Edge

record Pic =
  state :: PicState
  cascade_mode :: Cascade
  adi :: Adi
  trigger_mode :: TriggerMode
  register_select :: u8
  read_register :: bool
  poll_command :: bool
  controller_index :: nat

definition pic_new :: "nat \<Rightarrow> u8 \<Rightarrow> SharedPicCore \<Rightarrow> (SharedPicCore \<times> Pic) option" where
  "pic_new index offset c =
     (if index < length (vector_offset c)
      then Some (c\<lparr>vector_offset := (vector_offset c)[index := offset]\<rparr>,
             \<lparr>state = Ready, cascade_mode = Single 0, adi = Interval8, trigger_mode = Edge, register_select = 0,
              read_register = False, poll_command = False, controller_index = index\<rparr>)
      else None)"

definition pic_read :: "SharedPicCore \<Rightarrow> Pic \<Rightarrow> u8 \<Rightarrow> u8 option" where
  "pic_read c p addr =
     (if addr = 0
      then if read_register p
           then if register_select p = 0
                then if controller_index p < length (pending_interrupts c)
                     then Some (pending_interrupts c ! controller_index p) else None
                else if register_select p = 1
                then if controller_index p < length (in_service c)
                     then Some (in_service c ! controller_index p) else None
                else None
           else Some 0
      else if controller_index p < length (imr c) then Some (imr c ! controller_index p) else None)"

definition end_of_interrupt :: "SharedPicCore \<Rightarrow> Pic \<Rightarrow> u8 \<Rightarrow> SharedPicCore option" where
  "end_of_interrupt c p index =
     (let n = controller_index p; m = NOT (wrapping_shl 1 (unat index)) in
      if n < length (in_service c) \<and> n < length (pending_interrupts c)
      then update_pending_interrupt
             (c\<lparr>in_service := (in_service c)[n := in_service c ! n AND m],
                pending_interrupts := (pending_interrupts c)[n := pending_interrupts c ! n AND m]\<rparr>)
      else None)"

text \<open>Command words 1 and 2 (\<open>addr == 0\<close> in state \<open>Ready\<close>); the rotations and the priority command only
  log an error.\<close>

definition write_icw1 :: "Pic \<Rightarrow> u8 \<Rightarrow> Pic" where
  "write_icw1 p val =
     p\<lparr>cascade_mode := if val AND 0x02 \<noteq> 0 then Single 0 else CascadeMap 0,
       adi := if val AND 0x04 \<noteq> 0 then Interval4 else Interval8,
       trigger_mode := if val AND 0x08 \<noteq> 0 then Level else Edge,
       state := Icw2 (val AND 1 \<noteq> 0)\<rparr>"

definition write_ocw2 :: "SharedPicCore \<Rightarrow> Pic \<Rightarrow> u8 \<Rightarrow> SharedPicCore option" where
  "write_ocw2 c p val =
     (let index = val AND 0x7; cmd = drop_bit 5 val in
      if cmd = 1
      then if controller_index p < length (in_service c)
           then (let highest_set = trailing_zeros (in_service c ! controller_index p) in
                 if highest_set < 8 then end_of_interrupt c p (word_of_nat highest_set) else Some c)
           else None
      else if cmd = 3 then end_of_interrupt c p index
      else Some c)"

definition write_ocw3 :: "Pic \<Rightarrow> u8 \<Rightarrow> Pic" where
  "write_ocw3 p val =
     p\<lparr>register_select := val AND 1, read_register := (val AND 2 \<noteq> 0), poll_command := (val AND 4 \<noteq> 0)\<rparr>"

definition write_command :: "SharedPicCore \<Rightarrow> Pic \<Rightarrow> u8 \<Rightarrow> (SharedPicCore \<times> Pic) option" where
  "write_command c p val =
     (case state p of
        Ready \<Rightarrow>
          if val AND 0x10 \<noteq> 0 then Some (c, write_icw1 p val)
          else if val AND 0x18 = 0 then map_option (\<lambda>c'. (c', p)) (write_ocw2 c p val)
          else if val AND 0x18 = 0x08 then Some (c, write_ocw3 p val)
          else Some (c, p)
      | _ \<Rightarrow> Some (c, p))"

definition write_data :: "SharedPicCore \<Rightarrow> Pic \<Rightarrow> u8 \<Rightarrow> (SharedPicCore \<times> Pic) option" where
  "write_data c p val =
     (let n = controller_index p in
      case state p of
        Ready \<Rightarrow>
          if n < length (imr c)
          then map_option (\<lambda>c'. (c', p)) (update_pending_interrupt (c\<lparr>imr := (imr c)[n := val]\<rparr>))
          else None
      | Icw2 need_icw4 \<Rightarrow>
          if n < length (vector_offset c)
          then Some (c\<lparr>vector_offset := (vector_offset c)[n := val AND 0xf8]\<rparr>,
                 p\<lparr>state := (case cascade_mode p of
                    Single _ \<Rightarrow> if need_icw4 then Icw4 else Ready
                  | CascadeMap _ \<Rightarrow> Icw3 need_icw4)\<rparr>)
          else None
      | Icw3 need_icw4 \<Rightarrow>
          Some (c, p\<lparr>cascade_mode := (case cascade_mode p of
                        Single _ \<Rightarrow> Single (val AND 0x07)
                      | CascadeMap _ \<Rightarrow> CascadeMap (val AND 0x7f)),
                     state := if need_icw4 then Icw4 else Ready\<rparr>)
      | Icw4 \<Rightarrow> Some (c, p\<lparr>state := Ready\<rparr>))"

definition pic_write :: "SharedPicCore \<Rightarrow> Pic \<Rightarrow> u8 \<Rightarrow> u8 \<Rightarrow> (SharedPicCore \<times> Pic) option" where
  "pic_write c p addr val = (if addr = 0 then write_command c p val else write_data c p val)"

definition clear_pending :: "SharedPicCore \<Rightarrow> Pic \<Rightarrow> SharedPicCore option" where
  "clear_pending c p =
     (let n = controller_index p in
      if n < length (pending_interrupts c) \<and> n < length (in_service c)
      then update_pending_interrupt
             (c\<lparr>pending_interrupts := (pending_interrupts c)[n := 0], in_service := (in_service c)[n := 0]\<rparr>)
      else None)"

text \<open>\<open>get_line\<close> numbers the lines of both controllers; \<open>vector_offset\<close> of a controller.\<close>

definition get_line :: "Pic \<Rightarrow> u8 \<Rightarrow> u8" where
  "get_line p index = index + word_of_nat (controller_index p) * 8"

definition pic_vector_offset :: "SharedPicCore \<Rightarrow> Pic \<Rightarrow> u8 option" where
  "pic_vector_offset c p =
     (if controller_index p < length (vector_offset c) then Some (vector_offset c ! controller_index p) else None)"

text \<open>A snapshot of a controller is a copy of its fields.\<close>

record PicSnapshot =
  ps_state :: PicState
  ps_cascade_mode :: Cascade
  ps_adi :: Adi
  ps_trigger_mode :: TriggerMode
  ps_register_select :: u8
  ps_read_register :: bool
  ps_poll_command :: bool
  ps_controller_index :: nat

definition pic_snapshot :: "Pic \<Rightarrow> PicSnapshot" where
  "pic_snapshot p =
     \<lparr>ps_state = state p, ps_cascade_mode = cascade_mode p, ps_adi = adi p, ps_trigger_mode = trigger_mode p,
      ps_register_select = register_select p, ps_read_register = read_register p,
      ps_poll_command = poll_command p, ps_controller_index = controller_index p\<rparr>"

definition pic_restore :: "Pic \<Rightarrow> PicSnapshot \<Rightarrow> Pic" where
  "pic_restore p z =
     p\<lparr>state := ps_state z, cascade_mode := ps_cascade_mode z, adi := ps_adi z, trigger_mode := ps_trigger_mode z,
       register_select := ps_register_select z, read_register := ps_read_register z,
       poll_command := ps_poll_command z, controller_index := ps_controller_index z\<rparr>"

section \<open>Interrupt lines\<close>

definition pulse :: "SharedPicCore \<Rightarrow> u8 \<Rightarrow> SharedPicCore option" where
  "pulse c index =
     (let n = unat (index div 8) in
      if n < length (pending_interrupts c)
      then update_pending_interrupt
             (c\<lparr>pending_interrupts :=
                  (pending_interrupts c)[n := pending_interrupts c ! n OR wrapping_shl 1 (unat (index mod 8))]\<rparr>)
      else None)"

definition set_line :: "SharedPicCore \<Rightarrow> u8 \<Rightarrow> bool \<Rightarrow> SharedPicCore option" where
  "set_line c index val = (if val then pulse c index else Some c)"

section \<open>Priorities\<close>

abbreviation line_at :: "nat \<Rightarrow> nat" where
  "line_at p \<equiv> unat (INTERRUPT_LINE_PRIORITY_ORDER ! p)"

lemma order_length: "length INTERRUPT_LINE_PRIORITY_ORDER = 16"
  by (simp add: INTERRUPT_LINE_PRIORITY_ORDER_def)

lemma order_covers: "i < 16 \<Longrightarrow> \<exists>p < 16. line_at p = i"
proof -
  have "\<forall>i \<in> {0..<16}. \<exists>p \<in> {0..<16}. line_at p = i"
    by code_simp
  then show "i < 16 \<Longrightarrow> \<exists>p < 16. line_at p = i" by fastforce
qed

lemma line_at_less: "p < 16 \<Longrightarrow> line_at p < 16"
proof -
  have "\<forall>p \<in> {0..<16}. line_at p < 16" by code_simp
  then show "p < 16 \<Longrightarrow> line_at p < 16" by fastforce
qed

text \<open>\<open>highest_priority_line\<close> finds the first line of the priority order that is set.\<close>

lemma highest_priority_line_Some:
  assumes "p < 16" "bit lines (line_at p)" "\<And>q. q < p \<Longrightarrow> \<not> bit lines (line_at q)"
  shows "highest_priority_line lines = (word_of_nat p, Some (INTERRUPT_LINE_PRIORITY_ORDER ! p))"
proof -
  have "find (\<lambda>(_, line). lines AND push_bit (unat line) 1 \<noteq> 0) (enumerate 0 INTERRUPT_LINE_PRIORITY_ORDER)
      = Some (p, INTERRUPT_LINE_PRIORITY_ORDER ! p)"
    unfolding find_Some_iff using assms
    by (intro exI [of _ p]) (auto simp: nth_enumerate_eq push_bit_of_1 and_exp_eq_0_iff_not_bit order_length)
  then show ?thesis by (simp add: highest_priority_line_def)
qed

lemma highest_priority_line_0: "highest_priority_line 0 = (0xff, None)"
proof -
  have "find (\<lambda>(_, line). (0::u16) AND push_bit (unat (line :: u8)) 1 \<noteq> 0) xs = None" for xs :: "(nat \<times> u8) list"
    by (induction xs) auto
  then show ?thesis by (simp add: highest_priority_line_def)
qed

lemma highest_priority_line_exists:
  assumes "lines \<noteq> 0"
  obtains p where "p < 16" "bit lines (line_at p)" "\<And>q. q < p \<Longrightarrow> \<not> bit lines (line_at q)"
    "highest_priority_line lines = (word_of_nat p, Some (INTERRUPT_LINE_PRIORITY_ORDER ! p))"
proof -
  obtain i where i: "i < 16" "bit lines i" using assms by (auto simp: bits)
  then have ex: "\<exists>p. p < 16 \<and> bit lines (line_at p)" using order_covers by blast
  define p where "p = (LEAST p. p < 16 \<and> bit lines (line_at p))"
  have p: "p < 16" "bit lines (line_at p)" using LeastI_ex [OF ex] by (simp_all add: p_def)
  have low: "\<not> bit lines (line_at q)" if "q < p" for q
    using not_less_Least [of q "\<lambda>p. p < 16 \<and> bit lines (line_at p)"] that p(1) by (auto simp: p_def)
  show thesis using that [OF p low] highest_priority_line_Some [OF p low] by blast
qed

section \<open>The state of the shared core\<close>

definition core_ok :: "SharedPicCore \<Rightarrow> bool" where
  "core_ok c \<longleftrightarrow> length (pending_interrupts c) = 2 \<and> length (in_service c) = 2 \<and> length (imr c) = 2
     \<and> length (vector_offset c) = 2"

text \<open>An interrupt is delivered when an unmasked pending line that is not in service has a higher
  priority than every line in service.\<close>

definition deliverable :: "SharedPicCore \<Rightarrow> bool" where
  "deliverable c \<longleftrightarrow>
     effective_pending_interrupts c \<noteq> 0
     \<and> fst (highest_priority_line (effective_pending_interrupts c)) < in_service_interrupt_priority c"

text \<open>The request counter counts the requests of the other devices (\<open>k\<close>) and the one of the core.\<close>

definition counted :: "nat \<Rightarrow> SharedPicCore \<Rightarrow> bool" where
  "counted k c \<longleftrightarrow> k < 2 ^ 32 - 2
     \<and> (pointer_is_valid (core_intr c) \<longrightarrow> unat (intr_count (core_intr c)) = k + of_bool (pending_request c))"

definition pic_inv :: "nat \<Rightarrow> SharedPicCore \<Rightarrow> bool" where
  "pic_inv k c \<longleftrightarrow> core_ok c \<and> counted k c \<and> (pending_request c \<longleftrightarrow> deliverable c)"

lemma list2: "length xs = 2 \<Longrightarrow> \<exists>a b. xs = [a, b]"
  by (simp add: numeral_2_eq_2 length_Suc_conv) blast

lemma bit_effective:
  assumes "core_ok c"
  shows "bit (effective_pending_interrupts c) i \<longleftrightarrow>
     i < 16 \<and> bit (pending_interrupts c ! (i div 8)) (i mod 8) \<and> \<not> bit (in_service c ! (i div 8)) (i mod 8)
     \<and> \<not> bit (imr c ! (i div 8)) (i mod 8)"
proof -
  obtain p0 p1 s0 s1 m0 m1 where c: "pending_interrupts c = [p0, p1]" "in_service c = [s0, s1]" "imr c = [m0, m1]"
    using assms list2 unfolding core_ok_def by metis
  have lo: "i div 8 = 0" "i mod 8 = i" if "i < 8" using that by auto
  have hi: "i div 8 = 1" "i mod 8 = i - 8" if "8 \<le> i" "i < 16" using that by (simp_all add: div_nat_eqI mod_if)
  show ?thesis
    using lo hi
    by (cases "i < 8"; cases "i < 16")
      (auto simp: effective_pending_interrupts_def c wrapping_shl_def bit_simps dest: bit_imp_le_length)
qed

lemma effective_request [simp]:
  "effective_pending_interrupts (c\<lparr>pending_request := r, core_intr := i\<rparr>) = effective_pending_interrupts c"
  "in_service_interrupt_priority (c\<lparr>pending_request := r, core_intr := i\<rparr>) = in_service_interrupt_priority c"
  "deliverable (c\<lparr>pending_request := r, core_intr := i\<rparr>) = deliverable c"
  "core_ok (c\<lparr>pending_request := r, core_intr := i\<rparr>) = core_ok c"
  by (simp_all add: effective_pending_interrupts_def in_service_interrupt_priority_def deliverable_def core_ok_def)

lemma update_pending_interrupt_ok:
  assumes ok: "core_ok c" and cnt: "counted k c"
  obtains i where "update_pending_interrupt c = Some (c\<lparr>pending_request := deliverable c, core_intr := i\<rparr>)"
    "pic_inv k (c\<lparr>pending_request := deliverable c, core_intr := i\<rparr>)"
proof -
  let ?i = "core_intr c"
  have upd: "update_pending_interrupt c =
      (if deliverable c
       then if \<not> pending_request c then Some (c\<lparr>pending_request := True, core_intr := intr_request ?i\<rparr>) else Some c
       else if pending_request c
         then map_option (\<lambda>i. c\<lparr>pending_request := False, core_intr := i\<rparr>) (drop_request ?i) else Some c)"
    by (simp add: update_pending_interrupt_def deliverable_def Let_def split_beta)
  consider (get) "deliverable c" "\<not> pending_request c" | (drop) "\<not> deliverable c" "pending_request c"
    | (same) "pending_request c = deliverable c" by blast
  then show thesis
  proof cases
    case get
    have "pic_inv k (c\<lparr>pending_request := True, core_intr := intr_request ?i\<rparr>)"
      using ok cnt get by (auto simp: pic_inv_def counted_def intr_request_def unat_word_ariths)
    then show thesis using that [of "intr_request ?i"] get by (simp add: upd)
  next
    case drop
    have nz: "pointer_is_valid ?i \<Longrightarrow> intr_count ?i \<noteq> 0" using cnt drop by (auto simp: counted_def)
    define i where "i = (if pointer_is_valid ?i then ?i\<lparr>intr_count := intr_count ?i - 1\<rparr> else ?i)"
    have d: "drop_request ?i = Some i" using nz by (auto simp: drop_request_def i_def)
    have "pointer_is_valid ?i \<Longrightarrow> unat (intr_count ?i - 1) = unat (intr_count ?i) - 1"
      using nz by (simp add: unat_minus_one)
    then have "pic_inv k (c\<lparr>pending_request := False, core_intr := i\<rparr>)"
      using ok cnt drop by (auto simp: pic_inv_def counted_def i_def)
    then show thesis using that [of i] drop d by (simp add: upd)
  next
    case same
    then have c: "c\<lparr>pending_request := deliverable c, core_intr := ?i\<rparr> = c" by simp
    show thesis using that [of ?i, unfolded c] same ok cnt by (auto simp: upd pic_inv_def)
  qed
qed

section \<open>The pair of controllers as a machine\<close>

text \<open>The calls the rest of the machine makes: port reads and writes of either controller, a pulse on a
  line, the CPU fetching the next interrupt, and clearing a controller.\<close>

datatype PicEvent = PicRead bool u8 | PicWrite bool u8 u8 | PicPulse u8 | PicSet u8 bool | PicNext | PicClear bool

record PicPair =
  pp_core :: SharedPicCore
  primary_pic :: Pic
  secondary_pic :: Pic

definition pic_of :: "PicPair \<Rightarrow> bool \<Rightarrow> Pic" where
  "pic_of s second = (if second then secondary_pic s else primary_pic s)"

definition put_pic :: "PicPair \<Rightarrow> bool \<Rightarrow> SharedPicCore \<times> Pic \<Rightarrow> PicPair" where
  "put_pic s second cp =
     (if second then s\<lparr>pp_core := fst cp, secondary_pic := snd cp\<rparr> else s\<lparr>pp_core := fst cp, primary_pic := snd cp\<rparr>)"

fun pic_step :: "PicPair \<Rightarrow> PicEvent \<Rightarrow> PicPair option" where
  "pic_step s (PicRead i addr) = map_option (\<lambda>_. s) (pic_read (pp_core s) (pic_of s i) addr)"
| "pic_step s (PicWrite i addr val) = map_option (put_pic s i) (pic_write (pp_core s) (pic_of s i) addr val)"
| "pic_step s (PicPulse line) = map_option (\<lambda>c. s\<lparr>pp_core := c\<rparr>) (pulse (pp_core s) line)"
| "pic_step s (PicSet line v) = map_option (\<lambda>c. s\<lparr>pp_core := c\<rparr>) (set_line (pp_core s) line v)"
| "pic_step s PicNext = map_option (\<lambda>r. s\<lparr>pp_core := fst r\<rparr>) (get_next_interrupt (pp_core s))"
| "pic_step s (PicClear i) = map_option (\<lambda>c. s\<lparr>pp_core := c\<rparr>) (clear_pending (pp_core s) (pic_of s i))"

fun pic_event_ok :: "PicEvent \<Rightarrow> bool" where
  "pic_event_ok (PicPulse line) = (line < 16)"
| "pic_event_ok (PicSet line v) = (line < 16)"
| "pic_event_ok _ = True"

text \<open>\<open>hw/mod.rs\<close> builds the two controllers on one core with the vector offsets 0x08 and 0x70.\<close>

definition pic_boot :: "Intr \<Rightarrow> PicPair option" where
  "pic_boot i =
     (case pic_new 0 0x08 (pic_core_new i) of
        None \<Rightarrow> None
      | Some (c, p0) \<Rightarrow> map_option (\<lambda>(c', p1). \<lparr>pp_core = c', primary_pic = p0, secondary_pic = p1\<rparr>) (pic_new 1 0x70 c))"

definition one_pic_ok :: "nat \<Rightarrow> Pic \<Rightarrow> bool" where
  "one_pic_ok n p \<longleftrightarrow> controller_index p = n \<and> register_select p \<le> 1"

definition pair_inv :: "nat \<Rightarrow> PicPair \<Rightarrow> bool" where
  "pair_inv k s \<longleftrightarrow> pic_inv k (pp_core s) \<and> one_pic_ok 0 (primary_pic s) \<and> one_pic_ok 1 (secondary_pic s)"

text \<open>An operation that changes the registers of the core and then updates the request.\<close>

lemma pic_update:
  assumes "core_ok c'" "counted k c'" "\<And>c2. pic_inv k c2 \<Longrightarrow> \<exists>i. c2 = c'\<lparr>pending_request := deliverable c', core_intr := i\<rparr> \<Longrightarrow> P c2"
  shows "\<exists>c2. update_pending_interrupt c' = Some c2 \<and> pic_inv k c2 \<and> P c2"
  using update_pending_interrupt_ok [OF assms(1,2)] assms(3) by metis

lemma pic_invD: "pic_inv k c \<Longrightarrow> core_ok c \<and> counted k c"
  by (simp add: pic_inv_def)

lemma end_of_interrupt_ok: "pic_inv k c \<Longrightarrow> controller_index p < 2 \<Longrightarrow> \<exists>c2. end_of_interrupt c p i = Some c2 \<and> pic_inv k c2"
  using pic_update [of _ k "\<lambda>_. True"] by (auto simp: end_of_interrupt_def pic_inv_def core_ok_def counted_def Let_def)

lemma write_ocw2_ok: "pic_inv k c \<Longrightarrow> controller_index p < 2 \<Longrightarrow> \<exists>c2. write_ocw2 c p v = Some c2 \<and> pic_inv k c2"
  using end_of_interrupt_ok [of k c p] by (auto simp: write_ocw2_def Let_def pic_inv_def core_ok_def)

lemma clear_pending_ok: "pic_inv k c \<Longrightarrow> controller_index p < 2 \<Longrightarrow> \<exists>c2. clear_pending c p = Some c2 \<and> pic_inv k c2"
  using pic_update [of _ k "\<lambda>_. True"] by (auto simp: clear_pending_def pic_inv_def core_ok_def counted_def Let_def)

lemma pulse_ok: "pic_inv k c \<Longrightarrow> line < 16 \<Longrightarrow> \<exists>c2. pulse c line = Some c2 \<and> pic_inv k c2"
  using pic_update [of _ k "\<lambda>_. True"]
  by (auto simp: pulse_def pic_inv_def core_ok_def counted_def Let_def unat_div word_less_nat_alt)

lemma set_line_ok: "pic_inv k c \<Longrightarrow> line < 16 \<Longrightarrow> \<exists>c2. set_line c line v = Some c2 \<and> pic_inv k c2"
  using pulse_ok by (simp add: set_line_def)

lemma offset_inv: "pic_inv k (c\<lparr>vector_offset := vo\<rparr>) = (pic_inv k c \<and> length vo = 2)" if "length (vector_offset c) = 2"
  using that
  by (auto simp: pic_inv_def core_ok_def counted_def deliverable_def effective_pending_interrupts_def in_service_interrupt_priority_def)

lemma write_data_ok:
  assumes "pic_inv k c" "one_pic_ok n p" "n < 2"
  shows "\<exists>c2 p2. write_data c p v = Some (c2, p2) \<and> pic_inv k c2 \<and> one_pic_ok n p2"
proof (cases "state p")
  case Ready
  then show ?thesis
    using assms pic_update [of "c\<lparr>imr := (imr c)[n := v]\<rparr>" k "\<lambda>_. True"]
    by (auto simp: write_data_def Let_def one_pic_ok_def pic_inv_def core_ok_def counted_def)
next
  case (Icw2 x)
  then show ?thesis
    using assms offset_inv [of c k "(vector_offset c)[n := v AND 0xf8]"]
    by (auto simp: write_data_def Let_def one_pic_ok_def pic_inv_def core_ok_def)
qed (use assms in \<open>auto simp: write_data_def Let_def one_pic_ok_def\<close>)

lemma write_command_ok:
  assumes "pic_inv k c" "one_pic_ok n p" "n < 2"
  shows "\<exists>c2 p2. write_command c p v = Some (c2, p2) \<and> pic_inv k c2 \<and> one_pic_ok n p2"
proof -
  have le: "v AND 1 \<le> 1" by (simp add: word_and_le1)
  show ?thesis
    using assms write_ocw2_ok [of k c p v] le
    by (auto simp: write_command_def write_icw1_def write_ocw3_def one_pic_ok_def split: PicState.split)
qed

lemma pic_write_ok:
  assumes "pic_inv k c" "one_pic_ok n p" "n < 2"
  shows "\<exists>c2 p2. pic_write c p addr v = Some (c2, p2) \<and> pic_inv k c2 \<and> one_pic_ok n p2"
  using write_command_ok [OF assms] write_data_ok [OF assms] by (simp add: pic_write_def)

lemma pic_read_ok:
  assumes "core_ok c" "one_pic_ok n p" "n < 2"
  shows "\<exists>v. pic_read c p addr = Some v"
proof -
  have "register_select p = 0 \<or> register_select p = 1"
    using assms(2) by (auto simp: one_pic_ok_def word_le_nat_alt word_unat_eq_iff le_Suc_eq)
  then show ?thesis using assms by (auto simp: pic_read_def core_ok_def one_pic_ok_def)
qed

text \<open>Fetching an interrupt: the line with the highest priority among those that are pending, unmasked
  and not in service, if it precedes every line in service.\<close>

lemma prio_less: "p < 16 \<Longrightarrow> q < 16 \<Longrightarrow> (word_of_nat p :: u8) < word_of_nat q \<longleftrightarrow> p < q"
  by (simp add: word_less_nat_alt unat_of_nat)

lemma get_next_interrupt_none:
  assumes "\<not> deliverable c" shows "get_next_interrupt c = Some (c, None)"
proof (cases "effective_pending_interrupts c = 0")
  case False
  then obtain p where "highest_priority_line (effective_pending_interrupts c) =
      (word_of_nat p, Some (INTERRUPT_LINE_PRIORITY_ORDER ! p))" by (rule highest_priority_line_exists)
  then show ?thesis using assms False by (simp add: get_next_interrupt_def deliverable_def Let_def)
qed (simp add: get_next_interrupt_def)

text \<open>The core with line \<open>l\<close> in service.\<close>

definition serve :: "SharedPicCore \<Rightarrow> nat \<Rightarrow> SharedPicCore" where
  "serve c l = c\<lparr>in_service := (in_service c)[l div 8 := in_service c ! (l div 8) OR push_bit (l mod 8) 1]\<rparr>"

lemma get_next_interrupt_some:
  assumes inv: "pic_inv k c" and d: "deliverable c"
  obtains p i where "p < 16" "bit (effective_pending_interrupts c) (line_at p)"
    "\<And>q. q < p \<Longrightarrow> \<not> bit (effective_pending_interrupts c) (line_at q)"
    "word_of_nat p < in_service_interrupt_priority c"
    "get_next_interrupt c =
       Some ((serve c (line_at p))\<lparr>pending_request := deliverable (serve c (line_at p)), core_intr := i\<rparr>,
             Some (word_of_nat (line_at p mod 8) + vector_offset c ! (line_at p div 8)))"
    "pic_inv k ((serve c (line_at p))\<lparr>pending_request := deliverable (serve c (line_at p)), core_intr := i\<rparr>)"
proof -
  obtain p where p: "p < 16" "bit (effective_pending_interrupts c) (line_at p)"
    "\<And>q. q < p \<Longrightarrow> \<not> bit (effective_pending_interrupts c) (line_at q)"
    "highest_priority_line (effective_pending_interrupts c) = (word_of_nat p, Some (INTERRUPT_LINE_PRIORITY_ORDER ! p))"
    using d highest_priority_line_exists unfolding deliverable_def by blast
  have lt: "word_of_nat p < in_service_interrupt_priority c" using d p(4) by (simp add: deliverable_def)
  let ?l = "INTERRUPT_LINE_PRIORITY_ORDER ! p" and ?c = "serve c (line_at p)"
  have n: "line_at p div 8 < 2" using line_at_less [OF p(1)] by simp
  have ok: "core_ok ?c" "counted k ?c" using inv by (auto simp: serve_def pic_inv_def core_ok_def counted_def)
  obtain i where u: "update_pending_interrupt ?c = Some (?c\<lparr>pending_request := deliverable ?c, core_intr := i\<rparr>)"
    "pic_inv k (?c\<lparr>pending_request := deliverable ?c, core_intr := i\<rparr>)"
    using update_pending_interrupt_ok [OF ok] by blast
  have m8: "unat (?l mod 8) = line_at p mod 8" by (simp add: unat_mod)
  have w: "?l mod 8 = word_of_nat (line_at p mod 8)" by (simp flip: m8)
  have "start_servicing_interrupt c ?l = update_pending_interrupt ?c"
    using inv n by (simp add: start_servicing_interrupt_def serve_def Let_def pic_inv_def core_ok_def m8 wrapping_shl_def)
  moreover have "vector_offset ?c = vector_offset c" by (simp add: serve_def)
  ultimately have r: "get_next_interrupt c = Some (?c\<lparr>pending_request := deliverable ?c, core_intr := i\<rparr>,
      Some (word_of_nat (line_at p mod 8) + vector_offset c ! (line_at p div 8)))"
    using inv d p(4) lt u(1) n by (simp add: get_next_interrupt_def Let_def deliverable_def pic_inv_def core_ok_def w)
  show thesis by (rule that [OF p(1-3) lt r u(2)])
qed

lemma get_next_interrupt_ok:
  "pic_inv k c \<Longrightarrow> \<exists>c2 r. get_next_interrupt c = Some (c2, r) \<and> pic_inv k c2"
  using get_next_interrupt_none [of c] get_next_interrupt_some [of k c] by (cases "deliverable c") blast+

lemma pic_step_ok:
  assumes "pair_inv k s" "pic_event_ok e"
  shows "\<exists>s'. pic_step s e = Some s' \<and> pair_inv k s'"
proof -
  have c: "pic_inv k (pp_core s)" "core_ok (pp_core s)" using assms by (auto simp: pair_inv_def pic_inv_def)
  have p: "one_pic_ok (if i then 1 else 0) (pic_of s i)" for i using assms by (simp add: pair_inv_def pic_of_def)
  have n: "(if i then 1 else 0) < (2::nat)" for i by simp
  have ci: "controller_index (pic_of s i) < 2" for i using p [of i] by (auto simp: one_pic_ok_def split: if_splits)
  have core: "pair_inv k (s\<lparr>pp_core := c'\<rparr>)" if "pic_inv k c'" for c' using that assms(1) by (simp add: pair_inv_def)
  have put: "pair_inv k (put_pic s i (c', q))" if "pic_inv k c'" "one_pic_ok (if i then 1 else 0) q" for i c' q
    using that assms(1) by (auto simp: pair_inv_def put_pic_def split: if_splits)
  show ?thesis
  proof (cases e)
    case (PicRead i addr)
    then show ?thesis using pic_read_ok [OF c(2) p n, of i addr] assms(1) by auto
  next
    case (PicWrite i addr v)
    then show ?thesis using pic_write_ok [OF c(1) p n, of i addr v] put by auto
  next
    case (PicPulse l)
    then show ?thesis using pulse_ok [OF c(1), of l] assms(2) core by auto
  next
    case (PicSet l v)
    then show ?thesis using set_line_ok [OF c(1), of l v] assms(2) core by auto
  next
    case PicNext
    then show ?thesis using get_next_interrupt_ok [OF c(1)] core by auto
  next
    case (PicClear i)
    then show ?thesis using clear_pending_ok [OF c(1) ci, of i] core by auto
  qed
qed

lemma pic_step_bad: "pair_inv k s \<Longrightarrow> \<not> pic_event_ok e \<Longrightarrow> pic_step s e = Some s' \<Longrightarrow> pair_inv k s'"
  by (cases e) (auto simp: pulse_def set_line_def pair_inv_def pic_inv_def core_ok_def Let_def unat_div word_less_nat_alt
      split: if_splits)

interpretation pics: total_machine pic_step "pair_inv k" pic_event_ok for k
proof
  fix s e s' assume "pair_inv k s" "pic_step s e = Some s'"
  then show "pair_inv k s'" using pic_step_ok [of k s e] pic_step_bad [of k s e s'] by (cases "pic_event_ok e") auto
qed (use pic_step_ok in blast)

lemma pic_boot_inv: "\<exists>s. pic_boot intr_new = Some s \<and> pair_inv 0 s"
proof -
  have e: "effective_pending_interrupts c = 0" if "pending_interrupts c = [0, 0]" "in_service c = [0, 0]" "imr c = [0, 0]" for c
    using that by (simp add: effective_pending_interrupts_def wrapping_shl_def)
  show ?thesis
    by (auto simp: pic_boot_def pic_new_def pic_core_new_def pair_inv_def pic_inv_def core_ok_def counted_def
        deliverable_def one_pic_ok_def intr_new_def e)
qed

section \<open>Snapshots\<close>

text \<open>Everything the operations of the core depend on, beside the counter.\<close>

definition core_view :: "SharedPicCore \<Rightarrow> bool \<times> u8 list \<times> u8 list \<times> u8 list \<times> u8 list" where
  "core_view c = (pending_request c, pending_interrupts c, in_service c, imr c, vector_offset c)"

lemma core_restore_ok:
  assumes "counted k t" "pending_request t \<Longrightarrow> pending_request c"
  shows "\<exists>t'. core_restore t (core_snapshot c) = Some t' \<and> core_view t' = core_view c \<and> counted k t'"
proof -
  have up: "unat (i + 1) = unat i + 1" if "unat (i :: u32) \<le> 2 ^ 32 - 2" for i
    using that by (simp add: unat_word_ariths)
  show ?thesis
    using assms up [of "intr_count (core_intr t)"]
    by (cases "pending_request c"; cases "pending_request t"; cases "pointer_is_valid (core_intr t)")
      (auto simp: core_restore_def core_snapshot_def core_view_def counted_def intr_request_def drop_request_def
        Let_def simp flip: unat_eq_zero)
qed

interpretation pic_snap: snapshot_device pic_snapshot pic_restore "\<lambda>p. p" "\<lambda>_ _. True"
  by unfold_locales (auto simp: pic_snapshot_def pic_restore_def)

text \<open>The whole in-service register is below the priority \<open>p\<close>.\<close>

lemma in_service_priority_iff:
  assumes ok: "core_ok c" and p: "p < 16"
  shows "word_of_nat p < in_service_interrupt_priority c \<longleftrightarrow>
    (\<forall>q \<le> p. \<not> bit (in_service c ! (line_at q div 8)) (line_at q mod 8))"
proof -
  let ?s = "from_le_bytes (in_service c ! 0) (in_service c ! 1)"
  have b: "bit ?s l = bit (in_service c ! (l div 8)) (l mod 8)" if "l < 16" for l
  proof (cases "l < 8")
    case False
    then have "l div 8 = 1" "l mod 8 = l - 8" using that by (simp_all add: div_nat_eqI mod_if)
    then show ?thesis using False by (simp add: from_le_bytes_def bit_simps that) (auto dest: bit_imp_le_length)
  qed (auto simp: from_le_bytes_def bit_simps)
  show ?thesis
  proof (cases "?s = 0")
    case True
    have "\<not> bit (in_service c ! (line_at q div 8)) (line_at q mod 8)" if "q \<le> p" for q
      using b [OF line_at_less, of q] True that p by simp
    moreover have "(word_of_nat p :: u8) < 0xff" using p by (simp add: word_less_nat_alt unat_of_nat)
    ultimately show ?thesis unfolding in_service_interrupt_priority_def True highest_priority_line_0 by simp
  next
    case False
    then obtain s where s: "s < 16" "bit ?s (line_at s)" "\<And>q. q < s \<Longrightarrow> \<not> bit ?s (line_at q)"
      "highest_priority_line ?s = (word_of_nat s, Some (INTERRUPT_LINE_PRIORITY_ORDER ! s))"
      by (rule highest_priority_line_exists) blast
    have pr: "word_of_nat p < in_service_interrupt_priority c \<longleftrightarrow> p < s"
      using p s(1,4) by (simp add: in_service_interrupt_priority_def prio_less)
    have "p < s \<longleftrightarrow> (\<forall>q \<le> p. \<not> bit ?s (line_at q))"
      using s(2,3) by (metis le_less_trans not_less)
    also have "\<dots> \<longleftrightarrow> (\<forall>q \<le> p. \<not> bit (in_service c ! (line_at q div 8)) (line_at q mod 8))"
      using b [OF line_at_less] p by simp
    finally show ?thesis by (simp only: pr)
  qed
qed

text \<open>Line \<open>l\<close> asks for service: it is pending, not masked and not in service. The core can deliver when
  such a line is not preceded by a line in service.\<close>

definition line_wants :: "SharedPicCore \<Rightarrow> nat \<Rightarrow> bool" where
  "line_wants c l \<longleftrightarrow> bit (pending_interrupts c ! (l div 8)) (l mod 8) \<and> \<not> bit (imr c ! (l div 8)) (l mod 8)
     \<and> \<not> bit (in_service c ! (l div 8)) (l mod 8)"

definition can_deliver :: "SharedPicCore \<Rightarrow> bool" where
  "can_deliver c \<longleftrightarrow> (\<exists>p < 16. line_wants c (line_at p)
     \<and> (\<forall>q \<le> p. \<not> bit (in_service c ! (line_at q div 8)) (line_at q mod 8)))"

lemma line_wants_iff:
  assumes "core_ok c" "p < 16"
  shows "bit (effective_pending_interrupts c) (line_at p) \<longleftrightarrow> line_wants c (line_at p)"
  using bit_effective [OF assms(1), of "line_at p"] line_at_less [OF assms(2)] by (auto simp: line_wants_def)

lemma deliverable_iff:
  assumes "core_ok c"
  shows "deliverable c \<longleftrightarrow> can_deliver c"
proof
  assume "deliverable c"
  then have d: "effective_pending_interrupts c \<noteq> 0"
    "fst (highest_priority_line (effective_pending_interrupts c)) < in_service_interrupt_priority c" by (auto simp: deliverable_def)
  obtain p where p: "p < 16" "bit (effective_pending_interrupts c) (line_at p)"
    "highest_priority_line (effective_pending_interrupts c) = (word_of_nat p, Some (INTERRUPT_LINE_PRIORITY_ORDER ! p))"
    using highest_priority_line_exists [OF d(1)] by metis
  then show "can_deliver c"
    using d(2) in_service_priority_iff [OF assms p(1)] line_wants_iff [OF assms p(1)] by (auto simp: can_deliver_def)
next
  assume "can_deliver c"
  then obtain p where p: "p < 16" "line_wants c (line_at p)"
    "\<forall>q \<le> p. \<not> bit (in_service c ! (line_at q div 8)) (line_at q mod 8)" by (auto simp: can_deliver_def)
  have b: "bit (effective_pending_interrupts c) (line_at p)" using p(1,2) line_wants_iff [OF assms] by blast
  then have nz: "effective_pending_interrupts c \<noteq> 0" by auto
  obtain q where q: "q < 16" "\<And>r. r < q \<Longrightarrow> \<not> bit (effective_pending_interrupts c) (line_at r)"
    "highest_priority_line (effective_pending_interrupts c) = (word_of_nat q, Some (INTERRUPT_LINE_PRIORITY_ORDER ! q))"
    using highest_priority_line_exists [OF nz] by metis
  have "q \<le> p" using q(2) [of p] b by (meson not_less)
  then have "word_of_nat q < in_service_interrupt_priority c"
    unfolding in_service_priority_iff [OF assms q(1)] using p(3) by (meson le_trans)
  then show "deliverable c" using nz q(3) by (simp add: deliverable_def)
qed

lemma core_new_inv: "pic_inv 0 (pic_core_new intr_new)"
proof -
  have "effective_pending_interrupts (pic_core_new intr_new) = 0"
    by (simp add: effective_pending_interrupts_def pic_core_new_def wrapping_shl_def)
  then show ?thesis
    by (simp add: pic_inv_def core_ok_def counted_def deliverable_def) (simp add: pic_core_new_def intr_new_def)
qed

text \<open>The second controller as \<open>pic_new\<close> leaves it.\<close>

definition power_on_pic :: Pic where
  "power_on_pic = \<lparr>state = Ready, cascade_mode = Single 0, adi = Interval8, trigger_mode = Edge, register_select = 0,
      read_register = False, poll_command = False, controller_index = 1\<rparr>"

section \<open>Properties\<close>

text \<open>C11: from power-on, any sequence of port accesses, line pulses below 16, interrupt fetches and
  clears runs without a panic. Afterwards an interrupt is requested from the CPU exactly when some line
  is pending, unmasked, not in service and not preceded (in the order of priority) by a line in service,
  and the shared counter counts exactly that request.\<close>

theorem pic_run_safe:
  assumes "\<forall>e \<in> set es. pic_event_ok e"
  shows "\<exists>s0 s. pic_boot intr_new = Some s0 \<and> run pic_step s0 es = Some s
     \<and> (pending_request (pp_core s) \<longleftrightarrow> can_deliver (pp_core s))
     \<and> (pointer_is_valid (core_intr (pp_core s)) \<longrightarrow>
          intr_count (core_intr (pp_core s)) = of_bool (can_deliver (pp_core s)))"
proof -
  obtain s0 where s0: "pic_boot intr_new = Some s0" "pair_inv 0 s0" using pic_boot_inv by blast
  obtain s where s: "run pic_step s0 es = Some s" "pair_inv 0 s" using pics.run_total [OF s0(2) assms] by blast
  then have "pic_inv 0 (pp_core s)" by (simp add: pair_inv_def)
  then show ?thesis using s0 s deliverable_iff [of "pp_core s"] by (auto simp: pic_inv_def counted_def word_unat_eq_iff)
qed

theorem pic_run_safe_witness:
  "\<exists>s0 s. pic_boot intr_new = Some s0
     \<and> run pic_step s0 [PicPulse 1, PicNext, PicWrite False 0 0x20, PicSet 12 True, PicRead True 1] = Some s
     \<and> (pending_request (pp_core s) \<longleftrightarrow> can_deliver (pp_core s))
     \<and> (pointer_is_valid (core_intr (pp_core s)) \<longrightarrow>
          intr_count (core_intr (pp_core s)) = of_bool (can_deliver (pp_core s)))"
  by (rule pic_run_safe) simp

text \<open>C12: fetching the next interrupt. Nothing happens when no line can be delivered. Otherwise the line
  is the first of the priority order whose bit is set in the pending register, clear in the mask
  register and clear in the in-service register; no line that precedes it (nor itself) is in service,
  the vector is the line within its controller plus that controller's offset, and exactly this line is
  added to the in-service register.\<close>

theorem get_next_interrupt_spec:
  assumes "pic_inv k c"
  shows "\<exists>c' r. get_next_interrupt c = Some (c', r) \<and> pic_inv k c' \<and>
    (case r of
       None \<Rightarrow> \<not> can_deliver c \<and> c' = c
     | Some v \<Rightarrow> (\<exists>p < 16. let l = line_at p in
         line_wants c l
         \<and> (\<forall>q < p. \<not> line_wants c (line_at q))
         \<and> (\<forall>q \<le> p. \<not> bit (in_service c ! (line_at q div 8)) (line_at q mod 8))
         \<and> v = word_of_nat (l mod 8) + vector_offset c ! (l div 8)
         \<and> in_service c' = (in_service c)[l div 8 := in_service c ! (l div 8) OR push_bit (l mod 8) 1]
         \<and> pending_interrupts c' = pending_interrupts c \<and> imr c' = imr c \<and> vector_offset c' = vector_offset c))"
proof (cases "deliverable c")
  case False
  moreover have "core_ok c" using assms by (simp add: pic_inv_def)
  ultimately show ?thesis using get_next_interrupt_none assms by (auto simp: deliverable_iff)
next
  case True
  have ok: "core_ok c" using assms by (simp add: pic_inv_def)
  obtain p i where p: "p < 16" "bit (effective_pending_interrupts c) (line_at p)"
    "\<And>q. q < p \<Longrightarrow> \<not> bit (effective_pending_interrupts c) (line_at q)" "word_of_nat p < in_service_interrupt_priority c"
    and r: "get_next_interrupt c =
       Some ((serve c (line_at p))\<lparr>pending_request := deliverable (serve c (line_at p)), core_intr := i\<rparr>,
             Some (word_of_nat (line_at p mod 8) + vector_offset c ! (line_at p div 8)))"
    and inv: "pic_inv k ((serve c (line_at p))\<lparr>pending_request := deliverable (serve c (line_at p)), core_intr := i\<rparr>)"
    by (rule get_next_interrupt_some [OF assms True]) blast
  have q: "\<forall>q \<le> p. \<not> bit (in_service c ! (line_at q div 8)) (line_at q mod 8)"
    using p(4) by (simp add: in_service_priority_iff [OF ok p(1)])
  have w: "line_wants c (line_at p)" "\<forall>q < p. \<not> line_wants c (line_at q)"
    using p(1-3) line_wants_iff [OF ok] by auto
  show ?thesis
    unfolding r
    by (intro exI conjI, rule refl, rule inv) (use p(1) q w in \<open>auto simp: Let_def serve_def intro!: exI [of _ p]\<close>)
qed

text \<open>Lines 1 (masked), 3, 4 (in service) and 9 are pending: line 9 is delivered, with the vector 0x71.\<close>

definition busy_core :: SharedPicCore where
  "busy_core = \<lparr>core_intr = \<lparr>intr_count = 1, pointer_is_valid = True\<rparr>, pending_request = True,
     pending_interrupts = [0x1a, 0x02], in_service = [0x10, 0], imr = [0x02, 0], vector_offset = [0x08, 0x70]\<rparr>"

lemma busy_core_inv: "pic_inv 0 busy_core"
proof -
  have "deliverable busy_core" unfolding busy_core_def deliverable_def by code_simp
  then show ?thesis by (simp add: pic_inv_def core_ok_def counted_def) (simp add: busy_core_def)
qed

theorem get_next_interrupt_spec_witness:
  "\<exists>c' p. get_next_interrupt busy_core = Some (c', Some 0x71) \<and> p < 16 \<and> line_wants busy_core (line_at p)
     \<and> (\<forall>q < p. \<not> line_wants busy_core (line_at q))
     \<and> 0x71 = word_of_nat (line_at p mod 8) + [0x08, 0x70 :: u8] ! (line_at p div 8)"
proof -
  have e: "map_option snd (get_next_interrupt busy_core) = Some (Some 0x71)" unfolding busy_core_def by code_simp
  obtain c' r where c: "get_next_interrupt busy_core = Some (c', r)"
    and sp: "case r of None \<Rightarrow> \<not> can_deliver busy_core \<and> c' = busy_core
     | Some v \<Rightarrow> (\<exists>p < 16. let l = line_at p in
         line_wants busy_core l \<and> (\<forall>q < p. \<not> line_wants busy_core (line_at q))
         \<and> (\<forall>q \<le> p. \<not> bit (in_service busy_core ! (line_at q div 8)) (line_at q mod 8))
         \<and> v = word_of_nat (l mod 8) + vector_offset busy_core ! (l div 8)
         \<and> in_service c' = (in_service busy_core)[l div 8 := in_service busy_core ! (l div 8) OR push_bit (l mod 8) 1]
         \<and> pending_interrupts c' = pending_interrupts busy_core \<and> imr c' = imr busy_core \<and> vector_offset c' = vector_offset busy_core)"
    using get_next_interrupt_spec [OF busy_core_inv] by blast
  have r: "r = Some 0x71" using e c by simp
  have vo: "vector_offset busy_core = [0x08, 0x70]" by (simp add: busy_core_def)
  show ?thesis using sp unfolding r vo by (auto simp: Let_def c r)
qed

text \<open>a non-specific end of interrupt (command 0x20) clears the lowest line in service of the
  controller it is written to, together with its pending bit, and no other bit of either controller;
  the controller itself is unchanged.\<close>

lemma nonspecific_eoi:
  assumes "pic_inv k c" "one_pic_ok n p" "n < 2" "state p = Ready"
  shows "\<exists>c'. pic_write c p 0 0x20 = Some (c', p) \<and> pic_inv k c' \<and> imr c' = imr c \<and> vector_offset c' = vector_offset c
     \<and> (\<forall>m i. m < 2 \<longrightarrow> i < 8 \<longrightarrow>
          bit (in_service c' ! m) i = (bit (in_service c ! m) i \<and> \<not> (m = n \<and> i = trailing_zeros (in_service c ! n)))
        \<and> bit (pending_interrupts c' ! m) i = (bit (pending_interrupts c ! m) i \<and> \<not> (m = n \<and> i = trailing_zeros (in_service c ! n))))"
proof -
  let ?t = "trailing_zeros (in_service c ! n)"
  have ci: "controller_index p = n" using assms by (simp add: one_pic_ok_def)
  have ok: "core_ok c" "counted k c" using assms by (simp_all add: pic_inv_def)
  have cmd: "pic_write c p 0 0x20 = map_option (\<lambda>c'. (c', p)) (write_ocw2 c p 0x20)"
    using assms(4) by (simp add: pic_write_def write_command_def)
  show ?thesis
  proof (cases "?t < 8")
    case False
    then have "write_ocw2 c p 0x20 = Some c"
      using ok assms(3) ci by (simp add: write_ocw2_def core_ok_def)
    then show ?thesis using cmd assms False by auto
  next
    case True
    let ?m = "NOT (push_bit ?t 1) :: u8"
    let ?c = "c\<lparr>in_service := (in_service c)[n := in_service c ! n AND ?m],
                pending_interrupts := (pending_interrupts c)[n := pending_interrupts c ! n AND ?m]\<rparr>"
    have ok': "core_ok ?c" "counted k ?c" using ok by (auto simp: core_ok_def counted_def)
    obtain i where u: "update_pending_interrupt ?c = Some (?c\<lparr>pending_request := deliverable ?c, core_intr := i\<rparr>)"
      "pic_inv k (?c\<lparr>pending_request := deliverable ?c, core_intr := i\<rparr>)"
      using update_pending_interrupt_ok [OF ok'] by blast
    have "unat (word_of_nat ?t :: u8) = ?t" using True by (simp add: unat_of_nat)
    then have "write_ocw2 c p 0x20 = update_pending_interrupt ?c"
      using ok assms(3) ci True
      by (simp add: write_ocw2_def end_of_interrupt_def core_ok_def Let_def wrapping_shl_def)
    then show ?thesis
      using u assms(3) ok by (auto simp: cmd core_ok_def nth_list_update bit_simps)
  qed
qed

text \<open>the initialisation sequence: command word 1, the vector offset, a cascade word unless the
  controller is single, and command word 4 when announced, bring the controller back to the ready
  state with the vector offset aligned to 8 and nothing else of the core changed.\<close>

lemma pic_init_sequence:
  assumes "state p = Ready" "icw1 AND 0x10 \<noteq> 0" "controller_index p < length (vector_offset c)"
  shows "\<exists>p'. run (\<lambda>(c, p) (a, v). pic_write c p a v) (c, p)
       ((0, icw1) # (1, v) # (if icw1 AND 2 \<noteq> 0 then [] else [(1, icw3)]) @ (if icw1 AND 1 \<noteq> 0 then [(1, icw4)] else []))
     = Some (c\<lparr>vector_offset := (vector_offset c)[controller_index p := v AND 0xf8]\<rparr>, p')
     \<and> state p' = Ready \<and> controller_index p' = controller_index p \<and> register_select p' = register_select p
     \<and> cascade_mode p' = (if icw1 AND 2 \<noteq> 0 then Single 0 else CascadeMap (icw3 AND 0x7f))
     \<and> trigger_mode p' = (if icw1 AND 8 \<noteq> 0 then Level else Edge)"
  using assms
  by (auto simp: pic_write_def write_command_def write_icw1_def write_data_def Let_def)

text \<open>C13: saving the controllers and restoring the snapshot into a core of the same counter gives the
  saved registers back, and the request of the core is counted once; the target must not hold a
  request the snapshot does not have.\<close>

theorem pic_snapshot_restore:
  assumes "counted k t" "pending_request t \<Longrightarrow> pending_request c"
  shows "pic_restore q (pic_snapshot p) = p
     \<and> (\<exists>t'. core_restore t (core_snapshot c) = Some t' \<and> core_view t' = core_view c \<and> counted k t')"
  using pic_snap.restore_view [of q p] core_restore_ok [OF assms] by simp

theorem pic_snapshot_restore_witness:
  "\<exists>t'. core_restore (pic_core_new intr_new) (core_snapshot busy_core) = Some t'
     \<and> core_view t' = (True, [0x1a, 0x02], [0x10, 0], [0x02, 0], [0x08, 0x70]) \<and> counted 0 t'"
proof -
  have "counted 0 (pic_core_new intr_new)" using core_new_inv by (simp add: pic_inv_def)
  from pic_snapshot_restore [OF this, of busy_core power_on_pic power_on_pic] show ?thesis
    by (simp add: core_view_def) (simp add: busy_core_def pic_core_new_def)
qed

text \<open>The condition is needed: a core that holds a request keeps it when a snapshot without one is
  restored, so the counter reports an interrupt that cannot be delivered.\<close>

lemma restore_keeps_stale_request:
  "\<exists>t. core_restore busy_core (core_snapshot (pic_core_new intr_new)) = Some t \<and> pending_request t
     \<and> intr_count (core_intr t) = 1 \<and> effective_pending_interrupts t = 0"
  by (simp add: core_restore_def core_snapshot_def busy_core_def pic_core_new_def effective_pending_interrupts_def wrapping_shl_def Let_def)

end
