(* ===== verification/Hw_Pit.thy ===== *)
theory Hw_Pit
  imports Prelude
begin

text \<open>
  The programmable interval timer (\<open>sem86-core/src/hw/pit.rs\<close>) and the ticker that drives registered
  timers (\<open>ClockTicker\<close> in \<open>sem86-core/src/time.rs\<close>).

  The clock is an argument: \<open>ticks\<close> is what \<open>get_ticks_in_hz(TIMER_CLOCK_RATE)\<close> returns at the call (a
  function of the call where there are several),
  \<open>now\<close> the current timestamp in nanoseconds. A failed assertion and \<open>todo!\<close> are \<open>None\<close>.
\<close>

section \<open>Bytes and read/write state\<close>

datatype Mode = Mode0 | Mode1 | Mode2 | Mode3 | Mode4 | Mode5

datatype Encoding = Binary | Bcd

datatype Byte = Lsb | Msb

fun byte_extract :: "Byte \<Rightarrow> u16 \<Rightarrow> u8" where
  "byte_extract Lsb val = ucast val"
| "byte_extract Msb val = ucast (drop_bit 8 val)"

fun byte_set :: "Byte \<Rightarrow> u16 \<Rightarrow> u8 \<Rightarrow> u16" where
  "byte_set Lsb cur new = (cur AND NOT 0x00ff) OR ucast new"
| "byte_set Msb cur new = (cur AND NOT 0xff00) OR push_bit 8 (ucast new)"

fun byte_flip :: "Byte \<Rightarrow> Byte" where
  "byte_flip Lsb = Msb"
| "byte_flip Msb = Lsb"

definition wraps_when_flipped :: "Byte \<Rightarrow> bool" where
  "wraps_when_flipped b \<longleftrightarrow> b = Msb"

text \<open>\<open>Both next_read next_write\<close>.\<close>

datatype RwState = SingleByte Byte | Both Byte Byte

fun waiting_on_second_byte_write :: "RwState \<Rightarrow> bool" where
  "waiting_on_second_byte_write (Both _ Msb) = True"
| "waiting_on_second_byte_write _ = False"

section \<open>One timer\<close>

record Timer =
  tm_init :: u16
  tm_val :: u16
  tm_mode :: Mode
  tm_encoding :: Encoding
  tm_state :: RwState
  tm_output :: bool
  null_count :: bool
  latched_value :: "u16 option"
  latched_status :: "u8 option"
  gate :: bool
  last_tick :: u64

definition timer_new :: Timer where
  "timer_new =
     \<lparr>tm_init = 0, tm_val = 0, tm_mode = Mode0, tm_encoding = Binary, tm_state = SingleByte Lsb, tm_output = False,
      null_count = False, latched_value = None, latched_status = None, gate = True, last_tick = 0\<rparr>"

definition timer_read :: "Timer \<Rightarrow> Timer \<times> u8" where
  "timer_read t =
     (case latched_status t of
        Some status \<Rightarrow> (t\<lparr>latched_status := None\<rparr>, status)
      | None \<Rightarrow>
          (let val = (case latched_value t of Some v \<Rightarrow> v | None \<Rightarrow> tm_val t);
               (new_state, release_latch, result) =
                 (case tm_state t of
                    SingleByte byte \<Rightarrow> (SingleByte byte, True, byte_extract byte val)
                  | Both next_read next_write \<Rightarrow>
                      (Both (byte_flip next_read) next_write, wraps_when_flipped next_read, byte_extract next_read val))
           in (t\<lparr>latched_value := if release_latch then None else latched_value t, tm_state := new_state\<rparr>, result)))"

definition timer_write :: "Timer \<Rightarrow> u8 \<Rightarrow> Timer" where
  "timer_write t val =
     (case tm_state t of
        SingleByte byte \<Rightarrow> t\<lparr>tm_init := byte_set byte (tm_init t) val, null_count := True\<rparr>
      | Both next_read next_write \<Rightarrow>
          t\<lparr>tm_init := byte_set next_write (tm_init t) val, tm_state := Both next_read (byte_flip next_write),
            null_count := null_count t \<or> wraps_when_flipped next_write\<rparr>)"

definition latch_count :: "Timer \<Rightarrow> Timer" where
  "latch_count t = t\<lparr>latched_value := (case latched_value t of Some v \<Rightarrow> Some v | None \<Rightarrow> Some (tm_val t))\<rparr>"

fun encoding_bits :: "Encoding \<Rightarrow> u8" where
  "encoding_bits Binary = 0"
| "encoding_bits Bcd = 1"

fun mode_bits :: "Mode \<Rightarrow> u8" where
  "mode_bits Mode0 = 0"
| "mode_bits Mode1 = 1"
| "mode_bits Mode2 = 2"
| "mode_bits Mode3 = 3"
| "mode_bits Mode4 = 4"
| "mode_bits Mode5 = 5"

fun rw_bits :: "RwState \<Rightarrow> u8" where
  "rw_bits (SingleByte Lsb) = 1"
| "rw_bits (SingleByte Msb) = 2"
| "rw_bits (Both _ _) = 3"

definition latch_status :: "Timer \<Rightarrow> Timer" where
  "latch_status t =
     t\<lparr>latched_status := Some (push_bit 7 (of_bool (tm_output t)) OR push_bit 6 (of_bool (null_count t))
        OR push_bit 4 (rw_bits (tm_state t)) OR push_bit 1 (mode_bits (tm_mode t)) OR encoding_bits (tm_encoding t))\<rparr>"

fun control_state :: "nat \<Rightarrow> RwState" where
  "control_state rw = (if rw = 1 then SingleByte Lsb else if rw = 2 then SingleByte Msb else Both Lsb Lsb)"

fun control_mode :: "nat \<Rightarrow> Mode" where
  "control_mode m =
     (if m = 0 then Mode0 else if m = 1 then Mode1 else if m = 2 \<or> m = 6 then Mode2
      else if m = 3 \<or> m = 7 then Mode3 else if m = 4 then Mode4 else Mode5)"

text \<open>The output is computed from the mode the timer had before.\<close>

definition timer_write_control :: "Timer \<Rightarrow> u8 \<Rightarrow> Timer" where
  "timer_write_control t val =
     (let rw = unat (drop_bit 4 val AND 3) in
      if rw = 0 then latch_count t
      else t\<lparr>tm_init := 0, tm_state := control_state rw,
             tm_encoding := if val AND 1 = 0 then Binary else Bcd,
             tm_mode := control_mode (unat (drop_bit 1 val AND 7)),
             latched_status := None, latched_value := None, tm_output := tm_mode t \<noteq> Mode0, null_count := True\<rparr>)"

text \<open>The reload count, and the counter after \<open>num\<close> ticks of a mode that reloads.\<close>

definition reload :: "Timer \<Rightarrow> u64" where
  "reload t = (if tm_init t = 0 then 0x10000 else ucast (tm_init t))"

definition reload_count :: "u64 \<Rightarrow> u16 \<Rightarrow> u64 \<Rightarrow> u16" where
  "reload_count init val num =
     (if num \<le> ucast val then ucast (ucast val - num)
      else let remaining = num - ucast val in ucast (init * ((remaining - 1) div init + 1) - remaining))"

text \<open>\<open>tick(num, irq)\<close>: the new timer and whether it saw a rising edge. The assertion on \<open>num\<close> and
  the missing mode 1 are \<open>None\<close>.\<close>

definition load_init :: "Timer \<Rightarrow> Timer" where
  "load_init t = (if null_count t then t\<lparr>tm_val := tm_init t, null_count := False\<rparr> else t)"

definition tick_mode :: "Timer \<Rightarrow> u64 \<Rightarrow> (Timer \<times> bool) option" where
  "tick_mode t num =
     (let val = tm_val t; down = (ucast (ucast val - num) :: u16); init = reload t; next = reload_count init val num in
      case tm_mode t of
        Mode0 \<Rightarrow> Some
          (if gate t \<and> \<not> waiting_on_second_byte_write (tm_state t)
           then (t\<lparr>tm_val := down, tm_output := (down = 0)\<rparr>, ucast val < num) else (t, False))
      | Mode1 \<Rightarrow> None
      | Mode2 \<Rightarrow> Some
          (if gate t
           then (t\<lparr>tm_val := next, tm_output := (next \<noteq> 1)\<rparr>,
                 (\<not> num \<le> ucast val \<and> 1 \<le> val) \<or> (next = 0 \<and> 1 \<le> num))
           else (t, False))
      | Mode3 \<Rightarrow> Some
          (if gate t
           then (t\<lparr>tm_val := next, tm_output := (next \<ge> ucast (drop_bit 1 init))\<rparr>, False) else (t, False))
      | _ \<Rightarrow> Some
          (if gate t
           then (t\<lparr>tm_val := down, tm_output := (down = 0 \<and> val \<noteq> down)\<rparr>, ucast val \<le> num \<and> 1 \<le> num)
           else (t, False)))"

text \<open>With an interrupt line attached, the last component says whether it is pulsed.\<close>

definition tick :: "Timer \<Rightarrow> u64 \<Rightarrow> bool \<Rightarrow> (Timer \<times> bool) option" where
  "tick t num irq =
     (if num = 0 then None
      else map_option (\<lambda>(t', saw_rising_edge).
             (t', irq \<and> (if num = 1 then tm_output t' \<and> tm_output t \<noteq> tm_output t' else saw_rising_edge)))
           (tick_mode (load_init t) num))"

definition tick_to :: "Timer \<Rightarrow> u64 \<Rightarrow> Timer option" where
  "tick_to t now =
     (if now < last_tick t then None
      else let needed_ticks = now - last_tick t in
           if needed_ticks > 0 then map_option fst (tick (t\<lparr>last_tick := now\<rparr>) needed_ticks False) else Some t)"

definition TIMER_CLOCK_RATE :: nat where
  "TIMER_CLOCK_RATE = 1193182"

text \<open>A \<open>Duration\<close> as its number of nanoseconds.\<close>

definition compute_effective_irq_period :: "Timer \<Rightarrow> nat option" where
  "compute_effective_irq_period t =
     (if tm_mode t = Mode2 \<or> tm_mode t = Mode3
      then Some ((1000000000 * (if tm_init t = 0 then 0x10000 else unat (tm_init t))) div TIMER_CLOCK_RATE)
      else None)"

section \<open>The ticker\<close>

record 't ClockTicker =
  next_deadline :: u64
  ct_timers :: "'t list"

definition ticker_add :: "'t ClockTicker \<Rightarrow> 't \<Rightarrow> 't ClockTicker" where
  "ticker_add c t = c\<lparr>ct_timers := ct_timers c @ [t]\<rparr>"

text \<open>\<open>retain_mut\<close> over the timers: the deadline, the timers kept and those dropped. \<open>None\<close> is the
  assertion that a ticked timer has moved on.\<close>

fun retain_timers ::
  "('t \<Rightarrow> u64) \<Rightarrow> ('t \<Rightarrow> u64 \<Rightarrow> 't \<times> bool) \<Rightarrow> u64 \<Rightarrow> u64 \<Rightarrow> 't list \<Rightarrow> (u64 \<times> 't list \<times> 't list) option" where
  "retain_timers nxt tk now deadline [] = Some (deadline, [], [])"
| "retain_timers nxt tk now deadline (t # ts) =
     (let (t', keep) = (if nxt t \<le> now then tk t now else (t, True)) in
      if \<not> keep then map_option (\<lambda>(d, ks, rs). (d, ks, t' # rs)) (retain_timers nxt tk now deadline ts)
      else if nxt t' > now
      then map_option (\<lambda>(d, ks, rs). (d, t' # ks, rs)) (retain_timers nxt tk now (min deadline (nxt t')) ts)
      else None)"

text \<open>The ticker, whether its deadline had passed, and the timers it dropped.\<close>

definition ticker_tick ::
  "('t \<Rightarrow> u64) \<Rightarrow> ('t \<Rightarrow> u64 \<Rightarrow> 't \<times> bool) \<Rightarrow> 't ClockTicker \<Rightarrow> u64 \<Rightarrow> ('t ClockTicker \<times> bool \<times> 't list) option" where
  "ticker_tick nxt tk c now =
     (if next_deadline c < now
      then map_option (\<lambda>(d, ks, rs). (\<lparr>next_deadline = d, ct_timers = ks\<rparr>, True, rs))
             (retain_timers nxt tk now (now + 1000000000) (ct_timers c))
      else Some (c, False, []))"

text \<open>The synchronous clock: \<open>register_timer\<close> sends a timer through a channel that \<open>tick_by\<close> empties into
  the ticker.\<close>

record 't SynchronousClock =
  sc_ticker :: "'t ClockTicker"
  sc_receiver :: "'t list"
  sc_current :: u64
  sc_has_new :: bool

definition new_synchronous :: "'t SynchronousClock" where
  "new_synchronous =
     \<lparr>sc_ticker = \<lparr>next_deadline = 0, ct_timers = []\<rparr>, sc_receiver = [], sc_current = 0, sc_has_new = False\<rparr>"

definition register_timer :: "'t SynchronousClock \<Rightarrow> 't \<Rightarrow> 't SynchronousClock" where
  "register_timer c t = c\<lparr>sc_receiver := sc_receiver c @ [t], sc_has_new := True\<rparr>"

definition tick_by ::
  "('t \<Rightarrow> u64) \<Rightarrow> ('t \<Rightarrow> u64 \<Rightarrow> 't \<times> bool) \<Rightarrow> 't SynchronousClock \<Rightarrow> nat \<Rightarrow> ('t SynchronousClock \<times> 't list) option" where
  "tick_by nxt tk c duration =
     (let now = sc_current c + word_of_nat duration in
      case ticker_tick nxt tk (sc_ticker c) now of
        None \<Rightarrow> None
      | Some (ticker, _, dropped) \<Rightarrow>
          Some (if sc_has_new c
                then c\<lparr>sc_current := now, sc_ticker := foldl ticker_add ticker (sc_receiver c), sc_receiver := [], sc_has_new := False\<rparr>
                else c\<lparr>sc_current := now, sc_ticker := ticker\<rparr>, dropped))"

section \<open>The three timers\<close>

text \<open>\<open>enabled\<close> is a shared cell, named by its position in the list of all cells. The device holds one
  \<open>TimerInfo\<close> of a cell, the registered timer a clone; dropping either of them clears the cell.\<close>

record TimerInfo =
  ti_period :: nat
  ti_enabled :: nat

record PitTimer =
  pt_info :: TimerInfo
  next_interrupt :: u64

record TimerBus =
  cells :: "bool list"
  clock :: "PitTimer SynchronousClock"

record Pit =
  status_val :: u8
  timers :: "Timer list"
  timer_info :: TimerInfo

definition new_enabled :: "TimerBus \<Rightarrow> TimerBus" where
  "new_enabled bus = bus\<lparr>cells := cells bus @ [True]\<rparr>"

definition drop_info :: "TimerInfo \<Rightarrow> TimerBus \<Rightarrow> TimerBus" where
  "drop_info i bus = bus\<lparr>cells := (cells bus)[ti_enabled i := False]\<rparr>"

definition pit_new :: "TimerBus \<Rightarrow> u64 \<Rightarrow> Pit \<times> TimerBus" where
  "pit_new bus now =
     (let info = \<lparr>ti_period = 100000000, ti_enabled = length (cells bus)\<rparr>; bus = new_enabled bus in
      (\<lparr>status_val = 0, timers = [timer_new, timer_new, timer_new], timer_info = info\<rparr>,
       bus\<lparr>clock := register_timer (clock bus) \<lparr>pt_info = info, next_interrupt = now\<rparr>\<rparr>))"

text \<open>The assignment to \<open>self.timer_info\<close> drops the old one.\<close>

definition update_timer_registration :: "Pit \<Rightarrow> TimerBus \<Rightarrow> u64 \<Rightarrow> (Pit \<times> TimerBus) option" where
  "update_timer_registration p bus now =
     (case compute_effective_irq_period (timers p ! 0) of
        None \<Rightarrow> None
      | Some period \<Rightarrow> Some
          (if ti_period (timer_info p) \<noteq> period
           then (let info = \<lparr>ti_period = period, ti_enabled = length (cells bus)\<rparr>;
                     bus = drop_info (timer_info p) (new_enabled bus) in
                 (p\<lparr>timer_info := info\<rparr>,
                  bus\<lparr>clock := register_timer (clock bus) \<lparr>pt_info = info, next_interrupt = now + word_of_nat period\<rparr>\<rparr>))
           else (p, bus)))"

definition read_timer :: "Pit \<Rightarrow> u8 \<Rightarrow> u64 \<Rightarrow> (Pit \<times> u8) option" where
  "read_timer p reg ticks =
     (if unat reg < length (timers p)
      then map_option (\<lambda>t. let (t', v) = timer_read t in (p\<lparr>timers := (timers p)[unat reg := t']\<rparr>, v))
             (tick_to (timers p ! unat reg) ticks)
      else None)"

definition write_timer :: "Pit \<Rightarrow> TimerBus \<Rightarrow> u8 \<Rightarrow> u8 \<Rightarrow> u64 \<Rightarrow> u64 \<Rightarrow> (Pit \<times> TimerBus) option" where
  "write_timer p bus reg val ticks now =
     (if unat reg < length (timers p)
      then (case tick_to (timers p ! unat reg) ticks of
              None \<Rightarrow> None
            | Some t \<Rightarrow>
                (let p' = p\<lparr>timers := (timers p)[unat reg := timer_write t val]\<rparr> in
                 if reg = 0 then update_timer_registration p' bus now else Some (p', bus)))
      else None)"

definition read_control :: "Pit \<Rightarrow> u8" where
  "read_control p = 0"

text \<open>The read-back command visits the timers in order and reads the clock for each of them.\<close>

fun read_back :: "u8 \<Rightarrow> (nat \<Rightarrow> u64) \<Rightarrow> nat \<Rightarrow> Timer list \<Rightarrow> Timer list option" where
  "read_back val ticks n [] = Some []"
| "read_back val ticks n (t # ts) =
     (case tick_to t (ticks n) of
        None \<Rightarrow> None
      | Some t1 \<Rightarrow>
          (let t2 = (if drop_bit (1 + n) val AND 1 \<noteq> 0
                     then (let tc = (if val AND 0x20 \<noteq> 0 then latch_count t1 else t1)
                           in if val AND 0x10 \<noteq> 0 then latch_status tc else tc)
                     else t1)
           in map_option ((#) t2) (read_back val ticks (Suc n) ts)))"

definition write_control :: "Pit \<Rightarrow> u8 \<Rightarrow> (nat \<Rightarrow> u64) \<Rightarrow> Pit option" where
  "write_control p val ticks =
     (let target = unat (drop_bit 6 val) in
      if target = 3
      then map_option (\<lambda>ts. p\<lparr>timers := ts\<rparr>) (read_back val ticks 0 (timers p))
      else if target < length (timers p)
      then map_option (\<lambda>t. p\<lparr>timers := (timers p)[target := timer_write_control t (val AND 0x3f)]\<rparr>)
             (tick_to (timers p ! target) (ticks 0))
      else None)"

record PitSnapshot =
  ps_status_val :: u8
  ps_timers :: "Timer list"

definition pit_snapshot :: "Pit \<Rightarrow> PitSnapshot" where
  "pit_snapshot p = \<lparr>ps_status_val = status_val p, ps_timers = timers p\<rparr>"

definition pit_restore :: "Pit \<Rightarrow> TimerBus \<Rightarrow> PitSnapshot \<Rightarrow> u64 \<Rightarrow> (Pit \<times> TimerBus) option" where
  "pit_restore p bus z now = update_timer_registration (p\<lparr>timers := ps_timers z, status_val := ps_status_val z\<rparr>) bus now"

section \<open>Registered timers\<close>

text \<open>\<open>PitTimer::tick\<close>: the timer, and whether it stays registered, which is also whether it pulses its
  line.\<close>

definition pit_timer_tick :: "bool list \<Rightarrow> PitTimer \<Rightarrow> u64 \<Rightarrow> PitTimer \<times> bool" where
  "pit_timer_tick enabled t now =
     (if enabled ! ti_enabled (pt_info t)
      then (let period = word_of_nat (ti_period (pt_info t)); next = next_interrupt t + period in
            (t\<lparr>next_interrupt := if next < now then now + period else next\<rparr>, True))
      else (t, False))"

text \<open>The clock of the device moves on; a timer that is dropped drops its \<open>TimerInfo\<close>.\<close>

definition bus_tick :: "TimerBus \<Rightarrow> nat \<Rightarrow> TimerBus option" where
  "bus_tick bus duration =
     map_option (\<lambda>(c, dropped). foldr (\<lambda>t. drop_info (pt_info t)) dropped (bus\<lparr>clock := c\<rparr>))
       (tick_by next_interrupt (pit_timer_tick (cells bus)) (clock bus) duration)"

section \<open>Counting many ticks at once\<close>

lemma reload_pos: "0 < unat (reload t)" "unat (reload t) \<le> 65536"
proof -
  have "unat (tm_init t) < 65536" using unsigned_less [of "tm_init t", where 'a = nat] by simp
  moreover have "unat (ucast (tm_init t) :: u64) = unat (tm_init t)"
    using calculation by (simp add: unsigned_ucast_eq take_bit_nat_eq_self)
  ultimately show "0 < unat (reload t)" "unat (reload t) \<le> 65536"
    by (auto simp: reload_def simp flip: unat_eq_zero)
qed

lemma unat_ucast_u16 [simp]: "unat (ucast (x :: u16) :: u64) = unat x"
  using unsigned_less [of x, where 'a = nat] by (simp add: unsigned_ucast_eq take_bit_nat_eq_self)

lemma reload_count_nat:
  assumes I: "0 < unat init" "unat init \<le> 65536"
  shows "unat (reload_count init v num) =
    (if unat num \<le> unat v then unat v - unat num else unat init - 1 - ((unat num - unat v - 1) mod unat init))"
proof (cases "unat num \<le> unat v")
  case True
  have "unat (ucast (ucast v - num :: u64) :: u16) = unat v - unat num"
    using True unsigned_less [of v, where 'a = nat]
    by (simp add: unsigned_ucast_eq unat_sub word_le_nat_alt take_bit_nat_eq_self)
  then show ?thesis using True by (simp add: reload_count_def word_le_nat_alt)
next
  case False
  define R where "R = unat num - unat v"
  define d where "d = unat init - 1 - ((R - 1) mod unat init)"
  have R: "num - ucast v = (word_of_nat R :: u64)" "0 < R"
    using False by (simp_all add: R_def word_unat_eq_iff unat_sub word_le_nat_alt)
  have Rlt: "R < 2 ^ 64" using unsigned_less [of num, where 'a = nat] by (simp add: R_def)
  let ?I = "unat init" let ?q = "(R - 1) div ?I"
  have un: "unat (word_of_nat m :: u64) = m" if "m < 2 ^ 64" for m using that by (simp add: unat_of_nat)
  have "word_of_nat R - 1 = (word_of_nat (R - 1) :: u64)" using R(2) by (simp add: of_nat_diff)
  moreover have "(word_of_nat (R - 1) :: u64) div init = word_of_nat ?q"
  proof -
    have "?q \<le> R - 1" by (rule div_le_dividend)
    then have "?q < 2 ^ 64" "R - 1 < 2 ^ 64" using Rlt by linarith+
    then show ?thesis by (simp add: word_unat_eq_iff unat_div un)
  qed
  moreover have "init * (word_of_nat ?q + 1) = word_of_nat (?I * (?q + 1))" by (simp add: distrib_left)
  moreover have "?I * (?q + 1) = R + d"
  proof -
    have "?I * ?q + (R - 1) mod ?I = R - 1" by (rule mult_div_mod_eq)
    moreover have "(R - 1) mod ?I < ?I" using I by simp
    ultimately show ?thesis using R(2) unfolding d_def distrib_left mult_1_right by linarith
  qed
  ultimately have "init * ((word_of_nat R - 1) div init + 1) = (word_of_nat (R + d) :: u64)" by (simp only:)
  then have "init * ((word_of_nat R - 1) div init + 1) - word_of_nat R = (word_of_nat d :: u64)" by simp
  then have "reload_count init v num = ucast (word_of_nat d :: u64)"
    using False R by (simp add: reload_count_def Let_def word_le_nat_alt)
  moreover have "d < 65536" using I by (simp add: d_def)
  ultimately show ?thesis using False un [of d]
    by (simp add: unsigned_ucast_eq take_bit_nat_eq_self d_def R_def)
qed

text \<open>Another tick of a counter that reloads.\<close>

lemma reload_count_Suc:
  assumes I: "0 < unat init" "unat init \<le> 65536" and n: "Suc n < 2 ^ 64"
  shows "reload_count init (reload_count init v (word_of_nat n)) 1 = reload_count init v (word_of_nat (Suc n))"
proof -
  have un: "unat (word_of_nat n :: u64) = n" "unat (word_of_nat (Suc n) :: u64) = Suc n" using n by (simp_all only: unat_of_nat) simp_all
  let ?I = "unat init" and ?r = "n - unat v - 1"
  have "unat (reload_count init (reload_count init v (word_of_nat n)) 1) = unat (reload_count init v (word_of_nat (Suc n)))"
  proof (cases "n \<le> unat v")
    case True
    then show ?thesis unfolding reload_count_nat [OF I] un by (cases "n = unat v") auto
  next
    case False
    then have "(Suc n - unat v - 1) mod ?I = (if Suc (?r mod ?I) = ?I then 0 else Suc (?r mod ?I))"
      by (simp add: Suc_diff_le mod_Suc flip: Suc_diff_Suc)
    moreover have "?r mod ?I < ?I" using I by simp
    ultimately show ?thesis unfolding reload_count_nat [OF I] un using False by auto
  qed
  then show ?thesis by (simp add: word_unat_eq_iff)
qed

lemma down_count: "(ucast (ucast (v :: u16) - num :: u64) :: u16) = v - ucast num"
proof -
  have "uint (ucast v - num :: u64) = (uint (ucast v :: u64) - uint num) mod 2 ^ 64"
    by (simp only: uint_word_ariths) simp
  moreover have "uint (ucast v :: u64) = uint v"
    using unat_ucast_u16 [of v] by (metis of_nat_unat)
  ultimately have "ucast (ucast v - num :: u64) = (word_of_int ((uint v - uint num) mod 2 ^ 64) :: u16)"
    by (simp only: ucast_eq)
  also have "\<dots> = word_of_int (uint v - uint num)"
    by (simp only: word_of_int_eq_iff take_bit_eq_mod) (simp add: mod_mod_cancel)
  also have "\<dots> = word_of_int (uint v) - word_of_int (uint num)" by simp
  also have "\<dots> = v - ucast num" by (simp only: word_of_int_uint ucast_eq)
  finally show ?thesis .
qed

lemma ucast_of_nat [simp]:
  "ucast (word_of_nat n :: u64) = (word_of_nat n :: u16)" "ucast (1 + word_of_nat n :: u64) = (1 + word_of_nat n :: u16)"
proof -
  show u: "ucast (word_of_nat n :: u64) = (word_of_nat n :: u16)" for n
    by (simp add: word_unat_eq_iff unsigned_ucast_eq unat_of_nat take_bit_nat_def mod_mod_cancel)
  show "ucast (1 + word_of_nat n :: u64) = (1 + word_of_nat n :: u16)" using u [of "Suc n"] by simp
qed

lemma not_minus_1: "(x :: u16) \<noteq> x - 1"
  by simp

text \<open>A run of single ticks.\<close>

fun tick_times :: "nat \<Rightarrow> Timer \<Rightarrow> Timer option" where
  "tick_times 0 t = Some t"
| "tick_times (Suc n) t =
     (case tick_times n t of None \<Rightarrow> None | Some t' \<Rightarrow> map_option fst (tick t' 1 False))"

lemma tick_fst: "num \<noteq> 0 \<Longrightarrow> map_option fst (tick t num False) = map_option fst (tick_mode (load_init t) num)"
  by (auto simp: tick_def option.map_comp comp_def split_beta)

lemma tick_mode_keeps:
  "tick_mode t num = Some (t', p) \<Longrightarrow> tm_init t' = tm_init t \<and> null_count t' = null_count t \<and> tm_mode t' = tm_mode t"
  by (cases "tm_mode t") (auto simp: tick_mode_def Let_def split: if_splits)

lemma tick_mode_total: "tm_mode t \<noteq> Mode1 \<Longrightarrow> \<exists>t' p. tick_mode t num = Some (t', p)"
  by (cases "tm_mode t") (simp_all add: tick_mode_def Let_def)

lemma tick_mode_tick:
  assumes t1: "tick_mode t (word_of_nat n) = Some (t1, p)" and n: "Suc n < 2 ^ 64"
    and m: "tm_mode t \<in> {Mode0, Mode2, Mode3} \<or> tm_mode t \<in> {Mode4, Mode5} \<and> Suc n < 65536"
  shows "map_option fst (tick_mode t1 1) = map_option fst (tick_mode t (word_of_nat (Suc n)))"
    "null_count t1 = null_count t" "tm_mode t1 = tm_mode t"
proof -
  have r: "reload t1 = reload t" "null_count t1 = null_count t" "tm_mode t1 = tm_mode t"
    using tick_mode_keeps [OF t1] by (simp_all add: reload_def)
  then show "null_count t1 = null_count t" "tm_mode t1 = tm_mode t" by simp_all
  note I = reload_pos [of t]
  have down: "tm_val t - word_of_nat n - 1 = tm_val t - word_of_nat (Suc n)" by simp
  have small: "tm_val t - word_of_nat (Suc n) = 0 \<Longrightarrow> tm_val t \<noteq> tm_val t - word_of_nat (Suc n)" if "Suc n < 65536"
  proof -
    assume "tm_val t - word_of_nat (Suc n) = 0"
    moreover have "unat (word_of_nat (Suc n) :: u16) = Suc n" using that by (simp only: unat_of_nat) simp
    ultimately show "tm_val t \<noteq> tm_val t - word_of_nat (Suc n)" by (metis eq_iff_diff_eq_0 nat.distinct(1) unat_0)
  qed
  have one_shot: "map_option fst (tick_mode t1 1) = map_option fst (tick_mode t (word_of_nat (Suc n)))"
    if md: "tm_mode t = Mode4 \<or> tm_mode t = Mode5" and lt: "Suc n < 65536"
  proof (cases "gate t")
    case True
    let ?w = "word_of_nat (Suc n) :: u16"
    have f: "map_option fst (tick_mode u k) = Some (u\<lparr>tm_val := tm_val u - ucast k,
        tm_output := (tm_val u - ucast k = 0 \<and> tm_val u \<noteq> tm_val u - ucast k)\<rparr>)"
      if "tm_mode u = Mode4 \<or> tm_mode u = Mode5" "gate u" for u k
      using that by (auto simp: tick_mode_def Let_def down_count)
    have "map_option fst (tick_mode t (word_of_nat n)) = Some t1" using t1 by simp
    then have t1': "t1 = t\<lparr>tm_val := tm_val t - word_of_nat n,
        tm_output := (tm_val t - word_of_nat n = 0 \<and> tm_val t \<noteq> tm_val t - word_of_nat n)\<rparr>"
      unfolding f [OF md True] by simp
    then have t2: "map_option fst (tick_mode t1 1) = Some (t\<lparr>tm_val := tm_val t - ?w, tm_output := (tm_val t - ?w = 0)\<rparr>)"
      using md True f [of t1 1] down not_minus_1 [of "tm_val t - word_of_nat n"] by simp
    have "(tm_val t - ?w = 0 \<and> tm_val t \<noteq> tm_val t - ?w) = (tm_val t - ?w = 0)" using small [OF lt] by blast
    then have "map_option fst (tick_mode t (word_of_nat (Suc n))) = Some (t\<lparr>tm_val := tm_val t - ?w, tm_output := (tm_val t - ?w = 0)\<rparr>)"
      unfolding f [OF md True] ucast_of_nat(1) by (simp only:)
    then show ?thesis using t2 by (simp only:)
  next
    case False
    then show ?thesis using md t1 r by (auto simp: tick_mode_def Let_def)
  qed
  show "map_option fst (tick_mode t1 1) = map_option fst (tick_mode t (word_of_nat (Suc n)))"
  proof (cases "tm_mode t")
    case Mode0
    then show ?thesis using t1 r by (auto simp: tick_mode_def Let_def down_count algebra_simps split: if_splits)
  next
    case Mode1
    then show ?thesis using m by simp
  next
    case Mode2
    then show ?thesis
      using t1 r reload_count_Suc [OF I n, of "tm_val t"] by (auto simp: tick_mode_def Let_def split: if_splits)
  next
    case Mode3
    then show ?thesis
      using t1 r reload_count_Suc [OF I n, of "tm_val t"] by (auto simp: tick_mode_def Let_def split: if_splits)
  next
    case Mode4
    then show ?thesis using one_shot m t1 by simp
  next
    case Mode5
    then show ?thesis using one_shot m t1 by simp
  qed
qed

lemma tick_times_tick:
  assumes "0 < n" "n < 2 ^ 64"
    and "tm_mode t \<in> {Mode0, Mode2, Mode3} \<or> tm_mode t \<in> {Mode4, Mode5} \<and> n < 65536"
  shows "tick_times n t = map_option fst (tick_mode (load_init t) (word_of_nat n))
     \<and> (\<forall>t'. tick_times n t = Some t' \<longrightarrow> \<not> null_count t' \<and> tm_mode t' = tm_mode t)"
  using assms
proof (induction n)
  case (Suc n)
  have li: "\<not> null_count (load_init t)" "tm_mode (load_init t) = tm_mode t" by (simp_all add: load_init_def)
  have keep: "\<not> null_count t' \<and> tm_mode t' = tm_mode t" if "map_option fst (tick_mode (load_init t) k) = Some t'" for k t'
    using that li tick_mode_keeps [of "load_init t" k] by auto
  show ?case
  proof (cases "n = 0")
    case True
    then show ?thesis using tick_fst [of 1 t] keep by auto
  next
    case False
    then have "0 < n" "n < 2 ^ 64" using Suc_lessD [OF Suc.prems(2)] by blast+
    moreover have "tm_mode t \<in> {Mode0, Mode2, Mode3} \<or> tm_mode t \<in> {Mode4, Mode5} \<and> n < 65536"
      using Suc.prems(3) Suc_lessD by blast
    ultimately have IH: "tick_times n t = map_option fst (tick_mode (load_init t) (word_of_nat n))"
      using Suc.IH by blast
    obtain t1 p where t1: "tick_mode (load_init t) (word_of_nat n) = Some (t1, p)"
      using Suc.prems(3) li tick_mode_total [of "load_init t" "word_of_nat n"] by auto
    have nx: "map_option fst (tick_mode t1 1) = map_option fst (tick_mode (load_init t) (word_of_nat (Suc n)))"
      "\<not> null_count t1"
      using tick_mode_tick [OF t1 Suc.prems(2)] Suc.prems(3) li by auto
    have "load_init t1 = t1" using nx(2) by (simp add: load_init_def)
    then have "tick_times (Suc n) t = map_option fst (tick_mode (load_init t) (word_of_nat (Suc n)))"
      using IH t1 nx(1) tick_fst [of 1 t1] by simp
    then show ?thesis using keep by simp
  qed
qed simp

lemma tick_times_eq:
  assumes "0 < n" "n < 2 ^ 64"
    and "tm_mode t \<in> {Mode0, Mode2, Mode3} \<or> tm_mode t \<in> {Mode4, Mode5} \<and> n < 65536"
  shows "tick_times n t = map_option fst (tick t (word_of_nat n) False)"
proof -
  have "unat (word_of_nat n :: u64) = n" using assms(2) by (simp add: unat_of_nat)
  then have "(word_of_nat n :: u64) \<noteq> 0" using assms(1) by (metis neq0_conv unat_0)
  then show ?thesis using tick_times_tick [OF assms] by (simp add: tick_fst)
qed

text \<open>At 65536 ticks from 0 a mode 4 counter is back at 0: single ticks raise the output, the jump does
  not.\<close>

lemma tick_many_mode4_differs:
  "map_option tm_output (tick_times 65536 (timer_new\<lparr>tm_mode := Mode4\<rparr>)) = Some True"
  "map_option (tm_output \<circ> fst) (tick (timer_new\<lparr>tm_mode := Mode4\<rparr>) 65536 False) = Some False"
proof -
  let ?t = "timer_new\<lparr>tm_mode := Mode4\<rparr>"
  have "tick_times 65535 ?t = map_option fst (tick ?t (word_of_nat 65535) False)"
    by (rule tick_times_eq) simp_all
  also have "\<dots> = Some (?t\<lparr>tm_val := 1, tm_output := False\<rparr>)"
    by (simp add: tick_def tick_mode_def load_init_def timer_new_def reload_def)
  finally have h: "tick_times 65535 ?t = Some (?t\<lparr>tm_val := 1, tm_output := False\<rparr>)" .
  have "tick_times 65536 ?t = map_option fst (tick (?t\<lparr>tm_val := 1, tm_output := False\<rparr>) 1 False)"
    using tick_times.simps(2) [of 65535 ?t, unfolded h] by simp
  then show "map_option tm_output (tick_times 65536 ?t) = Some True"
    by (simp add: tick_def tick_mode_def load_init_def timer_new_def reload_def)
  show "map_option (tm_output \<circ> fst) (tick ?t 65536 False) = Some False"
    by (simp add: tick_def tick_mode_def load_init_def timer_new_def reload_def)
qed

section \<open>Registrations\<close>

text \<open>All timers of the clock, the ones still in the channel last.\<close>

definition all_timers :: "TimerBus \<Rightarrow> PitTimer list" where
  "all_timers bus = ct_timers (sc_ticker (clock bus)) @ sc_receiver (clock bus)"

abbreviation enabled_in :: "TimerBus \<Rightarrow> PitTimer \<Rightarrow> bool" where
  "enabled_in bus t \<equiv> cells bus ! ti_enabled (pt_info t)"

text \<open>The last timer is enabled and shares its cell with the device, the others are disabled.\<close>

definition pit_inv :: "Pit \<times> TimerBus \<Rightarrow> bool" where
  "pit_inv = (\<lambda>(p, bus). length (timers p) = 3
     \<and> (\<exists>xs t. all_timers bus = xs @ [t] \<and> pt_info t = timer_info p
          \<and> ti_enabled (timer_info p) < length (cells bus) \<and> cells bus ! ti_enabled (timer_info p)
          \<and> (\<forall>u \<in> set xs. ti_enabled (pt_info u) < length (cells bus) \<and> \<not> enabled_in bus u)))"

datatype PitEvent =
    ReadTimer u8 u64
  | WriteTimer u8 u8 u64 u64
  | WriteControl u8 "nat \<Rightarrow> u64"
  | Restore PitSnapshot u64
  | ClockTick nat

fun pit_step :: "Pit \<times> TimerBus \<Rightarrow> PitEvent \<Rightarrow> (Pit \<times> TimerBus) option" where
  "pit_step (p, bus) (ReadTimer reg ticks) = map_option (\<lambda>r. (fst r, bus)) (read_timer p reg ticks)"
| "pit_step (p, bus) (WriteTimer reg val ticks now) = write_timer p bus reg val ticks now"
| "pit_step (p, bus) (WriteControl val ticks) = map_option (\<lambda>p'. (p', bus)) (write_control p val ticks)"
| "pit_step (p, bus) (Restore z now) = (if length (ps_timers z) = 3 then pit_restore p bus z now else None)"
| "pit_step (p, bus) (ClockTick duration) = map_option (\<lambda>b. (p, b)) (bus_tick bus duration)"

definition pit_boot :: "u64 \<Rightarrow> Pit \<times> TimerBus" where
  "pit_boot now = pit_new \<lparr>cells = [], clock = new_synchronous\<rparr> now"

lemma all_timers_register:
  "all_timers (bus\<lparr>clock := register_timer (clock bus) t\<rparr>) = all_timers bus @ [t]"
  by (simp add: all_timers_def register_timer_def)

lemma all_timers_cells [simp]: "all_timers (drop_info i bus) = all_timers bus" "all_timers (new_enabled bus) = all_timers bus"
  by (simp_all add: all_timers_def drop_info_def new_enabled_def)

lemma update_registration_inv:
  assumes "pit_inv (p, bus)" "update_timer_registration p bus now = Some r"
  shows "pit_inv r"
proof -
  obtain xs t where x: "length (timers p) = 3" "all_timers bus = xs @ [t]" "pt_info t = timer_info p"
    "ti_enabled (timer_info p) < length (cells bus)" "cells bus ! ti_enabled (timer_info p)"
    "\<forall>u \<in> set xs. ti_enabled (pt_info u) < length (cells bus) \<and> \<not> enabled_in bus u"
    using assms(1) by (auto simp: pit_inv_def)
  obtain period where pd: "compute_effective_irq_period (timers p ! 0) = Some period"
    using assms(2) by (auto simp: update_timer_registration_def split: option.splits)
  show ?thesis
  proof (cases "ti_period (timer_info p) = period")
    case True
    then show ?thesis using assms pd by (simp add: update_timer_registration_def)
  next
    case False
    let ?info = "\<lparr>ti_period = period, ti_enabled = length (cells bus)\<rparr>"
    let ?bus = "drop_info (timer_info p) (new_enabled bus)"
    let ?t = "\<lparr>pt_info = ?info, next_interrupt = now + word_of_nat period\<rparr>"
    let ?bus' = "?bus\<lparr>clock := register_timer (clock ?bus) ?t\<rparr>"
    have r: "r = (p\<lparr>timer_info := ?info\<rparr>, ?bus')"
      using assms(2) False by (auto simp: update_timer_registration_def pd Let_def)
    have c: "cells ?bus' = (cells bus @ [True])[ti_enabled (timer_info p) := False]"
      by (simp add: drop_info_def new_enabled_def)
    have "all_timers ?bus' = (xs @ [t]) @ [?t]" by (simp only: all_timers_register all_timers_cells x(2))
    moreover have "\<forall>u \<in> set (xs @ [t]). ti_enabled (pt_info u) < length (cells ?bus') \<and> \<not> enabled_in ?bus' u"
      unfolding c using x by (auto simp: nth_append nth_list_update)
    moreover have "length (cells bus) < length (cells ?bus')" "cells ?bus' ! length (cells bus)"
      unfolding c using x(4) by (auto simp: nth_append nth_list_update)
    ultimately show ?thesis unfolding r pit_inv_def using x(1) by auto
  qed
qed

lemma pit_inv_timers: "pit_inv (p, bus) \<Longrightarrow> length ts = 3 \<Longrightarrow> pit_inv (p\<lparr>timers := ts\<rparr>, bus)"
  by (simp add: pit_inv_def)

lemma read_back_length: "read_back val ticks n ts = Some ts' \<Longrightarrow> length ts' = length ts"
  by (induction ts arbitrary: n ts') (auto split: option.splits)

text \<open>The clock keeps an enabled timer and its cell, and drops disabled timers only.\<close>

lemma retain_timers_live:
  assumes "retain_timers next_interrupt (pit_timer_tick en) now d ts = Some (d', ks, rs)"
  shows "(\<forall>u \<in> set rs. u \<in> set ts \<and> \<not> en ! ti_enabled (pt_info u))
    \<and> (\<forall>u \<in> set ks. \<exists>v \<in> set ts. pt_info u = pt_info v)
    \<and> (\<forall>xs t. ts = xs @ [t] \<longrightarrow> en ! ti_enabled (pt_info t) \<longrightarrow>
         (\<exists>ks' t'. ks = ks' @ [t'] \<and> pt_info t' = pt_info t \<and> (\<forall>u \<in> set ks'. \<exists>v \<in> set xs. pt_info u = pt_info v)))"
  using assms
proof (induction ts arbitrary: d d' ks rs)
  case (Cons a ts)
  obtain a' keep where a: "(if next_interrupt a \<le> now then pit_timer_tick en a now else (a, True)) = (a', keep)" by fastforce
  have info: "pt_info a' = pt_info a" "\<not> keep \<Longrightarrow> a' = a \<and> \<not> en ! ti_enabled (pt_info a)"
    using a by (auto simp: pit_timer_tick_def Let_def split: if_splits)
  show ?case
  proof (cases keep)
    case True
    then obtain ks0 where r: "retain_timers next_interrupt (pit_timer_tick en) now (min d (next_interrupt a')) ts = Some (d', ks0, rs)"
      "ks = a' # ks0" using Cons.prems by (auto simp: a split: if_splits)
    note ih = Cons.IH [OF r(1)]
    have last: "\<exists>ks' t'. ks = ks' @ [t'] \<and> pt_info t' = pt_info t \<and> (\<forall>u \<in> set ks'. \<exists>v \<in> set xs. pt_info u = pt_info v)"
      if t: "a # ts = xs @ [t]" "en ! ti_enabled (pt_info t)" for xs t
    proof (cases xs)
      case Nil
      then show ?thesis using t r info(1) by auto
    next
      case (Cons b ys)
      then have y: "b = a" "ts = ys @ [t]" using t by simp_all
      obtain ks' t' where "ks0 = ks' @ [t']" "pt_info t' = pt_info t" "\<forall>u \<in> set ks'. \<exists>v \<in> set ys. pt_info u = pt_info v"
        using ih y(2) t(2) by blast
      then show ?thesis using r(2) info(1) Cons y by (intro exI [of _ "a' # ks'"] exI [of _ t']) auto
    qed
    show ?thesis using ih r(2) info(1) last by fastforce
  next
    case False
    then obtain rs0 where r: "retain_timers next_interrupt (pit_timer_tick en) now d ts = Some (d', ks, rs0)" "rs = a' # rs0"
      using Cons.prems by (auto simp: a)
    note ih = Cons.IH [OF r(1)]
    have last: "\<exists>ks' t'. ks = ks' @ [t'] \<and> pt_info t' = pt_info t \<and> (\<forall>u \<in> set ks'. \<exists>v \<in> set xs. pt_info u = pt_info v)"
      if t: "a # ts = xs @ [t]" "en ! ti_enabled (pt_info t)" for xs t
    proof (cases xs)
      case Nil
      then show ?thesis using t info(2) False by simp
    next
      case (Cons b ys)
      then have y: "ts = ys @ [t]" "set ys \<subseteq> set xs" using t by auto
      obtain ks' t' where "ks = ks' @ [t']" "pt_info t' = pt_info t" "\<forall>u \<in> set ks'. \<exists>v \<in> set ys. pt_info u = pt_info v"
        using ih y(1) t(2) by blast
      then show ?thesis using y(2) by blast
    qed
    show ?thesis using ih r(2) info(2) False last by fastforce
  qed
qed simp

lemma foldl_ticker_add: "foldl ticker_add c ts = c\<lparr>ct_timers := ct_timers c @ ts\<rparr>"
  by (induction ts arbitrary: c) (simp_all add: ticker_add_def)

lemma foldr_drop_info:
  "foldr (\<lambda>t. drop_info (pt_info t)) ts bus = bus\<lparr>cells := foldr (\<lambda>t cs. cs[ti_enabled (pt_info t) := False]) ts (cells bus)\<rparr>"
  by (induction ts) (simp_all add: drop_info_def)

lemma drop_disabled:
  "(\<forall>u \<in> set ts. \<not> cs ! ti_enabled (pt_info u)) \<Longrightarrow> foldr (\<lambda>t cs. cs[ti_enabled (pt_info t) := False]) ts cs = cs"
proof (induction ts)
  case (Cons t ts)
  then show ?case by (simp add: list_update_same_conv) (metis (full_types) list_update_beyond list_update_id not_le)
qed simp

lemma bus_tick_inv:
  assumes inv: "pit_inv (p, bus)" and tick: "bus_tick bus d = Some bus'"
  shows "pit_inv (p, bus')"
proof -
  obtain xs t where x: "length (timers p) = 3" "all_timers bus = xs @ [t]" "pt_info t = timer_info p"
    "ti_enabled (timer_info p) < length (cells bus)" "cells bus ! ti_enabled (timer_info p)"
    "\<forall>u \<in> set xs. ti_enabled (pt_info u) < length (cells bus) \<and> \<not> enabled_in bus u"
    using inv by (auto simp: pit_inv_def)
  let ?en = "cells bus" and ?c = "clock bus"
  obtain c dropped where c: "tick_by next_interrupt (pit_timer_tick ?en) ?c d = Some (c, dropped)"
    "bus' = foldr (\<lambda>t. drop_info (pt_info t)) dropped (bus\<lparr>clock := c\<rparr>)"
    using tick by (auto simp: bus_tick_def)
  obtain ticker f where tk: "ticker_tick next_interrupt (pit_timer_tick ?en) (sc_ticker ?c) (sc_current ?c + word_of_nat d) = Some (ticker, f, dropped)"
    and all: "ct_timers (sc_ticker c) @ sc_receiver c = ct_timers ticker @ sc_receiver ?c"
    using c(1) by (auto simp: tick_by_def Let_def foldl_ticker_add split: option.splits if_splits)
  have rs: "\<forall>u \<in> set dropped. \<not> ?en ! ti_enabled (pt_info u)"
    using tk retain_timers_live by (fastforce simp: ticker_tick_def split: if_splits)
  then have cells: "cells bus' = ?en" by (simp add: c(2) foldr_drop_info drop_disabled)
  have all': "all_timers bus' = ct_timers ticker @ sc_receiver ?c"
    using all by (simp add: c(2) foldr_drop_info all_timers_def)
  have "\<exists>ks t'. all_timers bus' = ks @ [t'] \<and> pt_info t' = timer_info p \<and> (\<forall>u \<in> set ks. \<exists>v \<in> set xs. pt_info u = pt_info v)"
  proof (cases "sc_receiver ?c" rule: rev_cases)
    case Nil
    then have ct: "ct_timers (sc_ticker ?c) = xs @ [t]" using x(2) by (simp add: all_timers_def)
    show ?thesis
    proof (cases "next_deadline (sc_ticker ?c) < sc_current ?c + word_of_nat d")
      case True
      then obtain d' where "retain_timers next_interrupt (pit_timer_tick ?en) (sc_current ?c + word_of_nat d)
          (sc_current ?c + word_of_nat d + 1000000000) (xs @ [t]) = Some (d', ct_timers ticker, dropped)"
        using tk by (auto simp: ticker_tick_def ct)
      then show ?thesis using retain_timers_live x(3,5) Nil all' by fastforce
    next
      case False
      then show ?thesis using tk ct x(3) Nil all' by (auto simp: ticker_tick_def)
    qed
  next
    case (snoc ys y)
    then have xs: "xs = ct_timers (sc_ticker ?c) @ ys" "t = y" using x(2) by (simp_all add: all_timers_def)
    have "\<forall>u \<in> set (ct_timers ticker). \<exists>v \<in> set (ct_timers (sc_ticker ?c)). pt_info u = pt_info v"
      using tk retain_timers_live by (fastforce simp: ticker_tick_def split: if_splits)
    then show ?thesis using all' snoc xs x(3) by fastforce
  qed
  then show ?thesis using x(1,4-6) unfolding pit_inv_def by (auto simp: cells) metis+
qed

lemma pit_step_inv:
  assumes "pit_inv s" "pit_step s e = Some s'"
  shows "pit_inv s'"
proof -
  obtain p bus where s: "s = (p, bus)" by (cases s)
  have inv: "pit_inv (p, bus)" using assms(1) s by simp
  have len: "length (timers p) = 3" using inv by (simp add: pit_inv_def)
  have upd: "pit_inv (p\<lparr>timers := (timers p)[n := t]\<rparr>, bus)" for n t
    using pit_inv_timers [OF inv] len by simp
  show ?thesis
  proof (cases e)
    case (ReadTimer reg ticks)
    then show ?thesis using assms(2) s upd by (auto simp: read_timer_def split_beta split: if_splits)
  next
    case (WriteTimer reg v ticks now)
    then show ?thesis
      using assms(2) s upd update_registration_inv [OF upd] by (auto simp: write_timer_def Let_def split: if_splits option.splits)
  next
    case (WriteControl v ticks)
    then show ?thesis
      using assms(2) s upd len pit_inv_timers [OF inv]
      by (auto simp: write_control_def Let_def dest: read_back_length split: if_splits)
  next
    case (Restore z now)
    then have "pit_inv (p\<lparr>timers := ps_timers z, status_val := ps_status_val z\<rparr>, bus)"
      using assms inv s by (auto simp: pit_inv_def split: if_splits)
    then show ?thesis
      using assms(2) s Restore by (auto simp: pit_restore_def split: if_splits intro: update_registration_inv)
  next
    case (ClockTick d)
    then show ?thesis using assms(2) s inv bus_tick_inv by auto
  qed
qed

interpretation pit: invariant_machine pit_step pit_inv
  by unfold_locales (rule pit_step_inv)

lemma pit_boot_inv: "pit_inv (pit_boot now)"
  by (simp add: pit_boot_def pit_new_def pit_inv_def new_enabled_def all_timers_def register_timer_def new_synchronous_def Let_def)

section \<open>Properties\<close>

text \<open>C14: in the modes 0, 2 and 3, counting \<open>n\<close> ticks at once (\<open>0 < n < 2^64\<close>) gives the timer that
  counting one tick \<open>n\<close> times gives, with every field equal; in the modes 4 and 5 this holds for up to
  65535 ticks (and fails at 65536, see \<open>tick_many_mode4_differs\<close>). Mode 1 is not implemented.\<close>

theorem tick_many:
  assumes "0 < n" "n < 2 ^ 64"
    and "tm_mode t \<in> {Mode0, Mode2, Mode3} \<or> tm_mode t \<in> {Mode4, Mode5} \<and> n < 65536"
  shows "tick_times n t = map_option fst (tick t (word_of_nat n) False)"
  using tick_times_eq [OF assms] .

theorem tick_many_witness:
  "tick_times 3 (timer_new\<lparr>tm_mode := Mode2, tm_init := 2\<rparr>)
     = map_option fst (tick (timer_new\<lparr>tm_mode := Mode2, tm_init := 2\<rparr>) 3 False)"
  using tick_many [of 3 "timer_new\<lparr>tm_mode := Mode2, tm_init := 2\<rparr>"] by simp


text \<open>C15: a latched count is read out unchanged, low byte first, however much time passes between the
  latch and the two reads; then the latch is released.\<close>

theorem latched_read:
  assumes "latched_value t = None" "latched_status t = None" "tm_state t = Both Lsb w"
    and "tick_to (latch_count t) now1 = Some t1" "timer_read t1 = (t2, lo)"
    and "tick_to t2 now2 = Some t3" "timer_read t3 = (t4, hi)"
  shows "lo = ucast (tm_val t) \<and> hi = ucast (drop_bit 8 (tm_val t)) \<and> latched_value t4 = None \<and> tm_state t4 = Both Lsb w"
proof -
  have keep: "latched_value u' = latched_value u \<and> latched_status u' = latched_status u \<and> tm_state u' = tm_state u"
    if "tick_to u k = Some u'" for u u' k
  proof -
    have "latched_value v' = latched_value v \<and> latched_status v' = latched_status v \<and> tm_state v' = tm_state v"
      if "tick_mode v num = Some (v', p)" for v v' num p
      using that by (cases "tm_mode v") (auto simp: tick_mode_def Let_def split: if_splits)
    then show ?thesis
      using that by (fastforce simp: tick_to_def tick_def load_init_def Let_def split: if_splits)
  qed
  have "latched_value t1 = Some (tm_val t)" "latched_status t1 = None" "tm_state t1 = Both Lsb w"
    using keep [OF assms(4)] assms(1-3) by (simp_all add: latch_count_def)
  then have "lo = ucast (tm_val t)" "latched_value t2 = Some (tm_val t)" "latched_status t2 = None" "tm_state t2 = Both Msb w"
    using assms(5) by (auto simp: timer_read_def wraps_when_flipped_def)
  moreover have "latched_value t3 = Some (tm_val t)" "latched_status t3 = None" "tm_state t3 = Both Msb w"
    using keep [OF assms(6)] calculation by simp_all
  ultimately show ?thesis using assms(7) by (auto simp: timer_read_def wraps_when_flipped_def)
qed

theorem latched_read_witness:
  "\<exists>t1 t2 t3 t4. tick_to (latch_count (timer_new\<lparr>tm_mode := Mode2, tm_val := 0x1234, tm_state := Both Lsb Lsb\<rparr>)) 7 = Some t1
     \<and> timer_read t1 = (t2, 0x34) \<and> tick_to t2 99 = Some t3 \<and> timer_read t3 = (t4, 0x12)"
proof -
  let ?t = "timer_new\<lparr>tm_mode := Mode2, tm_val := 0x1234, tm_state := Both Lsb Lsb\<rparr>"
  have total: "\<exists>u'. tick_to u k = Some u'" if "tm_mode u = Mode2" "last_tick u \<le> k" for u k
    using that tick_mode_total [of "load_init (u\<lparr>last_tick := k\<rparr>)" "k - last_tick u"]
    by (auto simp: tick_to_def tick_def load_init_def Let_def)
  have md: "tm_mode u' = tm_mode u \<and> last_tick u' \<le> k" if "tick_to u k = Some u'" for u u' k
  proof -
    have "last_tick v' = last_tick v" if "tick_mode v num = Some (v', p)" for v v' num p
      using that by (cases "tm_mode v") (auto simp: tick_mode_def Let_def split: if_splits)
    then show ?thesis
      using that tick_mode_keeps by (fastforce simp: tick_to_def tick_def load_init_def Let_def split: if_splits)
  qed
  obtain t1 where t1: "tick_to (latch_count ?t) 7 = Some t1"
    using total [of "latch_count ?t" 7] by (auto simp: latch_count_def timer_new_def)
  obtain t2 lo where r1: "timer_read t1 = (t2, lo)" by fastforce
  have "last_tick t1 \<le> 7" "(7 :: u64) \<le> 99" using md [OF t1] by simp_all
  then have "last_tick t1 \<le> 99" by (rule order_trans)
  then have "tm_mode t2 = Mode2" "last_tick t2 \<le> 99"
    using md [OF t1] r1 by (auto simp: latch_count_def timer_read_def Let_def split: option.splits RwState.splits)
  then obtain t3 where t3: "tick_to t2 99 = Some t3" using total by blast
  obtain t4 hi where r2: "timer_read t3 = (t4, hi)" by fastforce
  show ?thesis
    using latched_read [OF _ _ _ t1 r1 t3 r2, of Lsb] t1 r1 t3 r2 by (auto simp: timer_new_def)
qed

lemma byte_set_both: "(ucast lo AND - 65281) OR push_bit 8 (ucast hi) = (ucast lo OR push_bit 8 (ucast hi) :: u16)"
  for lo hi :: u8
proof -
  have "(- 65281 :: u16) = mask 8" by (simp add: mask_eq_exp_minus_1)
  then show ?thesis by (auto simp: bits bit_simps dest: bit_imp_le_length)
qed

lemma tick_mode_last_tick: "tick_mode v num = Some (v', q) \<Longrightarrow> last_tick v' = last_tick v \<and> tm_state v' = tm_state v"
  by (cases "tm_mode v") (auto simp: tick_mode_def Let_def split: if_splits)

text \<open>A timer that is not in mode 1 follows the clock as long as that does not go back.\<close>

lemma tick_to_total:
  assumes "tm_mode t \<noteq> Mode1" "last_tick t \<le> now"
  shows "\<exists>u. tick_to t now = Some u \<and> last_tick u = now \<and> tm_mode u = tm_mode t \<and> tm_init u = tm_init t \<and> tm_state u = tm_state t"
proof (cases "last_tick t = now")
  case True
  then show ?thesis by (simp add: tick_to_def)
next
  case False
  let ?v = "load_init (t\<lparr>last_tick := now\<rparr>)"
  have nz: "now - last_tick t > 0" using False by (simp add: word_gt_0)
  have v: "tm_mode ?v = tm_mode t" "tm_init ?v = tm_init t" "tm_state ?v = tm_state t" "last_tick ?v = now" by (simp_all add: load_init_def)
  obtain w q where w: "tick_mode ?v (now - last_tick t) = Some (w, q)"
    using tick_mode_total [of ?v] assms(1) v(1) by fastforce
  have "tick_to t now = Some w" using w nz assms(2) by (auto simp: tick_to_def tick_def Let_def)
  then show ?thesis using tick_mode_last_tick [OF w] tick_mode_keeps [OF w] v by simp
qed

lemma write_timer_0:
  assumes "timers p = [t0, t1, t2]" "tick_to t0 ticks = Some u" "tm_mode u = Mode2"
  shows "\<exists>p' bus'. write_timer p bus 0 val ticks now = Some (p', bus') \<and> timers p' = [timer_write u val, t1, t2]
    \<and> compute_effective_irq_period (timer_write u val) = Some (ti_period (timer_info p'))"
proof -
  have "tm_mode (timer_write u val) = Mode2" using assms(3) by (simp add: timer_write_def split: RwState.split)
  then show ?thesis
    using assms by (auto simp: write_timer_def update_timer_registration_def compute_effective_irq_period_def Let_def)
qed

text \<open>C16: the guest programs channel 0 as a rate generator: the control word 0x34, then the low and the
  high byte of the count, at any three times (\<open>ticks 0\<close>, \<open>k1\<close>, \<open>k2\<close>) in this order and from any mode but
  the unimplemented mode 1. No step panics; afterwards the channel has the count and mode 2, waits to
  load the count and loads it with the next tick, the device interrupts with the period of that count,
  and the other channels are untouched.\<close>

theorem program_channel0:
  assumes "length (timers p) = 3" "tm_mode (timers p ! 0) \<noteq> Mode1"
    and "last_tick (timers p ! 0) \<le> ticks 0" "ticks 0 \<le> k1" "k1 \<le> k2"
  shows "\<exists>p1 p2 b2 p3 b3. write_control p 0x34 ticks = Some p1
     \<and> write_timer p1 bus 0 lo k1 now1 = Some (p2, b2) \<and> write_timer p2 b2 0 hi k2 now2 = Some (p3, b3)
     \<and> tm_init (timers p3 ! 0) = (ucast lo OR push_bit 8 (ucast hi)) \<and> tm_mode (timers p3 ! 0) = Mode2 \<and> null_count (timers p3 ! 0)
     \<and> tm_val (load_init (timers p3 ! 0)) = (ucast lo OR push_bit 8 (ucast hi))
     \<and> (let n = unat (ucast lo OR push_bit 8 (ucast hi) :: u16) in
         ti_period (timer_info p3) = (1000000000 * (if n = 0 then 65536 else n)) div 1193182)
     \<and> timers p3 ! 1 = timers p ! 1 \<and> timers p3 ! 2 = timers p ! 2"
proof -
  obtain t0 t1 t2 where ts: "timers p = [t0, t1, t2]"
    using assms(1) by (auto simp: numeral_3_eq_3 length_Suc_conv)
  obtain u where u: "tick_to t0 (ticks 0) = Some u" "last_tick u = ticks 0"
    using tick_to_total [of t0 "ticks 0"] assms(2,3) ts by auto
  define c where "c = timer_write_control u 0x34"
  have c: "tm_init c = 0" "tm_mode c = Mode2" "tm_state c = Both Lsb Lsb" "last_tick c = ticks 0"
    using u by (simp_all add: c_def timer_write_control_def)
  let ?p1 = "p\<lparr>timers := [c, t1, t2]\<rparr>"
  have p1: "write_control p 0x34 ticks = Some ?p1"
    using u(1) by (simp add: write_control_def ts c_def)
  obtain d where d: "tick_to c k1 = Some d" "last_tick d = k1" "tm_mode d = Mode2" "tm_init d = 0" "tm_state d = Both Lsb Lsb"
    using tick_to_total [of c k1] c assms(4) by auto
  obtain p2 b2 where p2: "write_timer ?p1 bus 0 lo k1 now1 = Some (p2, b2)" "timers p2 = [timer_write d lo, t1, t2]"
    using write_timer_0 [of ?p1 c t1 t2 k1 d bus lo now1] d by auto
  have w: "last_tick (timer_write d lo) = k1" "tm_mode (timer_write d lo) = Mode2" "tm_state (timer_write d lo) = Both Lsb Msb"
    "tm_init (timer_write d lo) = ucast lo" using d by (simp_all add: timer_write_def)
  obtain f where f: "tick_to (timer_write d lo) k2 = Some f" "tm_mode f = Mode2" "tm_init f = ucast lo" "tm_state f = Both Lsb Msb"
    using tick_to_total [of "timer_write d lo" k2] w assms(5) by auto
  obtain p3 b3 where p3: "write_timer p2 b2 0 hi k2 now2 = Some (p3, b3)" "timers p3 = [timer_write f hi, t1, t2]"
    "compute_effective_irq_period (timer_write f hi) = Some (ti_period (timer_info p3))"
    using write_timer_0 [OF p2(2) f(1,2), of b2 hi now2] by auto
  have g: "tm_mode (timer_write f hi) = Mode2" "null_count (timer_write f hi)" "tm_init (timer_write f hi) = (ucast lo OR push_bit 8 (ucast hi))"
    using f byte_set_both by (simp_all add: timer_write_def wraps_when_flipped_def)
  have period: "let n = unat (ucast lo OR push_bit 8 (ucast hi) :: u16) in
      ti_period (timer_info p3) = (1000000000 * (if n = 0 then 65536 else n)) div 1193182"
    using p3(3) g by (simp add: compute_effective_irq_period_def TIMER_CLOCK_RATE_def Let_def split: if_splits flip: unat_eq_zero)
  have "tm_val (load_init (timer_write f hi)) = (ucast lo OR push_bit 8 (ucast hi))" using g by (simp add: load_init_def)
  then show ?thesis using p1 p2 p3 g ts period by (intro exI conjI) (assumption | simp)+
qed

theorem program_channel0_witness:
  "\<exists>p1 p2 b2 p3 b3. write_control (fst (pit_boot 0)) 0x34 (\<lambda>_. 5) = Some p1
     \<and> write_timer p1 (snd (pit_boot 0)) 0 0xa9 7 100 = Some (p2, b2) \<and> write_timer p2 b2 0 0x04 12 200 = Some (p3, b3)
     \<and> ti_period (timer_info p3) = 999847"
proof -
  have "length (timers (fst (pit_boot 0))) = 3" "tm_mode (timers (fst (pit_boot 0)) ! 0) \<noteq> Mode1"
    "last_tick (timers (fst (pit_boot 0)) ! 0) \<le> (\<lambda>_. 5) (0 :: nat)"
    by (simp_all add: pit_boot_def pit_new_def timer_new_def Let_def)
  from program_channel0 [OF this, of 7 12 "snd (pit_boot 0)" "0xa9" 100 "0x04" 200] show ?thesis
    by (auto simp: Let_def)
qed

text \<open>C17: from power-on, whatever the guest does and however the clock moves, exactly one of the timers
  registered with the clock (or on their way to it) has its \<open>enabled\<close> flag set: the last one, whose
  period and flag are those of the device. A sequence that panics is not covered.\<close>

theorem pit_one_live_timer:
  assumes "run pit_step (pit_boot now) es = Some (p, bus)"
  shows "all_timers bus \<noteq> [] \<and> filter (enabled_in bus) (all_timers bus) = [last (all_timers bus)]
     \<and> pt_info (last (all_timers bus)) = timer_info p \<and> length (timers p) = 3"
proof -
  have "pit_inv (p, bus)" using pit.run_inv [OF pit_boot_inv assms] .
  then show ?thesis by (auto simp: pit_inv_def filter_empty_conv)
qed

theorem pit_one_live_timer_witness:
  "\<exists>p bus. run pit_step (pit_boot 0) [ClockTick 5, WriteControl 0x34 (\<lambda>_. 0), WriteTimer 0 10 0 7] = Some (p, bus)
     \<and> length (all_timers bus) = 2 \<and> filter (enabled_in bus) (all_timers bus) = [last (all_timers bus)]
     \<and> ti_period (timer_info p) = 8380"
proof -
  have "\<exists>p bus. run pit_step (pit_boot 0) [ClockTick 5, WriteControl 0x34 (\<lambda>_. 0), WriteTimer 0 10 0 7] = Some (p, bus)
      \<and> length (all_timers bus) = 2 \<and> ti_period (timer_info p) = 8380"
    by (simp add: pit_boot_def pit_new_def timer_new_def write_control_def write_timer_def timer_write_control_def timer_write_def
        tick_to_def update_timer_registration_def compute_effective_irq_period_def new_enabled_def drop_info_def register_timer_def
        new_synchronous_def bus_tick_def tick_by_def ticker_tick_def all_timers_def ticker_add_def TIMER_CLOCK_RATE_def Let_def)
  then show ?thesis using pit_one_live_timer by blast
qed

text \<open>the period of channel 0 is only defined in the modes 2 and 3. A data byte written to channel 0 in
  any other mode panics, and so does restoring the snapshot of a device whose channel 0 is in another
  mode, such as one just created.\<close>

lemma channel0_needs_mode23:
  assumes "timers p \<noteq> []" "tm_mode (timers p ! 0) \<notin> {Mode2, Mode3}"
  shows "write_timer p bus 0 val ticks now = None \<and> pit_restore q bus (pit_snapshot p) now = None"
proof -
  have no: "tm_mode t' \<notin> {Mode2, Mode3}" if "tick_to (timers p ! 0) ticks = Some t'" for t'
  proof -
    have "tm_mode t' = tm_mode (timers p ! 0)"
      using that tick_mode_keeps by (fastforce simp: tick_to_def tick_def load_init_def Let_def split: if_splits)
    then show ?thesis using assms(2) by simp
  qed
  have "tm_mode (timer_write t v) = tm_mode t" for t v by (simp add: timer_write_def split: RwState.split)
  then show ?thesis
    using assms no
    by (auto simp: write_timer_def pit_restore_def pit_snapshot_def update_timer_registration_def
        compute_effective_irq_period_def Let_def split: option.split)
qed

text \<open>An enabled timer that is late by exactly one period is moved to the present and not beyond it,
  and the assertion of the ticker fails; late by any other amount below the range of the clock it is
  moved into the future.\<close>

lemma pit_timer_boundary:
  assumes "period = ti_period (pt_info t)" "enabled ! ti_enabled (pt_info t)"
    and "0 < period" "unat (next_interrupt t) + period < 2 ^ 64" "unat now + period < 2 ^ 64"
    and "next_interrupt t \<le> now" "next_deadline c < now" "ct_timers c = [t]"
  shows "ticker_tick next_interrupt (pit_timer_tick enabled) c now = None
     \<longleftrightarrow> unat now = unat (next_interrupt t) + period"
proof -
  let ?p = "word_of_nat period :: u64"
  have up: "unat ?p = period" using assms(4) by (simp add: unat_of_nat)
  have s: "unat (next_interrupt t + ?p) = unat (next_interrupt t) + period" "unat (now + ?p) = unat now + period"
    using assms(4,5) by (simp_all add: unat_word_ariths up)
  show ?thesis
    using assms s by (auto simp: ticker_tick_def pit_timer_tick_def Let_def word_less_nat_alt word_le_nat_alt)
qed

text \<open>The read-back command latches the counts when its bit 5 is set.\<close>

lemma read_back_count_bit:
  "read_back 0xc2 (\<lambda>_. 0) 0 [timer_new] = Some [timer_new]"
  "read_back 0xe2 (\<lambda>_. 0) 0 [timer_new] = Some [latch_count timer_new]"
  by (simp_all add: tick_to_def timer_new_def)

end
