(* ===== verification/Hw_Apic.thy ===== *)
theory Hw_Apic
  imports Hw_Pic
begin

text \<open>
  The advanced interrupt controllers (\<open>sem86-core/src/hw/pic/mod.rs\<close>, \<open>io.rs\<close>, \<open>local.rs\<close>): bit sets
  of 256 vectors, the redirection table of the I/O APIC, the local APIC, and the lines that feed
  both. Registers the sources declare with \<open>bitsize\<close> are words read through field accessors.
  A failed assertion, \<open>todo!\<close>, \<open>panic!\<close>, a division by zero and an index out of range are \<open>None\<close>.
\<close>

section \<open>Bit sets\<close>

type_synonym Bitset = "u32 list"

definition bitset_new :: Bitset where
  "bitset_new = replicate 8 0"

definition bitset_get :: "Bitset \<Rightarrow> nat \<Rightarrow> bool option" where
  "bitset_get s index =
     (if index div 32 < length s then Some (s ! (index div 32) AND wrapping_shl 1 (index mod 32) \<noteq> 0) else None)"

text \<open>\<open>set\<close> and \<open>reset\<close> also tell whether the value changed.\<close>

definition bitset_set :: "Bitset \<Rightarrow> nat \<Rightarrow> (Bitset \<times> bool) option" where
  "bitset_set s index =
     (let n = index div 32; m = wrapping_shl 1 (index mod 32) in
      if n < length s then Some (s[n := s ! n OR m], s ! n AND m = 0) else None)"

definition bitset_reset :: "Bitset \<Rightarrow> nat \<Rightarrow> (Bitset \<times> bool) option" where
  "bitset_reset s index =
     (let n = index div 32; m = wrapping_shl 1 (index mod 32) in
      if n < length s then Some (s[n := s ! n AND NOT m], s ! n AND m \<noteq> 0) else None)"

definition highest_index_set :: "Bitset \<Rightarrow> nat option" where
  "highest_index_set s =
     map_option (\<lambda>(index, v). index * 32 + (31 - leading_zeros v)) (find (\<lambda>(_, v). v \<noteq> 0) (rev (enumerate 0 s)))"

text \<open>A snapshot has the same eight words; restoring stores them one by one.\<close>

definition bitset_restore :: "Bitset \<Rightarrow> u32 list \<Rightarrow> Bitset" where
  "bitset_restore s z = map (\<lambda>n. if n < length z then z ! n else s ! n) [0..<length s]"

section \<open>Register fields\<close>

datatype DeliveryMode = Normal | LowPriority | SMI | Reserved3 | NMI | INIT | Reserved6 | External

datatype DestinationMode = Physical | Logical

datatype Polarity = ActiveHigh | ActiveLow

datatype IrqTrigger = EdgeSensitive | LevelSensitive

datatype DestinationType = UseDestinationField | CurrentCpu | AllProcessors | AllProcessorsExceptCurrent

definition field :: "nat \<Rightarrow> nat \<Rightarrow> 'a::len word \<Rightarrow> nat" where
  "field lo width w = unat (take_bit width (drop_bit lo w))"

definition delivery_mode_of :: "nat \<Rightarrow> DeliveryMode" where
  "delivery_mode_of n =
     (if n = 0 then Normal else if n = 1 then LowPriority else if n = 2 then SMI else if n = 3 then Reserved3
      else if n = 4 then NMI else if n = 5 then INIT else if n = 6 then Reserved6 else External)"

definition destination_type_of :: "nat \<Rightarrow> DestinationType" where
  "destination_type_of n =
     (if n = 0 then UseDestinationField else if n = 1 then CurrentCpu else if n = 2 then AllProcessors
      else AllProcessorsExceptCurrent)"

definition set_field_bit :: "nat \<Rightarrow> bool \<Rightarrow> 'a::len word \<Rightarrow> 'a word" where
  "set_field_bit n v w = (if v then w OR push_bit n 1 else w AND NOT (push_bit n 1))"

text \<open>\<open>RedirectionEntry\<close>: vector 0-7, delivery mode 8-10, destination mode 11, pending 12, polarity 13,
  was_received 14, trigger mode 15, masked 16, destination 56-63.\<close>

type_synonym RedirectionEntry = u64

definition re_vector :: "RedirectionEntry \<Rightarrow> u8" where "re_vector e = ucast e"
definition re_delivery_mode :: "RedirectionEntry \<Rightarrow> DeliveryMode" where "re_delivery_mode e = delivery_mode_of (field 8 3 e)"
definition re_pending :: "RedirectionEntry \<Rightarrow> bool" where "re_pending e = bit e 12"
definition re_polarity :: "RedirectionEntry \<Rightarrow> Polarity" where "re_polarity e = (if bit e 13 then ActiveLow else ActiveHigh)"
definition re_was_received :: "RedirectionEntry \<Rightarrow> bool" where "re_was_received e = bit e 14"
definition re_trigger_mode :: "RedirectionEntry \<Rightarrow> IrqTrigger" where
  "re_trigger_mode e = (if bit e 15 then LevelSensitive else EdgeSensitive)"
definition re_masked :: "RedirectionEntry \<Rightarrow> bool" where "re_masked e = bit e 16"
definition re_set_pending :: "bool \<Rightarrow> RedirectionEntry \<Rightarrow> RedirectionEntry" where "re_set_pending = set_field_bit 12"
definition re_set_was_received :: "bool \<Rightarrow> RedirectionEntry \<Rightarrow> RedirectionEntry" where "re_set_was_received = set_field_bit 14"

section \<open>The I/O APIC\<close>

definition NUM_REDIRECTION_ENTRIES :: nat where
  "NUM_REDIRECTION_ENTRIES = 24"

record IoApicCore =
  redirection_entries :: "RedirectionEntry list"
  irq_lines :: Bitset

text \<open>Every entry starts masked and level sensitive, and otherwise zero.\<close>

definition io_core_new :: IoApicCore where
  "io_core_new =
     \<lparr>redirection_entries = replicate NUM_REDIRECTION_ENTRIES (push_bit 15 1 OR push_bit 16 1), irq_lines = bitset_new\<rparr>"

definition redirection_entry :: "IoApicCore \<Rightarrow> nat \<Rightarrow> RedirectionEntry option" where
  "redirection_entry c index =
     (if index < length (redirection_entries c) then Some (redirection_entries c ! index) else None)"

definition set_redirection_entry :: "IoApicCore \<Rightarrow> nat \<Rightarrow> RedirectionEntry \<Rightarrow> IoApicCore option" where
  "set_redirection_entry c index e =
     (if index < length (redirection_entries c)
      then Some (c\<lparr>redirection_entries := (redirection_entries c)[index := e]\<rparr>) else None)"

record IoApic =
  io_register_select :: u32
  io_id :: "4 word"
  io_core :: IoApicCore

definition ioapic_new :: IoApic where
  "ioapic_new = \<lparr>io_register_select = 0, io_id = 0, io_core = io_core_new\<rparr>"

definition entry_index :: "IoApic \<Rightarrow> nat option" where
  "entry_index a =
     (let r = unat (io_register_select a) in
      if 0x10 \<le> r \<and> r < 0x10 + NUM_REDIRECTION_ENTRIES * 2 then Some ((r - 0x10) div 2) else None)"

definition ioapic_write :: "IoApic \<Rightarrow> u32 \<Rightarrow> u32 \<Rightarrow> IoApic option" where
  "ioapic_write a index val =
     (if index = 0 then Some (a\<lparr>io_register_select := val\<rparr>)
      else if index = 1 then
        if io_register_select a = 0 then Some (a\<lparr>io_id := ucast (drop_bit 24 val AND 0xf)\<rparr>)
        else (case entry_index a of
                Some i \<Rightarrow>
                  (case redirection_entry (io_core a) i of
                     None \<Rightarrow> None
                   | Some e \<Rightarrow>
                       (let new_val = (if io_register_select a AND 1 \<noteq> 0
                                       then push_bit 32 (ucast val) OR (e AND 0xffffffff)
                                       else ucast val OR (e AND NOT 0xffffffff))
                        in map_option (\<lambda>c. a\<lparr>io_core := c\<rparr>) (set_redirection_entry (io_core a) i new_val)))
              | None \<Rightarrow> Some a)
      else Some a)"

definition ioapic_read :: "IoApic \<Rightarrow> u32 \<Rightarrow> u32 option" where
  "ioapic_read a index =
     (if index = 0 then Some (io_register_select a)
      else if index = 1 then
        if io_register_select a = 0 then Some (push_bit 24 (ucast (io_id a)))
        else if io_register_select a = 1
        then Some (push_bit 16 (word_of_nat (NUM_REDIRECTION_ENTRIES - 1)) OR 0x11)
        else if io_register_select a = 2 then Some 0
        else (case entry_index a of
                Some i \<Rightarrow>
                  map_option (\<lambda>v. if io_register_select a AND 1 \<noteq> 0 then ucast (drop_bit 32 v) else ucast v)
                    (redirection_entry (io_core a) i)
              | None \<Rightarrow> Some 0)
      else Some (- 1))"

definition io_clear_pending :: "IoApic \<Rightarrow> IoApic" where
  "io_clear_pending a =
     a\<lparr>io_core := (io_core a)\<lparr>redirection_entries := map (re_set_pending False) (redirection_entries (io_core a))\<rparr>\<rparr>"

definition find_redirection_entry_from_vector :: "IoApic \<Rightarrow> u8 \<Rightarrow> (nat \<times> RedirectionEntry) option" where
  "find_redirection_entry_from_vector a v =
     find (\<lambda>(_, e). re_vector e = v) (enumerate 0 (redirection_entries (io_core a)))"

definition redirection_entry_vector :: "IoApic \<Rightarrow> nat \<Rightarrow> u8 option" where
  "redirection_entry_vector a index = map_option re_vector (redirection_entry (io_core a) index)"

record IoApicSnapshot =
  ios_register_select :: u32
  ios_id :: u8
  ios_redirection_entries :: "u64 list"
  ios_irq_lines :: "u32 list"

definition ioapic_snapshot :: "IoApic \<Rightarrow> IoApicSnapshot" where
  "ioapic_snapshot a =
     \<lparr>ios_register_select = io_register_select a, ios_id = ucast (io_id a),
      ios_redirection_entries = redirection_entries (io_core a), ios_irq_lines = irq_lines (io_core a)\<rparr>"

text \<open>\<open>u4::new\<close> panics on a value above 15.\<close>

definition ioapic_restore :: "IoApic \<Rightarrow> IoApicSnapshot \<Rightarrow> IoApic option" where
  "ioapic_restore a z =
     (if ios_id z \<le> 15
      then Some (a\<lparr>io_register_select := ios_register_select z, io_id := ucast (ios_id z),
             io_core := \<lparr>redirection_entries = map (\<lambda>n. if n < length (ios_redirection_entries z)
                            then ios_redirection_entries z ! n else redirection_entries (io_core a) ! n)
                            [0..<length (redirection_entries (io_core a))],
                         irq_lines = bitset_restore (irq_lines (io_core a)) (ios_irq_lines z)\<rparr>\<rparr>)
      else None)"

section \<open>The core of the local APIC\<close>

record LocalApicCore =
  task_priority :: u8
  la_in_service :: Bitset
  la_trigger_mode :: Bitset
  interrupt_requests :: Bitset
  la_intr :: Intr
  pending_intr :: bool

definition lapic_core_new :: "Intr \<Rightarrow> LocalApicCore" where
  "lapic_core_new i =
     \<lparr>task_priority = 0, la_in_service = bitset_new, la_trigger_mode = bitset_new, interrupt_requests = bitset_new,
      la_intr = i, pending_intr = False\<rparr>"

definition priority :: "u8 \<Rightarrow> u8" where
  "priority vector = drop_bit 4 vector"

definition current_priority :: "LocalApicCore \<Rightarrow> u8" where
  "current_priority c =
     priority (case highest_index_set (la_in_service c) of Some index \<Rightarrow> word_of_nat index | None \<Rightarrow> task_priority c)"

text \<open>\<open>*self.pending_intr.lock().unwrap() = ...\<close>: a new request is made first, then the old one is
  dropped.\<close>

definition assign_pending :: "LocalApicCore \<Rightarrow> bool \<Rightarrow> LocalApicCore option" where
  "assign_pending c new =
     (let i = (if new then intr_request (la_intr c) else la_intr c) in
      map_option (\<lambda>i'. c\<lparr>la_intr := i', pending_intr := new\<rparr>) (if pending_intr c then drop_request i else Some i))"

definition raise_interrupt :: "LocalApicCore \<Rightarrow> u8 \<Rightarrow> IrqTrigger \<Rightarrow> LocalApicCore option" where
  "raise_interrupt c vector trigger =
     (case bitset_set (interrupt_requests c) (unat vector) of
        None \<Rightarrow> None
      | Some (requests, changed) \<Rightarrow>
          (let c1 = c\<lparr>interrupt_requests := requests\<rparr> in
           if \<not> changed then Some c1
           else (case bitset_get (la_in_service c) (unat vector) of
             None \<Rightarrow> None
           | Some True \<Rightarrow> Some c1
           | Some False \<Rightarrow>
               (case (case trigger of EdgeSensitive \<Rightarrow> bitset_reset (la_trigger_mode c) (unat vector)
                      | LevelSensitive \<Rightarrow> bitset_set (la_trigger_mode c) (unat vector)) of
                  None \<Rightarrow> None
                | Some (tm, _) \<Rightarrow>
                    (let c2 = c1\<lparr>la_trigger_mode := tm\<rparr> in
                     if priority vector > current_priority c2 then assign_pending c2 True else Some c2)))))"

definition core_next_pending_interrupt :: "LocalApicCore \<Rightarrow> (LocalApicCore \<times> u8 option) option" where
  "core_next_pending_interrupt c =
     (case highest_index_set (interrupt_requests c) of
        Some v \<Rightarrow>
          (let vector = word_of_nat v :: u8 in
           if priority vector > current_priority c
           then (case (bitset_reset (interrupt_requests c) (unat vector), bitset_set (la_in_service c) (unat vector)) of
                   (Some (req, _), Some (serv, _)) \<Rightarrow>
                     map_option (\<lambda>c'. (c', Some vector))
                       (assign_pending (c\<lparr>interrupt_requests := req, la_in_service := serv\<rparr>) False)
                 | _ \<Rightarrow> None)
           else map_option (\<lambda>c'. (c', None)) (assign_pending c False))
      | None \<Rightarrow> map_option (\<lambda>c'. (c', None)) (assign_pending c False))"

definition check_pending :: "LocalApicCore \<Rightarrow> LocalApicCore option" where
  "check_pending c =
     (case highest_index_set (interrupt_requests c) of
        Some p \<Rightarrow> assign_pending c (priority (word_of_nat p) > current_priority c)
      | None \<Rightarrow> Some c)"

definition write_eoi :: "LocalApicCore \<Rightarrow> LocalApicCore option" where
  "write_eoi c =
     (case highest_index_set (la_in_service c) of
        Some vector \<Rightarrow>
          (case bitset_reset (la_in_service c) vector of
             None \<Rightarrow> None
           | Some (serv, _) \<Rightarrow> check_pending (c\<lparr>la_in_service := serv\<rparr>))
      | None \<Rightarrow> Some c)"

record LocalApicCoreSnapshot =
  las_task_priority :: u8
  las_in_service :: "u32 list"
  las_trigger_mode :: "u32 list"
  las_interrupt_requests :: "u32 list"
  las_has_pending :: bool

definition lapic_core_snapshot :: "LocalApicCore \<Rightarrow> LocalApicCoreSnapshot" where
  "lapic_core_snapshot c =
     \<lparr>las_task_priority = task_priority c, las_in_service = la_in_service c, las_trigger_mode = la_trigger_mode c,
      las_interrupt_requests = interrupt_requests c, las_has_pending = pending_intr c\<rparr>"

definition lapic_core_restore :: "LocalApicCore \<Rightarrow> LocalApicCoreSnapshot \<Rightarrow> LocalApicCore option" where
  "lapic_core_restore c z =
     (let c1 = c\<lparr>task_priority := las_task_priority z,
               la_in_service := bitset_restore (la_in_service c) (las_in_service z),
               la_trigger_mode := bitset_restore (la_trigger_mode c) (las_trigger_mode z),
               interrupt_requests := bitset_restore (interrupt_requests c) (las_interrupt_requests z)\<rparr>
      in if las_has_pending z then assign_pending c1 True else Some c1)"

section \<open>Interrupt lines\<close>

text \<open>\<open>send_interrupt\<close> and \<open>set\<close> of \<open>DynamicApicIrqLine\<close>, on the I/O APIC and the core of the local APIC.
  The entry that \<open>set\<close> stores after sending is the copy it read at the start.\<close>

type_synonym ApicLines = "IoApicCore \<times> LocalApicCore"

definition send_interrupt :: "ApicLines \<Rightarrow> nat \<Rightarrow> RedirectionEntry \<Rightarrow> ApicLines option" where
  "send_interrupt s index e =
     (if re_delivery_mode e = Normal \<or> re_delivery_mode e = LowPriority
      then (case (if re_trigger_mode e = LevelSensitive
                  then set_redirection_entry (fst s) index (re_set_was_received True e) else Some (fst s)) of
              None \<Rightarrow> None
            | Some io \<Rightarrow> map_option (\<lambda>l. (io, l)) (raise_interrupt (snd s) (re_vector e) (re_trigger_mode e)))
      else None)"

definition store_entry :: "nat \<Rightarrow> RedirectionEntry \<Rightarrow> ApicLines \<Rightarrow> ApicLines option" where
  "store_entry index e s = map_option (\<lambda>io. (io, snd s)) (set_redirection_entry (fst s) index e)"

definition apic_line_set :: "ApicLines \<Rightarrow> nat \<Rightarrow> bool \<Rightarrow> ApicLines option" where
  "apic_line_set s index level =
     (case (if level then bitset_set (irq_lines (fst s)) index else bitset_reset (irq_lines (fst s)) index) of
        None \<Rightarrow> None
      | Some (lines, changed) \<Rightarrow>
          (let s1 = ((fst s)\<lparr>irq_lines := lines\<rparr>, snd s) in
           case redirection_entry (fst s1) index of
             None \<Rightarrow> None
           | Some e \<Rightarrow>
               (let val = (case re_polarity e of ActiveHigh \<Rightarrow> level | ActiveLow \<Rightarrow> \<not> level) in
                if re_masked e
                then if re_trigger_mode e = LevelSensitive \<and> val then store_entry index (re_set_pending True e) s1
                     else Some s1
                else (case re_trigger_mode e of
                  EdgeSensitive \<Rightarrow>
                    if changed \<and> val
                    then Option.bind (send_interrupt s1 index e) (store_entry index (re_set_pending False e))
                    else Some s1
                | LevelSensitive \<Rightarrow>
                    if val \<and> \<not> re_pending e
                    then Option.bind (send_interrupt s1 index e) (store_entry index (re_set_pending True e))
                    else if \<not> val
                    then store_entry index (re_set_was_received False (re_set_pending False e)) s1
                    else Some s1))))"

definition apic_line_pulse :: "ApicLines \<Rightarrow> nat \<Rightarrow> ApicLines option" where
  "apic_line_pulse s index = Option.bind (apic_line_set s index True) (\<lambda>s1. apic_line_set s1 index False)"

text \<open>A line that is connected to both kinds of controllers; they share one request counter.\<close>

record DualIrq =
  di_pic :: SharedPicCore
  di_apic :: ApicLines

definition dual_pulse :: "DualIrq \<Rightarrow> u8 \<Rightarrow> nat \<Rightarrow> DualIrq option" where
  "dual_pulse s pic_line apic_line =
     (case pulse (di_pic s) pic_line of
        None \<Rightarrow> None
      | Some c \<Rightarrow>
          map_option (\<lambda>al. \<lparr>di_pic = c\<lparr>core_intr := la_intr (snd al)\<rparr>, di_apic = al\<rparr>)
            (apic_line_pulse (fst (di_apic s), (snd (di_apic s))\<lparr>la_intr := core_intr c\<rparr>) apic_line))"

definition dual_set :: "DualIrq \<Rightarrow> u8 \<Rightarrow> nat \<Rightarrow> bool \<Rightarrow> DualIrq option" where
  "dual_set s pic_line apic_line val = (if val then dual_pulse s pic_line apic_line else Some s)"

definition dual_dynamic_pulse :: "DualIrq \<Rightarrow> u8 \<Rightarrow> DualIrq option" where
  "dual_dynamic_pulse s index =
     (if index < 16 then dual_pulse s index (unat index)
      else map_option (\<lambda>al. \<lparr>di_pic = (di_pic s)\<lparr>core_intr := la_intr (snd al)\<rparr>, di_apic = al\<rparr>)
             (apic_line_pulse (di_apic s) (unat index)))"

section \<open>Facts about bit sets\<close>

text \<open>The set of vectors that a bit set stands for.\<close>

definition vectors :: "Bitset \<Rightarrow> nat set" where
  "vectors s = {i. i < 256 \<and> bit (s ! (i div 32)) (i mod 32)}"

definition bitset_ok :: "Bitset \<Rightarrow> bool" where
  "bitset_ok s \<longleftrightarrow> length s = 8"

lemma vectors_less: "v \<in> vectors s \<Longrightarrow> v < 256"
  by (simp add: vectors_def)

lemma finite_vectors [simp]: "finite (vectors s)"
  by (simp add: vectors_def)

lemma bitset_new_ok [simp]: "bitset_ok bitset_new" "vectors bitset_new = {}"
  by (auto simp: bitset_ok_def bitset_new_def vectors_def)

lemma test_bit_shl: "(x :: u32) AND wrapping_shl 1 (i mod 32) \<noteq> 0 \<longleftrightarrow> bit x (i mod 32)"
  using bit_test [of x "i mod 32"] by (simp add: wrapping_shl_def)

lemma bitset_get_vectors: "bitset_ok s \<Longrightarrow> i < 256 \<Longrightarrow> bitset_get s i = Some (i \<in> vectors s)"
  by (simp add: bitset_get_def bitset_ok_def vectors_def test_bit_shl less_mult_imp_div_less)

lemma same_position: "i div 32 = j div 32 \<Longrightarrow> i mod 32 = j mod 32 \<Longrightarrow> i = (j :: nat)"
  by (metis div_mult_mod_eq)

lemma bit_shl: "i < 256 \<Longrightarrow> bit (wrapping_shl 1 (i mod 32) :: u32) n \<longleftrightarrow> n = i mod 32"
  by (auto simp: wrapping_shl_def bit_simps)

lemma bitset_set_vectors:
  assumes "bitset_ok s" "i < 256"
  shows "\<exists>s'. bitset_set s i = Some (s', i \<notin> vectors s) \<and> bitset_ok s' \<and> vectors s' = insert i (vectors s)"
proof -
  have d: "i div 32 < length s" using assms by (simp add: less_mult_imp_div_less bitset_ok_def)
  let ?s = "s[i div 32 := s ! (i div 32) OR wrapping_shl 1 (i mod 32)]"
  have "bitset_set s i = Some (?s, i \<notin> vectors s)"
    using assms d test_bit_shl [of "s ! (i div 32)" i] by (auto simp: bitset_set_def vectors_def Let_def)
  moreover have "vectors ?s = insert i (vectors s)"
    using d assms(2)
    by (auto simp: vectors_def nth_list_update bit_or_iff bit_shl dest: same_position split: if_splits)
  ultimately show ?thesis using assms by (auto simp: bitset_ok_def)
qed

lemma bitset_reset_vectors:
  assumes "bitset_ok s" "i < 256"
  shows "\<exists>s'. bitset_reset s i = Some (s', i \<in> vectors s) \<and> bitset_ok s' \<and> vectors s' = vectors s - {i}"
proof -
  have d: "i div 32 < length s" using assms by (simp add: less_mult_imp_div_less bitset_ok_def)
  let ?s = "s[i div 32 := s ! (i div 32) AND NOT (wrapping_shl 1 (i mod 32))]"
  have "bitset_reset s i = Some (?s, i \<in> vectors s)"
    using assms d test_bit_shl [of "s ! (i div 32)" i] by (auto simp: bitset_reset_def vectors_def Let_def)
  moreover have "vectors ?s = vectors s - {i}"
    using d assms(2)
    by (auto simp: vectors_def nth_list_update bit_and_iff bit_not_iff bit_shl dest: same_position split: if_splits)
  ultimately show ?thesis using assms by (auto simp: bitset_ok_def)
qed

lemma bitset_restore_same [simp]: "bitset_ok s \<Longrightarrow> bitset_ok t \<Longrightarrow> bitset_restore t s = s"
  by (simp add: bitset_restore_def bitset_ok_def list_eq_iff_nth_eq)

lemma highest_bit:
  fixes x :: "'a::len word"
  assumes "x \<noteq> 0"
  shows "bit x (LENGTH('a) - 1 - leading_zeros x)" "LENGTH('a) - 1 - leading_zeros x < j \<Longrightarrow> \<not> bit x j"
    "leading_zeros x < LENGTH('a)"
proof -
  obtain i where i: "i < LENGTH('a)" "bit x i" using assms by (auto simp: bits)
  then show l: "leading_zeros x < LENGTH('a)" 
    using leading_zeros_clear [of x i] leading_zeros_le [of x] by (metis diff_is_0_eq' le_neq_implies_less le0 diff_self_eq_0)
  have "\<not> Suc (leading_zeros x) \<le> leading_zeros x" by simp
  then have "\<not> (\<forall>i < Suc (leading_zeros x). \<not> bit x (LENGTH('a) - 1 - i))"
    using leading_zeros_ge [of "Suc (leading_zeros x)" x] l by auto
  moreover have "\<forall>i < leading_zeros x. \<not> bit x (LENGTH('a) - 1 - i)"
    using leading_zeros_ge [of "leading_zeros x" x] by simp
  ultimately show "bit x (LENGTH('a) - 1 - leading_zeros x)" by (metis less_Suc_eq)
  show "LENGTH('a) - 1 - leading_zeros x < j \<Longrightarrow> \<not> bit x j"
    using l by (intro leading_zeros_clear) linarith
qed

lemma find_rev_Some:
  "find P (rev xs) = Some y \<longleftrightarrow> (\<exists>k < length xs. xs ! k = y \<and> P y \<and> (\<forall>j. k < j \<longrightarrow> j < length xs \<longrightarrow> \<not> P (xs ! j)))"
  (is "_ \<longleftrightarrow> (\<exists>k < length xs. ?Q xs k)")
proof (induction xs rule: rev_induct)
  case (snoc x xs)
  have last: "?Q (xs @ [x]) (length xs) \<longleftrightarrow> x = y \<and> P y" by (auto simp: nth_append)
  have less: "k < length xs \<Longrightarrow> ?Q (xs @ [x]) k \<longleftrightarrow> ?Q xs k \<and> \<not> P x" for k
    by (auto simp: nth_append less_Suc_eq)
  have "(\<exists>k < length (xs @ [x]). ?Q (xs @ [x]) k) \<longleftrightarrow> (x = y \<and> P y) \<or> (\<exists>k < length xs. ?Q xs k) \<and> \<not> P x"
  proof -
    have "(\<exists>k < length (xs @ [x]). ?Q (xs @ [x]) k) \<longleftrightarrow> ?Q (xs @ [x]) (length xs) \<or> (\<exists>k < length xs. ?Q (xs @ [x]) k)"
      by (simp only: length_append_singleton less_Suc_eq) blast
    also have "\<dots> \<longleftrightarrow> (x = y \<and> P y) \<or> (\<exists>k < length xs. ?Q xs k \<and> \<not> P x)"
      using last less by (simp cong: conj_cong)
    finally show ?thesis by blast
  qed
  then show ?case using snoc by (cases "P x") auto
qed simp

text \<open>\<open>highest_index_set\<close> is the greatest member.\<close>

lemma highest_index_set_Some:
  assumes "bitset_ok s" "highest_index_set s = Some v"
  shows "v \<in> vectors s" "j \<in> vectors s \<Longrightarrow> j \<le> v"
proof -
  obtain k where k: "k < 8" "s ! k \<noteq> 0" "\<And>j. k < j \<Longrightarrow> j < 8 \<Longrightarrow> s ! j = 0"
    and v: "v = k * 32 + (31 - leading_zeros (s ! k))"
    using assms by (auto simp: highest_index_set_def find_rev_Some bitset_ok_def nth_enumerate_eq)
  note h = highest_bit [OF k(2), simplified]
  have vk: "v div 32 = k" "v mod 32 = 31 - leading_zeros (s ! k)" using v by simp_all
  have "v < 256" using v k(1) by linarith
  then show "v \<in> vectors s" using h(1) vk by (simp add: vectors_def)
  show "j \<le> v" if "j \<in> vectors s"
  proof (rule ccontr)
    assume n: "\<not> j \<le> v"
    have j: "j < 256" "bit (s ! (j div 32)) (j mod 32)" using that by (auto simp: vectors_def)
    have "s ! (j div 32) \<noteq> 0" using j(2) by auto
    then have jk: "j div 32 \<le> k" using k(3) [of "j div 32"] j(1) by (fastforce simp: less_mult_imp_div_less)
    then have "j div 32 = k" using n vk div_le_mono [of v j 32] by simp
    then have "j mod 32 > 31 - leading_zeros (s ! k)" using n vk
      div_mult_mod_eq [of j 32] div_mult_mod_eq [of v 32] by simp
    then show False using h(2) j(2) \<open>j div 32 = k\<close> by simp
  qed
qed

lemma highest_index_set_None:
  assumes "bitset_ok s"
  shows "highest_index_set s = None \<longleftrightarrow> vectors s = {}"
proof
  assume "highest_index_set s = None"
  then have "s ! i = 0" if "i < length s" for i
    using that by (auto simp: highest_index_set_def find_None_iff in_set_enumerate_eq)
  then show "vectors s = {}" using assms by (auto simp: vectors_def bitset_ok_def less_mult_imp_div_less)
next
  assume "vectors s = {}"
  then show "highest_index_set s = None" using highest_index_set_Some(1) [OF assms] by (metis empty_iff not_Some_eq)
qed

lemma highest_index_set_Max:
  assumes "bitset_ok s"
  shows "highest_index_set s = (if vectors s = {} then None else Some (Max (vectors s)))"
proof (cases "highest_index_set s")
  case None
  then show ?thesis using highest_index_set_None [OF assms] by simp
next
  case (Some v)
  note h = highest_index_set_Some [OF assms Some]
  then have "Max (vectors s) = v" by (intro Max_eqI) auto
  then show ?thesis using Some h(1) by auto
qed

interpretation bitset_set: bit_container bitset_get bitset_set bitset_reset vectors bitset_ok "\<lambda>i. i < 256"
  by unfold_locales (fact bitset_get_vectors bitset_set_vectors bitset_reset_vectors)+

end
