(* ===== verification/Hw_Lapic.thy ===== *)
theory Hw_Lapic
  imports Hw_Apic
begin

text \<open>
  The registers of the local APIC (\<open>sem86-core/src/hw/pic/local.rs\<close>) around the core of \<open>Hw_Apic\<close>.
  \<open>ticks\<close> is what the clock returns for 33 MHz; the MMIO mapping a call asks for is returned.
\<close>

section \<open>Registers\<close>

text \<open>\<open>ApicBase\<close>: bsp is bit 8, enabled_globally bit 11, the page frame bits 12 to 63.\<close>

type_synonym ApicBase = u64

definition ab_bsp :: "ApicBase \<Rightarrow> bool" where "ab_bsp b = bit b 8"
definition ab_set_bsp :: "bool \<Rightarrow> ApicBase \<Rightarrow> ApicBase" where "ab_set_bsp = set_field_bit 8"
definition ab_enabled_globally :: "ApicBase \<Rightarrow> bool" where "ab_enabled_globally b = bit b 11"
definition ab_addr :: "ApicBase \<Rightarrow> u64" where "ab_addr b = drop_bit 12 b"

definition DEFAULT_MMIO_ADDR :: u64 where "DEFAULT_MMIO_ADDR = 0xFEE00000"

text \<open>\<open>Icr\<close>: vector 0-7, delivery mode 8-10, destination mode 11, trigger mode 15, destination type
  18-19.\<close>

definition icr_vector :: "u32 \<Rightarrow> u8" where "icr_vector w = ucast w"
definition icr_delivery_mode :: "u32 \<Rightarrow> DeliveryMode" where "icr_delivery_mode w = delivery_mode_of (field 8 3 w)"
definition icr_destination_mode :: "u32 \<Rightarrow> DestinationMode" where
  "icr_destination_mode w = (if bit w 11 then Logical else Physical)"
definition icr_trigger_mode :: "u32 \<Rightarrow> IrqTrigger" where
  "icr_trigger_mode w = (if bit w 15 then LevelSensitive else EdgeSensitive)"
definition icr_destination_type :: "u32 \<Rightarrow> DestinationType" where
  "icr_destination_type w = destination_type_of (field 18 2 w)"

record LocalApic =
  la_id :: u32
  logical_apic_destination_id :: u8
  destination_format :: "4 word"
  spurious_interrupt_vector :: u32
  error_status :: u32
  cmci :: u32
  interrupt_command_register :: "u32 list"
  lvt :: "u32 list"
  initial_count :: u32
  current_count :: u32
  divide_configuration :: u32
  la_core :: LocalApicCore
  apic_base :: ApicBase

definition lapic_new :: "Intr \<Rightarrow> LocalApic" where
  "lapic_new i =
     \<lparr>la_id = 0, logical_apic_destination_id = 0, destination_format = 0, spurious_interrupt_vector = 0xff,
      error_status = 0, cmci = 0, interrupt_command_register = [0, 0], lvt = replicate 6 0, initial_count = 0,
      current_count = 0, divide_configuration = 0, la_core = lapic_core_new i,
      apic_base = push_bit 8 1 OR push_bit 11 1 OR push_bit 12 (drop_bit 12 DEFAULT_MMIO_ADDR)\<rparr>"

definition on_core :: "LocalApic \<Rightarrow> (LocalApicCore \<Rightarrow> LocalApicCore option) \<Rightarrow> LocalApic option" where
  "on_core a f = map_option (\<lambda>c. a\<lparr>la_core := c\<rparr>) (f (la_core a))"

definition raise_icr :: "LocalApic \<Rightarrow> u32 \<Rightarrow> LocalApic option" where
  "raise_icr a icr = on_core a (\<lambda>c. raise_interrupt c (icr_vector icr) (icr_trigger_mode icr))"

text \<open>Register 0x30: the command that is in the register after the write is sent.\<close>

definition write_icr :: "LocalApic \<Rightarrow> u32 \<Rightarrow> LocalApic option" where
  "write_icr a0 val =
     (let a = a0\<lparr>interrupt_command_register := (interrupt_command_register a0)[0 := val]\<rparr>;
          icr = val; destination = drop_bit 24 (interrupt_command_register a ! 1)
      in case icr_destination_type icr of
           AllProcessorsExceptCurrent \<Rightarrow> Some a
         | UseDestinationField \<Rightarrow>
             (case icr_destination_mode icr of
                Physical \<Rightarrow> if la_id a = destination then raise_icr a icr else None
              | Logical \<Rightarrow>
                  if logical_apic_destination_id a AND ucast destination \<noteq> 0 then raise_icr a icr else None)
         | _ \<Rightarrow>
             (case icr_delivery_mode icr of
                Normal \<Rightarrow> raise_icr a icr
              | INIT \<Rightarrow> Some a
              | _ \<Rightarrow> None))"

definition lapic_write :: "LocalApic \<Rightarrow> u32 \<Rightarrow> u32 \<Rightarrow> LocalApic option" where
  "lapic_write a index val =
     (if index = 0x02 then Some (a\<lparr>la_id := val\<rparr>)
      else if index = 0x08 then on_core a (\<lambda>c. check_pending (c\<lparr>task_priority := ucast val\<rparr>))
      else if index = 0x0B then if val = 0 then on_core a write_eoi else Some a
      else if index = 0x0D then Some (a\<lparr>logical_apic_destination_id := ucast (drop_bit 24 val)\<rparr>)
      else if index = 0x0E then Some (a\<lparr>destination_format := ucast (drop_bit 28 val)\<rparr>)
      else if index = 0x0F then Some (a\<lparr>spurious_interrupt_vector := val\<rparr>)
      else if index = 0x30 then write_icr a val
      else if index = 0x31
      then Some (a\<lparr>interrupt_command_register := (interrupt_command_register a)[1 := val]\<rparr>)
      else if 0x32 \<le> index \<and> index \<le> 0x37 then Some (a\<lparr>lvt := (lvt a)[unat index - 0x32 := val]\<rparr>)
      else if index = 0x38 then Some (a\<lparr>initial_count := val\<rparr>)
      else if index = 0x39 then Some a
      else if index = 0x3E then Some (a\<lparr>divide_configuration := val\<rparr>)
      else Some a)"

definition read_current_count :: "LocalApic \<Rightarrow> u64 \<Rightarrow> u32 option" where
  "read_current_count a ticks =
     (let d = (divide_configuration a AND 3) OR drop_bit 1 (divide_configuration a AND 8);
          divider = wrapping_shl 1 (unat ((d + 1) AND 7)) :: u64;
          scaled = ticks div divider;
          initial = ucast (initial_count a) :: u64
      in if initial = 0 then None else Some (ucast (initial - 1 - scaled mod initial)))"

definition lapic_read :: "LocalApic \<Rightarrow> u32 \<Rightarrow> u64 \<Rightarrow> u32 option" where
  "lapic_read a index ticks =
     (if index = 0x02 then Some (la_id a)
      else if index = 0x03 then Some 0x00030010
      else if index = 0x08 then Some (ucast (task_priority (la_core a)))
      else if index = 0x09 \<or> index = 0x0A \<or> index = 0x0B then Some 0
      else if index = 0x0D then Some (push_bit 24 (ucast (logical_apic_destination_id a)))
      else if index = 0x0E then Some (push_bit 28 (ucast (destination_format a)) OR 0x0fffffff)
      else if index = 0x0F then Some (spurious_interrupt_vector a)
      else if index = 0x30 then Some (interrupt_command_register a ! 0)
      else if index = 0x31 then Some (interrupt_command_register a ! 1)
      else if 0x32 \<le> index \<and> index \<le> 0x37 then Some (lvt a ! (unat index - 0x32))
      else if index = 0x38 then Some (initial_count a)
      else if index = 0x39 then read_current_count a ticks
      else if index = 0x3E then Some (divide_configuration a)
      else Some (- 1))"

definition lapic_next_pending_interrupt :: "LocalApic \<Rightarrow> (LocalApic \<times> u8 option) option" where
  "lapic_next_pending_interrupt a =
     (if ab_enabled_globally (apic_base a)
      then map_option (\<lambda>(c, v). (a\<lparr>la_core := c\<rparr>, v)) (core_next_pending_interrupt (la_core a))
      else Some (a, None))"

text \<open>\<open>clear_pending\<close> resets the 256 request bits one by one.\<close>

definition lapic_clear_pending :: "LocalApic \<Rightarrow> LocalApic option" where
  "lapic_clear_pending a =
     on_core a (\<lambda>c. map_option (\<lambda>r. c\<lparr>interrupt_requests := r\<rparr>)
       (foldl (\<lambda>r n. Option.bind r (\<lambda>s. map_option fst (bitset_reset s n))) (Some (interrupt_requests c)) [0..<256]))"

definition is_enabled :: "LocalApic \<Rightarrow> bool" where
  "is_enabled a = ab_enabled_globally (apic_base a)"

text \<open>Moving an enabled APIC panics; disabling it gives the page it had back to memory. The second
  component is that range.\<close>

definition write_apic_base :: "LocalApic \<Rightarrow> u64 \<Rightarrow> (LocalApic \<times> (u64 \<times> u64) option) option" where
  "write_apic_base a new_value =
     (let old = apic_base a; b = ab_set_bsp (ab_bsp old) new_value; a' = a\<lparr>apic_base := b\<rparr> in
      if ab_enabled_globally b \<and> ab_addr b \<noteq> DEFAULT_MMIO_ADDR then None
      else if \<not> ab_enabled_globally b
      then (let start = push_bit 12 (ab_addr old) in Some (a', Some (start, start + 0x1000)))
      else Some (a', None))"

definition read_apic_base :: "LocalApic \<Rightarrow> u64" where
  "read_apic_base a = apic_base a"

record LocalApicSnapshot =
  lz_id :: u32
  lz_logical_apic_destination_id :: u8
  lz_destination_format :: u8
  lz_spurious_interrupt_vector :: u32
  lz_error_status :: u32
  lz_cmci :: u32
  lz_interrupt_command_register :: "u32 list"
  lz_lvt :: "u32 list"
  lz_initial_count :: u32
  lz_current_count :: u32
  lz_divide_configuration :: u32
  lz_core :: LocalApicCoreSnapshot
  lz_apic_base :: ApicBase

definition lapic_snapshot :: "LocalApic \<Rightarrow> LocalApicSnapshot" where
  "lapic_snapshot a =
     \<lparr>lz_id = la_id a, lz_logical_apic_destination_id = logical_apic_destination_id a,
      lz_destination_format = ucast (destination_format a), lz_spurious_interrupt_vector = spurious_interrupt_vector a,
      lz_error_status = error_status a, lz_cmci = cmci a,
      lz_interrupt_command_register = interrupt_command_register a, lz_lvt = lvt a,
      lz_initial_count = initial_count a, lz_current_count = current_count a,
      lz_divide_configuration = divide_configuration a, lz_core = lapic_core_snapshot (la_core a),
      lz_apic_base = apic_base a\<rparr>"

definition lapic_restore :: "LocalApic \<Rightarrow> LocalApicSnapshot \<Rightarrow> LocalApic option" where
  "lapic_restore a z =
     (if lz_destination_format z \<le> 15
      then map_option (\<lambda>c. a\<lparr>la_id := lz_id z, logical_apic_destination_id := lz_logical_apic_destination_id z,
             destination_format := ucast (lz_destination_format z),
             spurious_interrupt_vector := lz_spurious_interrupt_vector z, error_status := lz_error_status z,
             cmci := lz_cmci z, interrupt_command_register := lz_interrupt_command_register z, lvt := lz_lvt z,
             initial_count := lz_initial_count z, current_count := lz_current_count z,
             divide_configuration := lz_divide_configuration z, la_core := c, apic_base := lz_apic_base z\<rparr>)
           (lapic_core_restore (la_core a) (lz_core z))
      else None)"

section \<open>The core of the local APIC keeps its invariant\<close>

text \<open>The counter holds \<open>k\<close> requests of other devices and, if \<open>b\<close>, one of this device.\<close>

definition holds_request :: "nat \<Rightarrow> Intr \<Rightarrow> bool \<Rightarrow> bool" where
  "holds_request k i b \<longleftrightarrow> k < 2 ^ 32 - 2 \<and> (pointer_is_valid i \<longrightarrow> unat (intr_count i) = k + of_bool b)"

text \<open>The highest requested vector outranks what the CPU is doing.\<close>

definition outranks :: "LocalApicCore \<Rightarrow> bool" where
  "outranks c \<longleftrightarrow> (\<exists>v \<in> vectors (interrupt_requests c). priority (word_of_nat v) > current_priority c)"

definition bitsets_ok :: "LocalApicCore \<Rightarrow> bool" where
  "bitsets_ok c \<longleftrightarrow> bitset_ok (la_in_service c) \<and> bitset_ok (la_trigger_mode c) \<and> bitset_ok (interrupt_requests c)"

definition lapic_core_inv :: "nat \<Rightarrow> LocalApicCore \<Rightarrow> bool" where
  "lapic_core_inv k c \<longleftrightarrow>
     bitsets_ok c \<and> holds_request k (la_intr c) (pending_intr c) \<and> (outranks c \<longrightarrow> pending_intr c)"

lemma assign_pending_ok:
  assumes "holds_request k (la_intr c) (pending_intr c)"
  shows "\<exists>i. assign_pending c b = Some (c\<lparr>la_intr := i, pending_intr := b\<rparr>) \<and> holds_request k i b"
proof -
  let ?j = "if b then intr_request (la_intr c) else la_intr c"
  have up: "unat (n + 1) = unat n + 1" if "unat (n :: u32) \<le> 2 ^ 32 - 2" for n
    using that by (simp add: unat_word_ariths)
  have down: "unat (n - 1) = unat n - 1" if "n \<noteq> 0" for n :: u32
    using that by (rule unat_minus_one)
  have nz: "n \<noteq> 0" if "unat n = Suc m" for n :: u32 and m
    using that by auto
  have "\<exists>i. (if pending_intr c then drop_request ?j else Some ?j) = Some i \<and> holds_request k i b"
    using assms up [of "intr_count (la_intr c)"] down [of "intr_count (la_intr c)"]
    by (cases "pending_intr c"; cases b; cases "pointer_is_valid (la_intr c)")
      (auto simp: holds_request_def intr_request_def drop_request_def dest: nz simp flip: unat_eq_zero)
  then obtain i where i: "(if pending_intr c then drop_request ?j else Some ?j) = Some i" "holds_request k i b"
    by blast
  from i(1) have "assign_pending c b = Some (c\<lparr>la_intr := i, pending_intr := b\<rparr>)"
    by (simp only: assign_pending_def Let_def option.map)
  then show ?thesis using i(2) by blast
qed

lemma lapic_fields [simp]:
  "outranks (c\<lparr>la_intr := i, pending_intr := b\<rparr>) = outranks c"
  "bitsets_ok (c\<lparr>la_intr := i, pending_intr := b\<rparr>) = bitsets_ok c"
  "current_priority (c\<lparr>la_intr := i, pending_intr := b\<rparr>) = current_priority c"
  "current_priority (c\<lparr>la_trigger_mode := t\<rparr>) = current_priority c"
  "current_priority (c\<lparr>interrupt_requests := r\<rparr>) = current_priority c"
  by (simp_all add: outranks_def bitsets_ok_def current_priority_def cong: option.case_cong)

text \<open>Priorities are the upper four bits, so they grow with the vector.\<close>

lemma priority_mono: "v \<le> w \<Longrightarrow> w < 256 \<Longrightarrow> priority (word_of_nat v) \<le> priority (word_of_nat w)"
  by (simp add: priority_def word_le_nat_alt unat_drop_bit_eq drop_bit_eq_div unat_of_nat div_le_mono unat_div)

lemma outranks_highest:
  assumes "bitset_ok (interrupt_requests c)"
  shows "outranks c \<longleftrightarrow> (\<exists>v. highest_index_set (interrupt_requests c) = Some v
     \<and> priority (word_of_nat v) > current_priority c)" (is "_ = ?R")
proof
  assume "outranks c"
  then obtain w where w: "w \<in> vectors (interrupt_requests c)" "priority (word_of_nat w) > current_priority c"
    by (auto simp: outranks_def)
  then obtain v where v: "highest_index_set (interrupt_requests c) = Some v"
    using highest_index_set_None [OF assms] by fastforce
  note h = highest_index_set_Some [OF assms v]
  then have "priority (word_of_nat w) \<le> priority (word_of_nat v)"
    using w(1) by (intro priority_mono) (auto dest: vectors_less)
  then show ?R using v w(2) by auto
next
  assume ?R
  then show "outranks c" using highest_index_set_Some(1) [OF assms] by (auto simp: outranks_def)
qed

lemma in_service_current:
  assumes "bitset_ok (la_in_service c)" "v \<in> vectors (la_in_service c)"
  shows "priority (word_of_nat v) \<le> current_priority c"
proof -
  obtain w where w: "highest_index_set (la_in_service c) = Some w"
    using highest_index_set_None [OF assms(1)] assms(2) by fastforce
  note h = highest_index_set_Some [OF assms(1) w]
  then show ?thesis using assms(2) w by (auto simp: current_priority_def dest: vectors_less intro!: priority_mono)
qed

lemma raise_interrupt_ok:
  assumes "lapic_core_inv k c"
  shows "\<exists>c'. raise_interrupt c v t = Some c' \<and> lapic_core_inv k c'
     \<and> vectors (interrupt_requests c') = insert (unat v) (vectors (interrupt_requests c))
     \<and> la_in_service c' = la_in_service c \<and> task_priority c' = task_priority c"
proof -
  have v: "unat v < 256" using unsigned_less [of v] by simp
  have ok: "bitset_ok (interrupt_requests c)" "bitset_ok (la_in_service c)" "bitset_ok (la_trigger_mode c)"
    and cnt: "holds_request k (la_intr c) (pending_intr c)" and out: "outranks c \<Longrightarrow> pending_intr c"
    using assms by (auto simp: lapic_core_inv_def bitsets_ok_def)
  obtain r where r: "bitset_set (interrupt_requests c) (unat v) = Some (r, unat v \<notin> vectors (interrupt_requests c))"
      "bitset_ok r" "vectors r = insert (unat v) (vectors (interrupt_requests c))"
    using bitset_set_vectors [OF ok(1) v] by blast
  obtain tm ch where tm: "(case t of EdgeSensitive \<Rightarrow> bitset_reset (la_trigger_mode c) (unat v)
        | LevelSensitive \<Rightarrow> bitset_set (la_trigger_mode c) (unat v)) = Some (tm, ch)" "bitset_ok tm"
    using bitset_set_vectors [OF ok(3) v] bitset_reset_vectors [OF ok(3) v] by (cases t) auto
  let ?c1 = "c\<lparr>interrupt_requests := r\<rparr>" and ?c2 = "c\<lparr>interrupt_requests := r, la_trigger_mode := tm\<rparr>"
  have same: "outranks ?c1 \<longleftrightarrow> outranks c \<or> priority v > current_priority c" "outranks ?c2 = outranks ?c1"
    "current_priority ?c2 = current_priority c"
    using r(3) by (auto simp: outranks_def current_priority_def cong: option.case_cong)
  have get: "bitset_get (la_in_service c) (unat v) = Some (unat v \<in> vectors (la_in_service c))"
    using bitset_get_vectors [OF ok(2) v] .
  consider (old) "unat v \<in> vectors (interrupt_requests c)"
    | (serving) "unat v \<notin> vectors (interrupt_requests c)" "unat v \<in> vectors (la_in_service c)"
    | (new) "unat v \<notin> vectors (interrupt_requests c)" "unat v \<notin> vectors (la_in_service c)" by blast
  then show ?thesis
  proof cases
    case old
    then have "outranks ?c1 = outranks c" using r(3) by (auto simp: outranks_def insert_absorb)
    then have "lapic_core_inv k ?c1" using assms r(2) by (simp add: lapic_core_inv_def bitsets_ok_def)
    then show ?thesis using old r by (auto simp: raise_interrupt_def Let_def)
  next
    case serving
    have "\<not> priority v > current_priority c" using in_service_current [OF ok(2) serving(2)] by simp
    then have "lapic_core_inv k ?c1" using assms r(2) same by (simp add: lapic_core_inv_def bitsets_ok_def)
    then show ?thesis using serving r get by (auto simp: raise_interrupt_def Let_def)
  next
    case new
    obtain i where i: "assign_pending ?c2 True = Some (?c2\<lparr>la_intr := i, pending_intr := True\<rparr>)" "holds_request k i True"
      using assign_pending_ok [of k ?c2 True] cnt by auto
    have b: "bitsets_ok ?c2" using ok r(2) tm(2) by (simp add: bitsets_ok_def)
    have eq: "raise_interrupt c v t =
        (if priority v > current_priority ?c2 then assign_pending ?c2 True else Some ?c2)"
      using new r(1) get tm(1) by (simp add: raise_interrupt_def Let_def)
    show ?thesis
    proof (cases "priority v > current_priority c")
      case True
      then have "raise_interrupt c v t = Some (?c2\<lparr>la_intr := i, pending_intr := True\<rparr>)"
        using eq i(1) same(3) by simp
      moreover have "lapic_core_inv k (?c2\<lparr>la_intr := i, pending_intr := True\<rparr>)"
        using b i(2) by (simp add: lapic_core_inv_def)
      ultimately show ?thesis using r(3) by auto
    next
      case False
      then have "lapic_core_inv k ?c2" using b cnt out same by (simp add: lapic_core_inv_def)
      then show ?thesis using eq False r(3) same(3) by auto
    qed
  qed
qed

lemma check_pending_ok:
  assumes "bitsets_ok c" "holds_request k (la_intr c) (pending_intr c)"
  shows "\<exists>c'. check_pending c = Some c' \<and> lapic_core_inv k c' \<and> interrupt_requests c' = interrupt_requests c
     \<and> la_in_service c' = la_in_service c"
proof (cases "highest_index_set (interrupt_requests c)")
  case None
  then have "vectors (interrupt_requests c) = {}"
    using assms(1) highest_index_set_None by (auto simp: bitsets_ok_def)
  then show ?thesis using assms None by (auto simp: check_pending_def lapic_core_inv_def outranks_def)
next
  case (Some p)
  let ?b = "priority (word_of_nat p) > current_priority c"
  obtain i where i: "assign_pending c ?b = Some (c\<lparr>la_intr := i, pending_intr := ?b\<rparr>)" "holds_request k i ?b"
    using assign_pending_ok [OF assms(2)] by blast
  have "outranks c = ?b" using outranks_highest [of c] assms(1) Some by (simp add: bitsets_ok_def)
  then have "lapic_core_inv k (c\<lparr>la_intr := i, pending_intr := ?b\<rparr>)"
    using assms(1) i(2) by (simp add: lapic_core_inv_def)
  then show ?thesis using i(1) Some by (auto simp: check_pending_def)
qed

lemma write_eoi_ok:
  assumes "lapic_core_inv k c"
  shows "\<exists>c'. write_eoi c = Some c' \<and> lapic_core_inv k c' \<and> interrupt_requests c' = interrupt_requests c
     \<and> vectors (la_in_service c') = vectors (la_in_service c) - {Max (vectors (la_in_service c))}"
proof (cases "highest_index_set (la_in_service c)")
  case None
  then have "vectors (la_in_service c) = {}"
    using assms highest_index_set_None by (auto simp: lapic_core_inv_def bitsets_ok_def)
  then show ?thesis using assms None by (auto simp: write_eoi_def)
next
  case (Some v)
  have ok: "bitset_ok (la_in_service c)" using assms by (simp add: lapic_core_inv_def bitsets_ok_def)
  have v: "v < 256" "v = Max (vectors (la_in_service c))"
    using highest_index_set_Some(1) [OF ok Some] highest_index_set_Max [OF ok] Some vectors_less
    by (auto split: if_splits)
  obtain s where s: "bitset_reset (la_in_service c) v = Some (s, v \<in> vectors (la_in_service c))" "bitset_ok s"
      "vectors s = vectors (la_in_service c) - {v}"
    using bitset_reset_vectors [OF ok v(1)] by blast
  obtain c' where "check_pending (c\<lparr>la_in_service := s\<rparr>) = Some c'" "lapic_core_inv k c'"
      "interrupt_requests c' = interrupt_requests c" "la_in_service c' = s"
    using check_pending_ok [of "c\<lparr>la_in_service := s\<rparr>" k] assms s(2)
    by (auto simp: lapic_core_inv_def bitsets_ok_def)
  then show ?thesis using Some s v(2) by (auto simp: write_eoi_def)
qed

text \<open>Fetching the next interrupt.\<close>

lemma core_next_ok:
  assumes "lapic_core_inv k c"
  shows "\<exists>c' r. core_next_pending_interrupt c = Some (c', r) \<and> lapic_core_inv k c' \<and> \<not> pending_intr c'
     \<and> (\<not> outranks c \<longrightarrow> r = None \<and> interrupt_requests c' = interrupt_requests c \<and> la_in_service c' = la_in_service c)
     \<and> (outranks c \<longrightarrow> (let v = Max (vectors (interrupt_requests c)) in
          r = Some (word_of_nat v) \<and> vectors (interrupt_requests c') = vectors (interrupt_requests c) - {v}
          \<and> vectors (la_in_service c') = insert v (vectors (la_in_service c))))"
proof (cases "outranks c")
  case False
  obtain i where i: "assign_pending c False = Some (c\<lparr>la_intr := i, pending_intr := False\<rparr>)" "holds_request k i False"
    using assign_pending_ok [of k c False] assms by (auto simp: lapic_core_inv_def)
  have "\<not> priority (word_of_nat v) > current_priority c" if "highest_index_set (interrupt_requests c) = Some v" for v
    using outranks_highest [of c] False that assms by (auto simp: lapic_core_inv_def bitsets_ok_def)
  then have "core_next_pending_interrupt c = Some (c\<lparr>la_intr := i, pending_intr := False\<rparr>, None)"
    using i by (auto simp: core_next_pending_interrupt_def Let_def split: option.splits)
  moreover have "lapic_core_inv k (c\<lparr>la_intr := i, pending_intr := False\<rparr>)"
    using assms i False by (simp add: lapic_core_inv_def)
  ultimately show ?thesis using False by simp
next
  case True
  have ok: "bitset_ok (interrupt_requests c)" "bitset_ok (la_in_service c)" "bitset_ok (la_trigger_mode c)"
    using assms by (auto simp: lapic_core_inv_def bitsets_ok_def)
  obtain v where v: "highest_index_set (interrupt_requests c) = Some v" "priority (word_of_nat v) > current_priority c"
    using outranks_highest [OF ok(1)] True by blast
  have vm: "v = Max (vectors (interrupt_requests c))"
    using highest_index_set_Max [OF ok(1)] v(1) by (auto split: if_splits)
  have v256: "v < 256" using highest_index_set_Some(1) [OF ok(1) v(1)] by (rule vectors_less)
  then have u: "unat (word_of_nat v :: u8) = v" by (simp add: unat_of_nat)
  obtain r b where r: "bitset_reset (interrupt_requests c) v = Some (r, b)" "bitset_ok r"
      "vectors r = vectors (interrupt_requests c) - {v}"
    using bitset_reset_vectors [OF ok(1) v256] by blast
  obtain s b' where s: "bitset_set (la_in_service c) v = Some (s, b')" "bitset_ok s"
      "vectors s = insert v (vectors (la_in_service c))"
    using bitset_set_vectors [OF ok(2) v256] by blast
  let ?c1 = "c\<lparr>interrupt_requests := r, la_in_service := s\<rparr>"
  obtain i where i: "assign_pending ?c1 False = Some (?c1\<lparr>la_intr := i, pending_intr := False\<rparr>)" "holds_request k i False"
    using assign_pending_ok [of k ?c1 False] assms by (auto simp: lapic_core_inv_def)
  have "\<not> outranks ?c1"
  proof
    assume "outranks ?c1"
    then obtain w where w: "w \<in> vectors (interrupt_requests c)" "priority (word_of_nat w) > current_priority ?c1"
      using r(3) by (auto simp: outranks_def)
    have "priority (word_of_nat w) \<le> priority (word_of_nat v)"
      using highest_index_set_Some(2) [OF ok(1) v(1) w(1)] v256 by (rule priority_mono)
    also have "\<dots> \<le> current_priority ?c1" using s(2,3) by (intro in_service_current) simp_all
    finally show False using w(2) by simp
  qed
  then have "lapic_core_inv k (?c1\<lparr>la_intr := i, pending_intr := False\<rparr>)"
    using i ok r(2) s(2) by (simp add: lapic_core_inv_def bitsets_ok_def)
  moreover have "core_next_pending_interrupt c = Some (?c1\<lparr>la_intr := i, pending_intr := False\<rparr>, Some (word_of_nat v))"
    using v r(1) s(1) i(1) u by (simp add: core_next_pending_interrupt_def Let_def)
  ultimately show ?thesis using True vm r(3) s(3) by (simp add: Let_def)
qed

section \<open>The local APIC as a machine\<close>

text \<open>What the rest of the machine does to it: register accesses, interrupts from the lines, the CPU
  fetching the next interrupt, clearing the requests, and the MSR.\<close>

datatype LapicEvent =
    LapicWrite u32 u32 | LapicRead u32 u64 | LapicRaise u8 IrqTrigger | LapicNext | LapicClear | LapicBase u64

fun lapic_step :: "LocalApic \<Rightarrow> LapicEvent \<Rightarrow> LocalApic option" where
  "lapic_step a (LapicWrite index val) = lapic_write a index val"
| "lapic_step a (LapicRead index ticks) = map_option (\<lambda>_. a) (lapic_read a index ticks)"
| "lapic_step a (LapicRaise v t) = on_core a (\<lambda>c. raise_interrupt c v t)"
| "lapic_step a LapicNext = map_option fst (lapic_next_pending_interrupt a)"
| "lapic_step a LapicClear = lapic_clear_pending a"
| "lapic_step a (LapicBase b) = map_option fst (write_apic_base a b)"



text \<open>The events that panic in no state.\<close>

fun lapic_event_ok :: "LapicEvent \<Rightarrow> bool" where
  "lapic_event_ok (LapicWrite index val) = (index \<noteq> 0x30)"
| "lapic_event_ok (LapicRead index ticks) = (index \<noteq> 0x39)"
| "lapic_event_ok (LapicBase b) = (ab_enabled_globally b \<longrightarrow> ab_addr b = DEFAULT_MMIO_ADDR)"
| "lapic_event_ok _ = True"

definition lapic_inv :: "nat \<Rightarrow> LocalApic \<Rightarrow> bool" where
  "lapic_inv k a \<longleftrightarrow> lapic_core_inv k (la_core a)"

lemma on_core_ok:
  "\<exists>c. f (la_core a) = Some c \<and> lapic_core_inv k c \<Longrightarrow> \<exists>a'. on_core a f = Some a' \<and> lapic_inv k a'"
  by (auto simp: on_core_def lapic_inv_def)

lemma raise_icr_ok: "lapic_inv k a \<Longrightarrow> \<exists>a'. raise_icr a icr = Some a' \<and> lapic_inv k a'"
  unfolding raise_icr_def by (rule on_core_ok) (use raise_interrupt_ok in \<open>fastforce simp: lapic_inv_def\<close>)

lemma write_icr_inv: "lapic_inv k a \<Longrightarrow> write_icr a val = Some a' \<Longrightarrow> lapic_inv k a'"
proof -
  assume a: "lapic_inv k a" and w: "write_icr a val = Some a'"
  let ?a = "a\<lparr>interrupt_command_register := (interrupt_command_register a)[0 := val]\<rparr>"
  have "lapic_inv k ?a" using a by (simp add: lapic_inv_def)
  moreover have "a' = ?a \<or> raise_icr ?a val = Some a'"
    using w by (auto simp: write_icr_def Let_def split: DestinationType.splits DestinationMode.splits
        DeliveryMode.splits if_splits)
  ultimately show ?thesis using raise_icr_ok [of k ?a val] by auto
qed

lemma lapic_write_ok:
  assumes "lapic_inv k a" "index \<noteq> 0x30"
  shows "\<exists>a'. lapic_write a index val = Some a' \<and> lapic_inv k a'"
proof -
  have "\<exists>c. write_eoi (la_core a) = Some c \<and> lapic_core_inv k c"
    using write_eoi_ok [of k "la_core a"] assms(1) by (auto simp: lapic_inv_def)
  moreover have "\<exists>c. check_pending (la_core a\<lparr>task_priority := ucast val\<rparr>) = Some c \<and> lapic_core_inv k c"
    using check_pending_ok [of "la_core a\<lparr>task_priority := ucast val\<rparr>" k] assms(1)
    by (auto simp: lapic_inv_def lapic_core_inv_def bitsets_ok_def)
  ultimately show ?thesis
    using assms by (auto simp: lapic_write_def on_core_def lapic_inv_def)
qed

lemma reset_all:
  assumes "bitset_ok s" "set ns \<subseteq> {..<256}"
  shows "\<exists>s'. foldl (\<lambda>r n. Option.bind r (\<lambda>s. map_option fst (bitset_reset s n))) (Some s) ns = Some s'
     \<and> bitset_ok s' \<and> vectors s' = vectors s - set ns"
  using assms
proof (induction ns arbitrary: s)
  case (Cons n ns)
  then obtain s1 where "bitset_reset s n = Some (s1, n \<in> vectors s)" "bitset_ok s1" "vectors s1 = vectors s - {n}"
    using bitset_reset_vectors [of s n] by auto
  moreover from this Cons obtain s' where
    "foldl (\<lambda>r n. Option.bind r (\<lambda>s. map_option fst (bitset_reset s n))) (Some s1) ns = Some s'"
    "bitset_ok s'" "vectors s' = vectors s1 - set ns" by force
  ultimately show ?case by auto
qed simp

lemma lapic_clear_ok:
  assumes "lapic_inv k a"
  shows "\<exists>a'. lapic_clear_pending a = Some a' \<and> lapic_inv k a' \<and> vectors (interrupt_requests (la_core a')) = {}"
proof -
  have "bitset_ok (interrupt_requests (la_core a))"
    using assms by (simp add: lapic_inv_def lapic_core_inv_def bitsets_ok_def)
  from reset_all [OF this, of "[0..<256]"] obtain s' where s':
    "foldl (\<lambda>r n. Option.bind r (\<lambda>s. map_option fst (bitset_reset s n))) (Some (interrupt_requests (la_core a))) [0..<256]
       = Some s'" "bitset_ok s'" "vectors s' = {}"
    by (auto simp: atLeast0LessThan dest: vectors_less)
  then show ?thesis
    using assms by (auto simp: lapic_clear_pending_def on_core_def lapic_inv_def lapic_core_inv_def bitsets_ok_def
        outranks_def simp del: upt.simps)
qed

lemma lapic_next_ok: "lapic_inv k a \<Longrightarrow> \<exists>a' r. lapic_next_pending_interrupt a = Some (a', r) \<and> lapic_inv k a'"
  using core_next_ok [of k "la_core a"] by (auto simp: lapic_next_pending_interrupt_def lapic_inv_def)

lemma bit_set_field_bit:
  fixes w :: "'a::len word"
  shows "n < LENGTH('a) \<Longrightarrow> bit (set_field_bit n v w) m = (if m = n then v else bit w m)"
  unfolding set_field_bit_def
  by (auto simp: bit_or_iff bit_and_iff bit_not_iff bit_push_bit_iff bit_1_iff simp del: push_bit_of_1
      dest: bit_imp_le_length)

lemma ab_set_bsp_other [simp]:
  "ab_enabled_globally (ab_set_bsp b x) = ab_enabled_globally x" "ab_addr (ab_set_bsp b x) = ab_addr x"
  by (auto simp: ab_enabled_globally_def ab_set_bsp_def ab_addr_def bits bit_set_field_bit bit_drop_bit_eq)

lemma lapic_step_ok:
  assumes "lapic_inv k a" "lapic_event_ok e"
  shows "\<exists>a'. lapic_step a e = Some a' \<and> lapic_inv k a'"
proof (cases e)
  case (LapicRaise v t)
  then show ?thesis using on_core_ok [of "\<lambda>c. raise_interrupt c v t" a k] raise_interrupt_ok [of k "la_core a" v t] assms(1)
    by (auto simp: lapic_inv_def)
next
  case LapicNext
  then show ?thesis using lapic_next_ok [OF assms(1)] by auto
next
  case (LapicRead i ticks)
  then show ?thesis using assms by (auto simp: lapic_read_def)
qed (use assms lapic_write_ok [OF assms(1)] lapic_clear_ok [OF assms(1)] in
    \<open>auto simp: write_apic_base_def Let_def lapic_inv_def split: if_splits\<close>)

lemma lapic_step_inv: "lapic_inv k a \<Longrightarrow> lapic_step a e = Some a' \<Longrightarrow> lapic_inv k a'"
proof (cases "lapic_event_ok e")
  case False
  moreover assume "lapic_inv k a" "lapic_step a e = Some a'"
  ultimately show ?thesis
    by (cases e) (auto simp: lapic_write_def write_apic_base_def Let_def lapic_inv_def split: if_splits
        dest: write_icr_inv [unfolded lapic_inv_def])
qed (use lapic_step_ok in force)

interpretation lapics: total_machine lapic_step "lapic_inv k" lapic_event_ok for k
  by unfold_locales (auto intro: lapic_step_inv dest: lapic_step_ok)



lemma lapic_new_inv: "lapic_inv 0 (lapic_new intr_new)"
  by (simp add: lapic_inv_def lapic_new_def lapic_core_new_def lapic_core_inv_def bitsets_ok_def outranks_def
      holds_request_def intr_new_def)

section \<open>Snapshots\<close>

definition lapic_core_view :: "LocalApicCore \<Rightarrow> u8 \<times> Bitset \<times> Bitset \<times> Bitset \<times> bool" where
  "lapic_core_view c =
     (task_priority c, la_in_service c, la_trigger_mode c, interrupt_requests c, pending_intr c)"

text \<open>Everything but the request counter, which belongs to the CPU.\<close>

definition lapic_view :: "LocalApic \<Rightarrow> LocalApic \<times> (u8 \<times> Bitset \<times> Bitset \<times> Bitset \<times> bool)" where
  "lapic_view a = (a\<lparr>la_core := lapic_core_new intr_new\<rparr>, lapic_core_view (la_core a))"

definition lapic_compat :: "LocalApic \<Rightarrow> LocalApic \<Rightarrow> bool" where
  "lapic_compat t a \<longleftrightarrow> bitsets_ok (la_core t) \<and> bitsets_ok (la_core a)
     \<and> holds_request 0 (la_intr (la_core t)) (pending_intr (la_core t))
     \<and> (pending_intr (la_core t) \<longrightarrow> pending_intr (la_core a))"

lemma lapic_core_restore_ok:
  assumes "bitsets_ok t" "bitsets_ok c" "holds_request k (la_intr t) (pending_intr t)" "pending_intr t \<longrightarrow> pending_intr c"
  shows "\<exists>t'. lapic_core_restore t (lapic_core_snapshot c) = Some t' \<and> lapic_core_view t' = lapic_core_view c"
proof -
  let ?t = "t\<lparr>task_priority := task_priority c, la_in_service := la_in_service c, la_trigger_mode := la_trigger_mode c,
      interrupt_requests := interrupt_requests c\<rparr>"
  obtain i where "assign_pending ?t True = Some (?t\<lparr>la_intr := i, pending_intr := True\<rparr>)"
    using assign_pending_ok [of k ?t True] assms(3) by auto
  moreover have "lapic_core_restore t (lapic_core_snapshot c) = (if pending_intr c then assign_pending ?t True else Some ?t)"
    using assms(1,2) by (simp add: lapic_core_restore_def lapic_core_snapshot_def bitsets_ok_def Let_def)
  ultimately show ?thesis using assms(4) by (cases "pending_intr c") (auto simp: lapic_core_view_def)
qed

lemma u4_fits: "(ucast (w :: 4 word) :: u8) \<le> 15"
proof -
  have "ucast w = take_bit 4 (ucast w :: u8)" by simp
  also have "\<dots> = ucast w AND 15" by (simp add: take_bit_eq_mask mask_eq_exp_minus_1)
  finally show ?thesis using word_and_le1 [of "ucast w" "15 :: u8"] by simp
qed

lemma lapic_restore_ok:
  assumes "lapic_compat t a"
  shows "\<exists>t'. lapic_restore t (lapic_snapshot a) = Some t' \<and> lapic_view t' = lapic_view a"
proof -
  obtain c where c: "lapic_core_restore (la_core t) (lapic_core_snapshot (la_core a)) = Some c"
      "lapic_core_view c = lapic_core_view (la_core a)"
    using lapic_core_restore_ok [of "la_core t" "la_core a" 0] assms unfolding lapic_compat_def by blast
  have "lapic_restore t (lapic_snapshot a) = Some (a\<lparr>la_core := c\<rparr>)"
    using c(1) u4_fits by (simp add: lapic_restore_def lapic_snapshot_def)
  then show ?thesis using c(2) by (simp add: lapic_view_def)
qed

lemma lapic_snapshot_view: "lapic_view s = lapic_view t \<Longrightarrow> lapic_snapshot s = lapic_snapshot t"
  by (cases s; cases t) (simp add: lapic_view_def lapic_snapshot_def lapic_core_snapshot_def lapic_core_view_def)

interpretation lapic_snap: fallible_snapshot_device lapic_snapshot lapic_restore lapic_view lapic_compat
  by unfold_locales (auto intro: lapic_restore_ok lapic_snapshot_view)

definition ioapic_ok :: "IoApic \<Rightarrow> bool" where
  "ioapic_ok a \<longleftrightarrow> length (redirection_entries (io_core a)) = NUM_REDIRECTION_ENTRIES \<and> bitset_ok (irq_lines (io_core a))"

lemma ioapic_restore_ok:
  "ioapic_ok t \<Longrightarrow> ioapic_ok a \<Longrightarrow> ioapic_restore t (ioapic_snapshot a) = Some a"
  using u4_fits by (simp add: ioapic_restore_def ioapic_snapshot_def ioapic_ok_def list_eq_iff_nth_eq)

interpretation ioapic_snap: fallible_snapshot_device ioapic_snapshot ioapic_restore "\<lambda>a. a"
    "\<lambda>t a. ioapic_ok t \<and> ioapic_ok a"
  by unfold_locales (auto intro: ioapic_restore_ok)

section \<open>Lines and registers of the I/O APIC\<close>

lemma set_pending_fields [simp]:
  "re_vector (re_set_pending b e) = re_vector e" "re_delivery_mode (re_set_pending b e) = re_delivery_mode e"
  "re_polarity (re_set_pending b e) = re_polarity e" "re_trigger_mode (re_set_pending b e) = re_trigger_mode e"
  "re_masked (re_set_pending b e) = re_masked e" "re_was_received (re_set_pending b e) = re_was_received e"
  "re_pending (re_set_pending b e) = b"
proof -
  have "take_bit 3 (drop_bit 8 (set_field_bit 12 b e)) = take_bit 3 (drop_bit 8 e)"
    by (auto simp: bits bit_set_field_bit bit_take_bit_iff bit_drop_bit_eq)
  then show "re_delivery_mode (re_set_pending b e) = re_delivery_mode e"
    by (simp add: re_delivery_mode_def re_set_pending_def field_def)
  show "re_vector (re_set_pending b e) = re_vector e"
    by (auto simp: re_vector_def re_set_pending_def bits bit_ucast_iff bit_set_field_bit)
qed (simp_all add: re_polarity_def re_trigger_mode_def re_masked_def re_was_received_def re_pending_def
    re_set_pending_def bit_set_field_bit)

lemma set_was_received_bit [simp]: "re_was_received (re_set_was_received b e) = b"
  by (simp add: re_was_received_def re_set_was_received_def bit_set_field_bit)

definition io_core_ok :: "IoApicCore \<Rightarrow> bool" where
  "io_core_ok io \<longleftrightarrow> length (redirection_entries io) = NUM_REDIRECTION_ENTRIES \<and> bitset_ok (irq_lines io)"

lemma line_level:
  assumes "io_core_ok io" "index < NUM_REDIRECTION_ENTRIES"
  shows "\<exists>s. (if level then bitset_set (irq_lines io) index else bitset_reset (irq_lines io) index)
      = Some (s, level \<noteq> (index \<in> vectors (irq_lines io))) \<and> bitset_ok s
      \<and> vectors s = (if level then insert index (vectors (irq_lines io)) else vectors (irq_lines io) - {index})"
proof -
  have "bitset_ok (irq_lines io)" "index < 256" using assms by (simp_all add: io_core_ok_def NUM_REDIRECTION_ENTRIES_def)
  from bitset_set_vectors [OF this] bitset_reset_vectors [OF this] show ?thesis by (cases level) auto
qed

lemma masked_line_set:
  assumes "io_core_ok io" "index < NUM_REDIRECTION_ENTRIES" "re_masked (redirection_entries io ! index)"
  shows "\<exists>io'. apic_line_set (io, l) index level = Some (io', l) \<and> io_core_ok io'
     \<and> re_masked (redirection_entries io' ! index)"
proof -
  obtain s where "(if level then bitset_set (irq_lines io) index else bitset_reset (irq_lines io) index)
      = Some (s, level \<noteq> (index \<in> vectors (irq_lines io)))" "bitset_ok s"
    using line_level [OF assms(1,2)] by blast
  then show ?thesis
    using assms by (auto simp: apic_line_set_def Let_def redirection_entry_def store_entry_def set_redirection_entry_def
        io_core_ok_def)
qed

lemma edge_line_high:
  assumes "io_core_ok io" "index < NUM_REDIRECTION_ENTRIES" "e = redirection_entries io ! index"
    "\<not> re_masked e" "re_trigger_mode e = EdgeSensitive" "re_polarity e = ActiveHigh"
    "re_delivery_mode e \<in> {Normal, LowPriority}" "index \<notin> vectors (irq_lines io)"
    "raise_interrupt l (re_vector e) EdgeSensitive = Some l'"
  shows "\<exists>s. apic_line_set (io, l) index True
       = Some (io\<lparr>irq_lines := s, redirection_entries := (redirection_entries io)[index := re_set_pending False e]\<rparr>, l')
     \<and> bitset_ok s \<and> vectors s = insert index (vectors (irq_lines io))"
proof -
  obtain s where s: "bitset_set (irq_lines io) index = Some (s, True)" "bitset_ok s"
      "vectors s = insert index (vectors (irq_lines io))"
    using line_level [OF assms(1,2), of True] assms(8) by auto
  then show ?thesis
    using assms by (auto simp: apic_line_set_def Let_def redirection_entry_def store_entry_def set_redirection_entry_def
        send_interrupt_def io_core_ok_def)
qed

lemma edge_line_low:
  assumes "io_core_ok io" "index < NUM_REDIRECTION_ENTRIES" "e = redirection_entries io ! index"
    "\<not> re_masked e" "re_trigger_mode e = EdgeSensitive" "re_polarity e = ActiveHigh"
  shows "\<exists>s. apic_line_set (io, l) index False = Some (io\<lparr>irq_lines := s\<rparr>, l) \<and> bitset_ok s
     \<and> vectors s = vectors (irq_lines io) - {index}"
proof -
  obtain s b where s: "bitset_reset (irq_lines io) index = Some (s, b)" "bitset_ok s"
      "vectors s = vectors (irq_lines io) - {index}"
    using line_level [OF assms(1,2), of False] by auto
  then show ?thesis
    using assms by (auto simp: apic_line_set_def Let_def redirection_entry_def io_core_ok_def)
qed

section \<open>Properties\<close>

text \<open>C18: the bit sets of the APICs are sets of vectors: any sequence of \<open>set\<close> and \<open>reset\<close> below 256
  computes the same set and the same "changed" results as on a mathematical set, \<open>get\<close> is membership
  and \<open>highest_index_set\<close> the maximum.\<close>

theorem bitset_refines_set:
  assumes "\<forall>p \<in> set ops. op_index p < 256"
  shows "\<exists>s bs. exec_ops bitset_set bitset_reset bitset_new ops = Some (s, bs)
     \<and> set_ops {} ops = (vectors s, bs)
     \<and> (\<forall>i < 256. bitset_get s i = Some (i \<in> vectors s))
     \<and> highest_index_set s = (if vectors s = {} then None else Some (Max (vectors s)))"
proof -
  obtain s bs where "exec_ops bitset_set bitset_reset bitset_new ops = Some (s, bs)" "bitset_ok s"
      "set_ops {} ops = (vectors s, bs)"
    using bitset_set.exec_ops_refines [of bitset_new ops] assms by auto
  then show ?thesis using highest_index_set_Max bitset_get_vectors by blast
qed

theorem bitset_refines_set_witness:
  "\<exists>s bs. exec_ops bitset_set bitset_reset bitset_new [Put 3, Put 200, Put 3, Take 200] = Some (s, bs)
     \<and> set_ops {} [Put 3, Put 200, Put 3, Take 200] = (vectors s, bs)
     \<and> (\<forall>i < 256. bitset_get s i = Some (i \<in> vectors s))
     \<and> highest_index_set s = (if vectors s = {} then None else Some (Max (vectors s)))"
  by (rule bitset_refines_set) simp



text \<open>C20: fetching the next interrupt in a reached state of an enabled APIC. If no requested vector
  outranks the current priority, there is none and the registers stay; otherwise it is the highest
  requested vector, which moves from the requests to the vectors in service. Either way the request
  to the CPU is withdrawn. A disabled APIC delivers nothing.\<close>

theorem lapic_next_spec:
  assumes "run lapic_step (lapic_new intr_new) es = Some a"
  shows "\<exists>a' r. lapic_next_pending_interrupt a = Some (a', r)
     \<and> (\<not> is_enabled a \<longrightarrow> a' = a \<and> r = None)
     \<and> (is_enabled a \<longrightarrow> \<not> pending_intr (la_core a')
          \<and> (\<not> outranks (la_core a) \<longrightarrow> r = None \<and> interrupt_requests (la_core a') = interrupt_requests (la_core a)
                \<and> la_in_service (la_core a') = la_in_service (la_core a))
          \<and> (outranks (la_core a) \<longrightarrow> (let v = Max (vectors (interrupt_requests (la_core a))) in
                r = Some (word_of_nat v)
                \<and> vectors (interrupt_requests (la_core a')) = vectors (interrupt_requests (la_core a)) - {v}
                \<and> vectors (la_in_service (la_core a')) = insert v (vectors (la_in_service (la_core a))))))"
proof -
  have "lapic_core_inv 0 (la_core a)"
    using lapics.run_inv [OF lapic_new_inv assms] by (simp add: lapic_inv_def)
  from core_next_ok [OF this] show ?thesis
    by (auto simp: lapic_next_pending_interrupt_def is_enabled_def)
qed

theorem lapic_next_spec_witness:
  "\<exists>a. run lapic_step (lapic_new intr_new) [LapicRaise 0x51 EdgeSensitive, LapicRaise 0x31 EdgeSensitive] = Some a
     \<and> (\<exists>a' r. lapic_next_pending_interrupt a = Some (a', r) \<and> (is_enabled a \<longrightarrow> \<not> pending_intr (la_core a')))"
proof -
  obtain a where a: "run lapic_step (lapic_new intr_new) [LapicRaise 0x51 EdgeSensitive, LapicRaise 0x31 EdgeSensitive] = Some a"
    using lapics.run_total [OF lapic_new_inv, of "[LapicRaise 0x51 EdgeSensitive, LapicRaise 0x31 EdgeSensitive]"] by auto
  from lapic_next_spec [OF a] a show ?thesis by blast
qed

text \<open>C21: pulsing a line of the I/O APIC that is low. A masked entry leaves the local APIC alone. An
  unmasked edge-sensitive entry that is active high and delivers normally raises its vector at the
  local APIC exactly once, clears its pending bit, and leaves the line low and the other entries as
  they were.\<close>

theorem apic_pulse_delivers:
  assumes "io_core_ok io" "lapic_core_inv k l" "index < NUM_REDIRECTION_ENTRIES" "e = redirection_entries io ! index"
    "index \<notin> vectors (irq_lines io)"
  shows "(re_masked e \<longrightarrow> (\<exists>io'. apic_line_pulse (io, l) index = Some (io', l)))
     \<and> (\<not> re_masked e \<and> re_trigger_mode e = EdgeSensitive \<and> re_polarity e = ActiveHigh
          \<and> re_delivery_mode e \<in> {Normal, LowPriority} \<longrightarrow>
        (\<exists>io' l'. apic_line_pulse (io, l) index = Some (io', l')
           \<and> raise_interrupt l (re_vector e) EdgeSensitive = Some l'
           \<and> redirection_entries io' = (redirection_entries io)[index := re_set_pending False e]
           \<and> vectors (irq_lines io') = vectors (irq_lines io)))"
proof (intro conjI impI)
  assume "re_masked e"
  then obtain io1 where io1: "apic_line_set (io, l) index True = Some (io1, l)" "io_core_ok io1"
      "re_masked (redirection_entries io1 ! index)"
    using masked_line_set assms by blast
  from masked_line_set [OF io1(2) assms(3) io1(3)] io1(1) show "\<exists>io'. apic_line_pulse (io, l) index = Some (io', l)"
    by (auto simp: apic_line_pulse_def)
next
  assume e: "\<not> re_masked e \<and> re_trigger_mode e = EdgeSensitive \<and> re_polarity e = ActiveHigh
    \<and> re_delivery_mode e \<in> {Normal, LowPriority}"
  obtain l' where l': "raise_interrupt l (re_vector e) EdgeSensitive = Some l'"
    using raise_interrupt_ok [OF assms(2)] by blast
  obtain s where s: "apic_line_set (io, l) index True
       = Some (io\<lparr>irq_lines := s, redirection_entries := (redirection_entries io)[index := re_set_pending False e]\<rparr>, l')"
      (is "_ = Some (?io, l')") "bitset_ok s" "vectors s = insert index (vectors (irq_lines io))"
    using edge_line_high [OF assms(1,3,4) _ _ _ _ assms(5) l'] e by blast
  have io: "io_core_ok ?io" "re_set_pending False e = redirection_entries ?io ! index"
    using assms s(2) by (auto simp: io_core_ok_def)
  obtain t where "apic_line_set (?io, l') index False = Some (?io\<lparr>irq_lines := t\<rparr>, l')"
      "vectors t = vectors (irq_lines ?io) - {index}"
    using edge_line_low [OF io(1) assms(3) io(2)] e by auto
  then show "\<exists>io' l'. apic_line_pulse (io, l) index = Some (io', l')
           \<and> raise_interrupt l (re_vector e) EdgeSensitive = Some l'
           \<and> redirection_entries io' = (redirection_entries io)[index := re_set_pending False e]
           \<and> vectors (irq_lines io') = vectors (irq_lines io)"
    using s l' assms(5) by (auto simp: apic_line_pulse_def)
qed

theorem apic_pulse_delivers_witness:
  "\<exists>io' l'. apic_line_pulse (\<lparr>redirection_entries = replicate NUM_REDIRECTION_ENTRIES 0x31, irq_lines = bitset_new\<rparr>,
       lapic_core_new intr_new) 4 = Some (io', l') \<and> vectors (irq_lines io') = {}"
proof -
  have e: "replicate NUM_REDIRECTION_ENTRIES 0x31 ! 4 = (0x31 :: u64)" by (simp add: NUM_REDIRECTION_ENTRIES_def)
  have f: "\<not> re_masked 0x31" "re_trigger_mode 0x31 = EdgeSensitive" "re_polarity 0x31 = ActiveHigh"
      "re_delivery_mode 0x31 = Normal"
    by (simp_all add: re_masked_def re_trigger_mode_def re_polarity_def re_delivery_mode_def field_def
        delivery_mode_of_def bit_iff_odd_drop_bit drop_bit_eq_div)
  have i: "lapic_core_inv 0 (lapic_core_new intr_new)"
    using lapic_new_inv by (simp add: lapic_inv_def lapic_new_def)
  show ?thesis
    using apic_pulse_delivers [of "\<lparr>redirection_entries = replicate NUM_REDIRECTION_ENTRIES 0x31, irq_lines = bitset_new\<rparr>"
        0 "lapic_core_new intr_new" 4 "0x31"] i e f
    by (auto simp: io_core_ok_def NUM_REDIRECTION_ENTRIES_def)
qed

text \<open>C22: restoring the snapshot of a reached local APIC into a new one gives the same APIC, up to the
  request counter of the CPU it is attached to, which then holds this APIC's request if there was
  one.\<close>

theorem lapic_restore_snapshot:
  assumes "run lapic_step (lapic_new intr_new) es = Some a"
  shows "\<exists>t. lapic_restore (lapic_new intr_new) (lapic_snapshot a) = Some t
     \<and> lapic_snapshot t = lapic_snapshot a
     \<and> t = a\<lparr>la_core := la_core a\<lparr>la_intr := la_intr (la_core t)\<rparr>\<rparr>
     \<and> intr_count (la_intr (la_core t)) = of_bool (pending_intr (la_core a))"
proof -
  have ok: "bitsets_ok (la_core a)" "bitsets_ok (lapic_core_new intr_new)"
    using lapics.run_inv [OF lapic_new_inv assms] by (auto simp: lapic_inv_def lapic_core_inv_def bitsets_ok_def lapic_core_new_def)
  have c: "lapic_compat (lapic_new intr_new) a"
    using ok by (simp add: lapic_compat_def lapic_new_def) (simp add: lapic_core_new_def holds_request_def intr_new_def)
  obtain t where t: "lapic_restore (lapic_new intr_new) (lapic_snapshot a) = Some t" "lapic_view t = lapic_view a"
    using lapic_snap.restore_view [OF c] by blast
  have "lapic_snapshot t = lapic_snapshot a"
    using t(2) by (rule lapic_snap.snapshot_view)
  moreover have "t = a\<lparr>la_core := la_core a\<lparr>la_intr := la_intr (la_core t)\<rparr>\<rparr>"
    using t(2) by (cases t; cases a; cases "la_core t"; cases "la_core a") (simp add: lapic_view_def lapic_core_view_def)
  moreover have "intr_count (la_intr (la_core t)) = of_bool (pending_intr (la_core a))"
  proof -
    have "lapic_core_restore (lapic_core_new intr_new) (lapic_core_snapshot (la_core a)) = Some (la_core t)"
      using t(1) by (auto simp: lapic_restore_def lapic_snapshot_def lapic_new_def split: if_splits)
    moreover have "intr_count (la_intr c) = of_bool (pending_intr (la_core a))"
      if "lapic_core_restore (lapic_core_new intr_new) (lapic_core_snapshot (la_core a)) = Some c" for c
      using that by (auto simp: lapic_core_restore_def lapic_core_snapshot_def Let_def assign_pending_def
          lapic_core_new_def intr_new_def intr_request_def split: if_splits)
    ultimately show ?thesis by blast
  qed
  ultimately show ?thesis using t(1) by blast
qed

theorem lapic_restore_snapshot_witness:
  "\<exists>a t. run lapic_step (lapic_new intr_new) [LapicRaise 0x51 EdgeSensitive] = Some a
     \<and> lapic_restore (lapic_new intr_new) (lapic_snapshot a) = Some t \<and> lapic_snapshot t = lapic_snapshot a"
proof -
  obtain a where a: "run lapic_step (lapic_new intr_new) [LapicRaise 0x51 EdgeSensitive] = Some a"
    using lapics.run_total [OF lapic_new_inv, of "[LapicRaise 0x51 EdgeSensitive]"] by auto
  from lapic_restore_snapshot [OF a] a show ?thesis by blast
qed

lemma low_half_masks: "(0xffffffff :: u64) = mask 32" "(- 4294967296 :: u64) = NOT (mask 32)"
  by (simp_all add: mask_eq_exp_minus_1)

text \<open>the guest writes a redirection entry through the index and data registers, low half then high
  half: the entry is then the two halves, the other entries are as before, and reading the halves back
  returns them.\<close>

lemma redirection_entry_roundtrip:
  assumes "ioapic_ok a" "i < NUM_REDIRECTION_ENTRIES"
  shows "\<exists>a1 a2 a3 a4. ioapic_write a 0 (0x10 + 2 * word_of_nat i) = Some a1 \<and> ioapic_write a1 1 lo = Some a2
     \<and> ioapic_write a2 0 (0x11 + 2 * word_of_nat i) = Some a3 \<and> ioapic_write a3 1 hi = Some a4
     \<and> ioapic_read a2 1 = Some lo \<and> ioapic_read a4 1 = Some hi
     \<and> redirection_entries (io_core a4)
         = (redirection_entries (io_core a))[i := push_bit 32 (ucast hi) OR ucast lo]
     \<and> irq_lines (io_core a4) = irq_lines (io_core a) \<and> io_id a4 = io_id a"
proof -
  have i: "i < 24" using assms(2) by (simp add: NUM_REDIRECTION_ENTRIES_def)
  define s0 s1 :: u32 where "s0 = 0x10 + 2 * word_of_nat i" and "s1 = 0x11 + 2 * word_of_nat i"
  have u: "unat s0 = 0x10 + 2 * i" "unat s1 = 0x11 + 2 * i"
    using i by (simp_all add: s0_def s1_def unat_word_ariths unat_of_nat)
  have nz: "s0 \<noteq> 0" "s0 \<noteq> 1" "s0 \<noteq> 2" "s1 \<noteq> 0" "s1 \<noteq> 1" "s1 \<noteq> 2" using u by auto
  have "bit s0 0 = odd (unat s0)" "bit s1 0 = odd (unat s1)"
    by (simp_all flip: bit_0 add: bit_unsigned_iff)
  then have par: "s0 AND 1 = 0" "s1 AND 1 \<noteq> 0"
    using bit_test [of s0 0] bit_test [of s1 0] by (simp_all add: u)
  have e: "io_register_select b = s0 \<Longrightarrow> entry_index b = Some i" "io_register_select b = s1 \<Longrightarrow> entry_index b = Some i" for b
    using i by (simp_all add: entry_index_def u Let_def NUM_REDIRECTION_ENTRIES_def)
  have m: "ucast (ucast lo OR x AND NOT 0xffffffff :: u64) = lo" for x :: u64
    by (simp add: low_half_masks) (auto simp: bits bit_simps)
  have h: "ucast (drop_bit 32 (push_bit 32 (ucast hi) OR ucast lo :: u64)) = hi"
    by (auto simp: bits bit_ucast_iff bit_or_iff bit_push_bit_iff bit_drop_bit_eq dest: bit_imp_le_length)
  have len: "i < length (redirection_entries (io_core a))" using assms by (simp add: ioapic_ok_def)
  let ?a1 = "a\<lparr>io_register_select := s0\<rparr>" and ?r = "redirection_entries (io_core a)"
  let ?e1 = "ucast lo OR (?r ! i AND NOT 0xffffffff) :: u64"
  let ?c2 = "(io_core a)\<lparr>redirection_entries := ?r[i := ?e1]\<rparr>"
  let ?a2 = "?a1\<lparr>io_core := ?c2\<rparr>" and ?a3 = "a\<lparr>io_register_select := s1, io_core := ?c2\<rparr>"
  let ?e2 = "push_bit 32 (ucast hi) OR ucast lo :: u64"
  let ?c4 = "(io_core a)\<lparr>redirection_entries := ?r[i := ?e2]\<rparr>"
  have w2: "ioapic_write ?a1 1 lo = Some ?a2"
    using nz len e(1) par by (simp add: ioapic_write_def redirection_entry_def set_redirection_entry_def)
  have w3: "ioapic_write ?a2 0 s1 = Some ?a3" by (simp add: ioapic_write_def)
  have half: "?e1 AND 0xffffffff = ucast lo"
    by (simp add: low_half_masks) (auto simp: bits bit_simps dest: bit_imp_le_length)
  have w4: "ioapic_write ?a3 1 hi = Some (?a3\<lparr>io_core := ?c4\<rparr>)"
    using nz len e(2) par half
    by (simp add: ioapic_write_def redirection_entry_def set_redirection_entry_def)
  have r2: "ioapic_read ?a2 1 = Some lo"
    using nz len e(1) par m by (simp add: ioapic_read_def redirection_entry_def)
  have r4: "ioapic_read (?a3\<lparr>io_core := ?c4\<rparr>) 1 = Some hi"
    using nz len e(2) par h by (simp add: ioapic_read_def redirection_entry_def)
  show ?thesis
    unfolding s0_def [symmetric] s1_def [symmetric]
    by (rule exI [of _ ?a1], rule exI [of _ ?a2], rule exI [of _ ?a3], rule exI [of _ "?a3\<lparr>io_core := ?c4\<rparr>"])
      (use w2 w3 w4 r2 r4 in \<open>simp add: ioapic_write_def\<close>)
qed

lemma level_received_flag_lost:
  assumes "io_core_ok io" "index < NUM_REDIRECTION_ENTRIES" "e = redirection_entries io ! index"
    "\<not> re_masked e" "re_trigger_mode e = LevelSensitive" "re_polarity e = ActiveHigh" "\<not> re_pending e"
    "re_delivery_mode e = Normal" "apic_line_set (io, l) index True = Some (io', l')"
  shows "re_was_received (redirection_entries io' ! index) = re_was_received e"
  using assms by (auto simp: apic_line_set_def Let_def redirection_entry_def store_entry_def set_redirection_entry_def
      send_interrupt_def io_core_ok_def bind_eq_Some_conv split: option.splits)

lemma writing_back_the_base_panics:
  "write_apic_base (lapic_new i) (read_apic_base (lapic_new i)) = None"
  by (simp add: lapic_new_def write_apic_base_def read_apic_base_def) (simp add: ab_enabled_globally_def ab_addr_def DEFAULT_MMIO_ADDR_def Let_def bit_iff_odd_drop_bit drop_bit_eq_div)

lemma current_count_unset_panics: "lapic_read (lapic_new i) 0x39 ticks = None"
  by (simp add: lapic_read_def read_current_count_def lapic_new_def Let_def)

end
