(* ===== verification/Bitmap_Slice.thy ===== *)
theory Bitmap_Slice
  imports Prelude
begin

text \<open>
  Bitmap slices (\<open>liblisa/src/utils/bitmap/mod.rs\<close>) and bitmaps of a fixed number of 64-bit blocks
  (\<open>fixed.rs\<close>). A slice is what its trait offers: a bit at every index, a length and the blocks it
  iterates over. \<open>usize\<close> is \<open>nat\<close>: the lengths of data in memory stay far below \<open>2 ^ 64\<close>; the two
  counts that can go below zero are written with their wrap-around.
\<close>

section \<open>Slices\<close>

record BitmapSlice =
  sl_get :: "nat \<Rightarrow> bool"
  sl_len :: nat
  iter_data :: "u64 list"

definition sl_is_empty :: "BitmapSlice \<Rightarrow> bool" where
  "sl_is_empty s \<longleftrightarrow> sl_len s = 0"

definition anded_with :: "BitmapSlice \<Rightarrow> BitmapSlice \<Rightarrow> BitmapSlice" where
  "anded_with a b =
     \<lparr>sl_get = \<lambda>i. sl_get a i \<and> sl_get b i, sl_len = min (sl_len a) (sl_len b),
      iter_data = map (\<lambda>(x, y). x AND y) (zip (iter_data a) (iter_data b))\<rparr>"

text \<open>\<open>a.zip(b.chain(repeat(0)))\<close>: the second list is padded with zeros.\<close>

fun zip_zeros :: "u64 list \<Rightarrow> u64 list \<Rightarrow> (u64 \<times> u64) list" where
  "zip_zeros [] ys = []"
| "zip_zeros (x # xs) [] = (x, 0) # zip_zeros xs []"
| "zip_zeros (x # xs) (y # ys) = (x, y) # zip_zeros xs ys"

definition cleared_from :: "BitmapSlice \<Rightarrow> BitmapSlice \<Rightarrow> BitmapSlice" where
  "cleared_from a b =
     \<lparr>sl_get = \<lambda>i. sl_get a i \<and> \<not> sl_get b i, sl_len = sl_len a,
      iter_data = map (\<lambda>(x, y). x AND NOT y) (zip_zeros (iter_data a) (iter_data b))\<rparr>"

text \<open>The counter stays where it is once it is below 64.\<close>

fun flip_blocks :: "nat \<Rightarrow> u64 list \<Rightarrow> u64 list" where
  "flip_blocks remaining [] = []"
| "flip_blocks remaining (x # xs) =
     (if remaining \<ge> 64 then NOT x # flip_blocks (remaining - 64) xs
      else (NOT x AND (push_bit remaining 1 - 1)) # flip_blocks remaining xs)"

definition flipped :: "BitmapSlice \<Rightarrow> BitmapSlice" where
  "flipped s = \<lparr>sl_get = \<lambda>i. \<not> sl_get s i, sl_len = sl_len s, iter_data = flip_blocks (sl_len s) (iter_data s)\<rparr>"

definition count_overlapping_with :: "BitmapSlice \<Rightarrow> BitmapSlice \<Rightarrow> nat" where
  "count_overlapping_with a b = sum_list (map count_ones (iter_data (anded_with a b)))"

definition overlaps_with :: "BitmapSlice \<Rightarrow> BitmapSlice \<Rightarrow> bool" where
  "overlaps_with a b \<longleftrightarrow> list_ex (\<lambda>x. x \<noteq> 0) (iter_data (anded_with a b))"

definition sl_is_all_zeros :: "BitmapSlice \<Rightarrow> bool" where
  "sl_is_all_zeros s \<longleftrightarrow> list_all (\<lambda>x. x = 0) (iter_data s)"

text \<open>\<open>self.iter_data().chain(repeat(0)).zip(other.iter_data())\<close>: as many pairs as \<open>other\<close> has blocks.\<close>

definition is_subset_of :: "BitmapSlice \<Rightarrow> BitmapSlice \<Rightarrow> bool" where
  "is_subset_of a b \<longleftrightarrow>
     list_all (\<lambda>(whole, subset). subset OR whole = whole) (zip_zeros (iter_data b) (iter_data a))"

definition block_indices :: "u64 list \<Rightarrow> nat list" where
  "block_indices d =
     concat (map (\<lambda>(offset, item). map (\<lambda>index. index + offset * 64)
         (filter (\<lambda>index. drop_bit index item AND 1 \<noteq> 0) [0..<64])) (enumerate 0 d))"

definition sl_iter_one_indices :: "BitmapSlice \<Rightarrow> nat list" where
  "sl_iter_one_indices s = block_indices (iter_data s)"

definition sl_iter :: "BitmapSlice \<Rightarrow> bool list" where
  "sl_iter s = concat (map (\<lambda>val. map (\<lambda>index. drop_bit index val AND 1 \<noteq> 0) [0..<64]) (iter_data s))"

definition sl_count_ones :: "BitmapSlice \<Rightarrow> nat" where
  "sl_count_ones s = sum_list (map count_ones (iter_data s))"

definition count_zeros64 :: "u64 \<Rightarrow> nat" where
  "count_zeros64 x = length (filter (\<lambda>i. \<not> bit x i) [0..<64])"

definition sl_count_zeros :: "BitmapSlice \<Rightarrow> nat" where
  "sl_count_zeros s =
     (sum_list (map count_zeros64 (iter_data s)) + 2 ^ 64 - (64 - sl_len s mod 64)) mod 2 ^ 64"

section \<open>Bitmaps of a fixed number of blocks\<close>

type_synonym FixedBitmap = "u64 list"

definition block_index :: "nat \<Rightarrow> nat \<times> nat" where
  "block_index x = (x div 64, x mod 64)"

definition fixed_default :: "nat \<Rightarrow> FixedBitmap" where
  "fixed_default N = replicate N 0"

text \<open>\<open>set\<close> and \<open>clear\<close> panic when the index is outside the array; the flag is whether the bit changed.\<close>

definition fixed_set :: "FixedBitmap \<Rightarrow> nat \<Rightarrow> (FixedBitmap \<times> bool) option" where
  "fixed_set d x =
     (let (index, offset) = block_index x; m = wrapping_shl 1 offset in
      if index < length d then Some (d[index := d ! index OR m], d ! index AND m = 0) else None)"

definition fixed_clear :: "FixedBitmap \<Rightarrow> nat \<Rightarrow> (FixedBitmap \<times> bool) option" where
  "fixed_clear d x =
     (let (index, offset) = block_index x; m = wrapping_shl 1 offset in
      if index < length d then Some (d[index := d ! index AND NOT m], d ! index AND m \<noteq> 0) else None)"

definition fixed_get :: "FixedBitmap \<Rightarrow> nat \<Rightarrow> bool" where
  "fixed_get d x =
     (let (index, offset) = block_index x in
      wrapping_shr (if index < length d then d ! index else 0) offset AND 1 \<noteq> 0)"

definition fixed_len :: "FixedBitmap \<Rightarrow> nat" where
  "fixed_len d = length d * 64"

definition fixed_slice :: "FixedBitmap \<Rightarrow> BitmapSlice" where
  "fixed_slice d = \<lparr>sl_get = fixed_get d, sl_len = fixed_len d, iter_data = d\<rparr>"

text \<open>The four bulk operations differ in the block operation only.\<close>

definition zip_update :: "(u64 \<Rightarrow> u64 \<Rightarrow> u64) \<Rightarrow> u64 list \<Rightarrow> u64 list \<Rightarrow> u64 list \<times> bool" where
  "zip_update f d e =
     (let ps = zip_zeros d e in (map (\<lambda>(a, b). f a b) ps, list_ex (\<lambda>(a, b). a \<noteq> f a b) ps))"

definition fixed_and_with :: "FixedBitmap \<Rightarrow> BitmapSlice \<Rightarrow> FixedBitmap \<times> bool" where
  "fixed_and_with d s = zip_update (\<lambda>a b. a AND b) d (iter_data s)"

definition fixed_clear_from :: "FixedBitmap \<Rightarrow> BitmapSlice \<Rightarrow> FixedBitmap \<times> bool" where
  "fixed_clear_from d s = zip_update (\<lambda>a b. a AND NOT b) d (iter_data s)"

definition fixed_or_with :: "FixedBitmap \<Rightarrow> BitmapSlice \<Rightarrow> FixedBitmap \<times> bool" where
  "fixed_or_with d s = zip_update (\<lambda>a b. a OR b) d (iter_data s)"

definition fixed_xor_with :: "FixedBitmap \<Rightarrow> BitmapSlice \<Rightarrow> FixedBitmap \<times> bool" where
  "fixed_xor_with d s = zip_update (\<lambda>a b. a XOR b) d (iter_data s)"

definition fixed_is_all_ones :: "FixedBitmap \<Rightarrow> bool" where
  "fixed_is_all_ones d \<longleftrightarrow> list_all (\<lambda>x. x = - 1) d"

definition fixed_is_superset_of :: "FixedBitmap \<Rightarrow> FixedBitmap \<Rightarrow> bool" where
  "fixed_is_superset_of d e \<longleftrightarrow> list_all (\<lambda>(a, b). a OR b = a) (zip d e)"

definition fixed_new_all_zeros :: "nat \<Rightarrow> nat \<Rightarrow> FixedBitmap option" where
  "fixed_new_all_zeros N len = (if len \<le> N * 64 then Some (replicate N 0) else None)"

fun fill_blocks :: "nat \<Rightarrow> nat \<Rightarrow> FixedBitmap \<Rightarrow> FixedBitmap" where
  "fill_blocks len index d =
     (if len \<ge> 64 then fill_blocks (len - 64) (index + 1) (d[index := - 1])
      else if len > 0 then d[index := wrapping_shr (- 1) (64 - len)] else d)"

declare fill_blocks.simps [simp del]

definition fixed_new_all_ones :: "nat \<Rightarrow> nat \<Rightarrow> FixedBitmap option" where
  "fixed_new_all_ones N len = map_option (fill_blocks len 0) (fixed_new_all_zeros N len)"

text \<open>\<open>set_many\<close>, and the conversions from iterators of indices and of bits.\<close>

definition fixed_set_many :: "FixedBitmap \<Rightarrow> nat list \<Rightarrow> FixedBitmap option" where
  "fixed_set_many d xs =
     foldl (\<lambda>r x. Option.bind r (\<lambda>d. map_option fst (fixed_set d x))) (Some d) xs"

definition fixed_clear_many :: "FixedBitmap \<Rightarrow> nat list \<Rightarrow> FixedBitmap option" where
  "fixed_clear_many d xs =
     foldl (\<lambda>r x. Option.bind r (\<lambda>d. map_option fst (fixed_clear d x))) (Some d) xs"

definition fixed_from_indices :: "nat \<Rightarrow> nat list \<Rightarrow> FixedBitmap option" where
  "fixed_from_indices N xs = fixed_set_many (fixed_default N) xs"

definition fixed_from_bools :: "nat \<Rightarrow> bool list \<Rightarrow> FixedBitmap option" where
  "fixed_from_bools N bs =
     foldl (\<lambda>r (index, b). Option.bind r (\<lambda>d.
         if index \<ge> fixed_len d then None else if b then map_option fst (fixed_set d index) else Some d))
       (Some (fixed_default N)) (enumerate 0 bs)"

definition iter_one_indices_rev :: "FixedBitmap \<Rightarrow> nat list" where
  "iter_one_indices_rev d =
     concat (map (\<lambda>(offset, item). map (\<lambda>index. index + offset * 64)
         (filter (\<lambda>index. drop_bit index item AND 1 \<noteq> 0) (rev [0..<64]))) (rev (enumerate 0 d)))"

section \<open>The bits of a list of blocks\<close>

definition data_bit :: "u64 list \<Rightarrow> nat \<Rightarrow> bool" where
  "data_bit d i \<longleftrightarrow> i < 64 * length d \<and> bit (d ! (i div 64)) (i mod 64)"

definition ones :: "u64 list \<Rightarrow> nat set" where
  "ones d = {i. data_bit d i}"

lemma ones_iff [simp]: "i \<in> ones d \<longleftrightarrow> data_bit d i"
  by (simp add: ones_def)

lemma data_bit_Nil [simp]: "\<not> data_bit [] i"
  by (simp add: data_bit_def)

lemma data_bit_Cons: "data_bit (x # xs) i \<longleftrightarrow> (if i < 64 then bit x i else data_bit xs (i - 64))"
proof (cases "i < 64")
  case False
  then have "i div 64 = Suc ((i - 64) div 64)" "i mod 64 = (i - 64) mod 64"
    using le_div_geq [of 64 i] le_mod_geq [of 64 i] by simp_all
  then show ?thesis using False by (auto simp: data_bit_def)
qed (simp add: data_bit_def)

lemma data_bit_append:
  "data_bit (xs @ ys) i \<longleftrightarrow> (if i < 64 * length xs then data_bit xs i else data_bit ys (i - 64 * length xs))"
  by (induction xs arbitrary: i) (auto simp: data_bit_Cons)

lemma data_bit_less: "data_bit d i \<Longrightarrow> i < 64 * length d"
  by (simp add: data_bit_def)

lemma data_bit_block: "j < 64 \<Longrightarrow> k < length d \<Longrightarrow> data_bit d (64 * k + j) \<longleftrightarrow> bit (d ! k) j"
  by (simp add: data_bit_def)

lemma finite_ones [simp]: "finite (ones d)"
  by (rule finite_subset [of _ "{..<64 * length d}"]) (auto dest: data_bit_less)

lemma data_eqI:
  assumes "length d = length e" "\<And>i. i < 64 * length d \<Longrightarrow> data_bit d i = data_bit e i"
  shows "d = e"
proof (rule nth_equalityI)
  fix k assume k: "k < length d"
  show "d ! k = e ! k"
  proof (rule bit_word_eqI)
    fix j assume j: "j < LENGTH(64)"
    then have "64 * k + j < 64 * length d" using k by simp
    from assms(2) [OF this] show "bit (d ! k) j = bit (e ! k) j"
      using k j assms(1) by (simp add: data_bit_block)
  qed
qed (fact assms(1))

text \<open>Block operations are operations on bits.\<close>

definition bitwise :: "(u64 \<Rightarrow> u64 \<Rightarrow> u64) \<Rightarrow> (bool \<Rightarrow> bool \<Rightarrow> bool) \<Rightarrow> bool" where
  "bitwise f g \<longleftrightarrow> (\<forall>a b. \<forall>i < 64. bit (f a b) i = g (bit a i) (bit b i))"

lemma bitwise_ops [simp]:
  "bitwise (AND) (\<and>)" "bitwise (OR) (\<or>)" "bitwise (XOR) (\<noteq>)" "bitwise (\<lambda>a b. a AND NOT b) (\<lambda>a b. a \<and> \<not> b)"
  "bitwise (\<lambda>a b. a AND b) (\<lambda>a b. a \<and> b)" "bitwise (\<lambda>a b. a OR b) (\<lambda>a b. a \<or> b)"
  "bitwise (\<lambda>a b. a XOR b) (\<lambda>a b. a \<noteq> b)"
  by (auto simp: bitwise_def bit_simps)

lemma length_zip_zeros [simp]: "length (zip_zeros xs ys) = length xs"
  by (induction xs ys rule: zip_zeros.induct) auto

lemma data_bit_zip_zeros:
  assumes "bitwise f g"
  shows "data_bit (map (\<lambda>(a, b). f a b) (zip_zeros xs ys)) i
     \<longleftrightarrow> i < 64 * length xs \<and> g (data_bit xs i) (data_bit ys i)"
  using assms
  by (induction xs ys arbitrary: i rule: zip_zeros.induct) (auto simp: data_bit_Cons bitwise_def)

lemma data_bit_zip:
  assumes "bitwise f g"
  shows "data_bit (map (\<lambda>(a, b). f a b) (zip xs ys)) i
     \<longleftrightarrow> i < 64 * length xs \<and> i < 64 * length ys \<and> g (data_bit xs i) (data_bit ys i)"
  using assms
proof (induction xs arbitrary: ys i)
  case (Cons x xs)
  then show ?case by (cases ys) (auto simp: data_bit_Cons bitwise_def)
qed simp

lemma zip_update_changed: "snd (zip_update f d e) \<longleftrightarrow> fst (zip_update f d e) \<noteq> d"
proof -
  have "list_ex (\<lambda>(a, b). a \<noteq> f a b) (zip_zeros d e) \<longleftrightarrow> map (\<lambda>(a, b). f a b) (zip_zeros d e) \<noteq> d"
    by (induction d e rule: zip_zeros.induct) auto
  then show ?thesis by (simp add: zip_update_def Let_def)
qed

lemma zip_update_bits:
  assumes "bitwise f g"
  shows "length (fst (zip_update f d e)) = length d"
    "data_bit (fst (zip_update f d e)) i \<longleftrightarrow> i < 64 * length d \<and> g (data_bit d i) (data_bit e i)"
  using data_bit_zip_zeros [OF assms] by (simp_all add: zip_update_def Let_def)

lemma zero_blocks: "list_all (\<lambda>x. x = 0) d \<longleftrightarrow> ones d = {}"
proof
  assume "ones d = {}"
  then have no: "\<not> data_bit d i" for i by (simp add: ones_def)
  have "d ! k = 0" if "k < length d" for k
    using that data_bit_block [of _ k d] no by (auto simp: bits)
  then show "list_all (\<lambda>x. x = 0) d" by (simp add: list_all_length)
qed (auto simp: list_all_length data_bit_def ones_def)

lemma nonzero_block: "list_ex (\<lambda>x. x \<noteq> 0) d \<longleftrightarrow> ones d \<noteq> {}"
  unfolding zero_blocks [symmetric] by (auto simp: list_ex_iff list_all_iff)

text \<open>Counting and listing the ones.\<close>

lemma ones_Cons: "ones (x # xs) = {i. i < 64 \<and> bit x i} \<union> (\<lambda>i. i + 64) ` ones xs"
proof (rule set_eqI)
  fix i :: nat
  have "data_bit xs (i - 64) \<Longrightarrow> \<not> i < 64 \<Longrightarrow> \<exists>j. data_bit xs j \<and> i = j + 64" 
    by (rule exI [of _ "i - 64"]) simp
  then show "i \<in> ones (x # xs) \<longleftrightarrow> i \<in> {i. i < 64 \<and> bit x i} \<union> (\<lambda>i. i + 64) ` ones xs"
    by (auto simp: data_bit_Cons ones_def image_def)
qed

lemma count_ones_card: "count_ones x = card {i. i < 64 \<and> bit x i}" for x :: u64
  by (simp add: count_ones_def length_filter_conv_card cong: conj_cong)

lemma sum_count_ones: "sum_list (map count_ones d) = card (ones d)"
proof (induction d)
  case (Cons x xs)
  have "card (ones (x # xs)) = card {i. i < 64 \<and> bit x i} + card ((\<lambda>i. i + 64) ` ones xs)"
    unfolding ones_Cons by (rule card_Un_disjoint) auto
  also have "card ((\<lambda>i. i + 64) ` ones xs) = card (ones xs)"
    by (rule card_image) (simp add: inj_on_def)
  finally show ?case using Cons by (simp add: count_ones_card)
qed (simp add: ones_def)

lemma count_zeros_block: "count_zeros64 x + count_ones x = 64"
  using sum_length_filter_compl [of "bit x" "[0..<64]"] by (simp add: count_zeros64_def count_ones_def)

lemma sum_count_zeros: "sum_list (map count_zeros64 d) = 64 * length d - card (ones d)"
  and ones_bound: "card (ones d) \<le> 64 * length d"
proof -
  have "sum_list (map count_zeros64 d) + sum_list (map count_ones d) = 64 * length d"
  proof (induction d)
    case (Cons x xs)
    then show ?case using count_zeros_block [of x] by simp
  qed simp
  then show "sum_list (map count_zeros64 d) = 64 * length d - card (ones d)" "card (ones d) \<le> 64 * length d"
    by (simp_all add: sum_count_ones)
qed

lemma block_indices_snoc:
  "block_indices (d @ [x]) = block_indices d @ map (\<lambda>i. i + length d * 64) (filter (bit x) [0..<64])"
  by (simp add: block_indices_def enumerate_append_eq bit_and_1)

lemma block_indices_spec: "sorted_wrt (<) (block_indices d) \<and> set (block_indices d) = ones d"
proof (induction d rule: rev_induct)
  case (snoc x xs)
  have "sorted_wrt (<) (filter (bit x) [0..<64])"
    by (intro sorted_wrt_filter) simp
  then have s: "sorted_wrt (<) (map (\<lambda>i. i + length xs * 64) (filter (bit x) [0..<64]))"
    by (simp add: sorted_wrt_map)
  have "set (map (\<lambda>i. i + length xs * 64) (filter (bit x) [0..<64])) = {i. 64 * length xs \<le> i \<and> data_bit [x] (i - 64 * length xs)}"
  proof (intro set_eqI iffI)
    fix i assume "i \<in> {i. 64 * length xs \<le> i \<and> data_bit [x] (i - 64 * length xs)}"
    then have "i = (i - 64 * length xs) + length xs * 64" "i - 64 * length xs \<in> set (filter (bit x) [0..<64])"
      by (auto simp: data_bit_Cons split: if_splits)
    then show "i \<in> set (map (\<lambda>i. i + length xs * 64) (filter (bit x) [0..<64]))"
      unfolding set_map by (rule image_eqI)
  qed (auto simp: data_bit_Cons)
  then have "set (block_indices (xs @ [x])) = ones xs \<union> {i. 64 * length xs \<le> i \<and> data_bit [x] (i - 64 * length xs)}"
    using snoc by (simp only: block_indices_snoc set_append)
  also have "\<dots> = ones (xs @ [x])" by (auto simp: data_bit_append dest: data_bit_less split: if_splits)
  finally have "set (block_indices (xs @ [x])) = ones (xs @ [x])" .
  moreover have "sorted_wrt (<) (block_indices (xs @ [x]))"
    using snoc s by (auto simp: block_indices_snoc sorted_wrt_append dest!: data_bit_less)
  ultimately show ?case by simp
qed (simp add: block_indices_def ones_def)

lemma block_indices_sorted_list: "block_indices d = sorted_list_of_set (ones d)"
  using block_indices_spec [of d] by (metis sorted_list_of_set.idem_if_sorted_distinct strict_sorted_iff)

section \<open>Slices as sets\<close>

text \<open>A slice whose blocks hold its bits, with no one past its end and no block too many.\<close>

definition slice_ok :: "BitmapSlice \<Rightarrow> bool" where
  "slice_ok s \<longleftrightarrow> length (iter_data s) = (sl_len s + 63) div 64
     \<and> (\<forall>i < sl_len s. sl_get s i = data_bit (iter_data s) i) \<and> (\<forall>i. data_bit (iter_data s) i \<longrightarrow> i < sl_len s)"

lemma bit_low_mask: "r < 64 \<Longrightarrow> bit (2 ^ r - 1 :: u64) i \<longleftrightarrow> i < r"
proof -
  assume r: "r < 64"
  have "2 ^ r - 1 = (mask r :: u64)" by (simp add: mask_eq_exp_minus_1)
  then show ?thesis using r by (simp only: bit_mask_iff) auto
qed

lemma data_bit_flip:
  "length d = (n + 63) div 64 \<Longrightarrow> data_bit (flip_blocks n d) i \<longleftrightarrow> i < n \<and> \<not> data_bit d i"
proof (induction n d arbitrary: i rule: flip_blocks.induct)
  case (1 n)
  then show ?case by (auto simp: div_eq_0_iff)
next
  case (2 n x xs)
  show ?case
  proof (cases "n \<ge> 64")
    case True
    have "(n - 64 + 63 + 64) div 64 = (n - 64 + 63) div 64 + 1" by (rule div_add_self2) simp
    moreover have "n - 64 + 63 + 64 = n + 63" using True by simp
    ultimately have "length xs = (n - 64 + 63) div 64" using "2.prems" by simp
    then have ih: "data_bit (flip_blocks (n - 64) xs) (i - 64) = (i - 64 < n - 64 \<and> \<not> data_bit xs (i - 64))"
      by (rule "2.IH"(1) [OF True])
    show ?thesis
    proof (cases "i < 64")
      case less: True
      then show ?thesis using True by (simp add: data_bit_Cons bit_not_iff)
    next
      case False
      then show ?thesis using True ih by (auto simp: data_bit_Cons)
    qed
  next
    case False
    have "(n + 63) div 64 < 2" using False by (simp add: div_less_iff_less_mult)
    then have "Suc (length xs) < 2" using "2.prems" by simp
    then have "xs = []" by simp
    then show ?thesis using False by (auto simp: data_bit_Cons bit_and_iff bit_not_iff bit_low_mask)
  qed
qed

lemma length_flip_blocks [simp]: "length (flip_blocks n d) = length d"
  by (induction n d rule: flip_blocks.induct) auto

lemma sl_queries:
  "overlaps_with a b \<longleftrightarrow> ones (iter_data a) \<inter> ones (iter_data b) \<noteq> {}"
  "count_overlapping_with a b = card (ones (iter_data a) \<inter> ones (iter_data b))"
  "sl_is_all_zeros a \<longleftrightarrow> ones (iter_data a) = {}"
  "sl_count_ones a = card (ones (iter_data a))"
  "sl_iter_one_indices a = sorted_list_of_set (ones (iter_data a))"
proof -
  have "ones (map (\<lambda>(x, y). x AND y) (zip (iter_data a) (iter_data b))) = ones (iter_data a) \<inter> ones (iter_data b)"
    by (auto simp: data_bit_zip [of "\<lambda>a b. a AND b" "\<lambda>a b. a \<and> b"] dest: data_bit_less)
  then show "overlaps_with a b \<longleftrightarrow> ones (iter_data a) \<inter> ones (iter_data b) \<noteq> {}"
    "count_overlapping_with a b = card (ones (iter_data a) \<inter> ones (iter_data b))"
    by (simp_all add: overlaps_with_def count_overlapping_with_def nonzero_block sum_count_ones anded_with_def
        del: map_map)
qed (simp_all add: sl_is_all_zeros_def zero_blocks sl_count_ones_def sum_count_ones sl_iter_one_indices_def
    block_indices_sorted_list)

lemma or_absorb: "s OR w = w \<longleftrightarrow> (\<forall>i < 64. bit s i \<longrightarrow> bit w i)" for s w :: u64
  by (auto simp: bits bit_or_iff)

lemma is_subset_of_iff:
  "is_subset_of a b \<longleftrightarrow> (\<forall>i \<in> ones (iter_data a). i < 64 * length (iter_data b) \<longrightarrow> i \<in> ones (iter_data b))"
proof -
  have "list_all (\<lambda>(whole, subset). subset OR whole = whole) (zip_zeros d e)
      \<longleftrightarrow> (\<forall>i. data_bit e i \<longrightarrow> i < 64 * length d \<longrightarrow> data_bit d i)" for d e
  proof (induction d e rule: zip_zeros.induct)
    case (3 x xs y ys)
    have split: "(\<forall>i. P i) \<longleftrightarrow> (\<forall>i < 64. P i) \<and> (\<forall>i. P (i + 64))" for P :: "nat \<Rightarrow> bool"
      by (metis le_add_diff_inverse2 linorder_not_less)
    show ?case using 3 by (subst split) (auto simp: or_absorb data_bit_Cons)
  qed auto
  then show ?thesis by (auto simp: is_subset_of_def)
qed

section \<open>Fixed bitmaps as sets\<close>

definition fixed_ok :: "nat \<Rightarrow> FixedBitmap \<Rightarrow> bool" where
  "fixed_ok N d \<longleftrightarrow> length d = N"

lemma fixed_get_bit: "fixed_get d i = data_bit d i"
  by (auto simp: fixed_get_def block_index_def data_bit_def wrapping_shr_def bit_and_1 less_mult_imp_div_less)

lemma bit_shl64: "bit (wrapping_shl 1 (x mod 64) :: u64) n \<longleftrightarrow> n = x mod 64"
  unfolding wrapping_shl_def by (auto simp: bit_push_bit_iff bit_1_iff simp del: push_bit_of_1)

lemma test_bit_shl64: "(w :: u64) AND wrapping_shl 1 (i mod 64) \<noteq> 0 \<longleftrightarrow> bit w (i mod 64)"
  using bit_test [of w "i mod 64"] by (simp add: wrapping_shl_def)

lemma same_block: "i div 64 = j div 64 \<Longrightarrow> i mod 64 = j mod 64 \<Longrightarrow> i = (j :: nat)"
  by (metis div_mult_mod_eq)

lemma data_bit_update:
  assumes "x < 64 * length d"
  shows "data_bit (d[x div 64 := d ! (x div 64) OR wrapping_shl 1 (x mod 64)]) i \<longleftrightarrow> i = x \<or> data_bit d i"
    "data_bit (d[x div 64 := d ! (x div 64) AND NOT (wrapping_shl 1 (x mod 64))]) i \<longleftrightarrow> data_bit d i \<and> i \<noteq> x"
  using assms less_mult_imp_div_less [of x "length d" 64]
  by (auto simp: data_bit_def nth_list_update bit_or_iff bit_and_iff bit_not_iff bit_shl64 dest: same_block
      split: if_splits)

lemma fixed_set_ok:
  assumes "fixed_ok N d" "i < 64 * N"
  shows "\<exists>d'. fixed_set d i = Some (d', i \<notin> ones d) \<and> fixed_ok N d' \<and> ones d' = insert i (ones d)"
proof -
  have l: "i div 64 < length d" using assms by (simp add: fixed_ok_def less_mult_imp_div_less)
  have "fixed_set d i = Some (d[i div 64 := d ! (i div 64) OR wrapping_shl 1 (i mod 64)], i \<notin> ones d)"
    using l assms test_bit_shl64 [of "d ! (i div 64)" i] by (auto simp: fixed_set_def block_index_def data_bit_def fixed_ok_def Let_def)
  moreover have "i < 64 * length d" using assms by (simp add: fixed_ok_def)
  note data_bit_update(1) [OF this]
  ultimately show ?thesis using assms(1) by (simp add: fixed_ok_def set_eq_iff)
qed

lemma fixed_clear_ok:
  assumes "fixed_ok N d" "i < 64 * N"
  shows "\<exists>d'. fixed_clear d i = Some (d', i \<in> ones d) \<and> fixed_ok N d' \<and> ones d' = ones d - {i}"
proof -
  have l: "i div 64 < length d" using assms by (simp add: fixed_ok_def less_mult_imp_div_less)
  have "fixed_clear d i = Some (d[i div 64 := d ! (i div 64) AND NOT (wrapping_shl 1 (i mod 64))], i \<in> ones d)"
    using l assms test_bit_shl64 [of "d ! (i div 64)" i] by (simp add: fixed_clear_def block_index_def data_bit_def fixed_ok_def)
  moreover have "i < 64 * length d" using assms by (simp add: fixed_ok_def)
  note data_bit_update(2) [OF this]
  ultimately show ?thesis using assms(1) by (simp add: fixed_ok_def set_eq_iff)
qed

interpretation fixed: bit_container "\<lambda>d i. Some (fixed_get d i)" fixed_set fixed_clear ones "fixed_ok N" "\<lambda>i. i < 64 * N" for N
proof
  fix d i assume w: "fixed_ok N d" "i < 64 * N"
  show "Some (fixed_get d i) = Some (i \<in> ones d)" by (simp add: fixed_get_bit)
  show "\<exists>d'. fixed_set d i = Some (d', i \<notin> ones d) \<and> fixed_ok N d' \<and> ones d' = insert i (ones d)"
    using w by (rule fixed_set_ok)
  show "\<exists>d'. fixed_clear d i = Some (d', i \<in> ones d) \<and> fixed_ok N d' \<and> ones d' = ones d - {i}"
    using w by (rule fixed_clear_ok)
qed

lemma subset_Cons:
  "ones (y # ys) \<subseteq> ones (x # xs) \<longleftrightarrow> (\<forall>i < 64. bit y i \<longrightarrow> bit x i) \<and> ones ys \<subseteq> ones xs"
proof -
  have split: "(\<forall>i. P i) \<longleftrightarrow> (\<forall>i < 64. P i) \<and> (\<forall>i. P (i + 64))" for P :: "nat \<Rightarrow> bool"
    by (metis le_add_diff_inverse2 linorder_not_less)
  show ?thesis unfolding subset_iff by (subst split) (simp add: data_bit_Cons)
qed

lemma fixed_superset: "length d = length e \<Longrightarrow> fixed_is_superset_of d e \<longleftrightarrow> ones e \<subseteq> ones d"
  unfolding fixed_is_superset_of_def
proof (induction d e rule: list_induct2)
  case (Cons x xs y ys)
  have "x OR y = x \<longleftrightarrow> (\<forall>i < 64. bit y i \<longrightarrow> bit x i)"
    unfolding or.commute [of x y] by (rule or_absorb)
  then show ?case using Cons.IH by (simp add: subset_Cons)
qed (simp add: ones_def)

lemma data_bit_replicate: "data_bit (replicate n w) i \<longleftrightarrow> i < 64 * n \<and> bit w (i mod 64)"
  by (auto simp: data_bit_def less_mult_imp_div_less)

lemma fill_blocks_ones:
  assumes "64 * k + len \<le> 64 * length d" "\<And>i. 64 * k \<le> i \<Longrightarrow> \<not> data_bit d i"
  shows "length (fill_blocks len k d) = length d \<and>
    data_bit (fill_blocks len k d) i = (data_bit d i \<or> 64 * k \<le> i \<and> i < 64 * k + len)"
  using assms
proof (induction len k d rule: fill_blocks.induct)
  case (1 len k d)
  note prem = "1.prems"
  consider (full) "len \<ge> 64" | (part) "len < 64" "len > 0" | (none) "len = 0" by linarith
  then show ?case
  proof cases
    case full
    then have k: "k < length d" using prem by linarith
    have up: "data_bit (d[k := - 1]) j \<longleftrightarrow> data_bit d j \<or> 64 * k \<le> j \<and> j < 64 * k + 64" for j
      using k prem(2) by (auto simp: data_bit_def nth_list_update)
    have "64 * (k + 1) + (len - 64) \<le> 64 * length (d[k := - 1])" using full prem(1) by simp
    moreover have "\<not> data_bit (d[k := - 1]) j" if "64 * (k + 1) \<le> j" for j
      using that prem(2) by (simp add: up)
    ultimately show ?thesis using "1.IH" [OF full] full by (simp add: fill_blocks.simps [of len k d] up) auto
  next
    case part
    have k: "k < length d" using part prem(1) by linarith
    have mask: "bit (wrapping_shr (- 1) (64 - len) :: u64) j \<longleftrightarrow> j < len" for j
      using part by (auto simp: wrapping_shr_def bit_drop_bit_eq bit_mask_iff dest: bit_imp_le_length)
    have pos: "j div 64 = k \<and> j mod 64 < len \<longleftrightarrow> 64 * k \<le> j \<and> j < 64 * k + len" for j
    proof
      assume "64 * k \<le> j \<and> j < 64 * k + len"
      moreover from this have "j div 64 = k" using part by (intro div_nat_eqI) simp_all
      ultimately show "j div 64 = k \<and> j mod 64 < len" using mult_div_mod_eq [of 64 j] by simp
    qed (use mult_div_mod_eq [of 64 j] part in simp)
    have "data_bit (d[k := wrapping_shr (- 1) (64 - len)]) i
        \<longleftrightarrow> data_bit d i \<or> (i div 64 = k \<and> i mod 64 < len)"
    proof (cases "i div 64 = k")
      case True
      have "\<not> data_bit d i" using True mult_div_mod_eq [of 64 i] by (intro prem(2)) simp
      moreover have "i < 64 * length d" using True k mult_div_mod_eq [of 64 i] mod_less_divisor [of 64 i] by linarith
      ultimately show ?thesis using True k by (simp add: data_bit_def mask)
    next
      case False
      then show ?thesis by (simp add: data_bit_def nth_list_update)
    qed
    then show ?thesis unfolding pos using part by (simp add: fill_blocks.simps [of len k d])
  next
    case none
    then show ?thesis by (auto simp: fill_blocks.simps [of 0 k d])
  qed
qed

lemma fixed_new_all_ones_ones:
  assumes "len \<le> N * 64"
  shows "\<exists>d. fixed_new_all_ones N len = Some d \<and> fixed_ok N d \<and> ones d = {..<len}"
proof -
  have none: "\<not> data_bit (replicate N 0) i" for i by (simp add: data_bit_replicate)
  have f: "length (fill_blocks len 0 (replicate N 0)) = N
      \<and> data_bit (fill_blocks len 0 (replicate N 0)) i = (i < len)" for i
    using fill_blocks_ones [of 0 len "replicate N 0" i] assms none by simp
  then have "ones (fill_blocks len 0 (replicate N 0)) = {..<len}" by (simp add: set_eq_iff)
  then show ?thesis using assms f by (simp add: fixed_new_all_ones_def fixed_new_all_zeros_def fixed_ok_def)
qed

lemma fixed_set_many_ok:
  "fixed_ok N d \<Longrightarrow> \<forall>x \<in> set xs. x < 64 * N \<Longrightarrow>
     \<exists>d'. fixed_set_many d xs = Some d' \<and> fixed_ok N d' \<and> ones d' = ones d \<union> set xs"
proof (induction xs arbitrary: d)
  case (Cons x xs)
  obtain d1 where d1: "fixed_set d x = Some (d1, x \<notin> ones d)" "fixed_ok N d1" "ones d1 = insert x (ones d)"
    using fixed_set_ok [of N d x] Cons.prems by auto
  with Cons.IH [of d1] Cons.prems(2) obtain d' where
    "fixed_set_many d1 xs = Some d'" "fixed_ok N d'" "ones d' = ones d1 \<union> set xs" by auto
  then show ?case using d1 by (auto simp: fixed_set_many_def)
qed (simp add: fixed_set_many_def)

lemma fixed_default_ok [simp]: "fixed_ok N (fixed_default N)" "ones (fixed_default N) = {}"
  by (auto simp: fixed_ok_def fixed_default_def data_bit_replicate)

section \<open>Properties\<close>

text \<open>C23: a fixed bitmap that is built from indices within its capacity holds exactly these indices;
  \<open>get\<close> is membership, the indices come out in ascending order, and each bulk operation with a slice
  is the set operation, restricted to the capacity, whose flag says whether the set changed.\<close>

theorem fixed_bitmap_sets:
  assumes "\<forall>x \<in> set xs. x < 64 * N"
  shows "\<exists>d. fixed_from_indices N xs = Some d \<and> ones d = set xs
     \<and> fixed_get d i = (i \<in> set xs)
     \<and> sl_iter_one_indices (fixed_slice d) = sorted_list_of_set (set xs)
     \<and> sl_count_ones (fixed_slice d) = card (set xs)
     \<and> (let A = set xs; B = ones (iter_data s); cap = {..<64 * N} in
          ones (fst (fixed_and_with d s)) = A \<inter> B \<and> snd (fixed_and_with d s) = (A \<inter> B \<noteq> A)
          \<and> ones (fst (fixed_clear_from d s)) = A - B \<and> snd (fixed_clear_from d s) = (A - B \<noteq> A)
          \<and> ones (fst (fixed_or_with d s)) = A \<union> B \<inter> cap \<and> snd (fixed_or_with d s) = (A \<union> B \<inter> cap \<noteq> A)
          \<and> ones (fst (fixed_xor_with d s)) = (A - B) \<union> (B \<inter> cap - A)
          \<and> snd (fixed_xor_with d s) = ((A - B) \<union> (B \<inter> cap - A) \<noteq> A))"
proof -
  obtain d where many: "fixed_set_many (fixed_default N) xs = Some d" "fixed_ok N d"
      "ones d = ones (fixed_default N) \<union> set xs"
    using fixed_set_many_ok [OF fixed_default_ok(1) assms] by blast
  then have d: "fixed_from_indices N xs = Some d" "length d = N" "ones d = set xs"
    by (simp_all only: fixed_from_indices_def fixed_ok_def fixed_default_ok(2) Un_empty_left)
  have bound: "set xs \<subseteq> {..<64 * N}" using assms by auto
  have changed: "snd (zip_update f d e) = (ones (fst (zip_update f d e)) \<noteq> set xs)" if "bitwise f g" for f g e
  proof -
    have "fst (zip_update f d e) = d" if "ones (fst (zip_update f d e)) = ones d"
      using that zip_update_bits(1) [OF \<open>bitwise f g\<close>] by (intro data_eqI) (auto simp: set_eq_iff)
    then have "fst (zip_update f d e) = d \<longleftrightarrow> ones (fst (zip_update f d e)) = ones d" by metis
    then show ?thesis unfolding zip_update_changed d(3) by simp
  qed
  have res: "ones (fst (zip_update f d e)) = {i. i < 64 * N \<and> g (i \<in> set xs) (i \<in> ones e)}" if "bitwise f g" for f g e
    using zip_update_bits(2) [OF that, of d e] d(2) d(3) [symmetric] by auto
  note r = res [OF bitwise_ops(4)] res [OF bitwise_ops(5)] res [OF bitwise_ops(6)] res [OF bitwise_ops(7)]
  note c = changed [OF bitwise_ops(4)] changed [OF bitwise_ops(5)] changed [OF bitwise_ops(6)] changed [OF bitwise_ops(7)]
  have get: "fixed_get d i = (i \<in> set xs)" unfolding fixed_get_bit d(3) [symmetric] by simp
  let ?B = "ones (iter_data s)" and ?cap = "{..<64 * N}"
  have b: "i \<in> set xs \<Longrightarrow> i < 64 * N" for i using bound by auto
  have sets: "ones (fst (fixed_and_with d s)) = set xs \<inter> ?B" "ones (fst (fixed_clear_from d s)) = set xs - ?B"
    "ones (fst (fixed_or_with d s)) = set xs \<union> ?B \<inter> ?cap"
    "ones (fst (fixed_xor_with d s)) = (set xs - ?B) \<union> (?B \<inter> ?cap - set xs)"
    unfolding fixed_and_with_def fixed_clear_from_def fixed_or_with_def fixed_xor_with_def r by (auto dest: b)
  have flags: "snd (fixed_and_with d s) = (ones (fst (fixed_and_with d s)) \<noteq> set xs)"
    "snd (fixed_clear_from d s) = (ones (fst (fixed_clear_from d s)) \<noteq> set xs)"
    "snd (fixed_or_with d s) = (ones (fst (fixed_or_with d s)) \<noteq> set xs)"
    "snd (fixed_xor_with d s) = (ones (fst (fixed_xor_with d s)) \<noteq> set xs)"
    unfolding fixed_and_with_def fixed_clear_from_def fixed_or_with_def fixed_xor_with_def c by (rule refl)+
  show ?thesis
    by (rule exI [of _ d]) (simp only: Let_def flags sets d(1,3) get sl_queries fixed_slice_def
        BitmapSlice.simps simp_thms)
qed

theorem fixed_bitmap_sets_witness:
  "\<exists>d. fixed_from_indices 2 [100, 3, 64] = Some d \<and> ones d = {3, 64, 100}
     \<and> sl_iter_one_indices (fixed_slice d) = sorted_list_of_set (set [100, 3, 64])"
  using fixed_bitmap_sets [of "[100, 3, 64]" 2] by fastforce

text \<open>what a slice reports about its bits. Overlap, overlap count, emptiness and the number of
  ones are those of the sets; flipping is the complement within the length; the subset test is right
  for a slice that is not longer than the one it is compared with.\<close>

lemma slice_queries:
  assumes "slice_ok a" "slice_ok b"
  shows "overlaps_with a b = (ones (iter_data a) \<inter> ones (iter_data b) \<noteq> {})
     \<and> count_overlapping_with a b = card (ones (iter_data a) \<inter> ones (iter_data b))
     \<and> sl_is_all_zeros a = (ones (iter_data a) = {})
     \<and> ones (iter_data (flipped a)) = {..<sl_len a} - ones (iter_data a)
     \<and> ones (iter_data (cleared_from a b)) = ones (iter_data a) - ones (iter_data b)
     \<and> (sl_len a \<le> sl_len b \<longrightarrow> is_subset_of a b = (ones (iter_data a) \<subseteq> ones (iter_data b)))
     \<and> slice_ok (flipped a)"
proof -
  have a: "length (iter_data a) = (sl_len a + 63) div 64" using assms by (simp add: slice_ok_def)
  have flip: "data_bit (iter_data (flipped a)) i = (i < sl_len a \<and> \<not> data_bit (iter_data a) i)" for i
    using data_bit_flip [OF a] by (simp add: flipped_def)
  have "ones (iter_data (cleared_from a b)) = ones (iter_data a) - ones (iter_data b)"
    by (auto simp: cleared_from_def data_bit_zip_zeros [OF bitwise_ops(4)] dest: data_bit_less)
  moreover have "ones (iter_data (flipped a)) = {..<sl_len a} - ones (iter_data a)" by (auto simp: flip)
  moreover have "slice_ok (flipped a)"
    using assms(1) flip by (auto simp: slice_ok_def) (simp_all add: flipped_def)
  moreover have "is_subset_of a b = (ones (iter_data a) \<subseteq> ones (iter_data b))" if "sl_len a \<le> sl_len b"
  proof -
    have "i < 64 * length (iter_data b)" if "data_bit (iter_data a) i" for i
    proof -
      have "i < sl_len b" using assms(1) that \<open>sl_len a \<le> sl_len b\<close> by (auto simp: slice_ok_def)
      also have "sl_len b \<le> 64 * ((sl_len b + 63) div 64)" by linarith
      finally show ?thesis using assms(2) by (simp add: slice_ok_def)
    qed
    then show ?thesis by (auto simp: is_subset_of_iff)
  qed
  ultimately show ?thesis by (simp add: sl_queries)
qed

lemma is_subset_of_ignores_the_rest: "is_subset_of (fixed_slice [0, 1]) (fixed_slice [0])"
  by (simp add: is_subset_of_def fixed_slice_def)

lemma fixed_count_zeros_too_few:
  assumes "N < 2 ^ 58" "0 < N"
  shows "sl_count_zeros (fixed_slice (replicate N 0)) = 64 * N - 64"
proof -
  have "count_zeros64 0 = 64" using count_zeros_block [of 0] count_ones_0 [of "0 :: u64"] by simp
  then have "sum_list (map count_zeros64 (replicate N 0)) = 64 * N" by (simp add: sum_list_replicate)
  then have "sl_count_zeros (fixed_slice (replicate N 0)) = ((64 * N - 64) + 2 ^ 64) mod 2 ^ 64"
    using assms(2) by (simp add: sl_count_zeros_def fixed_slice_def fixed_len_def)
  also have "\<dots> = 64 * N - 64" using assms(1) unfolding mod_add_self2 by (intro mod_less) simp
  finally show ?thesis .
qed

end
