(* ===== verification/Bitmap_Growing.thy ===== *)
theory Bitmap_Growing
  imports Bitmap_Slice
begin

text \<open>
  Bitmaps that grow (\<open>liblisa/src/utils/bitmap/growing.rs\<close>): a vector of 64-bit blocks and the number
  of bits in use. The vector may have more blocks than the length needs; several operations rely on
  the bits past the length being zero, which is the invariant of this theory. Allocation is assumed
  to succeed, except for the request of \<open>2 ^ 58\<close> blocks that \<open>or_with\<close> makes for two empty bitmaps.
\<close>

record GrowingBitmap =
  gb_data :: "u64 list"
  gb_len :: nat

definition gb_new :: GrowingBitmap where
  "gb_new = \<lparr>gb_data = [], gb_len = 0\<rparr>"

text \<open>\<open>Vec::resize\<close> with zero.\<close>

definition vec_resize :: "nat \<Rightarrow> u64 list \<Rightarrow> u64 list" where
  "vec_resize n d = take n d @ replicate (n - length d) 0"

definition div_ceil64 :: "nat \<Rightarrow> nat" where
  "div_ceil64 n = (n + 63) div 64"

text \<open>The last block loses the bits past the length, whichever block it is.\<close>

definition zeroize_past_end :: "GrowingBitmap \<Rightarrow> GrowingBitmap" where
  "zeroize_past_end b =
     (if gb_len b mod 64 \<noteq> 0 \<and> gb_data b \<noteq> []
      then (let last_index = length (gb_data b) - 1 in
            b\<lparr>gb_data := (gb_data b)[last_index := gb_data b ! last_index AND (wrapping_shl 1 (gb_len b mod 64) - 1)]\<rparr>)
      else b)"

definition gb_from_slice :: "BitmapSlice \<Rightarrow> GrowingBitmap" where
  "gb_from_slice s = \<lparr>gb_data = iter_data s, gb_len = sl_len s\<rparr>"

definition gb_new_all_ones :: "nat \<Rightarrow> GrowingBitmap" where
  "gb_new_all_ones num = zeroize_past_end \<lparr>gb_data = replicate (div_ceil64 num) (- 1), gb_len = num\<rparr>"

definition gb_new_all_zeros :: "nat \<Rightarrow> GrowingBitmap" where
  "gb_new_all_zeros num = \<lparr>gb_data = replicate (num div 64 + 1) 0, gb_len = num\<rparr>"

definition gb_get :: "GrowingBitmap \<Rightarrow> nat \<Rightarrow> bool" where
  "gb_get b n =
     (let (index, offset) = block_index n in
      wrapping_shr (if index < length (gb_data b) then gb_data b ! index else 0) offset AND 1 \<noteq> 0)"

definition get_then_reset :: "GrowingBitmap \<Rightarrow> nat \<Rightarrow> GrowingBitmap \<times> bool" where
  "get_then_reset b n =
     (let (index, offset) = block_index n; m = wrapping_shl 1 offset in
      if index < length (gb_data b)
      then (b\<lparr>gb_data := (gb_data b)[index := gb_data b ! index AND NOT m]\<rparr>, gb_data b ! index AND m \<noteq> 0)
      else (b, False))"

definition internal_resize :: "GrowingBitmap \<Rightarrow> nat \<Rightarrow> nat \<Rightarrow> GrowingBitmap" where
  "internal_resize b n index =
     b\<lparr>gb_len := n + 1, gb_data := (if length (gb_data b) \<le> index then vec_resize (index + 1) (gb_data b) else gb_data b)\<rparr>"

definition gb_set :: "GrowingBitmap \<Rightarrow> nat \<Rightarrow> (GrowingBitmap \<times> bool) option" where
  "gb_set b0 n =
     (let (index, offset) = block_index n;
          b = (if n \<ge> gb_len b0 then internal_resize b0 n index else b0);
          m = wrapping_shl 1 offset
      in if index < length (gb_data b)
         then Some (b\<lparr>gb_data := (gb_data b)[index := gb_data b ! index OR m]\<rparr>, gb_data b ! index AND m = 0)
         else None)"

definition gb_reset :: "GrowingBitmap \<Rightarrow> nat \<Rightarrow> (GrowingBitmap \<times> bool) option" where
  "gb_reset b0 n =
     (let (index, offset) = block_index n;
          b = (if n \<ge> gb_len b0 then internal_resize b0 n index else b0);
          m = wrapping_shl 1 offset
      in if index < length (gb_data b)
         then Some (b\<lparr>gb_data := (gb_data b)[index := gb_data b ! index AND NOT m]\<rparr>, gb_data b ! index AND m \<noteq> 0)
         else None)"

definition gb_and_with :: "GrowingBitmap \<Rightarrow> BitmapSlice \<Rightarrow> GrowingBitmap \<times> bool" where
  "gb_and_with b s = (let (d, c) = zip_update (\<lambda>x y. x AND y) (gb_data b) (iter_data s) in (b\<lparr>gb_data := d\<rparr>, c))"

definition gb_or_with :: "GrowingBitmap \<Rightarrow> BitmapSlice \<Rightarrow> (GrowingBitmap \<times> bool) option" where
  "gb_or_with b0 s =
     (let new_len = max (gb_len b0) (sl_len s) in
      if new_len = 0 then None
      else (let b = internal_resize b0 (new_len - 1) ((new_len - 1) div 64);
                (d, c) = zip_update (\<lambda>x y. x OR y) (gb_data b) (iter_data s)
            in Some (b\<lparr>gb_data := d\<rparr>, c)))"

definition gb_clear_from :: "GrowingBitmap \<Rightarrow> BitmapSlice \<Rightarrow> GrowingBitmap" where
  "gb_clear_from b s =
     b\<lparr>gb_data := map (\<lambda>(x, y). x AND NOT y) (zip (gb_data b) (iter_data s)) @ drop (length (iter_data s)) (gb_data b)\<rparr>"

text \<open>The loop of \<open>extend\<close> carries the block and the offset at which the next bit goes.\<close>

fun extend_loop :: "bool list \<Rightarrow> nat \<Rightarrow> nat \<Rightarrow> GrowingBitmap \<Rightarrow> GrowingBitmap" where
  "extend_loop [] next_index next_offset b = b"
| "extend_loop (item # items) next_index next_offset b =
     (let d = (gb_data b)[next_index := gb_data b ! next_index OR wrapping_shl (of_bool_word item) next_offset];
          b1 = b\<lparr>gb_data := d, gb_len := gb_len b + 1\<rparr>
      in if next_offset + 1 = 64
         then extend_loop items (next_index + 1) 0
                (b1\<lparr>gb_data := (if next_index + 1 \<ge> length d then vec_resize (next_index + 2) d else d)\<rparr>)
         else extend_loop items next_index (next_offset + 1) b1)"

definition gb_extend :: "GrowingBitmap \<Rightarrow> bool list \<Rightarrow> GrowingBitmap" where
  "gb_extend b items =
     (let (next_index, next_offset) = block_index (gb_len b) in
      extend_loop items next_index next_offset
        (b\<lparr>gb_data := (if next_index \<ge> length (gb_data b) then vec_resize (next_index + 1) (gb_data b) else gb_data b)\<rparr>))"

definition gb_from_bools :: "bool list \<Rightarrow> GrowingBitmap" where
  "gb_from_bools bs = gb_extend gb_new bs"

definition fill_with_ones :: "GrowingBitmap \<Rightarrow> GrowingBitmap" where
  "fill_with_ones b = zeroize_past_end (b\<lparr>gb_data := replicate (length (gb_data b)) (- 1)\<rparr>)"

definition gb_count_ones :: "GrowingBitmap \<Rightarrow> nat" where
  "gb_count_ones b = sum_list (map count_ones (gb_data b))"

definition gb_count_zeros :: "GrowingBitmap \<Rightarrow> nat" where
  "gb_count_zeros b =
     (sum_list (map count_zeros64 (gb_data b)) + 2 ^ 64 - (64 - gb_len b mod 64)) mod 2 ^ 64"

definition gb_is_all_zeros :: "GrowingBitmap \<Rightarrow> bool" where
  "gb_is_all_zeros b \<longleftrightarrow> list_all (\<lambda>n. n = 0) (gb_data b)"

definition gb_is_all_ones :: "GrowingBitmap \<Rightarrow> bool" where
  "gb_is_all_ones b \<longleftrightarrow>
     (let d = gb_data b;
          (full, ok) = (if gb_len b mod 64 = 0 then (take (gb_len b div 64) d, True)
                        else if d \<noteq> [] then (butlast d, last d = wrapping_shl 1 (gb_len b mod 64) - 1)
                        else ([], True))
      in ok \<and> list_all (\<lambda>n. n = - 1) full)"

text \<open>\<open>remove\<close> walks over the bits; the length wraps below zero for an empty bitmap.\<close>

fun remove_loop :: "nat list \<Rightarrow> GrowingBitmap \<Rightarrow> GrowingBitmap option" where
  "remove_loop [] b = Some b"
| "remove_loop (i # is) b =
     (case (if gb_get b (i + 1) then gb_set b i else gb_reset b i) of
        None \<Rightarrow> None
      | Some (b', _) \<Rightarrow> remove_loop is b')"

definition gb_remove :: "GrowingBitmap \<Rightarrow> nat \<Rightarrow> (GrowingBitmap \<times> bool) option" where
  "gb_remove b n =
     map_option (\<lambda>b'. (b'\<lparr>gb_len := (gb_len b' + 2 ^ 64 - 1) mod 2 ^ 64\<rparr>, gb_get b n))
       (remove_loop [n..<gb_len b] b)"

text \<open>The blocks are shifted from the front, each taking the low bits of the next one.\<close>

fun shift_blocks :: "nat \<Rightarrow> u64 list \<Rightarrow> u64 list" where
  "shift_blocks shift [] = []"
| "shift_blocks shift (x # xs) =
     (drop_bit shift x OR push_bit (64 - shift) (case xs of [] \<Rightarrow> 0 | y # _ \<Rightarrow> y)) # shift_blocks shift xs"

definition remove_front :: "GrowingBitmap \<Rightarrow> nat \<Rightarrow> GrowingBitmap option" where
  "remove_front b num0 =
     (let num = min num0 (gb_len b);
          d = drop (num div 64) (gb_data b);
          shift = num mod 64;
          d1 = (if shift \<noteq> 0 then shift_blocks shift d else d);
          new_len = gb_len b - num
      in if num div 64 \<le> length (gb_data b)
         then Some (zeroize_past_end (b\<lparr>gb_data := take (div_ceil64 new_len) d1, gb_len := new_len\<rparr>))
         else None)"

definition gb_resize :: "GrowingBitmap \<Rightarrow> nat \<Rightarrow> GrowingBitmap" where
  "gb_resize b len =
     zeroize_past_end (b\<lparr>gb_len := len,
       gb_data := (if div_ceil64 len \<noteq> length (gb_data b) then vec_resize (div_ceil64 len) (gb_data b) else gb_data b)\<rparr>)"

text \<open>The assertion is \<open>num >= self.len\<close>; the difference wraps.\<close>

definition remove_back :: "GrowingBitmap \<Rightarrow> nat \<Rightarrow> GrowingBitmap option" where
  "remove_back b num =
     (if num \<ge> gb_len b
      then (let len = (gb_len b + 2 ^ 64 - num) mod 2 ^ 64 in
            Some (zeroize_past_end (b\<lparr>gb_len := len, gb_data := vec_resize (div_ceil64 len) (gb_data b)\<rparr>)))
      else None)"

text \<open>The searches look at the blocks from the one that holds the start.\<close>

definition first_bit_set :: "GrowingBitmap \<Rightarrow> nat option" where
  "first_bit_set b =
     map_option (\<lambda>(index, val). index * 64 + trailing_zeros val)
       (find (\<lambda>(_, v). v \<noteq> 0) (enumerate 0 (gb_data b)))"

definition search_from :: "nat \<Rightarrow> u64 list \<Rightarrow> nat option" where
  "search_from start_index d =
     map_option (\<lambda>(index, val). start_index div 64 * 64 + index * 64 + trailing_zeros val)
       (find (\<lambda>(_, v). v \<noteq> 0)
         (map (\<lambda>(index, v). if index = 0 then (index, v AND NOT (wrapping_shl 1 (start_index mod 64) - 1)) else (index, v))
           (enumerate 0 d)))"

definition first_bit_set_from :: "GrowingBitmap \<Rightarrow> nat \<Rightarrow> nat option" where
  "first_bit_set_from b start_index = search_from start_index (drop (start_index div 64) (gb_data b))"

definition first_bit_unset_from :: "GrowingBitmap \<Rightarrow> nat \<Rightarrow> nat option" where
  "first_bit_unset_from b start_index =
     Option.bind (search_from start_index (map (NOT) (drop (start_index div 64) (gb_data b))))
       (\<lambda>n. if n \<ge> gb_len b then None else Some n)"

definition gb_is_superset_of :: "GrowingBitmap \<Rightarrow> GrowingBitmap \<Rightarrow> bool" where
  "gb_is_superset_of b c \<longleftrightarrow>
     (if gb_len c > gb_len b \<and> first_bit_set_from c (gb_len b) \<noteq> None then False
      else list_all (\<lambda>(x, y). x OR y = x) (zip (gb_data b) (gb_data c)))"

definition gb_overlaps_with :: "GrowingBitmap \<Rightarrow> BitmapSlice \<Rightarrow> bool" where
  "gb_overlaps_with b s \<longleftrightarrow> list_ex (\<lambda>(x, y). x AND y \<noteq> 0) (zip (gb_data b) (iter_data s))"

text \<open>\<open>GrowingBitmapOnesIterator\<close>: what is left of the current block, and the blocks after it.\<close>

record OnesIterator =
  oi_data :: "u64 list"
  oi_base_index :: nat
  oi_current_element :: u64

function ones_next :: "OnesIterator \<Rightarrow> (OnesIterator \<times> nat) option" where
  "ones_next it =
     (if oi_current_element it = 0
      then (case oi_data it of
              next # rest \<Rightarrow>
                ones_next \<lparr>oi_data = rest, oi_base_index = oi_base_index it + 64, oi_current_element = next\<rparr>
            | [] \<Rightarrow> None)
      else (let offset = trailing_zeros (oi_current_element it) in
            Some (it\<lparr>oi_current_element := oi_current_element it AND wrapping_shl (wrapping_shl (- 1) offset) 1\<rparr>,
                  oi_base_index it + offset)))"
  by auto

termination by (relation "measure (\<lambda>it. length (oi_data it))") auto

definition ones_iterator :: "GrowingBitmap \<Rightarrow> OnesIterator" where
  "ones_iterator b =
     (case gb_data b of
        [] \<Rightarrow> \<lparr>oi_data = [], oi_base_index = 0, oi_current_element = 0\<rparr>
      | x # xs \<Rightarrow> \<lparr>oi_data = xs, oi_base_index = 0, oi_current_element = x\<rparr>)"

text \<open>\<open>GrowingBitmapIterator\<close> counts the bits that are left.\<close>

fun bits_iter :: "nat \<Rightarrow> nat \<Rightarrow> u64 list \<Rightarrow> bool list option" where
  "bits_iter 0 index d = Some []"
| "bits_iter (Suc new_len) index [] = None"
| "bits_iter (Suc new_len) index (x # xs) =
     map_option (\<lambda>bs. (x AND wrapping_shl 1 index \<noteq> 0) # bs)
       (if index + 1 \<ge> 64 then bits_iter new_len 0 xs else bits_iter new_len (index + 1) (x # xs))"

definition gb_iter :: "GrowingBitmap \<Rightarrow> bool list option" where
  "gb_iter b = bits_iter (gb_len b) 0 (gb_data b)"

definition gb_append :: "GrowingBitmap \<Rightarrow> GrowingBitmap \<Rightarrow> GrowingBitmap option" where
  "gb_append b c = map_option (gb_extend b) (gb_iter c)"

definition set_range :: "GrowingBitmap \<Rightarrow> nat \<Rightarrow> nat \<Rightarrow> GrowingBitmap option" where
  "set_range b lo hi =
     foldl (\<lambda>r n. Option.bind r (\<lambda>b. map_option fst (gb_set b n))) (Some b) [lo..<hi]"

definition clear_range :: "GrowingBitmap \<Rightarrow> nat \<Rightarrow> nat \<Rightarrow> GrowingBitmap option" where
  "clear_range b lo hi =
     foldl (\<lambda>r n. Option.bind r (\<lambda>b. map_option fst (gb_reset b n))) (Some b) [lo..<hi]"

definition set_all_zero :: "GrowingBitmap \<Rightarrow> GrowingBitmap" where
  "set_all_zero b = b\<lparr>gb_data := map (\<lambda>_. 0) (gb_data b)\<rparr>"

definition gb_slice :: "GrowingBitmap \<Rightarrow> BitmapSlice" where
  "gb_slice b = \<lparr>sl_get = gb_get b, sl_len = gb_len b, iter_data = gb_data b\<rparr>"

definition gb_bitand :: "GrowingBitmap \<Rightarrow> GrowingBitmap \<Rightarrow> GrowingBitmap" where
  "gb_bitand b c =
     \<lparr>gb_data = map (\<lambda>(x, y). x AND y) (zip (gb_data b) (gb_data c)), gb_len = min (gb_len b) (gb_len c)\<rparr>"

definition gb_bitor :: "GrowingBitmap \<Rightarrow> GrowingBitmap \<Rightarrow> GrowingBitmap" where
  "gb_bitor b c =
     (let n = max (length (gb_data b)) (length (gb_data c));
          at = (\<lambda>d i. if i < length d then d ! i else 0 :: u64)
      in \<lparr>gb_data = map (\<lambda>i. at (gb_data b) i OR at (gb_data c) i) [0..<n], gb_len = max (gb_len b) (gb_len c)\<rparr>)"

definition gb_bitand_assign :: "GrowingBitmap \<Rightarrow> GrowingBitmap \<Rightarrow> GrowingBitmap" where
  "gb_bitand_assign b c = b\<lparr>gb_data := map (\<lambda>(x, y). x AND y) (zip_zeros (gb_data b) (gb_data c))\<rparr>"

definition gb_bitor_assign :: "GrowingBitmap \<Rightarrow> GrowingBitmap \<Rightarrow> GrowingBitmap" where
  "gb_bitor_assign b0 c =
     (let b = (if gb_len b0 < gb_len c then gb_resize b0 (gb_len c) else b0) in
      b\<lparr>gb_data := map (\<lambda>(x, y). x OR y) (zip_zeros (gb_data b) (gb_data c))\<rparr>)"

section \<open>Dense sets\<close>

record DenseSet =
  ds_bitmap :: GrowingBitmap
  num_items :: nat

definition ds_new :: DenseSet where
  "ds_new = \<lparr>ds_bitmap = gb_new, num_items = 0\<rparr>"

definition ds_contains :: "DenseSet \<Rightarrow> nat \<Rightarrow> bool" where
  "ds_contains s x = gb_get (ds_bitmap s) x"

definition ds_set :: "DenseSet \<Rightarrow> nat \<Rightarrow> (DenseSet \<times> bool) option" where
  "ds_set s index =
     map_option (\<lambda>(b, changed).
         if changed then (s\<lparr>ds_bitmap := b, num_items := num_items s + 1\<rparr>, True) else (s\<lparr>ds_bitmap := b\<rparr>, False))
       (gb_set (ds_bitmap s) index)"

section \<open>The invariant\<close>

definition gb_ok :: "GrowingBitmap \<Rightarrow> bool" where
  "gb_ok b \<longleftrightarrow> gb_len b \<le> 64 * length (gb_data b) \<and> (\<forall>i. data_bit (gb_data b) i \<longrightarrow> i < gb_len b)"

definition gb_ones :: "GrowingBitmap \<Rightarrow> nat set" where
  "gb_ones b = ones (gb_data b)"

text \<open>The bits in use, as a list.\<close>

definition to_bits :: "GrowingBitmap \<Rightarrow> bool list" where
  "to_bits b = map (data_bit (gb_data b)) [0..<gb_len b]"

lemma length_to_bits [simp]: "length (to_bits b) = gb_len b"
  by (simp add: to_bits_def)

lemma nth_to_bits [simp]: "i < gb_len b \<Longrightarrow> to_bits b ! i = data_bit (gb_data b) i"
  by (simp add: to_bits_def)

lemma block_bounds: "64 * (n div 64) \<le> n" "n < 64 * (n div 64) + 64" for n :: nat
  using mult_div_mod_eq [of 64 n] mod_less_divisor [of 64 n] by simp_all

lemma div_ceil64_bounds: "n \<le> 64 * div_ceil64 n" "64 * div_ceil64 n < n + 64"
  using block_bounds [of "n + 63"] by (simp_all add: div_ceil64_def)

lemma gb_get_bit: "gb_get b i = data_bit (gb_data b) i"
  using fixed_get_bit [of "gb_data b" i] by (simp add: gb_get_def fixed_get_def)

lemma data_bit_vec_resize [simp]:
  "data_bit (vec_resize n d) i \<longleftrightarrow> i < 64 * n \<and> data_bit d i"
proof -
  have "data_bit (take n d) i \<longleftrightarrow> i < 64 * n \<and> data_bit d i"
    by (auto simp: data_bit_def less_mult_imp_div_less mult.commute)
  then show ?thesis
    by (auto simp: vec_resize_def data_bit_append data_bit_replicate dest: data_bit_less)
qed

lemma length_vec_resize [simp]: "length (vec_resize n d) = n"
  by (simp add: vec_resize_def)

lemma gb_ok_new [simp]: "gb_ok gb_new" "gb_ones gb_new = {}" "to_bits gb_new = []"
  by (auto simp: gb_ok_def gb_new_def gb_ones_def to_bits_def ones_def)

lemma internal_resize_ok:
  assumes "gb_ok b" "gb_len b \<le> n"
  shows "gb_ok (internal_resize b n (n div 64))" "data_bit (gb_data (internal_resize b n (n div 64))) i = data_bit (gb_data b) i"
    "gb_len (internal_resize b n (n div 64)) = n + 1" "n div 64 < length (gb_data (internal_resize b n (n div 64)))"
proof -
  have n: "n < 64 * (n div 64 + 1)" using block_bounds(2) [of n] by simp
  have same: "data_bit (gb_data (internal_resize b n (n div 64))) i = data_bit (gb_data b) i" for i
    using assms n by (auto simp: internal_resize_def gb_ok_def dest: data_bit_less)
  show "data_bit (gb_data (internal_resize b n (n div 64))) i = data_bit (gb_data b) i" by (rule same)
  show len: "gb_len (internal_resize b n (n div 64)) = n + 1" "n div 64 < length (gb_data (internal_resize b n (n div 64)))"
    by (simp_all add: internal_resize_def)
  show "gb_ok (internal_resize b n (n div 64))"
    unfolding gb_ok_def same len(1)
  proof (intro conjI allI impI)
    show "n + 1 \<le> 64 * length (gb_data (internal_resize b n (n div 64)))" using n len(2) by linarith
    show "data_bit (gb_data b) i \<Longrightarrow> i < n + 1" for i using assms by (force simp: gb_ok_def)
  qed
qed

text \<open>Before \<open>set\<close> and \<open>reset\<close> touch a bit they make room for it.\<close>

lemma room:
  assumes "gb_ok b"
  obtains b' where "(if n \<ge> gb_len b then internal_resize b n (n div 64) else b) = b'" "gb_ok b'"
    "\<And>i. data_bit (gb_data b') i = data_bit (gb_data b) i" "gb_len b' = max (gb_len b) (n + 1)"
    "n div 64 < length (gb_data b')" "n < 64 * length (gb_data b')"
proof (cases "n \<ge> gb_len b")
  case True
  note r = internal_resize_ok [OF assms True]
  have "n < 64 * length (gb_data (internal_resize b n (n div 64)))"
    using r(4) block_bounds(2) [of n] by linarith
  then show thesis using that [OF _ r(1,2) _ r(4)] r(3) True by simp
next
  case False
  then have "n < 64 * length (gb_data b)" using assms by (auto simp: gb_ok_def)
  then show thesis using that [of b] False assms by (simp add: less_mult_imp_div_less)
qed

lemma gb_update_ok:
  assumes "gb_ok b" "n < gb_len b" "n < 64 * length (gb_data b)"
  shows "gb_ok (b\<lparr>gb_data := (gb_data b)[n div 64 := gb_data b ! (n div 64) OR wrapping_shl 1 (n mod 64)]\<rparr>)"
    "gb_ok (b\<lparr>gb_data := (gb_data b)[n div 64 := gb_data b ! (n div 64) AND NOT (wrapping_shl 1 (n mod 64))]\<rparr>)"
  using assms data_bit_update [OF assms(3)] by (auto simp: gb_ok_def)

lemma gb_set_ok:
  assumes "gb_ok b"
  shows "\<exists>b'. gb_set b n = Some (b', n \<notin> gb_ones b) \<and> gb_ok b' \<and> gb_ones b' = insert n (gb_ones b)
     \<and> gb_len b' = max (gb_len b) (n + 1)"
proof -
  obtain c where c: "(if n \<ge> gb_len b then internal_resize b n (n div 64) else b) = c" "gb_ok c"
      "\<And>i. data_bit (gb_data c) i = data_bit (gb_data b) i" "gb_len c = max (gb_len b) (n + 1)"
      "n div 64 < length (gb_data c)" "n < 64 * length (gb_data c)"
    using room [OF assms] by blast
  let ?c = "c\<lparr>gb_data := (gb_data c)[n div 64 := gb_data c ! (n div 64) OR wrapping_shl 1 (n mod 64)]\<rparr>"
  have "bit (gb_data c ! (n div 64)) (n mod 64) = data_bit (gb_data b) n"
    using c(3) [of n] c(6) by (simp add: data_bit_def)
  then have "gb_set b n = Some (?c, n \<notin> gb_ones b)"
    using c(1,5) test_bit_shl64 [of "gb_data c ! (n div 64)" n]
    by (auto simp: gb_set_def block_index_def gb_ones_def Let_def)
  moreover have "gb_ok ?c" using gb_update_ok(1) [OF c(2) _ c(6)] c(4) by simp
  moreover have "gb_ones ?c = insert n (gb_ones b)"
    using data_bit_update(1) [OF c(6)] c(3) by (simp add: gb_ones_def set_eq_iff)
  ultimately show ?thesis using c(4) by auto
qed

lemma gb_reset_ok:
  assumes "gb_ok b"
  shows "\<exists>b'. gb_reset b n = Some (b', n \<in> gb_ones b) \<and> gb_ok b' \<and> gb_ones b' = gb_ones b - {n}
     \<and> gb_len b' = max (gb_len b) (n + 1)"
proof -
  obtain c where c: "(if n \<ge> gb_len b then internal_resize b n (n div 64) else b) = c" "gb_ok c"
      "\<And>i. data_bit (gb_data c) i = data_bit (gb_data b) i" "gb_len c = max (gb_len b) (n + 1)"
      "n div 64 < length (gb_data c)" "n < 64 * length (gb_data c)"
    using room [OF assms] by blast
  let ?c = "c\<lparr>gb_data := (gb_data c)[n div 64 := gb_data c ! (n div 64) AND NOT (wrapping_shl 1 (n mod 64))]\<rparr>"
  have "bit (gb_data c ! (n div 64)) (n mod 64) = data_bit (gb_data b) n"
    using c(3) [of n] c(6) by (simp add: data_bit_def)
  then have "gb_reset b n = Some (?c, n \<in> gb_ones b)"
    using c(1,5) test_bit_shl64 [of "gb_data c ! (n div 64)" n]
    by (simp add: gb_reset_def block_index_def gb_ones_def)
  moreover have "gb_ok ?c" using gb_update_ok(2) [OF c(2) _ c(6)] c(4) by simp
  moreover have "gb_ones ?c = gb_ones b - {n}"
    using data_bit_update(2) [OF c(6)] c(3) by (simp add: gb_ones_def set_eq_iff)
  ultimately show ?thesis using c(4) by auto
qed

interpretation growing: bit_container "\<lambda>b i. Some (gb_get b i)" gb_set gb_reset gb_ones gb_ok "\<lambda>_. True"
proof
  fix b i assume w: "gb_ok b"
  show "Some (gb_get b i) = Some (i \<in> gb_ones b)" by (simp add: gb_get_bit gb_ones_def)
  show "\<exists>b'. gb_set b i = Some (b', i \<notin> gb_ones b) \<and> gb_ok b' \<and> gb_ones b' = insert i (gb_ones b)"
    using gb_set_ok [OF w] by blast
  show "\<exists>b'. gb_reset b i = Some (b', i \<in> gb_ones b) \<and> gb_ok b' \<and> gb_ones b' = gb_ones b - {i}"
    using gb_reset_ok [OF w] by blast
qed

lemma get_then_reset_ok:
  assumes "gb_ok b"
  shows "\<exists>b'. get_then_reset b n = (b', n \<in> gb_ones b) \<and> gb_ok b' \<and> gb_ones b' = gb_ones b - {n} \<and> gb_len b' = gb_len b"
proof (cases "n < 64 * length (gb_data b)")
  case True
  let ?c = "b\<lparr>gb_data := (gb_data b)[n div 64 := gb_data b ! (n div 64) AND NOT (wrapping_shl 1 (n mod 64))]\<rparr>"
  have "get_then_reset b n = (?c, n \<in> gb_ones b)"
    using True test_bit_shl64 [of "gb_data b ! (n div 64)" n]
    by (simp add: get_then_reset_def block_index_def gb_ones_def data_bit_def less_mult_imp_div_less)
  moreover have "gb_ok ?c" using assms data_bit_update(2) [OF True] by (simp add: gb_ok_def)
  moreover have "gb_ones ?c = gb_ones b - {n}" using data_bit_update(2) [OF True] by (simp add: gb_ones_def set_eq_iff)
  ultimately show ?thesis by simp
next
  case False
  then have "\<not> n div 64 < length (gb_data b)" using div_less_iff_less_mult [of 64 n "length (gb_data b)"] by simp
  moreover have "n \<notin> gb_ones b" using False by (simp add: gb_ones_def data_bit_def)
  ultimately show ?thesis using assms by (simp add: get_then_reset_def block_index_def)
qed

lemma data_bit_zeroize:
  assumes "length (gb_data b) = div_ceil64 (gb_len b)"
  shows "data_bit (gb_data (zeroize_past_end b)) i \<longleftrightarrow> data_bit (gb_data b) i \<and> i < gb_len b"
    "gb_len (zeroize_past_end b) = gb_len b" "length (gb_data (zeroize_past_end b)) = length (gb_data b)"
proof -
  let ?n = "gb_len b" and ?d = "gb_data b"
  have l: "?n \<le> 64 * length ?d" "64 * length ?d < ?n + 64" using assms div_ceil64_bounds by simp_all
  have "data_bit (gb_data (zeroize_past_end b)) i \<longleftrightarrow> data_bit ?d i \<and> i < ?n"
  proof (cases "?n mod 64 \<noteq> 0 \<and> ?d \<noteq> []")
    case True
    define k where "k = length ?d - 1"
    then have k: "length ?d = k + 1" using True by (cases ?d) simp_all
    have "?n \<noteq> 64 * (k + 1)" using True by (metis mod_mult_self1_is_0)
    then have nk: "?n div 64 = k" using l k by (intro div_nat_eqI) simp_all
    have m: "bit (wrapping_shl 1 (?n mod 64) - 1 :: u64) j \<longleftrightarrow> j < ?n mod 64" for j
      using bit_low_mask [of "?n mod 64" j] by (simp add: wrapping_shl_def)
    have upd: "gb_data (zeroize_past_end b) = ?d[k := ?d ! k AND (wrapping_shl 1 (?n mod 64) - 1)]"
      using True by (simp add: zeroize_past_end_def k_def Let_def)
    show ?thesis
    proof (cases "i div 64 = k")
      case eq: True
      then have "i < ?n \<longleftrightarrow> i mod 64 < ?n mod 64"
        using nk mult_div_mod_eq [of 64 i] mult_div_mod_eq [of 64 ?n] by linarith
      then show ?thesis unfolding upd using eq k by (auto simp: data_bit_def bit_and_iff m)
    next
      case False
      have "data_bit ?d i \<Longrightarrow> i < ?n"
      proof -
        assume "data_bit ?d i"
        then have "i div 64 < k + 1" using data_bit_less [of ?d i] k less_mult_imp_div_less [of i "k + 1" 64] by simp
        then have "i div 64 < k" using False by simp
        then show "i < ?n" using nk block_bounds [of i] block_bounds [of ?n] by linarith
      qed
      then show ?thesis unfolding upd using False by (auto simp: data_bit_def nth_list_update)
    qed
  next
    case False
    have "64 * length ?d = ?n"
    proof (cases "?d = []")
      case nonempty: False
      then obtain q where q: "?n = 64 * q" using False by auto
      have "length ?d \<le> q" "q \<le> length ?d" using l unfolding q by linarith+
      then show ?thesis unfolding q by simp
    qed (use l in simp)
    then show ?thesis using False by (auto simp: zeroize_past_end_def dest: data_bit_less)
  qed
  then show "data_bit (gb_data (zeroize_past_end b)) i \<longleftrightarrow> data_bit ?d i \<and> i < ?n" .
qed (simp_all add: zeroize_past_end_def Let_def)

section \<open>Editing is editing a list of bits\<close>

lemma to_bits_eqI:
  "gb_len b = length bs \<Longrightarrow> (\<And>i. i < length bs \<Longrightarrow> data_bit (gb_data b) i = bs ! i) \<Longrightarrow> to_bits b = bs"
  by (rule nth_equalityI) simp_all

text \<open>With just enough blocks, zeroing the last one past the length restores the invariant.\<close>

lemma zeroize_ok:
  assumes "length (gb_data b) = div_ceil64 (gb_len b)"
  shows "gb_ok (zeroize_past_end b)" "to_bits (zeroize_past_end b) = map (data_bit (gb_data b)) [0..<gb_len b]"
proof -
  note z = data_bit_zeroize [OF assms]
  show "gb_ok (zeroize_past_end b)" using z div_ceil64_bounds(1) assms by (simp add: gb_ok_def)
  show "to_bits (zeroize_past_end b) = map (data_bit (gb_data b)) [0..<gb_len b]"
    by (rule to_bits_eqI) (simp_all add: z)
qed

lemma gb_ok_past: "gb_ok b \<Longrightarrow> gb_len b \<le> i \<Longrightarrow> \<not> data_bit (gb_data b) i"
  by (auto simp: gb_ok_def)

lemma gb_resize_ok:
  assumes "gb_ok b"
  shows "gb_ok (gb_resize b n)" "to_bits (gb_resize b n) = take n (to_bits b) @ replicate (n - gb_len b) False"
proof -
  let ?d = "if div_ceil64 n \<noteq> length (gb_data b) then vec_resize (div_ceil64 n) (gb_data b) else gb_data b"
  let ?b = "b\<lparr>gb_len := n, gb_data := ?d\<rparr>"
  have len: "length (gb_data ?b) = div_ceil64 (gb_len ?b)" by simp
  have d: "data_bit ?d i \<longleftrightarrow> data_bit (gb_data b) i" if "i < n" for i
    using that div_ceil64_bounds(1) [of n] by auto
  have eq: "gb_resize b n = zeroize_past_end ?b" by (simp add: gb_resize_def)
  show "gb_ok (gb_resize b n)" unfolding eq by (rule zeroize_ok(1) [OF len])
  have "map (data_bit ?d) [0..<n] = take n (to_bits b) @ replicate (n - gb_len b) False"
    by (rule nth_equalityI) (auto simp: d nth_append gb_ok_past [OF assms])
  then show "to_bits (gb_resize b n) = take n (to_bits b) @ replicate (n - gb_len b) False"
    unfolding eq zeroize_ok(2) [OF len] by simp
qed

lemma bit_item: "q < 64 \<Longrightarrow> bit (wrapping_shl (of_bool_word v) q :: u64) j \<longleftrightarrow> v \<and> j = q"
  by (cases v) (auto simp: wrapping_shl_def bit_push_bit_iff bit_1_iff simp del: push_bit_of_1)

lemma extend_loop_ok:
  assumes "k < length (gb_data b)" "q < 64" "gb_len b = 64 * k + q" "gb_ok b"
  shows "gb_ok (extend_loop items k q b) \<and> to_bits (extend_loop items k q b) = to_bits b @ items"
  using assms
proof (induction items k q b rule: extend_loop.induct)
  case (2 item items k q b)
  let ?d = "(gb_data b)[k := gb_data b ! k OR wrapping_shl (of_bool_word item) q]"
  let ?b1 = "b\<lparr>gb_data := ?d, gb_len := gb_len b + 1\<rparr>"
  note pre = "2.prems"
  have pos: "i div 64 = k \<and> i mod 64 = q \<longleftrightarrow> i = gb_len b" for i
    using pre(2,3) mult_div_mod_eq [of 64 i] by auto
  have d: "data_bit ?d i \<longleftrightarrow> data_bit (gb_data b) i \<or> item \<and> i = gb_len b" for i
    unfolding pos [symmetric] using pre(1,2)
    by (cases "i div 64 = k") (auto simp: data_bit_def nth_list_update bit_or_iff bit_item less_mult_imp_div_less
        div_less_iff_less_mult mult.commute)
  have bits: "to_bits c = to_bits b @ [item]" if "gb_len c = gb_len b + 1" "\<And>i. i \<le> gb_len b \<Longrightarrow> data_bit (gb_data c) i = data_bit ?d i" for c
    by (rule to_bits_eqI) (use that in \<open>auto simp: nth_append d less_Suc_eq gb_ok_past [OF pre(4)]\<close>)
  have small: "data_bit ?d i \<Longrightarrow> i \<le> gb_len b" for i
    using pre(4) by (auto simp: d gb_ok_def less_imp_le)
  show ?case
  proof (cases "q + 1 = 64")
    case True
    let ?d2 = "if k + 1 \<ge> length ?d then vec_resize (k + 2) ?d else ?d"
    let ?b2 = "?b1\<lparr>gb_data := ?d2\<rparr>"
    have d2: "data_bit ?d2 i = data_bit ?d i" for i
      using small [of i] pre(3) True by auto
    have len: "k + 1 < length (gb_data ?b2)" "gb_len ?b2 = 64 * (k + 1) + 0" using pre True by auto
    have "gb_ok ?b2"
      unfolding gb_ok_def
    proof (intro conjI allI impI)
      show "gb_len ?b2 \<le> 64 * length (gb_data ?b2)"
        unfolding len(2) add_0_right using len(1) by (intro mult_le_mono2 less_imp_le)
      fix i assume "data_bit (gb_data ?b2) i"
      then have "data_bit ?d i" using d2 [of i] by simp
      then show "i < gb_len ?b2" using small by fastforce
    qed
    from "2.IH"(1) [OF refl refl True len(1) _ len(2) this] have
      "gb_ok (extend_loop items (k + 1) 0 ?b2) \<and> to_bits (extend_loop items (k + 1) 0 ?b2) = to_bits ?b2 @ items" by simp
    moreover have "to_bits ?b2 = to_bits b @ [item]" using d2 by (intro bits) simp_all
    moreover have "extend_loop (item # items) k q b = extend_loop items (k + 1) 0 ?b2"
      using True by (simp only: extend_loop.simps Let_def if_True simp_thms)
    ultimately show ?thesis by (simp only: append_assoc append.simps)
  next
    case False
    have "gb_ok ?b1" using pre small by (auto simp: gb_ok_def less_Suc_eq_le)
    from "2.IH"(2) [OF refl refl False _ _ _ this] pre False have
      "gb_ok (extend_loop items k (q + 1) ?b1) \<and> to_bits (extend_loop items k (q + 1) ?b1) = to_bits ?b1 @ items" by simp
    moreover have "to_bits ?b1 = to_bits b @ [item]" by (intro bits) simp_all
    moreover have "extend_loop (item # items) k q b = extend_loop items k (q + 1) ?b1"
      using False by (simp only: extend_loop.simps Let_def if_False simp_thms)
    ultimately show ?thesis by (simp only: append_assoc append.simps)
  qed
qed simp

lemma gb_extend_ok:
  assumes "gb_ok b"
  shows "gb_ok (gb_extend b items) \<and> to_bits (gb_extend b items) = to_bits b @ items"
proof -
  let ?k = "gb_len b div 64"
  let ?b = "b\<lparr>gb_data := (if ?k \<ge> length (gb_data b) then vec_resize (?k + 1) (gb_data b) else gb_data b)\<rparr>"
  have d: "data_bit (gb_data ?b) i = data_bit (gb_data b) i" for i
  proof -
    have "i < 64 * (?k + 1)" if "data_bit (gb_data b) i"
      using that assms block_bounds(2) [of "gb_len b"] by (force simp: gb_ok_def)
    then show ?thesis by auto
  qed
  have "gb_ok ?b" using d assms block_bounds(2) [of "gb_len b"] by (auto simp: gb_ok_def)
  moreover have "to_bits ?b = to_bits b" using d by (simp add: to_bits_def)
  ultimately show ?thesis
    using extend_loop_ok [of ?k ?b "gb_len b mod 64" items] by (simp add: gb_extend_def block_index_def split: if_splits)
qed

text \<open>Removing a bit: the loop copies every bit from its successor.\<close>

lemma set_bit_to:
  assumes "gb_ok b" "i < gb_len b"
  shows "\<exists>b' c. (if v then gb_set b i else gb_reset b i) = Some (b', c) \<and> gb_ok b' \<and> to_bits b' = (to_bits b)[i := v]"
proof -
  obtain b' c where b': "(if v then gb_set b i else gb_reset b i) = Some (b', c)" "gb_ok b'" "gb_len b' = gb_len b"
      "\<And>j. data_bit (gb_data b') j = (if j = i then v else data_bit (gb_data b) j)"
    using gb_set_ok [OF assms(1), of i] gb_reset_ok [OF assms(1), of i] assms(2)
    by (cases v) (fastforce simp: gb_ones_def set_eq_iff)+
  moreover have "to_bits b' = (to_bits b)[i := v]"
    by (rule to_bits_eqI) (simp_all add: b' nth_list_update)
  ultimately show ?thesis by blast
qed

lemma remove_loop_ok:
  assumes "gb_ok b" "n \<le> gb_len b"
  shows "\<exists>b'. remove_loop [n..<gb_len b] b = Some b' \<and> gb_ok b'
     \<and> to_bits b' = take n (to_bits b) @ (if n < gb_len b then drop (n + 1) (to_bits b) @ [False] else [])"
  using assms
proof (induction "gb_len b - n" arbitrary: n b)
  case 0
  then show ?case by simp
next
  case (Suc m)
  then have n: "n < gb_len b" by simp
  obtain b' c where b': "(if gb_get b (n + 1) then gb_set b n else gb_reset b n) = Some (b', c)" "gb_ok b'"
      "to_bits b' = (to_bits b)[n := gb_get b (n + 1)]"
    using set_bit_to [OF Suc.prems(1) n] by blast
  have len: "gb_len b' = gb_len b" using arg_cong [OF b'(3), of length] by simp
  obtain b'' where b'': "remove_loop [n + 1..<gb_len b'] b' = Some b''" "gb_ok b''"
      "to_bits b'' = take (n + 1) (to_bits b') @ (if n + 1 < gb_len b' then drop (n + 1 + 1) (to_bits b') @ [False] else [])"
  proof -
    have "m = gb_len b' - (n + 1)" "n + 1 \<le> gb_len b'" using Suc.hyps(2) len n by simp_all
    from Suc.hyps(1) [OF this(1) b'(2) this(2)] show thesis using that by blast
  qed
  have "to_bits b'' = take n (to_bits b) @ drop (n + 1) (to_bits b) @ [False]"
  proof (rule nth_equalityI)
    fix i assume "i < length (to_bits b'')"
    then have "i < gb_len b" using b''(3) len n by (auto split: if_splits)
    moreover have "gb_get b (n + 1) = (n + 1 < gb_len b \<and> to_bits b ! (n + 1))"
      using Suc.prems(1) by (auto simp: gb_get_bit gb_ok_def)
    ultimately show "to_bits b'' ! i = (take n (to_bits b) @ drop (n + 1) (to_bits b) @ [False]) ! i"
      using n unfolding b''(3) b'(3) len
      by (auto simp: nth_append nth_list_update less_Suc_eq min_def not_less)
  qed (use b''(3) b'(3) len n in auto)
  then show ?case using b'(1) b''(1,2) len n by (auto simp: upt_conv_Cons)
qed

lemma gb_remove_ok:
  assumes "gb_ok b" "n < gb_len b" "gb_len b < 2 ^ 64"
  shows "\<exists>b'. gb_remove b n = Some (b', to_bits b ! n) \<and> gb_ok b' \<and> to_bits b' = take n (to_bits b) @ drop (n + 1) (to_bits b)"
proof -
  obtain c where c: "remove_loop [n..<gb_len b] b = Some c" "gb_ok c"
      "to_bits c = take n (to_bits b) @ drop (n + 1) (to_bits b) @ [False]"
    using remove_loop_ok [OF assms(1), of n] assms(2) by auto
  have len: "gb_len c = gb_len b" using arg_cong [OF c(3), of length] assms(2) by simp
  define b' where "b' = c\<lparr>gb_len := gb_len b - 1\<rparr>"
  have "(gb_len c + 2 ^ 64 - 1) mod 2 ^ 64 = gb_len b - 1"
  proof -
    have "gb_len c + 2 ^ 64 - 1 = (gb_len b - 1) + 2 ^ 64" using assms(2) len by simp
    then show ?thesis using assms(3) by (simp only: mod_add_self2) simp
  qed
  then have "gb_remove b n = Some (b', to_bits b ! n)"
    using c(1) assms(2) by (simp add: gb_remove_def b'_def gb_get_bit)
  moreover have "\<not> data_bit (gb_data c) (gb_len b - 1)"
  proof -
    have "to_bits c \<noteq> []" using c(3) by simp
    then have "to_bits c ! (gb_len c - 1) = last (to_bits c)" by (simp add: last_conv_nth)
    also have "last (to_bits c) = False" using c(3) by simp
    finally show ?thesis using len assms(2) by simp
  qed
  then have "gb_ok b'"
    using c(2) assms(2) len by (auto simp: gb_ok_def b'_def) (metis Suc_pred less_antisym less_nat_zero_code linorder_neqE_nat)
  moreover have "to_bits b' = butlast (to_bits c)"
    using len by (intro to_bits_eqI) (simp_all add: b'_def nth_butlast)
  then have "to_bits b' = take n (to_bits b) @ drop (n + 1) (to_bits b)" by (simp add: c(3) butlast_append)
  ultimately show ?thesis by blast
qed

text \<open>Removing bits from the front shifts the blocks.\<close>

lemma data_bit_shift_blocks:
  assumes "0 < s" "s < 64"
  shows "data_bit (shift_blocks s d) i \<longleftrightarrow> data_bit d (i + s)"
proof (induction d arbitrary: i)
  case (Cons x xs)
  show ?case
  proof (cases "i < 64")
    case False
    then show ?thesis using Cons [of "i - 64"] by (simp add: data_bit_Cons)
  next
    case True
    have "bit (push_bit (64 - s) (case xs of [] \<Rightarrow> 0 | y # _ \<Rightarrow> y) :: u64) i \<longleftrightarrow> 64 - s \<le> i \<and> data_bit xs (i + s - 64)"
      using True assms by (cases xs) (auto simp: bit_push_bit_iff data_bit_Cons add.commute)
    then show ?thesis
      using True assms by (auto simp: data_bit_Cons bit_or_iff bit_drop_bit_eq add.commute dest: bit_imp_le_length)
  qed
qed simp

lemma length_shift_blocks [simp]: "length (shift_blocks s d) = length d"
  by (induction d) auto

lemma data_bit_drop: "data_bit (drop k d) i \<longleftrightarrow> data_bit d (i + 64 * k)"
  by (auto simp: data_bit_def less_diff_conv2 less_diff_conv div_less_iff_less_mult add.commute)

lemma data_bit_take: "data_bit (take k d) i \<longleftrightarrow> i < 64 * k \<and> data_bit d i"
  by (auto simp: data_bit_def less_mult_imp_div_less mult.commute)

lemma remove_front_ok:
  assumes "gb_ok b"
  shows "\<exists>b'. remove_front b num = Some b' \<and> gb_ok b' \<and> to_bits b' = drop num (to_bits b)"
proof -
  define m where "m = min num (gb_len b)"
  define d where "d = drop (m div 64) (gb_data b)"
  define d1 where "d1 = (if m mod 64 \<noteq> 0 then shift_blocks (m mod 64) d else d)"
  define n where "n = gb_len b - m"
  have m: "m \<le> gb_len b" "gb_len b \<le> 64 * length (gb_data b)" using assms by (simp_all add: m_def gb_ok_def)
  then have fit: "m div 64 \<le> length (gb_data b)" using div_le_mono [of m "64 * length (gb_data b)" 64] by simp
  have bit1: "data_bit d1 i \<longleftrightarrow> data_bit (gb_data b) (i + m)" for i
    using data_bit_shift_blocks [of "m mod 64" d i] mult_div_mod_eq [of 64 m]
    by (auto simp: d1_def d_def data_bit_drop ac_simps)
  have len1: "length d1 = length (gb_data b) - m div 64" by (simp add: d1_def d_def)
  let ?b = "b\<lparr>gb_data := take (div_ceil64 n) d1, gb_len := n\<rparr>"
  have "div_ceil64 n \<le> length d1"
  proof -
    have "n + 64 * (m div 64) \<le> 64 * length (gb_data b)" using m block_bounds(1) [of m] by (simp add: n_def)
    then have "n \<le> 64 * length d1" using len1 by simp
    then show ?thesis using div_ceil64_bounds(2) [of n] by linarith
  qed
  then have len: "length (gb_data ?b) = div_ceil64 (gb_len ?b)" by simp
  have eq: "remove_front b num = Some (zeroize_past_end ?b)"
    using fit by (simp add: remove_front_def m_def n_def d1_def d_def Let_def)
  have "map (data_bit (gb_data ?b)) [0..<n] = drop num (to_bits b)"
  proof (rule nth_equalityI)
    show "length (map (data_bit (gb_data ?b)) [0..<n]) = length (drop num (to_bits b))"
      by (simp add: n_def m_def)
    fix i assume "i < length (map (data_bit (gb_data ?b)) [0..<n])"
    then have i: "i < n" by simp
    then have "m = num" by (simp add: n_def m_def min_def split: if_splits)
    then show "map (data_bit (gb_data ?b)) [0..<n] ! i = drop num (to_bits b) ! i"
      using i div_ceil64_bounds(1) [of n] by (simp add: data_bit_take bit1 n_def add.commute)
  qed
  then show ?thesis unfolding eq using zeroize_ok [OF len] by simp
qed

datatype GbEdit = GbExtend "bool list" | GbRemove nat | GbRemoveFront nat | GbResize nat | GbSet nat | GbReset nat

fun gb_edit :: "GrowingBitmap \<Rightarrow> GbEdit \<Rightarrow> GrowingBitmap option" where
  "gb_edit b (GbExtend items) = Some (gb_extend b items)"
| "gb_edit b (GbRemove n) = map_option fst (gb_remove b n)"
| "gb_edit b (GbRemoveFront n) = remove_front b n"
| "gb_edit b (GbResize n) = Some (gb_resize b n)"
| "gb_edit b (GbSet n) = map_option fst (gb_set b n)"
| "gb_edit b (GbReset n) = map_option fst (gb_reset b n)"

text \<open>The same edits on a list of bits.\<close>

definition list_put :: "bool list \<Rightarrow> nat \<Rightarrow> bool \<Rightarrow> bool list" where
  "list_put bs n v = (bs @ replicate (n + 1 - length bs) False)[n := v]"

fun list_edit :: "bool list \<Rightarrow> GbEdit \<Rightarrow> bool list" where
  "list_edit bs (GbExtend items) = bs @ items"
| "list_edit bs (GbRemove n) = take n bs @ drop (n + 1) bs"
| "list_edit bs (GbRemoveFront n) = drop n bs"
| "list_edit bs (GbResize n) = take n bs @ replicate (n - length bs) False"
| "list_edit bs (GbSet n) = list_put bs n True"
| "list_edit bs (GbReset n) = list_put bs n False"

fun edit_ok :: "bool list \<Rightarrow> GbEdit \<Rightarrow> bool" where
  "edit_ok bs (GbRemove n) \<longleftrightarrow> n < length bs \<and> length bs < 2 ^ 64"
| "edit_ok bs _ \<longleftrightarrow> True"

lemma put_bits:
  assumes "gb_ok b" "gb_len b' = max (gb_len b) (n + 1)"
    "\<And>i. data_bit (gb_data b') i = (if i = n then v else data_bit (gb_data b) i)"
  shows "to_bits b' = list_put (to_bits b) n v"
  by (rule to_bits_eqI)
    (use assms in \<open>auto simp: list_put_def nth_list_update nth_append gb_ok_past\<close>)

lemma gb_edit_refines:
  assumes "gb_ok b" "edit_ok (to_bits b) e"
  shows "\<exists>b'. gb_edit b e = Some b' \<and> gb_ok b' \<and> to_bits b' = list_edit (to_bits b) e"
proof (cases e)
  case (GbExtend items)
  then show ?thesis using gb_extend_ok [OF assms(1)] by simp
next
  case (GbRemove n)
  then show ?thesis using gb_remove_ok [OF assms(1), of n] assms(2) by auto
next
  case (GbRemoveFront n)
  then show ?thesis using remove_front_ok [OF assms(1)] by simp
next
  case (GbResize n)
  then show ?thesis using gb_resize_ok [OF assms(1)] by simp
next
  case (GbSet n)
  obtain b' where b': "gb_set b n = Some (b', n \<notin> gb_ones b)" "gb_ok b'" "gb_ones b' = insert n (gb_ones b)"
      "gb_len b' = max (gb_len b) (n + 1)"
    using gb_set_ok [OF assms(1)] by blast
  then have "data_bit (gb_data b') i = (if i = n then True else data_bit (gb_data b) i)" for i
    by (auto simp: gb_ones_def set_eq_iff)
  from put_bits [OF assms(1) b'(4) this] show ?thesis using b'(1,2) GbSet by simp
next
  case (GbReset n)
  obtain b' where b': "gb_reset b n = Some (b', n \<in> gb_ones b)" "gb_ok b'" "gb_ones b' = gb_ones b - {n}"
      "gb_len b' = max (gb_len b) (n + 1)"
    using gb_reset_ok [OF assms(1)] by blast
  then have "data_bit (gb_data b') i = (if i = n then False else data_bit (gb_data b) i)" for i
    by (auto simp: gb_ones_def set_eq_iff)
  from put_bits [OF assms(1) b'(4) this] show ?thesis using b'(1,2) GbReset by simp
qed

interpretation gb_list: refined_machine gb_edit gb_ok to_bits list_edit edit_ok
  by unfold_locales (rule gb_edit_refines)

section \<open>Reading\<close>

lemma bits_iter_ok:
  "n + q \<le> 64 * length d \<Longrightarrow> q < 64 \<Longrightarrow> bits_iter n q d = Some (map (\<lambda>i. data_bit d (i + q)) [0..<n])"
proof (induction n q d rule: bits_iter.induct)
  case (3 n q x xs)
  have b: "x AND wrapping_shl 1 q \<noteq> 0 \<longleftrightarrow> data_bit (x # xs) q"
    using bit_test [of x q] "3.prems"(2) by (simp add: wrapping_shl_def data_bit_Cons)
  have split: "map f [0..<Suc n] = f 0 # map (\<lambda>i. f (Suc i)) [0..<n]" for f :: "nat \<Rightarrow> bool"
    by (simp add: upt_conv_Cons map_Suc_upt [symmetric] del: upt_Suc)
  show ?case
  proof (cases "q + 1 \<ge> 64")
    case True
    then have q: "q = 63" using "3.prems"(2) by simp
    show ?thesis using "3.IH"(1) [OF True] "3.prems" b unfolding split q
      by (simp add: data_bit_Cons)
  next
    case False
    then show ?thesis using "3.IH"(2) [OF False] "3.prems" b unfolding split by simp
  qed
qed auto

lemma gb_iter_ok: "gb_ok b \<Longrightarrow> gb_iter b = Some (to_bits b)"
  using bits_iter_ok [of "gb_len b" 0 "gb_data b"] by (simp add: gb_iter_def to_bits_def gb_ok_def)

lemma lowest_bit:
  fixes x :: u64
  assumes "x \<noteq> 0"
  shows "bit x (trailing_zeros x)" "j < trailing_zeros x \<Longrightarrow> \<not> bit x j" "trailing_zeros x < 64"
proof -
  show less: "j < trailing_zeros x \<Longrightarrow> \<not> bit x j" for j
    using trailing_zeros_ge [of "trailing_zeros x" x] by simp
  obtain i where i: "i < 64" "bit x i" using assms by (auto simp: bits)
  have "\<not> (\<forall>j < Suc (trailing_zeros x). \<not> bit x j)"
  proof (cases "trailing_zeros x < 64")
    case True
    then show ?thesis using trailing_zeros_ge [of "Suc (trailing_zeros x)" x] by auto
  next
    case False
    then have "i < trailing_zeros x" using i(1) by simp
    then show ?thesis using less [of i] i(2) by blast
  qed
  then show b: "bit x (trailing_zeros x)" using less less_Suc_eq by blast
  then show "trailing_zeros x < 64" using bit_imp_le_length [of x] by simp
qed

text \<open>Both searches and the iterator look for the first one in a list of blocks.\<close>

lemma first_one:
  "map_option (\<lambda>(index, val). index * 64 + trailing_zeros val) (find (\<lambda>(_, v). v \<noteq> 0) (enumerate 0 d))
     = (if ones d = {} then None else Some (Min (ones d)))"
proof (cases "find (\<lambda>(_, v). v \<noteq> 0) (enumerate 0 d)")
  case None
  then have "d ! i = 0" if "i < length d" for i
    using that by (auto simp: find_None_iff in_set_enumerate_eq)
  then have "ones d = {}" by (auto simp: data_bit_def less_mult_imp_div_less)
  then show ?thesis using None by simp
next
  case (Some kv)
  then obtain k where k: "k < length d" "kv = (k, d ! k)" "d ! k \<noteq> 0" "\<And>j. j < k \<Longrightarrow> d ! j = 0"
    by (auto simp: find_Some_iff nth_enumerate_eq)
  let ?p = "k * 64 + trailing_zeros (d ! k)"
  note low = lowest_bit [OF k(3)]
  have in_ones: "data_bit d ?p" using low k(1) data_bit_block [of "trailing_zeros (d ! k)" k d] by (simp add: mult.commute)
  moreover have "?p \<le> j" if "data_bit d j" for j
  proof (rule ccontr)
    assume "\<not> ?p \<le> j"
    then have j: "j < ?p" by simp
    then have "j div 64 \<le> k" using low(3) block_bounds [of j] by linarith
    moreover have "d ! (j div 64) \<noteq> 0" using that by (auto simp: data_bit_def)
    ultimately have "j div 64 = k" using k(4) [of "j div 64"] by fastforce
    then have "j mod 64 < trailing_zeros (d ! k)" using j mult_div_mod_eq [of 64 j] by linarith
    then show False using low(2) that \<open>j div 64 = k\<close> by (simp add: data_bit_def)
  qed
  ultimately have "Min (ones d) = ?p" "ones d \<noteq> {}" by (auto intro!: Min_eqI)
  then show ?thesis using Some k(2) by simp
qed

lemma gb_first_bit_set: "first_bit_set b = (if gb_ones b = {} then None else Some (Min (gb_ones b)))"
  unfolding first_bit_set_def gb_ones_def by (rule first_one)

lemma map_first:
  "map (\<lambda>(index, v). if index = 0 then (index, f v) else (index, v)) (enumerate 0 d)
     = enumerate 0 (case d of [] \<Rightarrow> [] | x # xs \<Rightarrow> f x # xs)"
  by (cases d) (auto simp: in_set_enumerate_eq intro!: map_idI)

lemma search_from_ok:
  "search_from start (drop (start div 64) d)
     = (if {i \<in> ones d. start \<le> i} = {} then None else Some (Min {i \<in> ones d. start \<le> i}))"
proof -
  let ?q = "start div 64" and ?r = "start mod 64"
  define e where "e = (case drop ?q d of [] \<Rightarrow> [] | x # xs \<Rightarrow> (x AND NOT (wrapping_shl 1 ?r - 1)) # xs)"
  have m: "bit (wrapping_shl 1 ?r - 1 :: u64) j \<longleftrightarrow> j < ?r" for j
    using bit_low_mask [of ?r j] by (simp add: wrapping_shl_def)
  have enum: "map (\<lambda>(index, v). if index = 0 then (index, v AND NOT (wrapping_shl 1 ?r - 1)) else (index, v))
      (enumerate 0 (drop ?q d)) = enumerate 0 e"
    unfolding e_def by (rule map_first)
  have bit_e: "data_bit e i \<longleftrightarrow> data_bit d (i + 64 * ?q) \<and> ?r \<le> i" for i
  proof -
    have "data_bit e i \<longleftrightarrow> data_bit (drop ?q d) i \<and> ?r \<le> i"
      using mod_less_divisor [of 64 start]
      by (cases "drop ?q d") (auto simp: e_def data_bit_Cons bit_and_iff bit_not_iff m)
    then show ?thesis by (simp add: data_bit_drop)
  qed
  have shift: "{i \<in> ones d. start \<le> i} = (\<lambda>i. i + 64 * ?q) ` ones e"
  proof (intro set_eqI iffI)
    fix i assume "i \<in> {i \<in> ones d. start \<le> i}"
    then have "i - 64 * ?q \<in> ones e" "i = (i - 64 * ?q) + 64 * ?q"
      using block_bounds(1) [of start] by (auto simp: bit_e minus_mult_div_eq_mod [symmetric])
    then show "i \<in> (\<lambda>i. i + 64 * ?q) ` ones e" by (rule rev_image_eqI)
  next
    fix i assume "i \<in> (\<lambda>i. i + 64 * ?q) ` ones e"
    then show "i \<in> {i \<in> ones d. start \<le> i}" by (auto simp: bit_e minus_mult_div_eq_mod [symmetric])
  qed
  have "search_from start (drop ?q d)
      = map_option (\<lambda>i. i + 64 * ?q) (map_option (\<lambda>(index, val). index * 64 + trailing_zeros val)
          (find (\<lambda>(_, v). v \<noteq> 0) (enumerate 0 e)))"
    unfolding search_from_def enum by (simp add: option.map_comp comp_def case_prod_unfold ac_simps)
  also have "\<dots> = (if ones e = {} then None else Some (Min (ones e) + 64 * ?q))" unfolding first_one by simp
  also have "\<dots> = (if {i \<in> ones d. start \<le> i} = {} then None else Some (Min {i \<in> ones d. start \<le> i}))"
  proof (cases "ones e = {}")
    case False
    then have "Min (ones e) + 64 * ?q = Min ((\<lambda>i. i + 64 * ?q) ` ones e)"
      by (intro mono_Min_commute) (simp_all add: mono_def)
    then show ?thesis unfolding shift using False by simp
  next
    case True
    then show ?thesis unfolding shift by simp
  qed
  finally show ?thesis .
qed

lemma data_bit_not: "data_bit (map (NOT) d) i \<longleftrightarrow> i < 64 * length d \<and> \<not> data_bit d i"
  by (auto simp: data_bit_def bit_not_iff less_mult_imp_div_less)

lemma gb_first_bit_set_from:
  "first_bit_set_from b start
     = (if {i \<in> gb_ones b. start \<le> i} = {} then None else Some (Min {i \<in> gb_ones b. start \<le> i}))"
  unfolding first_bit_set_from_def gb_ones_def by (rule search_from_ok)

lemma min_below:
  fixes V :: "nat set"
  assumes "finite V"
  shows "Option.bind (if V = {} then None else Some (Min V)) (\<lambda>m. if m \<ge> n then None else Some m)
     = (if {i \<in> V. i < n} = {} then None else Some (Min {i \<in> V. i < n}))"
proof (cases "V \<noteq> {} \<and> Min V < n")
  case True
  then have "Min V \<in> {i \<in> V. i < n}" using Min_in [OF assms] by simp
  moreover from this have "Min {i \<in> V. i < n} = Min V" using assms by (intro Min_eqI) auto
  ultimately show ?thesis using True by auto
next
  case False
  then have "{i \<in> V. i < n} = {}" using Min_le [OF assms] by fastforce
  then show ?thesis using False by auto
qed

lemma gb_first_bit_unset_from:
  assumes "gb_ok b"
  shows "first_bit_unset_from b start
     = (let U = {i. start \<le> i \<and> i < gb_len b \<and> i \<notin> gb_ones b} in if U = {} then None else Some (Min U))"
proof -
  let ?V = "{i \<in> ones (map (NOT) (gb_data b)). start \<le> i}"
  have U: "{i. start \<le> i \<and> i < gb_len b \<and> i \<notin> gb_ones b} = {i \<in> ?V. i < gb_len b}"
    using assms by (auto simp: gb_ok_def gb_ones_def data_bit_not)
  have fin: "finite ?V" by (rule finite_subset [OF _ finite_ones [of "map (NOT) (gb_data b)"]]) auto
  show ?thesis
    unfolding first_bit_unset_from_def drop_map [symmetric] search_from_ok U Let_def by (rule min_below [OF fin])
qed

text \<open>What the iterator has still to return.\<close>

definition remaining :: "OnesIterator \<Rightarrow> nat set" where
  "remaining it = (\<lambda>i. i + oi_base_index it) ` ones (oi_current_element it # oi_data it)"

lemma finite_remaining [simp]: "finite (remaining it)"
  by (simp add: remaining_def)

lemma remaining_step:
  "remaining \<lparr>oi_data = rest, oi_base_index = n + 64, oi_current_element = nxt\<rparr>
     = remaining \<lparr>oi_data = nxt # rest, oi_base_index = n, oi_current_element = 0\<rparr>"
  by (simp add: remaining_def ones_Cons [of 0] image_image ac_simps)

lemma clear_lowest:
  fixes x :: u64
  assumes "x \<noteq> 0" "j < 64"
  shows "bit (x AND wrapping_shl (wrapping_shl (- 1) (trailing_zeros x)) 1) j \<longleftrightarrow> bit x j \<and> j \<noteq> trailing_zeros x"
proof -
  note low = lowest_bit [OF assms(1)]
  have "bit (wrapping_shl (wrapping_shl y (trailing_zeros x)) 1) j \<longleftrightarrow> trailing_zeros x < j \<and> bit y (j - trailing_zeros x - 1)"
    for y :: u64
  proof -
    have m: "1 mod LENGTH(64) = 1" "trailing_zeros x mod LENGTH(64) = trailing_zeros x" using low(3) by simp_all
    show ?thesis unfolding wrapping_shl_def m bit_push_bit_iff using low(3) assms(2) by auto
  qed
  from this [of "- 1"] have "bit (wrapping_shl (wrapping_shl (- 1) (trailing_zeros x)) 1 :: u64) j \<longleftrightarrow> trailing_zeros x < j"
    using assms(2) by auto
  then show ?thesis using low(1,2) by (auto simp: bit_and_iff not_less_iff_gr_or_eq)
qed

lemma ones_next_ok:
  "if remaining it = {} then ones_next it = None
   else \<exists>it'. ones_next it = Some (it', Min (remaining it)) \<and> remaining it' = remaining it - {Min (remaining it)}"
proof (induction it rule: ones_next.induct)
  case (1 it)
  show ?case
  proof (cases "oi_current_element it = 0")
    case True
    show ?thesis
    proof (cases "oi_data it")
      case Nil
      then have "remaining it = {}" using True by (auto simp: remaining_def ones_def data_bit_Cons)
      then show ?thesis using True Nil by simp
    next
      case (Cons nxt rest)
      let ?it = "\<lparr>oi_data = rest, oi_base_index = oi_base_index it + 64, oi_current_element = nxt\<rparr>"
      have "remaining ?it = remaining it" using True Cons unfolding remaining_step by (simp add: remaining_def)
      moreover have "ones_next it = ones_next ?it" using True Cons by simp
      ultimately show ?thesis using "1.IH" [OF True Cons] by (simp only:)
    qed
  next
    case False
    let ?x = "oi_current_element it" and ?n = "oi_base_index it"
    let ?it = "it\<lparr>oi_current_element := ?x AND wrapping_shl (wrapping_shl (- 1) (trailing_zeros ?x)) 1\<rparr>"
    note low = lowest_bit [OF False]
    have low_in: "trailing_zeros ?x \<in> ones (?x # oi_data it)" using low by (simp add: data_bit_Cons)
    have low_min: "trailing_zeros ?x \<le> j" if "j \<in> ones (?x # oi_data it)" for j
    proof (rule ccontr)
      assume "\<not> trailing_zeros ?x \<le> j"
      then have "j < trailing_zeros ?x" by simp
      moreover from this have "j < 64" using low(3) by (rule less_trans)
      then have "bit ?x j" using that unfolding ones_iff data_bit_Cons by (simp only: if_True)
      ultimately show False using low(2) by blast
    qed
    have min: "Min (remaining it) = trailing_zeros ?x + ?n"
      using low_in low_min by (intro Min_eqI) (auto simp: remaining_def simp del: ones_iff)
    have eq: "ones (oi_current_element ?it # oi_data ?it) = ones (?x # oi_data it) - {trailing_zeros ?x}"
      using clear_lowest [OF False] low(3) by (auto simp: data_bit_Cons split: if_splits)
    have "remaining ?it = (\<lambda>i. i + ?n) ` (ones (?x # oi_data it) - {trailing_zeros ?x})"
      unfolding remaining_def eq by simp
    also have "\<dots> = remaining it - {Min (remaining it)}"
      unfolding min by (auto simp: remaining_def simp del: ones_iff)
    finally have "remaining ?it = remaining it - {Min (remaining it)}" .
    moreover have "ones_next it = Some (?it, Min (remaining it))" using False min by (simp add: Let_def)
    moreover have "remaining it \<noteq> {}" using low_in by (auto simp: remaining_def simp del: ones_iff)
    ultimately show ?thesis by simp
  qed
qed

text \<open>Calling \<open>next\<close> until it returns nothing.\<close>

fun drain :: "nat \<Rightarrow> OnesIterator \<Rightarrow> nat list option" where
  "drain 0 it = (if ones_next it = None then Some [] else None)"
| "drain (Suc n) it =
     (case ones_next it of None \<Rightarrow> Some [] | Some (it', i) \<Rightarrow> map_option ((#) i) (drain n it'))"

lemma drain_ok: "card (remaining it) \<le> n \<Longrightarrow> drain n it = Some (sorted_list_of_set (remaining it))"
proof (induction n arbitrary: it)
  case 0
  then have "remaining it = {}" by simp
  then show ?case using ones_next_ok [of it] by (simp del: ones_next.simps)
next
  case (Suc n)
  show ?case
  proof (cases "remaining it = {}")
    case True
    then show ?thesis using ones_next_ok [of it] by (simp del: ones_next.simps)
  next
    case False
    then obtain it' where it': "ones_next it = Some (it', Min (remaining it))"
        "remaining it' = remaining it - {Min (remaining it)}"
      using ones_next_ok [of it] by (auto simp del: ones_next.simps)
    have "card (remaining it') \<le> n" using Suc.prems it'(2) False by simp
    from Suc.IH [OF this] show ?thesis
      using it' False sorted_list_of_set_nonempty [of "remaining it"] by (simp del: ones_next.simps)
  qed
qed

lemma remaining_start: "remaining (ones_iterator b) = gb_ones b"
  by (auto simp: remaining_def ones_iterator_def gb_ones_def ones_def data_bit_Cons split: list.splits)

section \<open>Dense sets\<close>

definition ds_ok :: "DenseSet \<Rightarrow> bool" where
  "ds_ok s \<longleftrightarrow> gb_ok (ds_bitmap s) \<and> num_items s = card (gb_ones (ds_bitmap s))"

lemma finite_gb_ones [simp]: "finite (gb_ones b)"
  by (simp add: gb_ones_def)

lemma ds_set_ok:
  assumes "ds_ok s"
  shows "\<exists>s'. ds_set s x = Some (s', x \<notin> gb_ones (ds_bitmap s)) \<and> ds_ok s'
     \<and> gb_ones (ds_bitmap s') = insert x (gb_ones (ds_bitmap s))"
proof -
  obtain b where "gb_set (ds_bitmap s) x = Some (b, x \<notin> gb_ones (ds_bitmap s))" "gb_ok b"
      "gb_ones b = insert x (gb_ones (ds_bitmap s))"
    using gb_set_ok assms unfolding ds_ok_def by blast
  then show ?thesis
    using assms by (cases "x \<in> gb_ones (ds_bitmap s)") (auto simp: ds_set_def ds_ok_def insert_absorb)
qed

interpretation dense: refined_machine "\<lambda>s x. map_option fst (ds_set s x)" ds_ok "\<lambda>s. gb_ones (ds_bitmap s)"
    "\<lambda>A x. insert x A" "\<lambda>_ _. True"
  by unfold_locales (use ds_set_ok in fastforce)

lemma admitted_all: "admitted f (\<lambda>_ _. True) a xs"
  by (induction xs arbitrary: a) auto

lemma foldl_insert: "foldl (\<lambda>A x. insert x A) A xs = A \<union> set xs"
  by (induction xs arbitrary: A) auto

section \<open>Properties\<close>

lemma ones_to_bits: "gb_ok b \<Longrightarrow> i \<in> gb_ones b \<longleftrightarrow> i < length (to_bits b) \<and> to_bits b ! i"
  by (auto simp: gb_ones_def gb_ok_def)

lemma count_to_bits: "gb_ok b \<Longrightarrow> gb_count_ones b = length (filter (\<lambda>v. v) (to_bits b))"
proof -
  assume ok: "gb_ok b"
  then have "gb_ones b = {i. i < length (to_bits b) \<and> to_bits b ! i}" using ones_to_bits by blast
  then show ?thesis by (simp add: gb_count_ones_def sum_count_ones length_filter_conv_card gb_ones_def)
qed

text \<open>C24: a growing bitmap is a list of bits. After any sequence of edits from the empty bitmap
  (extending, removing a bit that is there, removing from the front, resizing, setting and resetting
  at any index) it holds the bits that the same edits of a list of booleans give; its length, \<open>get\<close>,
  its iterator and its count of ones are those of the list.\<close>

theorem growing_bitmap_is_list:
  assumes "admitted list_edit edit_ok [] es"
  shows "let bs = foldl list_edit [] es in
     \<exists>b. run gb_edit gb_new es = Some b \<and> gb_len b = length bs
       \<and> (\<forall>i. gb_get b i \<longleftrightarrow> i < length bs \<and> bs ! i)
       \<and> gb_iter b = Some bs \<and> gb_count_ones b = length (filter (\<lambda>v. v) bs)"
proof -
  define bs where "bs = foldl list_edit [] es"
  obtain b where b: "run gb_edit gb_new es = Some b" "gb_ok b" "to_bits b = bs"
    using gb_list.run_refines [of gb_new es] assms by (auto simp: bs_def)
  have "gb_get b i \<longleftrightarrow> i < length bs \<and> bs ! i" for i
    using ones_to_bits [OF b(2), of i] b(3) by (simp add: gb_get_bit gb_ones_def)
  then show ?thesis
    using b(1) gb_iter_ok [OF b(2)] count_to_bits [OF b(2)] length_to_bits [of b]
    unfolding b(3) bs_def [symmetric] Let_def by auto
qed

theorem growing_bitmap_is_list_witness:
  "\<exists>b. run gb_edit gb_new [GbExtend [True, False, True], GbSet 5, GbRemove 1, GbRemoveFront 1, GbReset 2] = Some b
     \<and> gb_len b = 4 \<and> gb_iter b = Some [True, False, False, True] \<and> gb_count_ones b = 2"
proof -
  let ?es = "[GbExtend [True, False, True], GbSet 5, GbRemove 1, GbRemoveFront 1, GbReset 2]"
  have a: "admitted list_edit edit_ok [] ?es" by (simp add: list_put_def)
  have f: "foldl list_edit [] ?es = [True, False, False, True]"
    and n: "length [True, False, False, True] = 4" "length (filter (\<lambda>v. v) [True, False, False, True]) = 2"
    by code_simp+
  from growing_bitmap_is_list [OF a] show ?thesis unfolding f Let_def n by blast
qed

text \<open>C25: the searches of an edited bitmap: \<open>first_bit_set_from\<close> is the smallest index from the start on
  at which there is a one, \<open>first_bit_unset_from\<close> the smallest one within the length at which there is a
  zero, and each is none exactly when there is no such index.\<close>

theorem growing_searches:
  assumes "admitted list_edit edit_ok [] es"
  shows "let bs = foldl list_edit [] es;
           S = {i. start \<le> i \<and> i < length bs \<and> bs ! i};
           U = {i. start \<le> i \<and> i < length bs \<and> \<not> bs ! i}
     in \<exists>b. run gb_edit gb_new es = Some b
       \<and> first_bit_set_from b start = (if S = {} then None else Some (Min S))
       \<and> first_bit_unset_from b start = (if U = {} then None else Some (Min U))"
proof -
  define bs where "bs = foldl list_edit [] es"
  define S where "S = {i. start \<le> i \<and> i < length bs \<and> bs ! i}"
  define U where "U = {i. start \<le> i \<and> i < length bs \<and> \<not> bs ! i}"
  obtain b where b: "run gb_edit gb_new es = Some b" "gb_ok b" "to_bits b = bs"
    using gb_list.run_refines [of gb_new es] assms by (auto simp: bs_def)
  have len: "gb_len b = length bs" using length_to_bits [of b] b(3) by simp
  have "{i \<in> gb_ones b. start \<le> i} = S" using ones_to_bits [OF b(2)] b(3) by (auto simp: S_def)
  moreover have "{i. start \<le> i \<and> i < gb_len b \<and> i \<notin> gb_ones b} = U"
    using ones_to_bits [OF b(2)] b(3) len by (auto simp: U_def)
  ultimately show ?thesis
    using b(1) gb_first_bit_set_from [of b start] gb_first_bit_unset_from [OF b(2), of start]
    by (simp add: bs_def S_def U_def Let_def)
qed

theorem growing_searches_witness:
  "\<exists>b. run gb_edit gb_new [GbExtend [True, True, False]] = Some b \<and> first_bit_unset_from b 1 = Some 2"
proof -
  have "admitted list_edit edit_ok [] [GbExtend [True, True, False]]" by code_simp
  moreover have "foldl list_edit [] [GbExtend [True, True, False]] = [True, True, False]" by code_simp
  moreover have "{i. 1 \<le> i \<and> i < length [True, True, False] \<and> \<not> [True, True, False] ! i} = {2 :: nat}"
    by (auto simp: less_Suc_eq numeral_3_eq_3)
  ultimately show ?thesis using growing_searches [of "[GbExtend [True, True, False]]" 1] unfolding Let_def by fastforce
qed

text \<open>C26: a dense set that any list of numbers was inserted into contains exactly these numbers, counts
  the distinct ones, and its iterator returns them in ascending order and then stops.\<close>

theorem dense_set_inserts:
  "\<exists>s. run (\<lambda>s x. map_option fst (ds_set s x)) ds_new xs = Some s
     \<and> (\<forall>x. ds_contains s x \<longleftrightarrow> x \<in> set xs) \<and> num_items s = card (set xs)
     \<and> drain (num_items s) (ones_iterator (ds_bitmap s)) = Some (sorted_list_of_set (set xs))"
proof -
  have new: "ds_ok ds_new" "gb_ones (ds_bitmap ds_new) = {}" by (simp_all add: ds_ok_def ds_new_def)
  obtain s where s: "run (\<lambda>s x. map_option fst (ds_set s x)) ds_new xs = Some s" "ds_ok s" "gb_ones (ds_bitmap s) = set xs"
    using dense.run_refines [OF new(1) admitted_all, of xs] unfolding foldl_insert new(2) by auto
  have "ds_contains s x \<longleftrightarrow> x \<in> gb_ones (ds_bitmap s)" for x
    by (simp add: ds_contains_def gb_get_bit gb_ones_def)
  then show ?thesis
    using s drain_ok [of "ones_iterator (ds_bitmap s)" "num_items s"] by (auto simp: ds_ok_def remaining_start)
qed

lemma fill_with_ones_past_the_end:
  "gb_len (fill_with_ones (gb_from_bools (replicate 64 False))) = 64
     \<and> gb_get (fill_with_ones (gb_from_bools (replicate 64 False))) 100"
  by code_simp

lemma remove_back_refuses: "num < gb_len b \<Longrightarrow> remove_back b num = None"
  by (simp add: remove_back_def)

lemma two_empty_bitmaps: "gb_or_with gb_new (gb_slice gb_new) = None"
  by (simp add: gb_or_with_def gb_new_def gb_slice_def)

end
