(* ===== verification/Mem_Metadata.thy ===== *)
theory Mem_Metadata
  imports Bitmap_Slice
begin

text \<open>
  The two tables beside the emulated memory (\<open>sem86-arch/src/mem/metadata.rs\<close> and \<open>bitmap.rs\<close>).
  The metadata map has a byte for each page of the linear address space, which says what accesses to
  the page must trap; every page starts with all bits set. The map also remembers which of its 128
  chunks were ever written, so that resetting it only touches those. The bitmap of atomics has a bit
  for each physical frame, set while the frame is clean.

  The lemmas show that the map is a function from pages to trap bits and that its bulk operations are
  pointwise, although they skip chunks, and that the bitmap is a set of frames.
\<close>

unbundle bit_operations_syntax

section \<open>Tests and metadata\<close>

type_synonym MetadataTest = u8
type_synonym MetadataBits = u8

definition METADATA_BIT_TRAP_USER :: u8 where
  "METADATA_BIT_TRAP_USER = 0b0001"

definition METADATA_BIT_TRAP_WRITE :: u8 where
  "METADATA_BIT_TRAP_WRITE = 0b0010"

definition METADATA_BIT_TRAP_ACCESS :: u8 where
  "METADATA_BIT_TRAP_ACCESS = 0b0100"

definition require_present :: "MetadataTest \<Rightarrow> MetadataTest" where
  "require_present t = t OR METADATA_BIT_TRAP_ACCESS"

definition require_writable :: "MetadataTest \<Rightarrow> MetadataTest" where
  "require_writable t = t OR METADATA_BIT_TRAP_WRITE"

definition require_accessible_from_userspace :: "MetadataTest \<Rightarrow> MetadataTest" where
  "require_accessible_from_userspace t = t OR METADATA_BIT_TRAP_USER"

definition should_trap :: "MetadataBits \<Rightarrow> MetadataTest \<Rightarrow> bool" where
  "should_trap b t \<longleftrightarrow> b AND t \<noteq> 0"

definition trap_on_write :: "MetadataBits \<Rightarrow> bool \<Rightarrow> MetadataBits" where
  "trap_on_write b trap =
     (if trap then b OR METADATA_BIT_TRAP_WRITE else b AND NOT METADATA_BIT_TRAP_WRITE)"

definition trap_on_userspace_access :: "MetadataBits \<Rightarrow> bool \<Rightarrow> MetadataBits" where
  "trap_on_userspace_access b trap =
     (if trap then b OR METADATA_BIT_TRAP_USER else b AND NOT METADATA_BIT_TRAP_USER)"

section \<open>The bitmap behind a pointer\<close>

text \<open>A \<open>PtrBitmap<LEN>\<close> is raw memory, here the words at the offsets from its pointer; its index
  asserts that it is within \<open>LEN\<close> bits.\<close>

type_synonym PtrBitmap = "nat \<Rightarrow> u64"

definition ptr_index :: "nat \<Rightarrow> nat \<Rightarrow> (nat \<times> nat) option" where
  "ptr_index LEN x = (if x < LEN then Some (x div 64, x mod 64) else None)"

definition ptr_get :: "nat \<Rightarrow> PtrBitmap \<Rightarrow> nat \<Rightarrow> bool option" where
  "ptr_get LEN d n =
     map_option (\<lambda>(index, offset). wrapping_shr (d index) offset AND 1 \<noteq> 0) (ptr_index LEN n)"

definition ptr_set :: "nat \<Rightarrow> PtrBitmap \<Rightarrow> nat \<Rightarrow> (PtrBitmap \<times> bool) option" where
  "ptr_set LEN d n =
     map_option (\<lambda>(index, offset). let m = wrapping_shl 1 offset in (d(index := d index OR m), d index AND m = 0))
       (ptr_index LEN n)"

definition ptr_clear :: "nat \<Rightarrow> PtrBitmap \<Rightarrow> PtrBitmap" where
  "ptr_clear LEN d = (\<lambda>i. if i < LEN div 64 then 0 else d i)"

section \<open>The metadata map\<close>

definition METADATA_MAP_SIZE :: nat where
  "METADATA_MAP_SIZE = 2 ^ 20"

definition MODIFIED_MAP_SIZE :: nat where
  "MODIFIED_MAP_SIZE = 128"

definition METADATA_MAP_CHUNK_SIZE :: nat where
  "METADATA_MAP_CHUNK_SIZE = METADATA_MAP_SIZE div MODIFIED_MAP_SIZE"

text \<open>The bytes at the map's pointer, and the bitmap stored in the 16 bytes before it.\<close>

record MetadataMap =
  md_bytes :: "nat \<Rightarrow> u8"
  md_modified :: PtrBitmap

definition md_get_for_address :: "MetadataMap \<Rightarrow> u32 \<Rightarrow> MetadataBits" where
  "md_get_for_address m addr = md_bytes m (unat addr div 2 ^ 12)"

definition md_set :: "MetadataMap \<Rightarrow> u32 \<Rightarrow> MetadataBits \<Rightarrow> MetadataMap option" where
  "md_set m addr val =
     (let offset = unat addr div 2 ^ 12 in
      map_option (\<lambda>(d, _). m\<lparr>md_modified := d, md_bytes := (md_bytes m)(offset := val)\<rparr>)
        (ptr_set MODIFIED_MAP_SIZE (md_modified m) (offset div METADATA_MAP_CHUNK_SIZE)))"

text \<open>\<open>write_bytes(ptr + offset, val, count)\<close>\<close>

definition write_bytes :: "nat \<Rightarrow> nat \<Rightarrow> u8 \<Rightarrow> MetadataMap \<Rightarrow> MetadataMap" where
  "write_bytes offset count val m =
     m\<lparr>md_bytes := (\<lambda>n. if offset \<le> n \<and> n < offset + count then val else md_bytes m n)\<rparr>"

definition md_initialize :: "MetadataMap \<Rightarrow> MetadataMap" where
  "md_initialize m =
     write_bytes 0 METADATA_MAP_SIZE 0xff (m\<lparr>md_modified := ptr_clear MODIFIED_MAP_SIZE (md_modified m)\<rparr>)"

text \<open>The loop \<open>for (index, offset) in (0..SIZE).step_by(CHUNK).enumerate()\<close> with the test for a
  modified chunk, for the two bodies that it has. \<open>n\<close> chunks are left.\<close>

fun for_modified_chunks :: "(nat \<Rightarrow> MetadataMap \<Rightarrow> MetadataMap) \<Rightarrow> nat \<Rightarrow> nat \<Rightarrow> MetadataMap \<Rightarrow> MetadataMap option" where
  "for_modified_chunks body index 0 m = Some m"
| "for_modified_chunks body index (Suc n) m =
     (case ptr_get MODIFIED_MAP_SIZE (md_modified m) index of
        None \<Rightarrow> None
      | Some b \<Rightarrow>
          for_modified_chunks body (Suc index) n (if b then body (index * METADATA_MAP_CHUNK_SIZE) m else m))"

definition md_clear :: "MetadataMap \<Rightarrow> MetadataMap option" where
  "md_clear m =
     map_option (\<lambda>m'. m'\<lparr>md_modified := ptr_clear MODIFIED_MAP_SIZE (md_modified m')\<rparr>)
       (for_modified_chunks (\<lambda>offset. write_bytes offset METADATA_MAP_CHUNK_SIZE 0xff) 0
          (METADATA_MAP_SIZE div METADATA_MAP_CHUNK_SIZE) m)"

text \<open>The inner loop of \<open>enable_for_all\<close>: \<open>*ptr |= extra_bits\<close> at the next \<open>count\<close> entries.\<close>

fun or_bytes :: "u8 \<Rightarrow> nat \<Rightarrow> nat \<Rightarrow> MetadataMap \<Rightarrow> MetadataMap" where
  "or_bytes extra n 0 m = m"
| "or_bytes extra n (Suc count) m =
     or_bytes extra (Suc n) count (m\<lparr>md_bytes := (md_bytes m)(n := md_bytes m n OR extra)\<rparr>)"

definition md_enable_for_all :: "MetadataMap \<Rightarrow> MetadataBits \<Rightarrow> MetadataMap option" where
  "md_enable_for_all m extra =
     for_modified_chunks (\<lambda>offset. or_bytes extra offset METADATA_MAP_CHUNK_SIZE) 0
       (METADATA_MAP_SIZE div METADATA_MAP_CHUNK_SIZE) m"

section \<open>The bitmap of atomics\<close>

type_synonym AtomicBitmap = "u64 list"

definition atomic_new_all_ones :: "nat \<Rightarrow> AtomicBitmap option" where
  "atomic_new_all_ones len = (if len mod 64 = 0 then Some (replicate (len div 64) (NOT 0)) else None)"

definition atomic_index :: "nat \<Rightarrow> nat \<times> nat" where
  "atomic_index x = (x div 64, x mod 64)"

definition atomic_set :: "AtomicBitmap \<Rightarrow> nat \<Rightarrow> (AtomicBitmap \<times> bool) option" where
  "atomic_set d n =
     (let (index, offset) = atomic_index n; m = wrapping_shl 1 offset in
      if index < length d then Some (d[index := d ! index OR m], d ! index AND m = 0) else None)"

definition atomic_reset :: "AtomicBitmap \<Rightarrow> nat \<Rightarrow> (AtomicBitmap \<times> bool) option" where
  "atomic_reset d n =
     (let (index, offset) = atomic_index n; m = wrapping_shl 1 offset in
      if index < length d then Some (d[index := d ! index AND NOT m], d ! index AND m \<noteq> 0) else None)"

definition atomic_get :: "AtomicBitmap \<Rightarrow> nat \<Rightarrow> bool option" where
  "atomic_get d n =
     (let (index, offset) = atomic_index n in
      if index < length d then Some (wrapping_shr (d ! index) offset AND 1 \<noteq> 0) else None)"

definition atomic_slice :: "AtomicBitmap \<Rightarrow> BitmapSlice" where
  "atomic_slice d = \<lparr>sl_get = (\<lambda>n. the (atomic_get d n)), sl_len = length d * 64, iter_data = d\<rparr>"

section \<open>The bitmap is a set of frames\<close>

lemma atomic_fixed: "atomic_set = fixed_set" "atomic_reset = fixed_clear"
  by (auto simp: fun_eq_iff atomic_set_def fixed_set_def atomic_reset_def fixed_clear_def atomic_index_def block_index_def)

lemma atomic_get_bit: "i < 64 * length d \<Longrightarrow> atomic_get d i = Some (data_bit d i)"
  using fixed_get_bit [of d i] less_mult_imp_div_less [of i "length d" 64]
  by (simp add: atomic_get_def fixed_get_def atomic_index_def block_index_def mult.commute)

lemma atomic_get_out_of_range: "64 * length d \<le> i \<Longrightarrow> atomic_get d i = None"
  by (simp add: atomic_get_def atomic_index_def)

interpretation atomic: bit_container atomic_get atomic_set atomic_reset ones "fixed_ok N" "\<lambda>i. i < 64 * N" for N
proof
  fix d i assume w: "fixed_ok N d" "i < 64 * N"
  then show "atomic_get d i = Some (i \<in> ones d)" by (simp add: atomic_get_bit fixed_ok_def)
  show "\<exists>d'. atomic_set d i = Some (d', i \<notin> ones d) \<and> fixed_ok N d' \<and> ones d' = insert i (ones d)"
    using w unfolding atomic_fixed by (rule fixed_set_ok)
  show "\<exists>d'. atomic_reset d i = Some (d', i \<in> ones d) \<and> fixed_ok N d' \<and> ones d' = ones d - {i}"
    using w unfolding atomic_fixed by (rule fixed_clear_ok)
qed

lemma atomic_new_ok:
  "atomic_new_all_ones (64 * N) = Some (replicate N (- 1))" "fixed_ok N (replicate N w)"
  "data_bit (replicate N (- 1)) i \<longleftrightarrow> i < 64 * N"
  by (simp_all add: atomic_new_all_ones_def fixed_ok_def data_bit_replicate)

section \<open>The metadata map is a function of the page\<close>

text \<open>The two trap tests, bit by bit.\<close>

lemmas trap_bits = METADATA_BIT_TRAP_USER_def METADATA_BIT_TRAP_WRITE_def METADATA_BIT_TRAP_ACCESS_def

definition chunk_modified :: "MetadataMap \<Rightarrow> nat \<Rightarrow> bool" where
  "chunk_modified m c \<longleftrightarrow> bit (md_modified m (c div 64)) (c mod 64)"

text \<open>The invariant: a chunk that is not marked as modified holds its initial bytes.\<close>

definition md_ok :: "MetadataMap \<Rightarrow> bool" where
  "md_ok m \<longleftrightarrow> (\<forall>n < 2 ^ 20. \<not> chunk_modified m (n div 2 ^ 13) \<longrightarrow> md_bytes m n = 0xff)"

text \<open>The abstraction: the trap bits of every page.\<close>

definition md_view :: "MetadataMap \<Rightarrow> nat \<Rightarrow> u8" where
  "md_view m n = (if n < 2 ^ 20 then md_bytes m n else 0xff)"

lemmas md_sizes = METADATA_MAP_SIZE_def MODIFIED_MAP_SIZE_def METADATA_MAP_CHUNK_SIZE_def

lemma ptr_get_bit: "c < 128 \<Longrightarrow> ptr_get 128 (md_modified m) c = Some (chunk_modified m c)"
  by (simp add: ptr_get_def ptr_index_def chunk_modified_def wrapping_shr_def bit_and_1)

lemma or_bytes_eq:
  "or_bytes x off n m = m\<lparr>md_bytes := (\<lambda>k. if off \<le> k \<and> k < off + n then md_bytes m k OR x else md_bytes m k)\<rparr>"
proof (induction n arbitrary: off m)
  case 0
  then show ?case by (cases m) (auto simp: fun_eq_iff)
qed (auto simp: fun_eq_iff intro: arg_cong)

text \<open>What the loop over the chunks does, for a body that changes the bytes of its chunk pointwise.\<close>

lemma for_modified_chunks_eq:
  assumes body: "\<And>off m'. body off m' =
      m'\<lparr>md_bytes := (\<lambda>k. if off \<le> k \<and> k < off + 2 ^ 13 then f (md_bytes m' k) else md_bytes m' k)\<rparr>"
  shows "index + n \<le> 128 \<Longrightarrow> for_modified_chunks body index n m =
    Some (m\<lparr>md_bytes := (\<lambda>k. if index \<le> k div 2 ^ 13 \<and> k div 2 ^ 13 < index + n \<and> chunk_modified m (k div 2 ^ 13)
                              then f (md_bytes m k) else md_bytes m k)\<rparr>)"
proof (induction n arbitrary: index m)
  case (Suc n)
  define m1 where "m1 = (if chunk_modified m index then body (index * METADATA_MAP_CHUNK_SIZE) m else m)"
  have mods: "chunk_modified m1 = chunk_modified m" by (simp add: m1_def body chunk_modified_def fun_eq_iff)
  have bytes: "md_bytes m1 k = (if k div 2 ^ 13 = index \<and> chunk_modified m index then f (md_bytes m k) else md_bytes m k)" for k
    by (auto simp: m1_def body md_sizes)
  have rest: "m1\<lparr>md_bytes := g\<rparr> = m\<lparr>md_bytes := g\<rparr>" for g by (simp add: m1_def body)
  have "for_modified_chunks body index (Suc n) m = for_modified_chunks body (Suc index) n m1"
    using Suc.prems ptr_get_bit [of index m] by (simp add: md_sizes m1_def)
  also have "\<dots> = Some (m\<lparr>md_bytes := (\<lambda>k. if Suc index \<le> k div 2 ^ 13 \<and> k div 2 ^ 13 < Suc index + n
        \<and> chunk_modified m (k div 2 ^ 13) then f (md_bytes m1 k) else md_bytes m1 k)\<rparr>)"
    using Suc.prems by (simp only: Suc.IH [of "Suc index" m1] rest mods)
  also have "(\<lambda>k. if Suc index \<le> k div 2 ^ 13 \<and> k div 2 ^ 13 < Suc index + n
        \<and> chunk_modified m (k div 2 ^ 13) then f (md_bytes m1 k) else md_bytes m1 k) =
      (\<lambda>k. if index \<le> k div 2 ^ 13 \<and> k div 2 ^ 13 < index + Suc n \<and> chunk_modified m (k div 2 ^ 13)
           then f (md_bytes m k) else md_bytes m k)"
  proof
    fix k
    show "(if Suc index \<le> k div 2 ^ 13 \<and> k div 2 ^ 13 < Suc index + n \<and> chunk_modified m (k div 2 ^ 13)
           then f (md_bytes m1 k) else md_bytes m1 k) =
        (if index \<le> k div 2 ^ 13 \<and> k div 2 ^ 13 < index + Suc n \<and> chunk_modified m (k div 2 ^ 13)
           then f (md_bytes m k) else md_bytes m k)"
      unfolding bytes by (cases "k div 2 ^ 13 = index") (auto simp: Suc_le_eq)
  qed
  finally show ?case .
next
  case 0
  then show ?case by (cases m) (auto simp: fun_eq_iff)
qed

lemma all_chunks:
  assumes body: "\<And>off m'. body off m' =
      m'\<lparr>md_bytes := (\<lambda>k. if off \<le> k \<and> k < off + 2 ^ 13 then f (md_bytes m' k) else md_bytes m' k)\<rparr>"
  shows "for_modified_chunks body 0 128 m =
    Some (m\<lparr>md_bytes := (\<lambda>k. if k < 2 ^ 20 \<and> chunk_modified m (k div 2 ^ 13) then f (md_bytes m k) else md_bytes m k)\<rparr>)"
proof -
  have "k div 2 ^ 13 < 128 \<longleftrightarrow> k < 2 ^ 20" for k :: nat by (simp add: div_less_iff_less_mult)
  then show ?thesis using for_modified_chunks_eq [OF body, of 0 128 m] by simp
qed

lemma md_clear_eq:
  "md_clear m = Some (m\<lparr>md_bytes := (\<lambda>k. if k < 2 ^ 20 \<and> chunk_modified m (k div 2 ^ 13) then 0xff else md_bytes m k),
     md_modified := ptr_clear 128 (md_modified m)\<rparr>)"
proof -
  have "for_modified_chunks (\<lambda>offset. write_bytes offset METADATA_MAP_CHUNK_SIZE 0xff) 0 128 m =
      Some (m\<lparr>md_bytes := (\<lambda>k. if k < 2 ^ 20 \<and> chunk_modified m (k div 2 ^ 13) then 0xff else md_bytes m k)\<rparr>)"
    by (rule all_chunks [where f = "\<lambda>_. 0xff"]) (simp add: write_bytes_def md_sizes)
  then show ?thesis by (simp add: md_clear_def md_sizes)
qed

lemma md_enable_eq:
  "md_enable_for_all m x =
     Some (m\<lparr>md_bytes := (\<lambda>k. if k < 2 ^ 20 \<and> chunk_modified m (k div 2 ^ 13) then md_bytes m k OR x else md_bytes m k)\<rparr>)"
proof -
  have "for_modified_chunks (\<lambda>offset. or_bytes x offset METADATA_MAP_CHUNK_SIZE) 0 128 m =
      Some (m\<lparr>md_bytes := (\<lambda>k. if k < 2 ^ 20 \<and> chunk_modified m (k div 2 ^ 13) then md_bytes m k OR x else md_bytes m k)\<rparr>)"
    by (rule all_chunks [where f = "\<lambda>b. b OR x"]) (simp add: or_bytes_eq md_sizes)
  then show ?thesis by (simp add: md_enable_for_all_def md_sizes)
qed

lemma page_less: "unat (a :: u32) div 2 ^ 12 < 2 ^ 20"
  using unsigned_less [of a] by (simp add: div_less_iff_less_mult)

lemma md_set_eq:
  "\<exists>d b. ptr_set 128 (md_modified m) (unat a div 2 ^ 12 div 2 ^ 13) = Some (d, b) \<and>
     md_set m a v = Some (m\<lparr>md_modified := d, md_bytes := (md_bytes m)(unat a div 2 ^ 12 := v)\<rparr>) \<and>
     (\<forall>c. bit (d (c div 64)) (c mod 64) \<longleftrightarrow> chunk_modified m c \<or> c = unat a div 2 ^ 12 div 2 ^ 13)"
proof -
  let ?c = "unat a div 2 ^ 12 div 2 ^ 13"
  have c: "?c < 128" using page_less [of a] by (simp add: div_less_iff_less_mult)
  show ?thesis using c
    by (auto simp: md_set_def ptr_set_def ptr_index_def md_sizes Let_def chunk_modified_def bit_or_iff bit_shl64
          dest: same_block)
qed

lemma md_view_set: "md_set m a v = Some m' \<Longrightarrow> md_view m' = (md_view m)(unat a div 2 ^ 12 := v)"
  using md_set_eq [of m a v] page_less [of a] by (auto simp: md_view_def fun_eq_iff)

lemma md_ok_set: "md_ok m \<Longrightarrow> md_set m a v = Some m' \<Longrightarrow> md_ok m'"
  using md_set_eq [of m a v] by (auto simp: md_ok_def chunk_modified_def)

lemma md_view_clear: "md_ok m \<Longrightarrow> md_clear m = Some m' \<Longrightarrow> md_view m' = (\<lambda>_. 0xff)"
  by (auto simp: md_clear_eq md_view_def md_ok_def)

lemma chunk_unmodified_after_clear:
  "k < 2 ^ 20 \<Longrightarrow> md_modified m' = ptr_clear 128 d \<Longrightarrow> \<not> chunk_modified m' (k div 2 ^ 13)"
  by (simp add: chunk_modified_def ptr_clear_def div_less_iff_less_mult)

lemma md_ok_clear: "md_ok m \<Longrightarrow> md_clear m = Some m' \<Longrightarrow> md_ok m'"
  by (auto simp: md_clear_eq md_ok_def)

lemma md_ok_initialize: "md_ok (md_initialize m)" "md_view (md_initialize m) = (\<lambda>_. 0xff)"
  by (auto simp: md_initialize_def write_bytes_def md_ok_def md_view_def md_sizes)

lemma ff_or [simp]: "(0xff :: u8) OR x = 0xff"
proof -
  have e: "(0xff :: u8) = - 1" by simp
  show ?thesis unfolding e by (rule bit.disj_one_left)
qed

lemma md_view_enable: "md_ok m \<Longrightarrow> md_enable_for_all m x = Some m' \<Longrightarrow> md_view m' = (\<lambda>n. md_view m n OR x)"
  by (auto simp: md_enable_eq md_view_def md_ok_def fun_eq_iff chunk_modified_def)

lemma md_ok_enable: "md_ok m \<Longrightarrow> md_enable_for_all m x = Some m' \<Longrightarrow> md_ok m'"
  by (auto simp: md_enable_eq md_ok_def chunk_modified_def)

text \<open>The operations on the map, and the same on a function from pages to bits.\<close>

datatype MdOp = MdSet u32 MetadataBits | MdClear | MdEnable MetadataBits

fun md_step :: "MetadataMap \<Rightarrow> MdOp \<Rightarrow> MetadataMap option" where
  "md_step m (MdSet a v) = md_set m a v"
| "md_step m MdClear = md_clear m"
| "md_step m (MdEnable x) = md_enable_for_all m x"

fun md_spec :: "(nat \<Rightarrow> u8) \<Rightarrow> MdOp \<Rightarrow> nat \<Rightarrow> u8" where
  "md_spec f (MdSet a v) = f(unat a div 2 ^ 12 := v)"
| "md_spec f MdClear = (\<lambda>_. 0xff)"
| "md_spec f (MdEnable x) = (\<lambda>n. f n OR x)"

lemma md_total: "\<exists>m'. md_step m e = Some m'"
  using md_set_eq by (cases e) (auto simp: md_clear_eq md_enable_eq, blast)

interpretation metadata: refined_machine md_step md_ok md_view md_spec "\<lambda>_ _. True"
proof
  fix m e assume ok: "md_ok m"
  obtain m' where m': "md_step m e = Some m'" using md_total by blast
  moreover have "md_ok m'"
    using ok m' by (cases e) (auto dest: md_ok_set md_ok_clear md_ok_enable)
  moreover have "md_view m' = md_spec (md_view m) e"
    using ok m' by (cases e) (auto dest: md_view_set md_view_clear md_view_enable)
  ultimately show "\<exists>m'. md_step m e = Some m' \<and> md_ok m' \<and> md_view m' = md_spec (md_view m) e" by blast
qed

lemma admitted_always [simp]: "admitted astep (\<lambda>_ _. True) a es"
  by (induction es arbitrary: a) auto

text \<open>C27: The metadata map is a map from pages to trap bits. After it was initialised, any sequence of
  stores, resets and bulk updates leaves at each address the bits that the same sequence leaves in a
  plain function of the page, and never panics, although resets and bulk updates skip the chunks of
  the map that were not written since the last reset.\<close>

theorem metadata_map_refines:
  "\<exists>m'. run md_step (md_initialize m) ops = Some m' \<and>
     (\<forall>addr. md_get_for_address m' addr = foldl md_spec (\<lambda>_. 0xff) ops (unat addr div 2 ^ 12))"
proof -
  obtain m' where "run md_step (md_initialize m) ops = Some m'" "md_view m' = foldl md_spec (\<lambda>_. 0xff) ops"
    using metadata.run_refines [OF md_ok_initialize(1) admitted_always, of m ops] by (auto simp: md_ok_initialize)
  moreover have "md_get_for_address m' addr = md_view m' (unat addr div 2 ^ 12)" for addr
    using page_less [of addr] by (simp add: md_view_def md_get_for_address_def)
  ultimately show ?thesis by simp
qed

end
