(* ===== verification/Mem_Host.thy ===== *)
theory Mem_Host
  imports Mem_Metadata
begin

text \<open>
  The memory of the host under the emulated memory: shared memory objects (\<open>sem86-arch/src/mem/shm.rs\<close>)
  and the address ranges that \<open>Mem32\<close> reserves. From its pointer \<open>base\<close> on, the first 4 GiB hold the
  linear address space and the next 4 GiB the physical one (\<open>MAPPING_KIND_LOGICAL\<close> and
  \<open>MAPPING_KIND_PHYSICAL\<close>); both are mapped page by page to pages of shared memory objects. An access
  to a page that is not mapped, which the host answers with a signal, is \<open>None\<close>.

  The lemmas say how reads and writes through the two views relate when they meet in the same object.
\<close>

unbundle bit_operations_syntax

section \<open>Memory data\<close>

text \<open>Data of \<open>NUM_BYTES\<close> bytes (the trait \<open>MemoryData\<close>) is the list of its bytes, the lowest first.\<close>

fun from_le_bytes :: "u8 list \<Rightarrow> 'a::len word" where
  "from_le_bytes [] = 0"
| "from_le_bytes (b # bs) = ucast b OR push_bit 8 (from_le_bytes bs)"

definition to_le_bytes :: "nat \<Rightarrow> 'a::len word \<Rightarrow> u8 list" where
  "to_le_bytes n x = map (\<lambda>i. ucast (drop_bit (8 * i) x)) [0..<n]"

text \<open>\<open>D::MAX\<close>\<close>

definition data_MAX :: "nat \<Rightarrow> u8 list" where
  "data_MAX n = replicate n 0xff"

section \<open>Shared memory objects and mappings\<close>

type_synonym ShmId = nat

record Host =
  shm_data :: "ShmId \<Rightarrow> nat \<Rightarrow> u8"
  shm_size :: "ShmId \<Rightarrow> nat"
  logical_pages :: "nat \<Rightarrow> (ShmId \<times> nat) option"
  phys_pages :: "nat \<Rightarrow> (ShmId \<times> nat) option"

text \<open>\<open>Shm::new\<close> with the contents cleared, and the accesses through its view. A slice is read in three
  parts, the middle one word by word when the offset allows; \<open>k\<close> is the length of the part before the
  first aligned byte of the destination.\<close>

definition shm_new :: "Host \<Rightarrow> ShmId \<Rightarrow> nat \<Rightarrow> Host" where
  "shm_new h s n = h\<lparr>shm_size := (shm_size h)(s := n), shm_data := (shm_data h)(s := (\<lambda>_. 0))\<rparr>"

definition shm_read_u8s :: "Host \<Rightarrow> ShmId \<Rightarrow> nat \<Rightarrow> nat \<Rightarrow> u8 list option" where
  "shm_read_u8s h s addr n =
     (if n + addr \<le> shm_size h s then Some (map (\<lambda>index. shm_data h s (addr + index)) [0..<n]) else None)"

definition shm_read_u64s :: "Host \<Rightarrow> ShmId \<Rightarrow> nat \<Rightarrow> nat \<Rightarrow> u8 list option" where
  "shm_read_u64s h s addr n =
     (if n * 8 + addr \<le> shm_size h s
      then if addr mod 8 = 0
           then Some (concat (map (\<lambda>index. to_le_bytes 8 (from_le_bytes
                  (map (\<lambda>i. shm_data h s (addr + index * 8 + i)) [0..<8]) :: u64)) [0..<n]))
           else shm_read_u8s h s addr (n * 8)
      else None)"

definition shm_read_slice :: "nat \<Rightarrow> Host \<Rightarrow> ShmId \<Rightarrow> u32 \<Rightarrow> nat \<Rightarrow> u8 list option" where
  "shm_read_slice k h s addr n =
     (if n + unat addr \<le> shm_size h s
      then let before = min k n; middle = (n - before) div 8; middle_addr = addr + word_of_nat before in
        (case shm_read_u8s h s (unat addr) before of None \<Rightarrow> None
         | Some xs \<Rightarrow> (case shm_read_u64s h s (unat middle_addr) middle of None \<Rightarrow> None
           | Some ys \<Rightarrow> map_option (\<lambda>zs. xs @ ys @ zs)
               (shm_read_u8s h s (unat (middle_addr + word_of_nat middle * 8)) (n - before - middle * 8))))
      else None)"

fun store_bytes :: "(nat \<Rightarrow> u8) \<Rightarrow> nat \<Rightarrow> u8 list \<Rightarrow> nat \<Rightarrow> u8" where
  "store_bytes d addr [] = d"
| "store_bytes d addr (b # bs) = store_bytes (d(addr := b)) (Suc addr) bs"

definition shm_write_slice :: "Host \<Rightarrow> ShmId \<Rightarrow> u32 \<Rightarrow> u8 list \<Rightarrow> Host option" where
  "shm_write_slice h s addr bs =
     (if length bs + unat addr \<le> shm_size h s
      then Some (h\<lparr>shm_data := (shm_data h)(s := store_bytes (shm_data h s) (unat addr) bs)\<rparr>) else None)"

definition shm_to_vec :: "Host \<Rightarrow> ShmId \<Rightarrow> u8 list" where
  "shm_to_vec h s = map (shm_data h s) [0..<shm_size h s]"

section \<open>Accesses through the reserved range\<close>

definition MAPPING_KIND_PHYSICAL :: nat where
  "MAPPING_KIND_PHYSICAL = 2 ^ 32"

text \<open>The object and the offset in it behind the address \<open>base + a\<close>. Beyond the second 4 GiB nothing
  is ever mapped.\<close>

definition host_loc :: "Host \<Rightarrow> nat \<Rightarrow> (ShmId \<times> nat) option" where
  "host_loc h a =
     (case (if a < MAPPING_KIND_PHYSICAL then logical_pages h (a div 4096)
            else if a < 2 * MAPPING_KIND_PHYSICAL then phys_pages h ((a - MAPPING_KIND_PHYSICAL) div 4096)
            else None) of
        None \<Rightarrow> None
      | Some (s, page_offset) \<Rightarrow>
          if page_offset + a mod 4096 < shm_size h s then Some (s, page_offset + a mod 4096) else None)"

fun host_read :: "Host \<Rightarrow> nat \<Rightarrow> nat \<Rightarrow> u8 list option" where
  "host_read h a 0 = Some []"
| "host_read h a (Suc n) =
     (case host_loc h a of
        None \<Rightarrow> None
      | Some (s, off) \<Rightarrow> map_option ((#) (shm_data h s off)) (host_read h (Suc a) n))"

definition put_byte :: "Host \<Rightarrow> ShmId \<times> nat \<Rightarrow> u8 \<Rightarrow> Host" where
  "put_byte h l b = h\<lparr>shm_data := (shm_data h)(fst l := (shm_data h (fst l))(snd l := b))\<rparr>"

fun host_write :: "Host \<Rightarrow> nat \<Rightarrow> u8 list \<Rightarrow> Host option" where
  "host_write h a [] = Some h"
| "host_write h a (b # bs) =
     (case host_loc h a of
        None \<Rightarrow> None
      | Some l \<Rightarrow> host_write (put_byte h l b) (Suc a) bs)"

text \<open>\<open>mmap\<close> of \<open>n\<close> pages of an object over the linear or the physical range.\<close>

definition mmap_logical :: "Host \<Rightarrow> nat \<Rightarrow> ShmId \<Rightarrow> nat \<Rightarrow> Host" where
  "mmap_logical h page s offset = h\<lparr>logical_pages := (logical_pages h)(page := Some (s, offset))\<rparr>"

definition mmap_physical :: "Host \<Rightarrow> nat \<Rightarrow> nat \<Rightarrow> ShmId \<Rightarrow> nat \<Rightarrow> Host" where
  "mmap_physical h page n s offset =
     h\<lparr>phys_pages := (\<lambda>p. if page \<le> p \<and> p < page + n then Some (s, offset + 4096 * (p - page)) else phys_pages h p)\<rparr>"

section \<open>Bytes\<close>

lemma length_to_le_bytes [simp]: "length (to_le_bytes n x) = n"
  by (simp add: to_le_bytes_def)

lemma bit_from_le_bytes:
  "bit (from_le_bytes bs :: 'a::len word) i \<longleftrightarrow> i < LENGTH('a) \<and> i < 8 * length bs \<and> bit (bs ! (i div 8)) (i mod 8)"
proof (induction bs arbitrary: i)
  case (Cons b bs)
  show ?case
  proof (cases "i < 8")
    case True
    then show ?thesis by (auto simp: bit_simps)
  next
    case False
    then have "i div 8 = Suc ((i - 8) div 8)" "i mod 8 = (i - 8) mod 8" by (simp_all add: le_div_geq le_mod_geq not_less)
    with False show ?thesis
      by (auto simp: bit_simps Cons.IH dest: bit_imp_le_length)
  qed
qed simp

lemma from_to_le_bytes:
  fixes x :: "'a::len word"
  assumes "LENGTH('a) \<le> 8 * n"
  shows "from_le_bytes (to_le_bytes n x) = x"
  using assms by (auto simp: bits bit_from_le_bytes to_le_bytes_def bit_simps nth_append div_less_iff_less_mult)

lemma to_from_le_bytes:
  assumes "8 * length bs \<le> LENGTH('a::len)"
  shows "to_le_bytes (length bs) (from_le_bytes bs :: 'a word) = bs"
proof (rule nth_equalityI)
  fix i assume i: "i < length (to_le_bytes (length bs) (from_le_bytes bs :: 'a word))"
  show "to_le_bytes (length bs) (from_le_bytes bs :: 'a word) ! i = bs ! i"
    using i assms by (auto simp: to_le_bytes_def bits bit_simps bit_from_le_bytes)
qed simp

lemma from_le_bytes_or:
  "from_le_bytes ((b OR x) # bs) = (from_le_bytes (b # bs) OR ucast x :: 'a::len word)"
  by (auto simp: bits bit_simps)

section \<open>Reads and writes\<close>

text \<open>Every mapped page starts at a page of its object.\<close>

definition host_ok :: "Host \<Rightarrow> bool" where
  "host_ok h \<longleftrightarrow> (\<forall>p s off. logical_pages h p = Some (s, off) \<or> phys_pages h p = Some (s, off) \<longrightarrow> off mod 4096 = 0)"

lemma host_loc_mod: "host_ok h \<Longrightarrow> host_loc h a = Some (s, off) \<Longrightarrow> off mod 4096 = a mod 4096"
  by (fastforce simp: host_loc_def host_ok_def mod_add_left_eq [symmetric] split: option.splits if_splits)

lemma put_byte_maps [simp]:
  "shm_size (put_byte h l b) = shm_size h" "logical_pages (put_byte h l b) = logical_pages h"
  "phys_pages (put_byte h l b) = phys_pages h" "host_loc (put_byte h l b) a = host_loc h a"
  "host_ok (put_byte h l b) = host_ok h"
  by (simp_all add: put_byte_def host_loc_def host_ok_def cong: option.case_cong split: option.split)

lemma put_byte_same: "put_byte h (s, i) (shm_data h s i) = h"
  by (simp add: put_byte_def)

lemma host_write_maps:
  "host_write h a bs = Some h' \<Longrightarrow> shm_size h' = shm_size h \<and> logical_pages h' = logical_pages h \<and>
     phys_pages h' = phys_pages h \<and> host_loc h' = host_loc h \<and> host_ok h' = host_ok h"
  by (induction h a bs rule: host_write.induct) (auto split: option.splits simp: fun_eq_iff)

lemma host_read_length: "host_read h a n = Some bs \<Longrightarrow> length bs = n"
  by (induction n arbitrary: a bs) (auto split: option.splits prod.splits)

lemma host_read_defined: "host_read h a n \<noteq> None \<longleftrightarrow> (\<forall>i < n. host_loc h (a + i) \<noteq> None)"
proof (induction n arbitrary: a)
  case (Suc n)
  show ?case using Suc.IH [of "Suc a"] by (auto simp: All_less_Suc2 split: option.splits)
qed simp

lemma host_read_nth:
  "host_read h a n = Some bs \<Longrightarrow> i < n \<Longrightarrow> \<exists>s off. host_loc h (a + i) = Some (s, off) \<and> bs ! i = shm_data h s off"
proof (induction n arbitrary: a bs i)
  case (Suc n)
  then show ?case
    using Suc.IH [of "Suc a" _ "i - 1"] by (cases i) (auto split: option.splits)
qed simp

lemma host_read_cong:
  assumes "\<And>i. i < n \<Longrightarrow> host_loc h' (a + i) = host_loc h (a + i)"
    and "\<And>i s off. i < n \<Longrightarrow> host_loc h (a + i) = Some (s, off) \<Longrightarrow> shm_data h' s off = shm_data h s off"
  shows "host_read h' a n = host_read h a n"
  using assms
proof (induction n arbitrary: a)
  case (Suc n)
  have "host_read h' (Suc a) n = host_read h (Suc a) n"
    using Suc.prems(1) [of "Suc _"] Suc.prems(2) [of "Suc _"] by (intro Suc.IH) auto
  then show ?case using Suc.prems(1) [of 0] Suc.prems(2) [of 0] by (auto split: option.splits)
qed simp

lemma host_write_same: "host_read h a n = Some bs \<Longrightarrow> host_write h a bs = Some h"
  by (induction n arbitrary: a bs) (auto split: option.splits simp: put_byte_same)

lemma put_byte_data: "shm_data (put_byte h l b) s i = (if l = (s, i) then b else shm_data h s i)"
  by (cases l) (simp add: put_byte_def)

lemma host_read_put_other:
  "\<forall>i < n. host_loc h (a + i) \<noteq> Some l \<Longrightarrow> host_read (put_byte h l b) a n = host_read h a n"
  by (rule host_read_cong) (auto simp: put_byte_data)

text \<open>Setting bits of one byte. Data that starts at a multiple of its size either starts at that byte or
  does not contain it.\<close>

definition or_byte :: "Host \<Rightarrow> ShmId \<times> nat \<Rightarrow> u8 \<Rightarrow> Host" where
  "or_byte h l x = put_byte h l (shm_data h (fst l) (snd l) OR x)"

lemma or_byte_maps [simp]:
  "shm_size (or_byte h l x) = shm_size h" "logical_pages (or_byte h l x) = logical_pages h"
  "phys_pages (or_byte h l x) = phys_pages h" "host_loc (or_byte h l x) a = host_loc h a"
  "host_ok (or_byte h l x) = host_ok h"
  by (simp_all add: or_byte_def)

lemma or_byte_data: "shm_data (or_byte h l x) s i = (if l = (s, i) then shm_data h s i OR x else shm_data h s i)"
  by (cases l) (simp add: or_byte_def put_byte_data)

lemma aligned_overlap:
  assumes ok: "host_ok h" and n: "n dvd 4096" "n dvd a" "n dvd c" and i: "i < n" "j < n"
    and l: "host_loc h (a + i) = Some l" "host_loc h (c + j) = Some l"
  shows "i = j"
proof -
  have *: "(x + k) mod n = k" if "n dvd x" "k < n" for x k
    using that mod_add_left_eq [of x n k] by (simp add: dvd_eq_mod_eq_0)
  obtain s off where so: "l = (s, off)" by (cases l)
  have "(a + i) mod 4096 = (c + j) mod 4096"
    using host_loc_mod [OF ok l(1) [unfolded so]] host_loc_mod [OF ok l(2) [unfolded so]] by (rule trans [OF sym])
  then have "(a + i) mod 4096 mod n = (c + j) mod 4096 mod n" by (rule arg_cong)
  then show ?thesis using n(1) by (simp add: mod_mod_cancel * [OF n(2) i(1)] * [OF n(3) i(2)])
qed

lemma host_read_or_byte:
  assumes ok: "host_ok h" and n: "0 < n" "n dvd 4096" "n dvd a" "n dvd c" and l: "host_loc h a = Some l"
  shows "host_read (or_byte h l x) c n =
    map_option (\<lambda>bs. if host_loc h c = Some l then (hd bs OR x) # tl bs else bs) (host_read h c n)"
proof -
  obtain m where m: "n = Suc m" using n(1) gr0_implies_Suc by blast
  have later: "host_loc h (c + j) \<noteq> Some l" if "0 < j" "j < n" for j
    using aligned_overlap [OF ok n(2) n(3) n(4), of 0 j l] that l n(1) by auto
  then have rest: "host_read (or_byte h l x) (Suc c) m = host_read h (Suc c) m"
    unfolding or_byte_def by (intro host_read_put_other) (metis Suc_less_eq add_Suc_shift m zero_less_Suc)
  show ?thesis
    by (auto simp: m rest or_byte_data option.map_comp comp_def split: option.splits)
qed

lemma host_write_or_byte:
  assumes ok: "host_ok h" and n: "0 < n" "n dvd 4096" "n dvd a" and r: "host_read h a n = Some bs"
  shows "\<exists>l. host_loc h a = Some l \<and> host_write h a ((hd bs OR x) # tl bs) = Some (or_byte h l x)"
proof -
  obtain m where m: "n = Suc m" using n(1) gr0_implies_Suc by blast
  obtain s i cs where l: "host_loc h a = Some (s, i)" and bs: "bs = shm_data h s i # cs" and cs: "host_read h (Suc a) m = Some cs"
    using r unfolding m by (auto split: option.splits)
  have "host_read (or_byte h (s, i) x) a n = Some ((hd bs OR x) # tl bs)"
    using host_read_or_byte [OF ok n n(3) l] r l by simp
  then have "host_read (or_byte h (s, i) x) (Suc a) m = Some cs"
    unfolding m by (auto simp: l bs split: option.splits)
  then show ?thesis using host_write_same l by (fastforce simp: bs or_byte_def)
qed

end
