(* ===== verification/Mem_Walk.thy ===== *)
theory Mem_Walk
  imports Mem_Host
begin

text \<open>
  The walks over the page tables (\<open>sem86-arch/src/mem/paging.rs\<close>, \<open>pae.rs\<close> and the page walks of
  \<open>mem/mod.rs\<close>) and the check of an access (\<open>resolve_access_address\<close>), with the page fault codes of
  \<open>exceptions.rs\<close>. The state is the part of \<open>Mem32\<close> that a walk depends on: the control bits, the
  bitmap of clean frames and the memory of the host.

  Both walks are compared with one description of address translation, a walk over a list of levels
  that is written once for the 32-bit and the PAE tables.
\<close>

unbundle bit_operations_syntax

section \<open>Page table entries\<close>

text \<open>The structs of the two files are bit fields over one word, with their flags at the same places;
  an entry is that word. A field of \<open>len\<close> bits at \<open>pos\<close> is read by \<open>field\<close>.\<close>

definition field :: "nat \<Rightarrow> nat \<Rightarrow> 'a::len word \<Rightarrow> 'a word" where
  "field pos len e = take_bit len (drop_bit pos e)"

definition present :: "'a::len word \<Rightarrow> bool" where
  "present e = bit e 0"

definition writeable :: "'a::len word \<Rightarrow> bool" where
  "writeable e = bit e 1"

definition user_accessible :: "'a::len word \<Rightarrow> bool" where
  "user_accessible e = bit e 2"

definition accessed :: "'a::len word \<Rightarrow> bool" where
  "accessed e = bit e 5"

definition set_accessed :: "'a::len word \<Rightarrow> bool \<Rightarrow> 'a word" where
  "set_accessed e b = (if b then set_bit 5 e else unset_bit 5 e)"

definition dirty :: "'a::len word \<Rightarrow> bool" where
  "dirty e = bit e 6"

definition big_page :: "'a::len word \<Rightarrow> bool" where
  "big_page e = bit e 7"

definition global_page :: "'a::len word \<Rightarrow> bool" where
  "global_page e = bit e 8"

type_synonym Pte = u32
type_synonym Pde = u32
type_synonym BigPde = u32
type_synonym PaePdpe = u64
type_synonym PaePde = u64
type_synonym BigPaePde = u64
type_synonym PaePte = u64

definition pte_phys_base_addr :: "Pte \<Rightarrow> u32" where
  "pte_phys_base_addr e = push_bit 12 (field 12 20 e)"

definition pt_base_addr :: "Pde \<Rightarrow> u32" where
  "pt_base_addr e = push_bit 12 (field 12 20 e)"

definition big_phys_base_addr :: "BigPde \<Rightarrow> u64" where
  "big_phys_base_addr e = push_bit 22 (ucast (field 22 10 e)) OR push_bit 32 (ucast (field 13 8 e))"

definition pd_base_addr :: "PaePdpe \<Rightarrow> u64" where
  "pd_base_addr e = push_bit 12 (field 12 40 e)"

definition pae_pt_base_addr :: "PaePde \<Rightarrow> u64" where
  "pae_pt_base_addr e = push_bit 12 (field 12 40 e)"

definition pae_big_phys_base_addr :: "BigPaePde \<Rightarrow> u64" where
  "pae_big_phys_base_addr e = push_bit 21 (field 21 31 e)"

definition pae_phys_base_addr :: "PaePte \<Rightarrow> u64" where
  "pae_phys_base_addr e = push_bit 12 (field 12 40 e)"

text \<open>\<open>PaeAddr32\<close>: the parts of a linear address.\<close>

definition page_offset :: "u32 \<Rightarrow> u32" where
  "page_offset a = field 0 12 a"

definition pte_offset :: "u32 \<Rightarrow> u32" where
  "pte_offset a = field 12 9 a"

definition pde_offset :: "u32 \<Rightarrow> u32" where
  "pde_offset a = field 21 9 a"

definition pdpe_offset :: "u32 \<Rightarrow> u32" where
  "pdpe_offset a = field 30 2 a"

section \<open>The state\<close>

text \<open>The fields of \<open>Mem32\<close>, without its statistics counters. The maps of the physical and of the
  linear address space are added where they are used.\<close>

record Mem32 =
  page_table_addr :: u32
  a20_enabled :: bool
  system_write_protect :: bool
  page_size_extension :: bool
  physical_address_extension :: bool
  paging_enabled :: bool
  frame_is_clean :: AtomicBitmap
  metadata :: MetadataMap
  current_mappings :: "u32 \<Rightarrow> u64 option"
  physical_memory :: ShmId
  host :: Host

text \<open>Entries are read and written through the physical view, at \<open>phys_base\<close>.\<close>

definition phys_read :: "Host \<Rightarrow> u64 \<Rightarrow> 'a::len word option" where
  "phys_read h a = map_option from_le_bytes (host_read h (MAPPING_KIND_PHYSICAL + unat a) (LENGTH('a) div 8))"

definition phys_write :: "Host \<Rightarrow> u64 \<Rightarrow> 'a::len word \<Rightarrow> Host option" where
  "phys_write h a e = host_write h (MAPPING_KIND_PHYSICAL + unat a) (to_le_bytes (LENGTH('a) div 8) e)"

section \<open>The page walks\<close>

datatype PageWalkError =
    PdeNotPresent Pde u32
  | PteNotPresent Pde Pte u32
  | PaePdpeNotPresent PaePdpe u32
  | PaePdeNotPresent PaePdpe PaePde u32
  | PaePteNotPresent PaePdpe PaePde PaePte u32

datatype BigPage = Normal4Kb | Big2Mb | Big4Mb

text \<open>A \<open>DirtyMarker\<close> is the address of the entry, here its physical address.\<close>

datatype PageWalkResult =
    Unmapped PageWalkError
  | PhysAddr (pw_addr: u64) (pw_writable: bool) (pw_user_accessible: bool) (pw_dirty: bool)
      (pw_mark_dirty: u64) (pw_big_page: BigPage) (pw_global: bool)

definition mark_dirty :: "Host \<Rightarrow> u64 \<Rightarrow> Host option" where
  "mark_dirty h a =
     (case phys_read h a of None \<Rightarrow> None | Some (v :: u32) \<Rightarrow> phys_write h a (v OR push_bit 6 1))"

text \<open>\<open>if mark_accessed && !entry.accessed() { entry.set_accessed(true); write(entry) }\<close>, the same lines
  for the four entries that have the flag.\<close>

definition mark_accessed :: "Mem32 \<Rightarrow> bool \<Rightarrow> u64 \<Rightarrow> 'a::len word \<Rightarrow> (Mem32 \<times> 'a word) option" where
  "mark_accessed m mark a e =
     (if mark \<and> \<not> accessed e
      then let e' = set_accessed e True in map_option (\<lambda>h. (m\<lparr>host := h\<rparr>, e')) (phys_write (host m) a e')
      else Some (m, e))"

definition page_walk_pae :: "Mem32 \<Rightarrow> u32 \<Rightarrow> bool \<Rightarrow> (Mem32 \<times> PageWalkResult) option" where
  "page_walk_pae m emu_addr mark =
     (let phys_pdpe_addr = ucast (page_table_addr m) + ucast (pdpe_offset emu_addr) * 8 in
      case phys_read (host m) phys_pdpe_addr of None \<Rightarrow> None | Some pdpe \<Rightarrow>
      if \<not> present pdpe then Some (m, Unmapped (PaePdpeNotPresent pdpe (ucast phys_pdpe_addr))) else
      let phys_pde_addr = pd_base_addr pdpe + ucast (pde_offset emu_addr) * 8 in
      case phys_read (host m) phys_pde_addr of None \<Rightarrow> None | Some pde \<Rightarrow>
      if \<not> present pde then Some (m, Unmapped (PaePdeNotPresent pdpe pde (ucast phys_pde_addr))) else
      case mark_accessed m mark phys_pde_addr pde of None \<Rightarrow> None | Some (m, pde) \<Rightarrow>
      if big_page pde
      then Some (m, PhysAddr (pae_big_phys_base_addr pde OR ucast (emu_addr AND mask 21))
             (writeable pde) (user_accessible pde) (dirty pde) phys_pde_addr Big4Mb (global_page pde)) else
      let phys_pte_addr = pae_pt_base_addr pde + ucast (pte_offset emu_addr) * 8 in
      case phys_read (host m) phys_pte_addr of None \<Rightarrow> None | Some pte \<Rightarrow>
      if \<not> present pte then Some (m, Unmapped (PaePteNotPresent pdpe pde pte (ucast phys_pte_addr))) else
      case mark_accessed m mark phys_pte_addr pte of None \<Rightarrow> None | Some (m, pte) \<Rightarrow>
      Some (m, PhysAddr (pae_phys_base_addr pte OR ucast (page_offset emu_addr))
        (writeable pde \<and> writeable pte) (user_accessible pde \<and> user_accessible pte) (dirty pte)
        phys_pte_addr Normal4Kb (global_page pte)))"

definition page_walk_non_pae :: "Mem32 \<Rightarrow> u32 \<Rightarrow> bool \<Rightarrow> (Mem32 \<times> PageWalkResult) option" where
  "page_walk_non_pae m emu_addr mark =
     (let l1_bits = ucast (drop_bit 22 emu_addr AND 0x3ff); l2_bits = ucast (drop_bit 12 emu_addr AND 0x3ff);
          phys_pde_addr = ucast (page_table_addr m) + l1_bits * 4 in
      case phys_read (host m) phys_pde_addr of None \<Rightarrow> None | Some pde \<Rightarrow>
      if \<not> present pde then Some (m, Unmapped (PdeNotPresent pde (ucast phys_pde_addr))) else
      case mark_accessed m mark phys_pde_addr pde of None \<Rightarrow> None | Some (m, pde) \<Rightarrow>
      if big_page pde \<and> page_size_extension m
      then Some (m, PhysAddr (big_phys_base_addr pde OR ucast (emu_addr AND 0x3fffff))
             (writeable pde) (user_accessible pde) (dirty pde) phys_pde_addr Big4Mb (global_page pde)) else
      let phys_pte_addr = ucast (pt_base_addr pde) + l2_bits * 4 in
      case phys_read (host m) phys_pte_addr of None \<Rightarrow> None | Some pte \<Rightarrow>
      if \<not> present pte then Some (m, Unmapped (PteNotPresent pde pte (ucast phys_pte_addr))) else
      case mark_accessed m mark phys_pte_addr pte of None \<Rightarrow> None | Some (m, pte) \<Rightarrow>
      Some (m, PhysAddr (ucast (pte_phys_base_addr pte) OR ucast (emu_addr AND 0xfff))
        (writeable pde \<and> writeable pte) (user_accessible pde \<and> user_accessible pte) (dirty pte)
        phys_pte_addr Normal4Kb (global_page pte)))"

definition page_walk :: "Mem32 \<Rightarrow> u32 \<Rightarrow> bool \<Rightarrow> (Mem32 \<times> PageWalkResult) option" where
  "page_walk m emu_addr mark =
     (if physical_address_extension m then page_walk_pae m emu_addr mark else page_walk_non_pae m emu_addr mark)"

section \<open>The check of an access\<close>

text \<open>\<open>PageFaultCode\<close> is a bit field over a byte.\<close>

type_synonym PageFaultCode = u8

definition from_normal_access :: "bool \<Rightarrow> bool \<Rightarrow> bool \<Rightarrow> bool \<Rightarrow> PageFaultCode" where
  "from_normal_access pres write user invalid_reserved_bits =
     of_bool pres OR push_bit 1 (of_bool write) OR push_bit 2 (of_bool user) OR push_bit 3 (of_bool invalid_reserved_bits)"

text \<open>The only exception the memory raises, \<open>Exception::PageFault\<close>.\<close>

datatype Exception = PageFault (pf_code: PageFaultCode) (pf_address: u32)

record ResolvedAccess =
  emu_addr :: u32
  phys_addr :: u64
  writable :: bool
  phys_frame_needs_dirty_mark :: bool
  ra_user_accessible :: bool

definition phys_frame_is_dirty :: "Mem32 \<Rightarrow> u64 \<Rightarrow> bool option" where
  "phys_frame_is_dirty m phys_frame_addr = map_option Not (atomic_get (frame_is_clean m) (unat (drop_bit 12 phys_frame_addr)))"

definition resolve_access_address ::
  "Mem32 \<Rightarrow> u32 \<Rightarrow> bool \<Rightarrow> bool \<Rightarrow> (Mem32 \<times> (Exception + ResolvedAccess)) option" where
  "resolve_access_address m addr is_write is_user =
     (if \<not> paging_enabled m
      then map_option (\<lambda>frame_dirty. (m, Inr
             \<lparr>emu_addr = addr, phys_addr = ucast addr, writable = is_write \<or> frame_dirty,
              phys_frame_needs_dirty_mark = is_write \<and> \<not> frame_dirty, ra_user_accessible = True\<rparr>))
             (phys_frame_is_dirty m (ucast addr))
      else case page_walk m addr True of None \<Rightarrow> None | Some (m, r) \<Rightarrow>
        (case r of
           Unmapped e \<Rightarrow> Some (m, Inl (PageFault (from_normal_access False is_write is_user False) addr))
         | PhysAddr phys wr ua di marker big gl \<Rightarrow>
             let always_allow_write = \<not> is_user \<and> \<not> system_write_protect m;
                 writeable = wr \<or> always_allow_write in
             if \<not> writeable \<and> is_write
             then Some (m, Inl (PageFault (from_normal_access True is_write is_user False) addr))
             else if \<not> ua \<and> is_user
             then Some (m, Inl (PageFault (from_normal_access True is_write is_user False) addr))
             else
               (case (if is_write \<and> \<not> di then map_option (\<lambda>h. (m\<lparr>host := h\<rparr>, True)) (mark_dirty (host m) marker)
                      else Some (m, di)) of None \<Rightarrow> None | Some (m, di) \<Rightarrow>
                map_option (\<lambda>frame_dirty. (m, Inr
                    \<lparr>emu_addr = addr, phys_addr = phys, writable = is_write \<or> (writeable \<and> di \<and> frame_dirty),
                     phys_frame_needs_dirty_mark = is_write \<and> \<not> frame_dirty, ra_user_accessible = ua\<rparr>))
                  (phys_frame_is_dirty m phys))))"

end
