(* ===== verification/Mem_Translation.thy ===== *)
theory Mem_Translation
  imports Mem_Walk
begin

text \<open>
  Address translation. \<open>walk_levels\<close> describes a walk over page tables once, for any number of levels;
  the two walks of \<open>Mem_Walk\<close> are shown to be instances of it that also set the accessed flag of the
  entries they go through. The check of an access is then characterised by the translation alone.
\<close>

unbundle bit_operations_syntax

section \<open>Address translation by levels\<close>

text \<open>A level of the tables: which bits of the linear address select the entry, whether the entry may
  already map a big page, and whether it has access rights and an accessed flag (the top level of the
  PAE tables has not).\<close>

record level =
  lv_shift :: nat
  lv_width :: nat
  lv_big :: bool
  lv_rights :: bool

datatype translation =
    Missing
  | Translation (tr_addr: u64) (tr_writable: bool) (tr_user: bool) (tr_dirty: bool) (tr_entry: u64) (tr_global: bool)

text \<open>Entries as 64-bit words: where the next table is, and where the page is that an entry maps whose
  pages have \<open>2 ^ sh\<close> bytes. Pages of 4 MiB keep bits 32 to 39 of their address in bits 13 to 20.\<close>

definition table_base :: "u64 \<Rightarrow> u64" where
  "table_base e = push_bit 12 (field 12 40 e)"

definition frame_base :: "nat \<Rightarrow> u64 \<Rightarrow> u64" where
  "frame_base sh e =
     (if sh = 22 then push_bit 22 (field 22 10 e) OR push_bit 32 (field 13 8 e) else push_bit sh (field sh (52 - sh) e))"

text \<open>The walk: the translation, and the entries with an accessed flag that it went through.\<close>

fun walk_levels :: "(u64 \<Rightarrow> u64 option) \<Rightarrow> u64 \<Rightarrow> level list \<Rightarrow> u64 \<Rightarrow> u32 \<Rightarrow> bool \<Rightarrow> bool \<Rightarrow> (u64 list \<times> translation) option" where
  "walk_levels rd eb [] base lin w u = None"
| "walk_levels rd eb (l # ls) base lin w u =
     (let a = base + eb * ucast (field (lv_shift l) (lv_width l) lin) in
      case rd a of None \<Rightarrow> None | Some e \<Rightarrow>
      if \<not> bit e 0 then Some ([], Missing) else
      let w' = (w \<and> (lv_rights l \<longrightarrow> bit e 1)); u' = (u \<and> (lv_rights l \<longrightarrow> bit e 2)); p = (if lv_rights l then [a] else []) in
      if ls = [] \<or> lv_big l \<and> bit e 7
      then Some (p, Translation (frame_base (lv_shift l) e OR ucast (field 0 (lv_shift l) lin)) w' u' (bit e 6) a (bit e 8))
      else map_option (\<lambda>(p', t). (p @ p', t)) (walk_levels rd eb ls (table_base e) lin w' u'))"

definition entry32 :: "Host \<Rightarrow> u64 \<Rightarrow> u64 option" where
  "entry32 h a = map_option ucast (phys_read h a :: u32 option)"

text \<open>The walk starts where the code starts it, at \<open>CR3\<close> as it is. The low bits of \<open>CR3\<close> are cache control
  flags and reserved bits: where they are clear, this is the walk of the architecture; where they are
  set, the architecture masks them and the code does not (\<open>cr3_flags_move_the_directory\<close>).\<close>

definition translation_of :: "Mem32 \<Rightarrow> u32 \<Rightarrow> (u64 list \<times> translation) option" where
  "translation_of m lin =
     (if physical_address_extension m
      then walk_levels (phys_read (host m)) 8
             [\<lparr>lv_shift = 30, lv_width = 2, lv_big = False, lv_rights = False\<rparr>,
              \<lparr>lv_shift = 21, lv_width = 9, lv_big = True, lv_rights = True\<rparr>,
              \<lparr>lv_shift = 12, lv_width = 9, lv_big = False, lv_rights = True\<rparr>]
             (ucast (page_table_addr m)) lin True True
      else walk_levels (entry32 (host m)) 4
             [\<lparr>lv_shift = 22, lv_width = 10, lv_big = page_size_extension m, lv_rights = True\<rparr>,
              \<lparr>lv_shift = 12, lv_width = 10, lv_big = False, lv_rights = True\<rparr>]
             (ucast (page_table_addr m)) lin True True)"

text \<open>Setting a flag in the entries at the given addresses.\<close>

definition flag_entry :: "u8 \<Rightarrow> Host \<Rightarrow> u64 \<Rightarrow> Host" where
  "flag_entry x h a = (case host_loc h (MAPPING_KIND_PHYSICAL + unat a) of None \<Rightarrow> h | Some l \<Rightarrow> or_byte h l x)"

definition flag_entries :: "u8 \<Rightarrow> Host \<Rightarrow> u64 list \<Rightarrow> Host" where
  "flag_entries x = foldl (flag_entry x)"

fun walk_view :: "PageWalkResult \<Rightarrow> translation" where
  "walk_view (Unmapped _) = Missing"
| "walk_view (PhysAddr a w u d e _ g) = Translation a w u d e g"

section \<open>Flags\<close>

definition aligned :: "nat \<Rightarrow> u64 \<Rightarrow> bool" where
  "aligned n a \<longleftrightarrow> n dvd unat a"

lemma aligned_add: "n dvd 2 ^ 64 \<Longrightarrow> aligned n a \<Longrightarrow> aligned n b \<Longrightarrow> aligned n (a + b)"
  by (simp add: aligned_def unat_word_ariths dvd_mod)

lemma aligned_index: "aligned 4 (ucast (x :: u32) * 4)" "aligned 8 (ucast (x :: u32) * 8)"
   "aligned 4 (4 * ucast (x :: u32))" "aligned 8 (8 * ucast (x :: u32))"
  by (simp_all add: aligned_def unat_word_ariths dvd_mod)

lemma aligned_table: "n dvd 2 ^ 12 \<Longrightarrow> aligned n (push_bit 12 x)"
  by (auto simp: aligned_def push_bit_eq_mult unat_word_ariths intro!: dvd_mod dvd_trans [of n 4096])

lemma flag_entry_maps [simp]:
  "host_ok (flag_entry x h a) = host_ok h" "host_loc (flag_entry x h a) c = host_loc h c"
  by (simp_all add: flag_entry_def split: option.split)

lemma from_le_bytes_hd_or:
  "bs \<noteq> [] \<Longrightarrow> from_le_bytes ((hd bs OR x) # tl bs) = (from_le_bytes bs OR ucast x :: 'a::len word)"
  by (cases bs) (simp_all only: list.sel from_le_bytes_or, simp)

text \<open>What an entry looks like after a flag was set in another one, or in itself.\<close>

lemma phys_read_flag:
  fixes h :: Host and a c :: u64 and x :: u8
  assumes ok: "host_ok h" and n: "n = LENGTH('a) div 8" "0 < n" "n dvd 4096" "aligned n a" "aligned n c"
  shows "\<exists>b. (phys_read (flag_entry x h a) c :: 'a::len word option) =
    map_option (\<lambda>e. if b then e OR ucast x else e) (phys_read h c)"
proof (cases "host_loc h (MAPPING_KIND_PHYSICAL + unat a)")
  case None
  then show ?thesis by (auto simp: flag_entry_def option.map_ident intro!: exI [of _ False])
next
  case (Some l)
  have d: "n dvd MAPPING_KIND_PHYSICAL + unat a" "n dvd MAPPING_KIND_PHYSICAL + unat c"
    using n dvd_trans [OF n(3), of MAPPING_KIND_PHYSICAL] by (auto simp: aligned_def MAPPING_KIND_PHYSICAL_def)
  have len: "bs \<noteq> []" if "host_read h (MAPPING_KIND_PHYSICAL + unat c) n = Some bs" for bs
    using host_read_length [OF that] n(2) by auto
  show ?thesis
    using host_read_or_byte [OF ok n(2) n(3) d Some, of x] len
    by (auto simp: phys_read_def flag_entry_def Some n(1) [symmetric] option.map_comp comp_def from_le_bytes_hd_or simp del: from_le_bytes.simps
        intro!: exI [of _ "host_loc h (MAPPING_KIND_PHYSICAL + unat c) = Some l"] option.map_cong)
qed

lemma flag_write:
  fixes e :: "'a::len word"
  assumes ok: "host_ok h" and n: "n = LENGTH('a) div 8" "8 * n = LENGTH('a)" "0 < n" "n dvd 4096" "aligned n a"
    and r: "phys_read h a = Some e"
  shows "phys_write h a (e OR ucast x) = Some (flag_entry x h a)"
proof -
  obtain bs where bs: "host_read h (MAPPING_KIND_PHYSICAL + unat a) n = Some bs" "e = from_le_bytes bs"
    using r by (auto simp: phys_read_def n(1))
  then have len: "length bs = n" "bs \<noteq> []" using host_read_length n(3) by auto
  have d: "n dvd MAPPING_KIND_PHYSICAL + unat a"
    using n dvd_trans [OF n(4), of MAPPING_KIND_PHYSICAL] by (auto simp: aligned_def MAPPING_KIND_PHYSICAL_def)
  have "to_le_bytes n (e OR ucast x) = (hd bs OR x) # tl bs"
  proof -
    have l: "length ((hd bs OR x) # tl bs) = n" using len by (cases bs) auto
    then have "to_le_bytes n (from_le_bytes ((hd bs OR x) # tl bs) :: 'a word) = (hd bs OR x) # tl bs"
      using to_from_le_bytes [of "(hd bs OR x) # tl bs", where 'a = 'a] n(2) by (simp only:)
    then show ?thesis using len by (simp add: bs(2) from_le_bytes_hd_or del: from_le_bytes.simps)
  qed
  then show ?thesis
    using host_write_or_byte [OF ok n(3) n(4) d bs(1), of x] n(1) by (auto simp: phys_write_def flag_entry_def)
qed

lemma or_byte_absorb: "shm_data h (fst l) (snd l) OR x = shm_data h (fst l) (snd l) \<Longrightarrow> or_byte h l x = h"
  by (cases l) (simp add: or_byte_def put_byte_same)

text \<open>An entry whose flag is already set.\<close>

lemma flag_entry_absorb:
  fixes e :: "'a::len word"
  assumes r: "phys_read h a = Some e" and n: "8 dvd LENGTH('a)" "0 < LENGTH('a)" and i: "bit e i" "i < 8"
  shows "flag_entry (2 ^ i) h a = h"
proof (cases "host_loc h (MAPPING_KIND_PHYSICAL + unat a)")
  case (Some l)
  obtain m where m: "LENGTH('a) div 8 = Suc m" using n by (cases "LENGTH('a) div 8") auto
  obtain bs where bs: "host_read h (MAPPING_KIND_PHYSICAL + unat a) (Suc m) = Some bs" "e = from_le_bytes bs"
    using r by (auto simp: phys_read_def m)
  then have "hd bs = shm_data h (fst l) (snd l)" by (auto simp: Some split: option.splits prod.splits)
  moreover have "bit (hd bs) i"
    using i bs(1) host_read_length [OF bs(1)] by (cases bs) (auto simp: bs(2) bit_from_le_bytes simp del: from_le_bytes.simps)
  ultimately have "shm_data h (fst l) (snd l) OR 2 ^ i = shm_data h (fst l) (snd l)"
    by (auto simp: bits bit_or_iff bit_exp_iff)
  then show ?thesis by (simp add: flag_entry_def Some or_byte_absorb)
qed (simp add: flag_entry_def)

lemma mark_accessed_eq:
  fixes e :: "'a::len word"
  assumes ok: "host_ok (host m)" and n: "8 * n = LENGTH('a)" "0 < n" "n dvd 4096" "aligned n a"
    and r: "phys_read (host m) a = Some e"
  shows "mark_accessed m mark a e =
    Some (m\<lparr>host := if mark then flag_entry 0x20 (host m) a else host m\<rparr>, if mark then e OR 0x20 else e)"
proof -
  have n8: "n = LENGTH('a) div 8" using n by simp
  have len: "6 \<le> LENGTH('a)" using n by simp
  have e: "set_bit 5 e = e OR 0x20"
    by (simp add: set_bit_eq_or push_bit_of_1)
  have u: "(ucast (0x20 :: u8) :: 'a word) = 0x20" using len by (auto simp: bits bit_simps)
  show ?thesis
  proof (cases "accessed e")
    case True
    then have b: "bit e 5" by (simp add: accessed_def)
    have "flag_entry (2 ^ 5) (host m) a = host m"
      by (rule flag_entry_absorb [OF r _ _ b]) (use n(1) [symmetric] n(2) in auto)
    moreover have "e OR 0x20 = e" using b e by (auto simp: bits bit_simps)
    ultimately show ?thesis using True by (simp add: mark_accessed_def)
  next
    case False
    then show ?thesis
      using flag_write [OF ok n8 n r, where x = "0x20"] by (simp add: mark_accessed_def set_accessed_def e u)
  qed
qed

lemma mark_dirty_eq:
  assumes ok: "host_ok h" and a: "aligned 4 a" and r: "phys_read h a = Some (e :: 'a::len word)" and n: "32 \<le> LENGTH('a)"
  shows "mark_dirty h a = Some (flag_entry 0x40 h a)"
proof -
  let ?a = "MAPPING_KIND_PHYSICAL + unat a"
  have "host_read h ?a (LENGTH('a) div 8) \<noteq> None" using r by (auto simp: phys_read_def)
  moreover have "4 \<le> LENGTH('a) div 8" using n by simp
  ultimately have "host_read h ?a 4 \<noteq> None" unfolding host_read_defined by force
  then obtain v :: u32 where v: "phys_read h a = Some v" by (auto simp: phys_read_def)
  have "phys_write h a (v OR ucast (0x40 :: u8)) = Some (flag_entry 0x40 h a)"
    by (rule flag_write [OF ok _ _ _ _ a v]) simp_all
  then show ?thesis by (simp add: mark_dirty_def v)
qed

lemma flag_fields [simp]:
  "present (e OR 0x20 :: u32) = present e" "writeable (e OR 0x20 :: u32) = writeable e"
  "user_accessible (e OR 0x20 :: u32) = user_accessible e" "dirty (e OR 0x20 :: u32) = dirty e"
  "big_page (e OR 0x20 :: u32) = big_page e" "global_page (e OR 0x20 :: u32) = global_page e"
  "pt_base_addr (e OR 0x20) = pt_base_addr e" "pte_phys_base_addr (e OR 0x20) = pte_phys_base_addr e"
  "big_phys_base_addr (e OR 0x20) = big_phys_base_addr e"
  "present (f OR 0x20 :: u64) = present f" "writeable (f OR 0x20 :: u64) = writeable f"
  "user_accessible (f OR 0x20 :: u64) = user_accessible f" "dirty (f OR 0x20 :: u64) = dirty f"
  "big_page (f OR 0x20 :: u64) = big_page f" "global_page (f OR 0x20 :: u64) = global_page f"
  "pae_pt_base_addr (f OR 0x20) = pae_pt_base_addr f" "pae_phys_base_addr (f OR 0x20) = pae_phys_base_addr f"
  "pae_big_phys_base_addr (f OR 0x20) = pae_big_phys_base_addr f" "pd_base_addr (f OR 0x20) = pd_base_addr f"
  by (simp_all add: present_def writeable_def user_accessible_def dirty_def big_page_def global_page_def bit_or_iff
      pt_base_addr_def pte_phys_base_addr_def big_phys_base_addr_def pae_pt_base_addr_def pae_phys_base_addr_def
      pae_big_phys_base_addr_def pd_base_addr_def field_def)

text \<open>The addresses of the code and of the specification.\<close>

lemma mask_fields:
  "drop_bit 22 lin AND 0x3ff = field 22 10 lin" "drop_bit 12 lin AND 0x3ff = field 12 10 lin"
  "lin AND 0xfff = field 0 12 lin" "lin AND 0x3fffff = field 0 22 lin" "lin AND mask 21 = field 0 21 lin" for lin :: u32
  by (simp_all add: field_def take_bit_eq_mask mask_eq_exp_minus_1)

lemma entry_addresses:
  "ucast (pt_base_addr e) = table_base (ucast e)" "ucast (pte_phys_base_addr e) = frame_base 12 (ucast e)"
  "big_phys_base_addr e = frame_base 22 (ucast e)" "pd_base_addr f = table_base f" "pae_pt_base_addr f = table_base f"
  "pae_phys_base_addr f = frame_base 12 f" "pae_big_phys_base_addr f = frame_base 21 f"
  by (auto simp: bits bit_simps field_def table_base_def frame_base_def pt_base_addr_def pte_phys_base_addr_def
      big_phys_base_addr_def pd_base_addr_def pae_pt_base_addr_def pae_phys_base_addr_def pae_big_phys_base_addr_def
      dest: bit_imp_le_length)

lemmas entry_flags = present_def writeable_def user_accessible_def dirty_def big_page_def global_page_def

text \<open>The effect of a walk on the memory.\<close>

definition marked :: "bool \<Rightarrow> u64 list \<Rightarrow> Mem32 \<Rightarrow> Mem32" where
  "marked mark p m = (if mark then m\<lparr>host := flag_entries 0x20 (host m) p\<rparr> else m)"

lemma marked_Nil [simp]: "marked mark [] m = m"
  by (simp add: marked_def flag_entries_def)

lemma marked_snoc: "marked mark [a] (marked mark p m) = marked mark (p @ [a]) m"
  by (simp add: marked_def flag_entries_def)

lemma marked_fields [simp]:
  "page_table_addr (marked b p m) = page_table_addr m" "page_size_extension (marked b p m) = page_size_extension m"
  "physical_address_extension (marked b p m) = physical_address_extension m"
  "system_write_protect (marked b p m) = system_write_protect m" "frame_is_clean (marked b p m) = frame_is_clean m"
  by (simp_all add: marked_def)

lemma flag_entries_maps [simp]:
  "host_ok (flag_entries x h p) = host_ok h" "host_loc (flag_entries x h p) a = host_loc h a"
  by (induction p arbitrary: h) (simp_all add: flag_entries_def)

lemma marked_host_ok [simp]: "host_ok (host (marked b p m)) = host_ok (host m)"
  by (simp add: marked_def)

lemma mark_accessed_marked:
  fixes e :: "'a::len word"
  assumes "host_ok (host m)" "8 * n = LENGTH('a)" "0 < n" "n dvd 4096" "aligned n a" "phys_read (host m) a = Some e"
  shows "mark_accessed m mark a e = Some (marked mark [a] m, if mark then e OR 0x20 else e)"
  using mark_accessed_eq [OF assms, of mark] by (simp add: marked_def flag_entries_def)

lemma phys_read_marked:
  assumes "host_ok (host m)" "n = LENGTH('a) div 8" "0 < n" "n dvd 4096" "aligned n a" "aligned n c"
  shows "\<exists>b. (phys_read (host (marked mark [a] m)) c :: 'a::len word option) =
    map_option (\<lambda>e. if b then e OR ucast (0x20 :: u8) else e) (phys_read (host m) c)"
proof (cases mark)
  case True
  then show ?thesis using phys_read_flag [OF assms, where x = "0x20"] by (simp add: marked_def flag_entries_def)
qed (auto simp: marked_def option.map_ident intro: exI [of _ False])

lemma ucast_20 [simp]: "ucast (0x20 :: u8) = (0x20 :: u32)" "ucast (0x20 :: u8) = (0x20 :: u64)"
  by simp_all

lemma flag_bits [simp]:
  "bit (ucast e :: u64) i \<longleftrightarrow> bit (e :: u32) i"
  by (auto simp: bit_simps dest: bit_imp_le_length)

lemma entry_bits:
  "bit e 0 = present e" "bit e 1 = writeable e" "bit e (Suc 0) = writeable e" "bit e 2 = user_accessible e"
  "bit e 6 = dirty e" "bit e 7 = big_page e" "bit e 8 = global_page e"
  by (simp_all add: entry_flags)

lemma ucast_fields [simp]:
  "present (ucast e :: u64) = present (e :: u32)" "writeable (ucast e :: u64) = writeable e"
  "user_accessible (ucast e :: u64) = user_accessible e" "dirty (ucast e :: u64) = dirty e"
  "big_page (ucast e :: u64) = big_page e" "global_page (ucast e :: u64) = global_page e"
  by (simp_all add: entry_flags)

lemma base_flag [simp]:
  "table_base (ucast (e OR 0x20 :: u32)) = table_base (ucast e)" "table_base (f OR 0x20) = table_base f"
  "frame_base 12 (ucast (e OR 0x20 :: u32)) = frame_base 12 (ucast e)" "frame_base 12 (f OR 0x20) = frame_base 12 f"
  "frame_base 22 (ucast (e OR 0x20 :: u32)) = frame_base 22 (ucast e)" "frame_base 21 (f OR 0x20) = frame_base 21 f"
  by (simp_all add: table_base_def frame_base_def field_def unsigned_or_eq)

lemma walk_non_pae_spec:
  assumes ok: "host_ok (host m)" and al: "aligned 4 (ucast (page_table_addr m))" and np: "\<not> physical_address_extension m"
  shows "map_option (\<lambda>(m', r). (m', walk_view r)) (page_walk_non_pae m lin mark) =
    map_option (\<lambda>(p, t). (marked mark p m, t)) (translation_of m lin)"
proof -
  define a where "a = ucast (page_table_addr m) + ucast (field 22 10 lin) * (4 :: u64)"
  have ala: "aligned 4 a" unfolding a_def by (intro aligned_add al aligned_index) simp
  note unf = page_walk_non_pae_def translation_of_def Let_def mask_fields a_def [symmetric] mult.commute [of 4] entry32_def
  show ?thesis
  proof (cases "phys_read (host m) a :: u32 option")
    case None
    then show ?thesis using np by (simp add: unf)
  next
    case (Some pde)
    have mk: "mark_accessed m mark a pde = Some (marked mark [a] m, if mark then pde OR 0x20 else pde)"
      by (rule mark_accessed_marked [OF ok _ _ _ ala Some]) simp_all
    define c where "c = table_base (ucast pde) + ucast (field 12 10 lin) * 4"
    have alc: "aligned 4 c" unfolding c_def table_base_def by (intro aligned_add aligned_index aligned_table) simp_all
    obtain b where rd: "phys_read (host (marked mark [a] m)) c =
        map_option (\<lambda>e. if b then e OR 0x20 else e) (phys_read (host m) c :: u32 option)"
      using phys_read_marked [OF ok, where 'a = 32 and n = 4 and a = a and c = c and mark = mark] ala alc
      unfolding ucast_20 by auto
    show ?thesis
    proof (cases "present pde \<and> \<not> (big_page pde \<and> page_size_extension m)")
      case False
      then show ?thesis using np Some mk
        by (cases "present pde") (auto simp: unf entry_bits entry_addresses)
    next
      case True
      show ?thesis
      proof (cases "phys_read (host m) c :: u32 option")
        case None
        then show ?thesis using np Some mk rd True
          by (auto simp: unf entry_bits entry_addresses c_def [symmetric])
      next
        case (Some pte)
        define pte' where "pte' = (if b then pte OR 0x20 else pte)"
        have rd': "phys_read (host (marked mark [a] m)) c = Some pte'" by (simp add: rd Some pte'_def)
        have "mark_accessed (marked mark [a] m) mark c pte' =
            Some (marked mark [c] (marked mark [a] m), if mark then pte' OR 0x20 else pte')"
          by (rule mark_accessed_marked [OF _ _ _ _ alc rd']) (simp_all add: ok)
        then show ?thesis using np \<open>phys_read (host m) a = Some pde\<close> mk rd' True
          by (auto simp: unf entry_bits entry_addresses c_def [symmetric] marked_snoc pte'_def Some)
      qed
    qed
  qed
qed

lemma walk_pae_spec:
  assumes ok: "host_ok (host m)" and al: "aligned 8 (ucast (page_table_addr m))" and pae: "physical_address_extension m"
  shows "map_option (\<lambda>(m', r). (m', walk_view r)) (page_walk_pae m lin mark) =
    map_option (\<lambda>(p, t). (marked mark p m, t)) (translation_of m lin)"
proof -
  define r where "r = ucast (page_table_addr m) + ucast (field 30 2 lin) * (8 :: u64)"
  note unf = page_walk_pae_def translation_of_def Let_def mask_fields r_def [symmetric] mult.commute [of 8]
    page_offset_def pte_offset_def pde_offset_def pdpe_offset_def
  show ?thesis
  proof (cases "phys_read (host m) r :: u64 option")
    case None
    then show ?thesis using pae by (simp add: unf)
  next
    case pdpe: (Some pdpe)
    define a where "a = table_base pdpe + ucast (field 21 9 lin) * 8"
    have ala: "aligned 8 a" unfolding a_def table_base_def by (intro aligned_add aligned_index aligned_table) simp_all
    show ?thesis
    proof (cases "present pdpe \<and> (\<exists>pde. phys_read (host m) a = Some (pde :: u64))")
      case False
      then show ?thesis using pae pdpe
        by (cases "present pdpe") (auto simp: unf entry_bits entry_addresses a_def [symmetric] split: option.split)
    next
      case True
      then obtain pde where pp: "present pdpe" and pde: "phys_read (host m) a = Some (pde :: u64)" by blast
      have mk: "mark_accessed m mark a pde = Some (marked mark [a] m, if mark then pde OR 0x20 else pde)"
        by (rule mark_accessed_marked [OF ok _ _ _ ala pde]) simp_all
      define c where "c = table_base pde + ucast (field 12 9 lin) * 8"
      have alc: "aligned 8 c" unfolding c_def table_base_def by (intro aligned_add aligned_index aligned_table) simp_all
      obtain b where rd: "phys_read (host (marked mark [a] m)) c =
          map_option (\<lambda>e. if b then e OR 0x20 else e) (phys_read (host m) c :: u64 option)"
        using phys_read_marked [OF ok, where 'a = 64 and n = 8 and a = a and c = c and mark = mark] ala alc
        unfolding ucast_20 by auto
      note known = pae pdpe pp pde mk rd
      show ?thesis
      proof (cases "present pde \<and> \<not> big_page pde")
        case False
        then show ?thesis using known
          by (cases "present pde") (auto simp: unf entry_bits entry_addresses a_def [symmetric])
      next
        case True
        show ?thesis
        proof (cases "phys_read (host m) c :: u64 option")
          case None
          then show ?thesis using known True
            by (auto simp: unf entry_bits entry_addresses a_def [symmetric] c_def [symmetric])
        next
          case (Some pte)
          define pte' where "pte' = (if b then pte OR 0x20 else pte)"
          have rd': "phys_read (host (marked mark [a] m)) c = Some pte'" by (simp add: rd Some pte'_def)
          have "mark_accessed (marked mark [a] m) mark c pte' =
              Some (marked mark [c] (marked mark [a] m), if mark then pte' OR 0x20 else pte')"
            by (rule mark_accessed_marked [OF _ _ _ _ alc rd']) (simp_all add: ok)
          then show ?thesis using pae pdpe pp pde mk rd' True
            by (auto simp: unf entry_bits entry_addresses a_def [symmetric] c_def [symmetric] marked_snoc pte'_def Some)
        qed
      qed
    qed
  qed
qed

definition tables_aligned :: "Mem32 \<Rightarrow> bool" where
  "tables_aligned m \<longleftrightarrow> (if physical_address_extension m then 8 else 4) dvd unat (page_table_addr m)"

lemma unat_ucast64 [simp]: "unat (ucast (x :: u32) :: u64) = unat x"
  using unsigned_less [of x, where 'a = nat] by (simp add: unsigned_ucast_eq take_bit_nat_eq_self)

lemma page_walk_spec:
  assumes "host_ok (host m)" and "tables_aligned m"
  shows "map_option (\<lambda>(m', r). (m', walk_view r)) (page_walk m lin mark) =
    map_option (\<lambda>(p, t). (marked mark p m, t)) (translation_of m lin)"
  using assms walk_pae_spec [of m lin mark] walk_non_pae_spec [of m lin mark]
  by (auto simp: page_walk_def tables_aligned_def aligned_def)

section \<open>What a walk and a checked access do\<close>

definition entry_locs :: "Host \<Rightarrow> u64 list \<Rightarrow> (ShmId \<times> nat) set" where
  "entry_locs h p = {l. \<exists>a \<in> set p. host_loc h (MAPPING_KIND_PHYSICAL + unat a) = Some l}"

lemma flag_entry_data:
  "shm_data (flag_entry x h a) s i = shm_data h s i OR (if host_loc h (MAPPING_KIND_PHYSICAL + unat a) = Some (s, i) then x else 0)"
  by (auto simp: flag_entry_def or_byte_data split: option.split)

lemma flag_entries_data:
  "shm_data (flag_entries x h p) s i = shm_data h s i OR (if (s, i) \<in> entry_locs h p then x else 0)"
proof (induction p arbitrary: h)
  case (Cons a p)
  have "shm_data (flag_entries x h (a # p)) s i =
      shm_data (flag_entry x h a) s i OR (if (s, i) \<in> entry_locs (flag_entry x h a) p then x else 0)"
    using Cons.IH by (simp add: flag_entries_def)
  then show ?case by (auto simp: flag_entry_data entry_locs_def or.assoc)
qed (simp add: flag_entries_def entry_locs_def)

lemma flag_entry_rest [simp]:
  "shm_size (flag_entry x h a) = shm_size h" "logical_pages (flag_entry x h a) = logical_pages h"
  "phys_pages (flag_entry x h a) = phys_pages h"
  by (simp_all add: flag_entry_def split: option.split)

lemma flag_entries_rest [simp]:
  "shm_size (flag_entries x h p) = shm_size h" "logical_pages (flag_entries x h p) = logical_pages h"
  "phys_pages (flag_entries x h p) = phys_pages h"
  by (induction p arbitrary: h) (simp_all add: flag_entries_def)

lemma phys_read_flag_defined:
  "(phys_read (flag_entries x h p) a :: 'a::len word option) = None \<longleftrightarrow> (phys_read h a :: 'a word option) = None"
proof -
  have "(phys_read g a :: 'a word option) = None \<longleftrightarrow> \<not> (\<forall>i < LENGTH('a) div 8. host_loc g (MAPPING_KIND_PHYSICAL + unat a + i) \<noteq> None)" for g
    using host_read_defined [of g "MAPPING_KIND_PHYSICAL + unat a" "LENGTH('a) div 8"] by (auto simp: phys_read_def)
  then show ?thesis by simp
qed

text \<open>The entry that maps the page was read, and is where an entry may be.\<close>

lemma walk_leaf:
  assumes "walk_levels rd eb ls base lin w u = Some (p, Translation a w' u' d e g)"
    and "aligned 4 base" and "\<And>x :: u32. aligned 4 (eb * ucast x)"
  shows "aligned 4 e \<and> rd e \<noteq> None"
  using assms
proof (induction rd eb ls base lin w u arbitrary: p rule: walk_levels.induct)
  case (2 rd eb l ls base lin w u)
  have al: "aligned 4 (base + eb * ucast (field (lv_shift l) (lv_width l) lin))"
    by (rule aligned_add) (use 2(3,4) in simp_all)
  have tb: "aligned 4 (table_base x)" for x unfolding table_base_def by (rule aligned_table) simp
  show ?case using 2(2,4) al 2(1) [OF refl _ _ refl refl refl]
    by (auto simp: Let_def tb split: option.splits if_splits)
qed simp

definition fault_code :: "bool \<Rightarrow> bool \<Rightarrow> bool \<Rightarrow> u8" where
  "fault_code pres write user = of_bool pres + 2 * of_bool write + 4 * of_bool user"

lemma from_normal_access_code: "from_normal_access p w u False = fault_code p w u"
  by (cases p; cases w; cases u) (simp_all add: from_normal_access_def fault_code_def)

text \<open>Whether the rights of a translation admit an access: supervisor code may write to read-only
  pages unless \<open>CR0.WP\<close> is set.\<close>

definition access_allowed :: "Mem32 \<Rightarrow> bool \<Rightarrow> bool \<Rightarrow> bool \<Rightarrow> bool \<Rightarrow> bool" where
  "access_allowed m w u is_write is_user \<longleftrightarrow>
     (is_write \<longrightarrow> w \<or> (\<not> is_user \<and> \<not> system_write_protect m)) \<and> (is_user \<longrightarrow> u)"

lemma leaf_entry:
  assumes "translation_of m lin = Some (p, Translation a w u d e g)" and "tables_aligned m"
  shows "aligned 4 e" "(\<exists>x :: u32. phys_read (host m) e = Some x) \<or> (\<exists>x :: u64. phys_read (host m) e = Some x)"
proof -
  have al: "aligned 4 (ucast (page_table_addr m))"
    using assms(2) by (auto simp: tables_aligned_def aligned_def split: if_splits intro: dvd_trans [of 4 8])
  have i: "aligned 4 (4 * ucast x)" "aligned 4 (8 * ucast x)" for x :: u32
    using aligned_index [of x] by (auto simp: aligned_def intro: dvd_trans [of 4 8])
  have "aligned 4 e \<and> ((\<exists>x :: u32. phys_read (host m) e = Some x) \<or> (\<exists>x :: u64. phys_read (host m) e = Some x))"
  proof (cases "physical_address_extension m")
    case True
    with assms(1) have "aligned 4 e \<and> (phys_read (host m) e :: u64 option) \<noteq> None"
      unfolding translation_of_def by (simp only: if_True) (rule walk_leaf [OF _ al i(2)])
    then show ?thesis by blast
  next
    case False
    with assms(1) have "aligned 4 e \<and> entry32 (host m) e \<noteq> None"
      unfolding translation_of_def by (simp only: if_False) (rule walk_leaf [OF _ al i(1)])
    then show ?thesis by (auto simp: entry32_def)
  qed
  then show "aligned 4 e" "(\<exists>x :: u32. phys_read (host m) e = Some x) \<or> (\<exists>x :: u64. phys_read (host m) e = Some x)"
    by blast+
qed

lemma phys_read_marked_defined:
  "(phys_read (host (marked b p m)) a :: 'a::len word option) = None \<longleftrightarrow> (phys_read (host m) a :: 'a word option) = None"
  by (simp add: marked_def phys_read_flag_defined)

lemma mark_dirty_leaf:
  assumes "translation_of m lin = Some (p, Translation a w u d e g)" and "tables_aligned m" and "host_ok (host m)"
  shows "mark_dirty (host (marked b p m)) e = Some (flag_entry 0x40 (host (marked b p m)) e)"
proof -
  have ok: "host_ok (host (marked b p m))" using assms(3) by simp
  have "(phys_read (host (marked b p m)) e :: u32 option) \<noteq> None \<or> (phys_read (host (marked b p m)) e :: u64 option) \<noteq> None"
    unfolding phys_read_marked_defined using leaf_entry(2) [OF assms(1,2)] by auto
  then show ?thesis
  proof
    assume "(phys_read (host (marked b p m)) e :: u32 option) \<noteq> None"
    then show ?thesis using mark_dirty_eq [OF ok leaf_entry(1) [OF assms(1,2)], where 'a = 32] by auto
  next
    assume "(phys_read (host (marked b p m)) e :: u64 option) \<noteq> None"
    then show ?thesis using mark_dirty_eq [OF ok leaf_entry(1) [OF assms(1,2)], where 'a = 64] by auto
  qed
qed

lemma phys_frame_is_dirty_marked [simp]:
  "phys_frame_is_dirty (marked b p m) a = phys_frame_is_dirty m a"
  "phys_frame_is_dirty (m\<lparr>host := h\<rparr>) a = phys_frame_is_dirty m a"
  by (simp_all add: phys_frame_is_dirty_def)

lemma resolve_access_address_spec:
  assumes ok: "host_ok (host m)" and al: "tables_aligned m" and pg: "paging_enabled m"
  shows "resolve_access_address m lin is_write is_user =
    (case translation_of m lin of
       None \<Rightarrow> None
     | Some (p, Missing) \<Rightarrow> Some (marked True p m, Inl (PageFault (fault_code False is_write is_user) lin))
     | Some (p, Translation a w u d e _) \<Rightarrow>
         if \<not> access_allowed m w u is_write is_user
         then Some (marked True p m, Inl (PageFault (fault_code True is_write is_user) lin))
         else map_option (\<lambda>frame_dirty.
             ((marked True p m)\<lparr>host := flag_entries 0x40 (host (marked True p m)) (if is_write \<and> \<not> d then [e] else [])\<rparr>,
              Inr \<lparr>emu_addr = lin, phys_addr = a,
                writable = is_write \<or> (access_allowed m w True True is_user \<and> d \<and> frame_dirty),
                phys_frame_needs_dirty_mark = is_write \<and> \<not> frame_dirty, ra_user_accessible = u\<rparr>))
             (phys_frame_is_dirty m a))"
proof (cases "translation_of m lin")
  case None
  then show ?thesis using page_walk_spec [OF ok al, of lin True] pg by (simp add: resolve_access_address_def)
next
  case (Some pt)
  obtain p t where pt: "pt = (p, t)" by (cases pt)
  with Some page_walk_spec [OF ok al, of lin True] obtain r where
    r: "page_walk m lin True = Some (marked True p m, r)" and t: "walk_view r = t" by (auto simp: map_option_case split: option.splits)
  show ?thesis
  proof (cases r)
    case (Unmapped err)
    then show ?thesis using r t pg Some pt
      by (auto simp: resolve_access_address_def from_normal_access_code)
  next
    case (PhysAddr a w u d e big g)
    with t pt have tr: "translation_of m lin = Some (p, Translation a w u d e g)" by (simp add: Some)
    note md = mark_dirty_leaf [OF tr al ok, of True]
    show ?thesis unfolding tr using r pg md
      by (auto simp: resolve_access_address_def PhysAddr access_allowed_def from_normal_access_code Let_def
          flag_entries_def option.map_comp comp_def intro!: option.map_cong)
  qed
qed

text \<open>A machine with 16 pages of memory: the page directory is at 0x1000, its first entry points to a page
  table at 0x2000, whose second entry maps a read-only page for the supervisor at 0x5000.\<close>

definition demo_host :: Host where
  "demo_host = \<lparr>shm_data = (\<lambda>_. (\<lambda>_. 0)(0x1000 := 0x07, 0x1001 := 0x20, 0x2004 := 0x01, 0x2005 := 0x50)),
     shm_size = (\<lambda>_. 0x10000), logical_pages = (\<lambda>_. None), phys_pages = (\<lambda>p. if p < 16 then Some (0, 4096 * p) else None)\<rparr>"

definition demo :: Mem32 where
  "demo = \<lparr>page_table_addr = 0x1000, a20_enabled = True, system_write_protect = True, page_size_extension = False,
     physical_address_extension = False, paging_enabled = True, frame_is_clean = [0],
     metadata = \<lparr>md_bytes = (\<lambda>_. 0xff), md_modified = (\<lambda>_. 0)\<rparr>, current_mappings = (\<lambda>_. None),
     physical_memory = 0, host = demo_host\<rparr>"

lemma demo_ok: "host_ok (host demo)" "tables_aligned demo"
  by (auto simp: demo_def demo_host_def host_ok_def tables_aligned_def split: if_splits)

lemma host_read_numeral:
  "host_read h a (numeral k) =
     (case host_loc h a of
        None \<Rightarrow> None
      | Some (s, off) \<Rightarrow> map_option ((#) (shm_data h s off)) (host_read h (Suc a) (pred_numeral k)))"
  by (simp add: numeral_eq_Suc)

lemmas demo_reads = host_read_numeral host_loc_def demo_host_def MAPPING_KIND_PHYSICAL_def

lemma demo_translation:
  "translation_of demo 0x1234 = Some ([0x1000, 0x2004], Translation 0x5234 False False False 0x2004 False)"
proof -
  have "phys_read demo_host 0x1000 = Some (0x2007 :: u32)" "phys_read demo_host 0x2004 = Some (0x5001 :: u32)"
    by (simp_all add: phys_read_def demo_reads)
  then show ?thesis
    by (simp add: translation_of_def demo_def entry32_def field_def table_base_def frame_base_def)
qed

text \<open>C28: \<open>page_walk\<close> translates an address as the tables say. Whether it uses 32-bit or PAE tables, it finds
  the translation that the walk over levels finds, which starts at \<open>CR3\<close> as it is (the walk of the
  architecture when the flags in its low bits are clear): the physical address, the conjunction of the rights
  on the way, the dirty and global flags and the entry that maps the page, or no translation. It fails
  only where the tables lie outside the mapped memory. It changes nothing but the accessed flags of the
  present entries it went through, and those only when asked to.\<close>

theorem page_walk_translates:
  assumes "host_ok (host m)" and "tables_aligned m"
  shows "case translation_of m lin of
      None \<Rightarrow> page_walk m lin mark = None
    | Some (p, t) \<Rightarrow> \<exists>r h. page_walk m lin mark = Some (m\<lparr>host := h\<rparr>, r) \<and> walk_view r = t \<and>
        shm_size h = shm_size (host m) \<and> logical_pages h = logical_pages (host m) \<and> phys_pages h = phys_pages (host m) \<and>
        (\<forall>s i. shm_data h s i = shm_data (host m) s i OR
                 (if mark \<and> (s, i) \<in> entry_locs (host m) p then 0x20 else 0))"
proof (cases "translation_of m lin")
  case None
  then show ?thesis using page_walk_spec [OF assms, of lin mark] by simp
next
  case (Some pt)
  obtain p t where pt: "pt = (p, t)" by (cases pt)
  with Some page_walk_spec [OF assms, of lin mark] obtain r where
    r: "page_walk m lin mark = Some (marked mark p m, r)" "walk_view r = t"
    by (auto simp: map_option_case split: option.splits)
  define h where "h = (if mark then flag_entries 0x20 (host m) p else host m)"
  have "marked mark p m = m\<lparr>host := h\<rparr>" by (simp add: marked_def h_def)
  moreover have "shm_size h = shm_size (host m)" "logical_pages h = logical_pages (host m)" "phys_pages h = phys_pages (host m)"
    and "\<And>s i. shm_data h s i = shm_data (host m) s i OR (if mark \<and> (s, i) \<in> entry_locs (host m) p then 0x20 else 0)"
    by (simp_all add: h_def flag_entries_data)
  ultimately show ?thesis unfolding Some pt option.case prod.case using r by metis
qed

lemma page_walk_translates_witness:
  "\<exists>r h. page_walk demo 0x1234 True = Some (demo\<lparr>host := h\<rparr>, r) \<and>
     walk_view r = Translation 0x5234 False False False 0x2004 False \<and>
     shm_data h 0 0x1000 = 0x27 \<and> shm_data h 0 0x2004 = 0x21 \<and> shm_data h 0 0x2005 = 0x50"
proof -
  have l: "entry_locs (host demo) [0x1000, 0x2004] = {(0, 0x1000), (0, 0x2004)}"
    by (auto simp: entry_locs_def host_loc_def demo_def demo_host_def MAPPING_KIND_PHYSICAL_def)
  have d: "shm_data (host demo) 0 0x1000 = 0x07" "shm_data (host demo) 0 0x2004 = 0x01" "shm_data (host demo) 0 0x2005 = 0x50"
    by (simp_all add: demo_def demo_host_def)
  show ?thesis using page_walk_translates [OF demo_ok, of "0x1234" True] unfolding demo_translation
    by (clarsimp simp: l) (use d in force)
qed

text \<open>C29: The check of an access follows the translation. With paging enabled, an access to an address
  without a translation is a page fault that says whether it was a write and whether it came from user
  mode; an access the rights of the translation do not admit is one that also says that the page was
  present; every other access goes to the physical address of the translation, with the dirty flag of
  the entry set by a write. Later accesses may skip the check for writing only if this one was a write
  or writing is admitted and both the entry and the frame are already dirty.\<close>

theorem resolve_access_checks:
  assumes "host_ok (host m)" and "tables_aligned m" and "paging_enabled m"
  shows "resolve_access_address m lin is_write is_user =
    (case translation_of m lin of
       None \<Rightarrow> None
     | Some (p, Missing) \<Rightarrow> Some (marked True p m, Inl (PageFault (fault_code False is_write is_user) lin))
     | Some (p, Translation a w u d e _) \<Rightarrow>
         if \<not> access_allowed m w u is_write is_user
         then Some (marked True p m, Inl (PageFault (fault_code True is_write is_user) lin))
         else map_option (\<lambda>frame_dirty.
             ((marked True p m)\<lparr>host := flag_entries 0x40 (host (marked True p m)) (if is_write \<and> \<not> d then [e] else [])\<rparr>,
              Inr \<lparr>emu_addr = lin, phys_addr = a,
                writable = is_write \<or> (access_allowed m w True True is_user \<and> d \<and> frame_dirty),
                phys_frame_needs_dirty_mark = is_write \<and> \<not> frame_dirty, ra_user_accessible = u\<rparr>))
             (phys_frame_is_dirty m a))"
  using assms by (rule resolve_access_address_spec)

lemma resolve_access_checks_witness:
  "map_option snd (resolve_access_address demo 0x1234 True False) = Some (Inl (PageFault 3 0x1234)) \<and>
   map_option snd (resolve_access_address demo 0x1234 False True) = Some (Inl (PageFault 5 0x1234)) \<and>
   map_option snd (resolve_access_address demo 0x1234 False False) = Some (Inr
     \<lparr>emu_addr = 0x1234, phys_addr = 0x5234, writable = False, phys_frame_needs_dirty_mark = False, ra_user_accessible = False\<rparr>)"
proof -
  have p: "paging_enabled demo" "system_write_protect demo" by (simp_all add: demo_def)
  have f: "phys_frame_is_dirty demo 0x5234 = Some True" by (simp add: phys_frame_is_dirty_def atomic_get_def atomic_index_def demo_def wrapping_shr_def)
  show ?thesis
    using resolve_access_checks [OF demo_ok p(1), of "0x1234"]
    by (simp add: demo_translation access_allowed_def fault_code_def p f option.map_comp)
qed

section \<open>Where the code departs from the architecture\<close>

text \<open>\<open>CR3\<close> holds cache control flags in its low bits, and the page table address is used without
  masking them: with \<open>CR3.PWT\<close> set, the walk of the machine above looks at the third entry of the
  directory instead of the first.\<close>

lemma cr3_flags_move_the_directory:
  "map_option snd (page_walk (demo\<lparr>page_table_addr := 0x1008\<rparr>) 0x1234 False) = Some (Unmapped (PdeNotPresent 0 0x1008))"
proof -
  have r: "phys_read demo_host 0x1008 = Some (0 :: u32)" by (simp add: phys_read_def demo_reads)
  show ?thesis by (simp add: page_walk_def page_walk_non_pae_def demo_def r present_def)
qed

text \<open>A page of 2 MiB is reported as one of 4 MiB.\<close>

lemma pae_never_reports_2MiB:
  "page_walk m lin mark = Some (m', PhysAddr a w u d e b g) \<Longrightarrow> b \<noteq> Big2Mb"
  by (auto simp: page_walk_def page_walk_pae_def page_walk_non_pae_def Let_def split: option.splits if_splits)

text \<open>The bitmap of frames ends at 4 GiB, and an access that is translated to a higher address panics.\<close>

lemma high_frames_panic:
  assumes "host_ok (host m)" "tables_aligned m" "paging_enabled m" "length (frame_is_clean m) = 2 ^ 14"
    and t: "translation_of m lin = Some (p, Translation a w u d e g)" "access_allowed m w u is_write is_user" "2 ^ 32 \<le> unat a"
  shows "resolve_access_address m lin is_write is_user = None"
proof -
  have "2 ^ 20 \<le> unat a div 2 ^ 12" using t(3) by (simp add: less_eq_div_iff_mult_less_eq)
  moreover have "unat (drop_bit 12 a) = unat a div 2 ^ 12" by (rule trans [OF unat_drop_bit_eq drop_bit_eq_div])
  ultimately have "phys_frame_is_dirty m a = None"
    using assms(4) by (simp add: phys_frame_is_dirty_def atomic_get_out_of_range)
  then show ?thesis using t(2) by (simp add: resolve_access_address_spec [OF assms(1-3)] t(1))
qed

end
