(* ===== verification/Mem_Access.thy ===== *)
theory Mem_Access
  imports Mem_Translation
begin

text \<open>
  Reads and writes of the emulated memory (the rest of \<open>sem86-arch/src/mem/mod.rs\<close> and \<open>phys_map.rs\<close>).
  An access first looks at the metadata of its page. If nothing traps, it goes to the linear view of the
  host memory directly. Otherwise it is resolved to a physical address, sent to a device, a shared memory
  object or the RAM, and the linear page is mapped so that later accesses need not trap.

  What is not in the repository or behind a trait is a parameter. \<open>gkv\<close> is \<open>RangeMap::get_key_value\<close> on
  the current map of the physical address space; the record \<open>Mmio\<close> has the methods of the traits
  \<open>Mmio\<close> and \<open>MemoryWatcher\<close> on a state of the devices \<open>'d\<close>. \<open>None\<close> stands for a panic, or for an access of
  the host to memory that is not mapped.
\<close>

unbundle bit_operations_syntax

section \<open>The map of the physical address space\<close>

type_synonym MmioId = u64

datatype Entry = Entry_Mmio MmioId | Entry_Shm ShmId u64 "nat option" bool

datatype EntryRef = Ref_Mmio MmioId | Ref_Shm ShmId u64 "nat option" bool | Ref_Default

type_synonym get_key_value = "u64 \<Rightarrow> ((u64 \<times> u64) \<times> Entry) option"

fun entry_ref :: "Entry \<Rightarrow> EntryRef" where
  "entry_ref (Entry_Mmio i) = Ref_Mmio i"
| "entry_ref (Entry_Shm shm delta watcher wr) = Ref_Shm shm delta watcher wr"

definition phys_map_lookup :: "get_key_value \<Rightarrow> u64 \<Rightarrow> EntryRef \<times> u64 \<times> u64" where
  "phys_map_lookup gkv addr =
     (case gkv addr of
        Some ((s, e), entry) \<Rightarrow> (entry_ref entry, s, e)
      | None \<Rightarrow> (let page_start = addr AND NOT 0xfff in (Ref_Default, page_start, page_start + 0x1000)))"

section \<open>Devices\<close>

datatype MarkDirtyAdvice = DoNotMark | DirtyOk

text \<open>The methods of the trait \<open>Mmio\<close>, with data as its bytes, and \<open>MemoryWatcher::notify_dirty\<close> of the
  watcher with a given identity. \<open>notify_memory_dirty\<close> is given the memory as it is before the write and
  may change it.\<close>

record 'd Mmio =
  read_mem :: "MmioId \<Rightarrow> u32 \<Rightarrow> nat \<Rightarrow> 'd \<Rightarrow> u8 list \<times> 'd"
  write_mem :: "MmioId \<Rightarrow> u32 \<Rightarrow> u8 list \<Rightarrow> 'd \<Rightarrow> 'd"
  notify_memory_dirty :: "u32 \<Rightarrow> Mem32 \<Rightarrow> 'd \<Rightarrow> Mem32 \<times> 'd"
  advise_memory_dirty :: "u32 \<Rightarrow> u8 \<Rightarrow> 'd \<Rightarrow> MarkDirtyAdvice \<times> 'd"
  notify_dirty :: "nat \<Rightarrow> u64 \<Rightarrow> 'd \<Rightarrow> 'd"

text \<open>\<open>impl Mmio for ()\<close>\<close>

definition unit_mmio :: "unit Mmio" where
  "unit_mmio = \<lparr>read_mem = (\<lambda>_ _ n d. (data_MAX n, d)), write_mem = (\<lambda>_ _ _ d. d), notify_memory_dirty = (\<lambda>_ m d. (m, d)),
     advise_memory_dirty = (\<lambda>_ _ d. (DirtyOk, d)), notify_dirty = (\<lambda>_ _ d. d)\<rparr>"

section \<open>Control operations\<close>

definition set_metadata :: "Mem32 \<Rightarrow> u32 \<Rightarrow> MetadataBits \<Rightarrow> Mem32 option" where
  "set_metadata m addr b = map_option (\<lambda>md. m\<lparr>metadata := md\<rparr>) (md_set (metadata m) addr b)"

definition invalidate_all_pages :: "Mem32 \<Rightarrow> Mem32 option" where
  "invalidate_all_pages m = map_option (\<lambda>md. m\<lparr>metadata := md\<rparr>) (md_clear (metadata m))"

definition invalidate_page :: "Mem32 \<Rightarrow> u32 \<Rightarrow> Mem32 option" where
  "invalidate_page m addr = set_metadata m addr 0xff"

definition set_a20_line :: "Mem32 \<Rightarrow> bool \<Rightarrow> Mem32 option" where
  "set_a20_line m enable =
     map_option (\<lambda>m. m\<lparr>current_mappings := (\<lambda>_. None)\<rparr>) (invalidate_all_pages (m\<lparr>a20_enabled := enable\<rparr>))"

definition set_page_directory_base :: "Mem32 \<Rightarrow> u32 \<Rightarrow> Mem32 option" where
  "set_page_directory_base m addr = invalidate_all_pages (m\<lparr>page_table_addr := addr\<rparr>)"

definition enable_paging :: "Mem32 \<Rightarrow> bool \<Rightarrow> Mem32" where
  "enable_paging m enable = m\<lparr>paging_enabled := enable\<rparr>"

definition set_system_write_protect :: "Mem32 \<Rightarrow> bool \<Rightarrow> Mem32" where
  "set_system_write_protect m wp = m\<lparr>system_write_protect := wp\<rparr>"

definition set_page_size_extension :: "Mem32 \<Rightarrow> bool \<Rightarrow> Mem32" where
  "set_page_size_extension m pse = m\<lparr>page_size_extension := pse\<rparr>"

text \<open>\<open>compare_exchange(!enable, enable)\<close> succeeds when the flag changes.\<close>

definition enable_physical_address_extension :: "Mem32 \<Rightarrow> bool \<Rightarrow> Mem32 option" where
  "enable_physical_address_extension m enable =
     (if physical_address_extension m = (\<not> enable)
      then invalidate_all_pages (m\<lparr>physical_address_extension := enable\<rparr>) else Some m)"

definition trap_all_writes :: "Mem32 \<Rightarrow> Mem32 option" where
  "trap_all_writes m = map_option (\<lambda>md. m\<lparr>metadata := md\<rparr>) (md_enable_for_all (metadata m) (trap_on_write 0 True))"

definition clean_phys_frame :: "Mem32 \<Rightarrow> u64 \<Rightarrow> Mem32 option" where
  "clean_phys_frame m a =
     (case atomic_set (frame_is_clean m) (unat (drop_bit 12 a)) of
        None \<Rightarrow> None
      | Some (b, _) \<Rightarrow> trap_all_writes (m\<lparr>frame_is_clean := b\<rparr>))"

text \<open>The loop over the frames of an area, \<open>n\<close> of them from frame \<open>i\<close> on.\<close>

fun clean_frames :: "AtomicBitmap \<Rightarrow> nat \<Rightarrow> nat \<Rightarrow> AtomicBitmap option" where
  "clean_frames b i 0 = Some b"
| "clean_frames b i (Suc n) = (case atomic_set b i of None \<Rightarrow> None | Some (b', _) \<Rightarrow> clean_frames b' (Suc i) n)"

definition clean_phys_frame_range :: "Mem32 \<Rightarrow> u64 \<Rightarrow> u64 \<Rightarrow> Mem32 option" where
  "clean_phys_frame_range m s e =
     (if unat s mod 4096 = 0 \<and> unat e mod 4096 = 0
      then case clean_frames (frame_is_clean m) (unat s div 4096) (unat e div 4096 - unat s div 4096) of
             None \<Rightarrow> None
           | Some b \<Rightarrow> trap_all_writes (m\<lparr>frame_is_clean := b\<rparr>)
      else None)"

definition clean_all_phys_frames :: "Mem32 \<Rightarrow> Mem32 option" where
  "clean_all_phys_frames m = clean_phys_frame_range m 0 0x100000000"

text \<open>\<open>PhysFrameIndex::from(PhysAddr::new(a as u32))\<close>\<close>

definition frame_index :: "u64 \<Rightarrow> u32" where
  "frame_index a = drop_bit 12 (ucast a)"

definition mark_phys_frame_dirty :: "'d Mmio \<Rightarrow> Mem32 \<Rightarrow> u64 \<Rightarrow> 'd \<Rightarrow> (Mem32 \<times> 'd \<times> bool) option" where
  "mark_phys_frame_dirty D m a d =
     map_option (\<lambda>(b, changed).
         let m = m\<lparr>frame_is_clean := b\<rparr>; (m, d) = (if changed then notify_memory_dirty D (frame_index a) m d else (m, d)) in (m, d, changed))
       (atomic_reset (frame_is_clean m) (unat (drop_bit 12 a)))"

section \<open>Trapped accesses\<close>

text \<open>\<open>mmap\<close> refuses an offset that is not a multiple of the page size.\<close>

definition map_address_before_access :: "Mem32 \<Rightarrow> u32 \<Rightarrow> u64 \<Rightarrow> ShmId \<Rightarrow> u64 \<Rightarrow> u64 \<times> u64 \<Rightarrow> Mem32 option" where
  "map_address_before_access m emu phys shm delta area =
     (let page_addr = phys AND NOT 0xfff in
      if fst area \<le> page_addr \<and> snd area \<ge> page_addr + 4096
      then let logical_addr = emu AND NOT 0xfff;
               shm_offset = ucast (ucast (page_addr + delta) :: u32);
               current = (case current_mappings m logical_addr of None \<Rightarrow> - 1 | Some c \<Rightarrow> c) in
           if current \<noteq> shm_offset
           then if unat shm_offset mod 4096 = 0
                then Some (m\<lparr>current_mappings := (current_mappings m)(logical_addr := Some shm_offset),
                       host := mmap_logical (host m) (unat logical_addr div 4096) shm (unat shm_offset)\<rparr>)
                else None
           else Some m
      else None)"

definition physical_len :: "Mem32 \<Rightarrow> nat" where
  "physical_len m = shm_size (host m) (physical_memory m)"

definition resolve_physical_address :: "Mem32 \<Rightarrow> u64 \<Rightarrow> u64 option" where
  "resolve_physical_address m addr =
     (let a = (if a20_enabled m then addr else addr AND 0xfffff) in if unat a < physical_len m then Some a else None)"

definition access_metadata :: "ResolvedAccess \<Rightarrow> MetadataBits" where
  "access_metadata a = trap_on_write (trap_on_userspace_access 0 (\<not> ra_user_accessible a)) (\<not> writable a)"

text \<open>\<open>metadata_bits().set(..)\<close> and \<open>map_address_before_access(..)\<close>, one after the other in four places.\<close>

definition map_page :: "Mem32 \<Rightarrow> ResolvedAccess \<Rightarrow> ShmId \<Rightarrow> u64 \<Rightarrow> u64 \<times> u64 \<Rightarrow> Mem32 option" where
  "map_page m a shm delta area =
     (case set_metadata m (emu_addr a) (access_metadata a) of None \<Rightarrow> None
      | Some m \<Rightarrow> map_address_before_access m (emu_addr a) (phys_addr a) shm delta area)"

text \<open>The result of a trapped read of \<open>n\<close> bytes: the data, or nothing when the page is mapped now.\<close>

definition handle_trapped_linear_memory_read ::
  "get_key_value \<Rightarrow> 'd Mmio \<Rightarrow> nat \<Rightarrow> Mem32 \<Rightarrow> ResolvedAccess \<Rightarrow> 'd \<Rightarrow> (Mem32 \<times> 'd \<times> u8 list option) option" where
  "handle_trapped_linear_memory_read gkv D n m a d =
     (case phys_map_lookup gkv (phys_addr a) of
        (Ref_Mmio i, area) \<Rightarrow>
          (let (bs, d') = read_mem D i (ucast (phys_addr a - fst area)) n d in Some (m, d', Some bs))
      | (Ref_Shm shm delta _ _, area) \<Rightarrow>
          if phys_frame_needs_dirty_mark a then None
          else map_option (\<lambda>m. (m, d, None)) (map_page m a shm delta area)
      | (Ref_Default, area) \<Rightarrow>
          (case resolve_physical_address m (phys_addr a) of
             Some actual \<Rightarrow>
               if phys_frame_needs_dirty_mark a then None
               else map_option (\<lambda>m. (m, d, None)) (map_page m a (physical_memory m) (actual - phys_addr a) area)
           | None \<Rightarrow> Some (m, d, Some (data_MAX n))))"

definition write_shm :: "Mem32 \<Rightarrow> ShmId \<Rightarrow> u64 \<Rightarrow> u8 list \<Rightarrow> Mem32 option" where
  "write_shm m shm off bs = map_option (\<lambda>h. m\<lparr>host := h\<rparr>) (shm_write_slice (host m) shm (ucast off) bs)"

text \<open>A trapped write: whether the data has been written.\<close>

definition handle_trapped_linear_memory_write ::
  "get_key_value \<Rightarrow> 'd Mmio \<Rightarrow> u8 list \<Rightarrow> Mem32 \<Rightarrow> ResolvedAccess \<Rightarrow> 'd \<Rightarrow> (Mem32 \<times> 'd \<times> bool) option" where
  "handle_trapped_linear_memory_write gkv D bs m a d =
     (case phys_map_lookup gkv (phys_addr a) of
        (Ref_Mmio i, area) \<Rightarrow> Some (m, write_mem D i (ucast (phys_addr a - fst area)) bs d, True)
      | (Ref_Shm shm delta watcher wr, area) \<Rightarrow>
          if phys_frame_needs_dirty_mark a
          then if \<not> wr then Some (m, d, True)
               else let off = phys_addr a + delta;
                        d = (case watcher of None \<Rightarrow> d | Some w \<Rightarrow> notify_dirty D w off d);
                        (advice, d) = advise_memory_dirty D (ucast (phys_addr a)) (of_nat (length bs)) d in
                    (case advice of
                       DirtyOk \<Rightarrow>
                         (case mark_phys_frame_dirty D m (phys_addr a) d of None \<Rightarrow> None
                          | Some (m, d, _) \<Rightarrow> map_option (\<lambda>m. (m, d, False)) (map_page m a shm delta area))
                     | DoNotMark \<Rightarrow> map_option (\<lambda>m. (m, d, True)) (write_shm m shm off bs))
          else map_option (\<lambda>m. (m, d, False)) (map_page m a shm delta area)
      | (Ref_Default, area) \<Rightarrow>
          if unat (phys_addr a) < physical_len m
          then if phys_frame_needs_dirty_mark a
               then let (advice, d) = advise_memory_dirty D (ucast (phys_addr a)) (of_nat (length bs)) d in
                    (case advice of
                       DirtyOk \<Rightarrow>
                         (case mark_phys_frame_dirty D m (phys_addr a) d of None \<Rightarrow> None
                          | Some (m, d, _) \<Rightarrow> map_option (\<lambda>m. (m, d, False)) (map_page m a (physical_memory m) 0 area))
                     | DoNotMark \<Rightarrow> map_option (\<lambda>m. (m, d, True)) (write_shm m (physical_memory m) (phys_addr a) bs))
               else map_option (\<lambda>m. (m, d, False)) (map_page m a (physical_memory m) 0 area)
          else Some (m, d, True))"

section \<open>Reads\<close>

text \<open>The requirements of an access, as a test of metadata.\<close>

definition access_test :: "bool \<Rightarrow> bool \<Rightarrow> MetadataTest" where
  "access_test is_write is_user =
     (let t = require_present 0; t = (if is_write then require_writable t else t)
      in if is_user then require_accessible_from_userspace t else t)"

definition should_trap_linear_access :: "Mem32 \<Rightarrow> u32 \<Rightarrow> bool \<Rightarrow> bool \<Rightarrow> bool" where
  "should_trap_linear_access m addr is_write is_user =
     should_trap (md_get_for_address (metadata m) addr) (access_test is_write is_user)"

definition multibyte_access_can_use_fast_path :: "nat \<Rightarrow> Mem32 \<Rightarrow> u32 \<Rightarrow> bool \<Rightarrow> bool \<Rightarrow> bool" where
  "multibyte_access_can_use_fast_path n m addr is_write is_user \<longleftrightarrow>
     \<not> should_trap_linear_access m addr is_write is_user \<and>
     (unat addr mod n = 0 \<or> \<not> should_trap_linear_access m (addr + of_nat n - 1) is_write is_user)"

text \<open>An access within a page: the condition \<open>(addr & 0xfff) + NUM_BYTES - 1 < 4096\<close>.\<close>

definition within_page :: "u32 \<Rightarrow> nat \<Rightarrow> bool" where
  "within_page addr n \<longleftrightarrow> unat (addr AND 0xfff) + n - 1 < 4096"

type_synonym ('d, 'r) access_result = "(Mem32 \<times> 'd \<times> (Exception + 'r)) option"

text \<open>The data at the pointer \<open>logical_base + addr\<close>.\<close>

definition read_pointer :: "nat \<Rightarrow> Mem32 \<Rightarrow> u32 \<Rightarrow> 'd \<Rightarrow> ('d, u8 list) access_result" where
  "read_pointer n m addr d = map_option (\<lambda>bs. (m, d, Inr bs)) (host_read (host m) (unat addr) n)"

definition read_trapped :: "get_key_value \<Rightarrow> 'd Mmio \<Rightarrow> nat \<Rightarrow> Mem32 \<Rightarrow> u32 \<Rightarrow> bool \<Rightarrow> 'd \<Rightarrow> ('d, u8 list) access_result" where
  "read_trapped gkv D n m addr userspace d =
     (case resolve_access_address m addr False userspace of
        None \<Rightarrow> None
      | Some (m, Inl e) \<Rightarrow> Some (m, d, Inl e)
      | Some (m, Inr a) \<Rightarrow>
          (case handle_trapped_linear_memory_read gkv D n m a d of
             None \<Rightarrow> None
           | Some (m, d, Some bs) \<Rightarrow> Some (m, d, Inr bs)
           | Some (m, d, None) \<Rightarrow> read_pointer n m addr d))"

text \<open>\<open>read_slow\<close> and \<open>read\<close> over the read of slices, which they use for an access that crosses a page, and
  which reads byte by byte.\<close>

definition read_slow_with ::
  "(Mem32 \<Rightarrow> u32 \<Rightarrow> nat \<Rightarrow> bool \<Rightarrow> 'd \<Rightarrow> ('d, u8 list) access_result) \<Rightarrow> get_key_value \<Rightarrow> 'd Mmio \<Rightarrow> nat
     \<Rightarrow> Mem32 \<Rightarrow> u32 \<Rightarrow> bool \<Rightarrow> 'd \<Rightarrow> ('d, u8 list) access_result" where
  "read_slow_with slices gkv D n m addr userspace d =
     (if \<not> should_trap_linear_access m addr False userspace \<and>
         \<not> should_trap_linear_access m (addr + (of_nat n - 1)) False userspace
      then read_pointer n m addr d
      else if within_page addr n then read_trapped gkv D n m addr userspace d
      else slices m addr n userspace d)"

definition read_with ::
  "(Mem32 \<Rightarrow> u32 \<Rightarrow> nat \<Rightarrow> bool \<Rightarrow> 'd \<Rightarrow> ('d, u8 list) access_result) \<Rightarrow> get_key_value \<Rightarrow> 'd Mmio \<Rightarrow> nat
     \<Rightarrow> Mem32 \<Rightarrow> u32 \<Rightarrow> bool \<Rightarrow> 'd \<Rightarrow> ('d, u8 list) access_result" where
  "read_with slices gkv D n m addr userspace d =
     (if multibyte_access_can_use_fast_path n m addr False userspace then read_pointer n m addr d
      else read_slow_with slices gkv D n m addr userspace d)"

text \<open>A read of a byte never crosses a page, so what it would do then does not matter.\<close>

definition read_u8 :: "get_key_value \<Rightarrow> 'd Mmio \<Rightarrow> Mem32 \<Rightarrow> u32 \<Rightarrow> bool \<Rightarrow> 'd \<Rightarrow> ('d, u8 list) access_result" where
  "read_u8 gkv D = read_with (\<lambda>_ _ _ _ _. None) gkv D 1"

fun read_slice :: "get_key_value \<Rightarrow> 'd Mmio \<Rightarrow> Mem32 \<Rightarrow> u32 \<Rightarrow> nat \<Rightarrow> bool \<Rightarrow> 'd \<Rightarrow> ('d, u8 list) access_result" where
  "read_slice gkv D m addr 0 userspace d = Some (m, d, Inr [])"
| "read_slice gkv D m addr (Suc n) userspace d =
     (case read_u8 gkv D m addr userspace d of
        None \<Rightarrow> None
      | Some (m, d, Inl e) \<Rightarrow> Some (m, d, Inl e)
      | Some (m, d, Inr b) \<Rightarrow>
          map_option (\<lambda>(m, d, r). (m, d, map_sum id ((@) b) r)) (read_slice gkv D m (addr + 1) n userspace d))"

definition mem_read :: "get_key_value \<Rightarrow> 'd Mmio \<Rightarrow> nat \<Rightarrow> Mem32 \<Rightarrow> u32 \<Rightarrow> bool \<Rightarrow> 'd \<Rightarrow> ('d, u8 list) access_result" where
  "mem_read gkv D = read_with (read_slice gkv D) gkv D"

section \<open>Writes\<close>

record PreparedWrite =
  pw_resolved :: "ResolvedAccess option \<times> ResolvedAccess option"
  pw_val :: "u8 list"
  pw_addr32 :: u32
  pw_split :: bool

definition with_offset :: "ResolvedAccess \<Rightarrow> nat \<Rightarrow> ResolvedAccess option" where
  "with_offset a n =
     (if unat (phys_addr a AND 0xfff) + n < 4096
      then Some (a\<lparr>emu_addr := emu_addr a + of_nat n, phys_addr := phys_addr a + of_nat n\<rparr>) else None)"

text \<open>\<open>if should_trap_linear_access(..) { Some(resolve_access_address(..)?) } else { None }\<close>\<close>

definition resolve_if_trapped :: "Mem32 \<Rightarrow> u32 \<Rightarrow> bool \<Rightarrow> (Mem32 \<times> (Exception + ResolvedAccess option)) option" where
  "resolve_if_trapped m addr userspace =
     (if should_trap_linear_access m addr True userspace
      then map_option (\<lambda>(m, r). (m, map_sum id Some r)) (resolve_access_address m addr True userspace)
      else Some (m, Inr None))"

definition prepare_write :: "Mem32 \<Rightarrow> u32 \<Rightarrow> bool \<Rightarrow> u8 list \<Rightarrow> (Mem32 \<times> (Exception + PreparedWrite)) option" where
  "prepare_write m addr userspace val =
     (if within_page addr (length val)
      then map_option (\<lambda>(m, r). (m, map_sum id (\<lambda>a.
             \<lparr>pw_resolved = (a, None), pw_val = val, pw_addr32 = addr, pw_split = False\<rparr>) r))
             (resolve_if_trapped m addr userspace)
      else case resolve_if_trapped m addr userspace of
             None \<Rightarrow> None
           | Some (m, Inl e) \<Rightarrow> Some (m, Inl e)
           | Some (m, Inr a) \<Rightarrow>
               map_option (\<lambda>(m, r). (m, map_sum id (\<lambda>b.
                 \<lparr>pw_resolved = (a, b), pw_val = val, pw_addr32 = addr, pw_split = True\<rparr>) r))
                 (resolve_if_trapped m ((addr + 0xfff) AND NOT 0xfff) userspace))"

definition write_unchecked :: "Mem32 \<Rightarrow> u32 \<Rightarrow> u8 list \<Rightarrow> Mem32 option" where
  "write_unchecked m addr bs = map_option (\<lambda>h. m\<lparr>host := h\<rparr>) (host_write (host m) (unat addr) bs)"

text \<open>One byte or value: through the trap if the access was resolved, and directly unless that wrote it.\<close>

definition write_resolved ::
  "get_key_value \<Rightarrow> 'd Mmio \<Rightarrow> Mem32 \<Rightarrow> ResolvedAccess option \<Rightarrow> u32 \<Rightarrow> u8 list \<Rightarrow> 'd \<Rightarrow> (Mem32 \<times> 'd) option" where
  "write_resolved gkv D m r addr bs d =
     (case r of
        None \<Rightarrow> map_option (\<lambda>m. (m, d)) (write_unchecked m addr bs)
      | Some a \<Rightarrow>
          (case handle_trapped_linear_memory_write gkv D bs m a d of
             None \<Rightarrow> None
           | Some (m, d, True) \<Rightarrow> Some (m, d)
           | Some (m, d, False) \<Rightarrow> map_option (\<lambda>m. (m, d)) (write_unchecked m addr bs)))"

text \<open>The loop over the bytes of a split write, from the \<open>k\<close>-th on.\<close>

fun write_split ::
  "get_key_value \<Rightarrow> 'd Mmio \<Rightarrow> ResolvedAccess option \<times> ResolvedAccess option \<Rightarrow> u32 \<Rightarrow> nat \<Rightarrow> u8 list
     \<Rightarrow> Mem32 \<Rightarrow> 'd \<Rightarrow> (Mem32 \<times> 'd) option" where
  "write_split gkv D ab addr k [] m d = Some (m, d)"
| "write_split gkv D ab addr k (byte # bs) m d =
     (case (case (if unat (addr AND 0xfff) + k < 4096 then fst ab else snd ab) of
              None \<Rightarrow> write_resolved gkv D m None (addr + of_nat k) [byte] d
            | Some a \<Rightarrow>
                (case with_offset a k of None \<Rightarrow> None
                 | Some a' \<Rightarrow> write_resolved gkv D m (Some a') (addr + of_nat k) [byte] d)) of
        None \<Rightarrow> None
      | Some (m, d) \<Rightarrow> write_split gkv D ab addr (Suc k) bs m d)"

definition execute_prepared_write :: "get_key_value \<Rightarrow> 'd Mmio \<Rightarrow> Mem32 \<Rightarrow> PreparedWrite \<Rightarrow> 'd \<Rightarrow> (Mem32 \<times> 'd) option" where
  "execute_prepared_write gkv D m p d =
     (if pw_split p then write_split gkv D (pw_resolved p) (pw_addr32 p) 0 (pw_val p) m d
      else write_resolved gkv D m (fst (pw_resolved p)) (pw_addr32 p) (pw_val p) d)"

definition write_slow :: "get_key_value \<Rightarrow> 'd Mmio \<Rightarrow> Mem32 \<Rightarrow> u32 \<Rightarrow> bool \<Rightarrow> u8 list \<Rightarrow> 'd \<Rightarrow> ('d, unit) access_result" where
  "write_slow gkv D m addr userspace val d =
     (if \<not> should_trap_linear_access m addr True userspace \<and>
         \<not> should_trap_linear_access m (addr + (of_nat (length val) - 1)) True userspace
      then map_option (\<lambda>m. (m, d, Inr ())) (write_unchecked m addr val)
      else case prepare_write m addr userspace val of
             None \<Rightarrow> None
           | Some (m, Inl e) \<Rightarrow> Some (m, d, Inl e)
           | Some (m, Inr p) \<Rightarrow> map_option (\<lambda>(m, d). (m, d, Inr ())) (execute_prepared_write gkv D m p d))"

definition mem_write :: "get_key_value \<Rightarrow> 'd Mmio \<Rightarrow> Mem32 \<Rightarrow> u32 \<Rightarrow> bool \<Rightarrow> u8 list \<Rightarrow> 'd \<Rightarrow> ('d, unit) access_result" where
  "mem_write gkv D m addr userspace val d =
     (if multibyte_access_can_use_fast_path (length val) m addr True userspace
      then map_option (\<lambda>m. (m, d, Inr ())) (write_unchecked m addr val)
      else write_slow gkv D m addr userspace val d)"

fun write_slice :: "get_key_value \<Rightarrow> 'd Mmio \<Rightarrow> Mem32 \<Rightarrow> u32 \<Rightarrow> u8 list \<Rightarrow> bool \<Rightarrow> 'd \<Rightarrow> ('d, unit) access_result" where
  "write_slice gkv D m addr [] userspace d = Some (m, d, Inr ())"
| "write_slice gkv D m addr (b # bs) userspace d =
     (case mem_write gkv D m addr userspace [b] d of
        None \<Rightarrow> None
      | Some (m, d, Inl e) \<Rightarrow> Some (m, d, Inl e)
      | Some (m, d, Inr _) \<Rightarrow> write_slice gkv D m (addr + 1) bs userspace d)"

section \<open>Physical slices\<close>

text \<open>\<open>phys_base().add(a).write(b)\<close> and its read\<close>

definition poke :: "Mem32 \<Rightarrow> nat \<Rightarrow> u8 \<Rightarrow> Mem32 option" where
  "poke m a b = map_option (\<lambda>h. m\<lparr>host := h\<rparr>) (host_write (host m) (MAPPING_KIND_PHYSICAL + a) [b])"

definition peek :: "Mem32 \<Rightarrow> nat \<Rightarrow> u8 option" where
  "peek m a = map_option hd (host_read (host m) (MAPPING_KIND_PHYSICAL + a) 1)"

fun mark_slice_dirty :: "'d Mmio \<Rightarrow> u32 \<Rightarrow> nat list \<Rightarrow> Mem32 \<Rightarrow> 'd \<Rightarrow> (Mem32 \<times> 'd) option" where
  "mark_slice_dirty D addr [] m d = Some (m, d)"
| "mark_slice_dirty D addr (off # offs) m d =
     (case mark_phys_frame_dirty D m (ucast (addr + of_nat off)) d of
        None \<Rightarrow> None
      | Some (m, d, _) \<Rightarrow> mark_slice_dirty D addr offs m d)"

text \<open>\<open>(0..len).step_by(4096)\<close>\<close>

definition page_offsets :: "nat \<Rightarrow> nat list" where
  "page_offsets len = map ((*) 4096) [0..<(len + 4095) div 4096]"

fun poke_slice :: "EntryRef \<Rightarrow> u32 \<Rightarrow> nat \<Rightarrow> u8 list \<Rightarrow> Mem32 \<Rightarrow> Mem32 option" where
  "poke_slice r addr n [] m = Some m"
| "poke_slice r addr n (b # bs) m =
     (case (case r of
              Ref_Mmio _ \<Rightarrow> Some m
            | Ref_Shm _ _ _ _ \<Rightarrow> poke m (unat (addr + of_nat n)) b
            | Ref_Default \<Rightarrow>
                (case resolve_physical_address m (ucast (addr + of_nat n)) of
                   None \<Rightarrow> Some m | Some a \<Rightarrow> poke m (unat a) b)) of
        None \<Rightarrow> None
      | Some m \<Rightarrow> poke_slice r addr (Suc n) bs m)"

definition write_physical_slice :: "get_key_value \<Rightarrow> 'd Mmio \<Rightarrow> Mem32 \<Rightarrow> u32 \<Rightarrow> u8 list \<Rightarrow> 'd \<Rightarrow> (Mem32 \<times> 'd) option" where
  "write_physical_slice gkv D m addr bs d =
     (case mark_slice_dirty D addr (page_offsets (length bs)) m d of
        None \<Rightarrow> None
      | Some (m, d) \<Rightarrow> map_option (\<lambda>m. (m, d)) (poke_slice (fst (phys_map_lookup gkv (ucast addr))) addr 0 bs m))"

fun read_physical_bytes :: "get_key_value \<Rightarrow> 'd Mmio \<Rightarrow> Mem32 \<Rightarrow> u32 \<Rightarrow> nat list \<Rightarrow> 'd \<Rightarrow> (u8 list \<times> 'd) option" where
  "read_physical_bytes gkv D m addr [] d = Some ([], d)"
| "read_physical_bytes gkv D m addr (n # ns) d =
     (case (case fst (phys_map_lookup gkv (ucast addr)) of
              Ref_Mmio i \<Rightarrow> (let (bs, d) = read_mem D i (addr + of_nat n) 1 d in Some (hd bs, d))
            | Ref_Shm _ _ _ _ \<Rightarrow> map_option (\<lambda>b. (b, d)) (peek m (unat (addr + of_nat n)))
            | Ref_Default \<Rightarrow>
                (case resolve_physical_address m (ucast (addr + of_nat n)) of
                   None \<Rightarrow> Some (0xff, d) | Some a \<Rightarrow> map_option (\<lambda>b. (b, d)) (peek m (unat a)))) of
        None \<Rightarrow> None
      | Some (b, d) \<Rightarrow> map_option (\<lambda>(bs, d). (b # bs, d)) (read_physical_bytes gkv D m addr ns d))"

definition read_physical_slice :: "get_key_value \<Rightarrow> 'd Mmio \<Rightarrow> Mem32 \<Rightarrow> u32 \<Rightarrow> nat \<Rightarrow> 'd \<Rightarrow> (u8 list \<times> 'd) option" where
  "read_physical_slice gkv D m addr n d = read_physical_bytes gkv D m addr [0..<n] d"

text \<open>The variant without devices reads 0xff where a device is mapped.\<close>

definition read_physical_slice_no_mmio :: "get_key_value \<Rightarrow> Mem32 \<Rightarrow> u32 \<Rightarrow> nat \<Rightarrow> u8 list option" where
  "read_physical_slice_no_mmio gkv m addr n =
     map_option fst (read_physical_bytes gkv unit_mmio m addr [0..<n] ())"

section \<open>Snapshots\<close>

definition mem_snapshot :: "Mem32 \<Rightarrow> u8 list" where
  "mem_snapshot m = shm_to_vec (host m) (physical_memory m)"

definition mem_restore :: "Mem32 \<Rightarrow> u8 list \<Rightarrow> Mem32 option" where
  "mem_restore m z = (if physical_len m = length z then write_shm m (physical_memory m) 0 z else None)"

section \<open>Mapping the physical address space\<close>

text \<open>The operations of the crate \<open>rangemap\<close> on a map \<open>'rm\<close>.\<close>

record 'rm RangeMap_ops =
  rm_get_key_value :: "'rm \<Rightarrow> get_key_value"
  rm_insert :: "'rm \<Rightarrow> u64 \<times> u64 \<Rightarrow> Entry \<Rightarrow> 'rm"
  rm_remove :: "'rm \<Rightarrow> u64 \<times> u64 \<Rightarrow> 'rm"

definition area_ok :: "u64 \<Rightarrow> u64 \<Rightarrow> bool" where
  "area_ok s e \<longleftrightarrow> s AND 0xfff = 0 \<and> e AND 0xfff = 0 \<and> s < e"

definition clean_and_invalidate :: "Mem32 \<Rightarrow> u64 \<Rightarrow> u64 \<Rightarrow> Mem32 option" where
  "clean_and_invalidate m s e =
     (case clean_phys_frame_range m s e of None \<Rightarrow> None | Some m \<Rightarrow> invalidate_all_pages m)"

definition map_shm :: "'rm RangeMap_ops \<Rightarrow> 'rm \<Rightarrow> u64 \<times> u64 \<Rightarrow> ShmId \<Rightarrow> nat option \<Rightarrow> u64 \<Rightarrow> bool \<Rightarrow> 'rm" where
  "map_shm R rm area shm watcher off wr = rm_insert R rm area (Entry_Shm shm (off - fst area) watcher wr)"

definition map_mmio :: "'rm RangeMap_ops \<Rightarrow> 'rm \<Rightarrow> u64 \<times> u64 \<Rightarrow> MmioId \<Rightarrow> 'rm" where
  "map_mmio R rm area i = rm_insert R rm area (Entry_Mmio i)"

definition map_physical_memory_to_shm ::
  "'rm RangeMap_ops \<Rightarrow> Mem32 \<Rightarrow> 'rm \<Rightarrow> u64 \<Rightarrow> u64 \<Rightarrow> ShmId \<Rightarrow> nat option \<Rightarrow> nat \<Rightarrow> bool \<Rightarrow> (Mem32 \<times> 'rm) option" where
  "map_physical_memory_to_shm R m rm s e shm watcher off wr =
     (if area_ok s e \<and> unat (e - s) + off \<le> shm_size (host m) shm \<and> off mod 4096 = 0
      then map_option (\<lambda>m. (m, map_shm R rm (s, e) shm watcher (of_nat off) wr))
             (clean_and_invalidate
               (m\<lparr>host := mmap_physical (host m) (unat s div 4096) (unat (e - s) div 4096) shm off\<rparr>) s e)
      else None)"

definition map_physical_memory_to_mmio ::
  "'rm RangeMap_ops \<Rightarrow> Mem32 \<Rightarrow> 'rm \<Rightarrow> u64 \<Rightarrow> u64 \<Rightarrow> MmioId \<Rightarrow> (Mem32 \<times> 'rm) option" where
  "map_physical_memory_to_mmio R m rm s e i =
     (if area_ok s e then map_option (\<lambda>m. (m, map_mmio R rm (s, e) i)) (clean_and_invalidate m s e) else None)"

definition map_physical_memory_to_default ::
  "'rm RangeMap_ops \<Rightarrow> Mem32 \<Rightarrow> 'rm \<Rightarrow> u64 \<Rightarrow> u64 \<Rightarrow> (Mem32 \<times> 'rm) option" where
  "map_physical_memory_to_default R m rm s e =
     (if area_ok s e
      then map_option (\<lambda>m. (m, rm_remove R rm (s, e)))
             (clean_and_invalidate
               (m\<lparr>host := mmap_physical (host m) (unat s div 4096) (unat (e - s) div 4096) (physical_memory m) (unat s)\<rparr>) s e)
      else None)"

text \<open>\<open>Mem32::new\<close>: both address ranges are reserved and nothing in them is mapped.\<close>

definition mem_new :: "'rm RangeMap_ops \<Rightarrow> Host \<Rightarrow> ShmId \<Rightarrow> MetadataMap \<Rightarrow> 'rm \<Rightarrow> (Mem32 \<times> 'rm) option" where
  "mem_new R h shm md rm =
     (case atomic_new_all_ones 0x100000 of None \<Rightarrow> None
      | Some b \<Rightarrow> map_physical_memory_to_default R
          \<lparr>page_table_addr = 0, a20_enabled = False, system_write_protect = False, page_size_extension = False,
           physical_address_extension = False, paging_enabled = False, frame_is_clean = b, metadata = md_initialize md,
           current_mappings = (\<lambda>_. None), physical_memory = shm,
           host = h\<lparr>logical_pages := (\<lambda>_. None), phys_pages := (\<lambda>_. None)\<rparr>\<rparr> rm 0 (of_nat (shm_size h shm)))"

end
