(* ===== verification/Mem_Flat.thy ===== *)
theory Mem_Flat
  imports Mem_Access
begin

text \<open>
  The emulated memory without paging. As long as paging is off, the A20 line is on and the physical
  address space is plain RAM, the machinery of traps, mappings and dirty frames must not be visible: the
  memory is an array of bytes that reads as 0xff beyond its end. The invariant says what the metadata and
  the mappings have to do with the RAM, every operation keeps it, and the memory refines the array.
\<close>

unbundle bit_operations_syntax

section \<open>Pages\<close>

lemma page_base: "x AND NOT 0xfff = push_bit 12 (drop_bit 12 x)" for x :: "'a::len word"
proof -
  have m: "(0xfff :: 'a word) = mask 12" by (simp add: mask_eq_exp_minus_1)
  show ?thesis unfolding m by (auto simp: bits bit_simps)
qed

lemma unat_page_base: "unat (x AND NOT 0xfff) = 4096 * (unat x div 4096)" for x :: "'a::len word"
proof -
  have "4096 * (unat x div 4096) < 2 ^ LENGTH('a)" using unsigned_less [of x, where 'a = nat] by (rule le_less_trans [rotated]) simp
  then show ?thesis
    by (simp only: page_base unsigned_push_bit_eq unsigned_drop_bit_eq) (simp add: push_bit_eq_mult drop_bit_eq_div take_bit_nat_eq_self mult.commute)
qed

lemma page_base': "x AND - 4096 = x AND NOT 0xfff" for x :: "'a::len word"
  by simp

lemma unat_page_offset: "12 \<le> LENGTH('a) \<Longrightarrow> unat (x AND 0xfff) = unat x mod 4096" for x :: "'a::len word"
proof -
  have m: "(0xfff :: 'a word) = mask 12" by (simp add: mask_eq_exp_minus_1)
  show ?thesis unfolding m take_bit_eq_mask [symmetric]
    by (simp only: unsigned_take_bit_eq) (simp add: take_bit_eq_mod)
qed

lemma within_page_iff: "0 < n \<Longrightarrow> within_page a n \<longleftrightarrow> unat a mod 4096 + n \<le> 4096"
  by (auto simp: within_page_def unat_page_offset)

text \<open>What traps, bit by bit.\<close>

lemma and_or_nonzero: "(b AND (x OR y) \<noteq> 0) \<longleftrightarrow> (b AND x \<noteq> 0) \<or> (b AND y \<noteq> 0)" for b :: "'a::len word"
  by (auto simp: bit.conj_disj_distrib bits bit_simps)

lemma trap_iff: "should_trap b (access_test w u) \<longleftrightarrow> bit b 2 \<or> (w \<and> bit b 1) \<or> (u \<and> bit b 0)"
proof -
  have t: "METADATA_BIT_TRAP_ACCESS = push_bit 2 1" "METADATA_BIT_TRAP_WRITE = push_bit 1 1" "METADATA_BIT_TRAP_USER = push_bit 0 1"
    by (simp_all add: trap_bits)
  show ?thesis unfolding should_trap_def access_test_def require_present_def require_writable_def
    require_accessible_from_userspace_def t Let_def
    by (cases w; cases u) (simp_all only: if_True if_False and_or_nonzero bit_test or.left_neutral, auto)
qed

lemma access_metadata_bits:
  "bit (access_metadata a) 2 \<longleftrightarrow> False" "bit (access_metadata a) (Suc 0) \<longleftrightarrow> \<not> writable a"
  "bit (access_metadata a) 0 \<longleftrightarrow> \<not> ra_user_accessible a"
  by (simp_all add: access_metadata_def trap_on_write_def trap_on_userspace_access_def trap_bits bit_simps)

text \<open>A byte read through the two-stage read of values.\<close>

lemma read_u8_mem_read: "mem_read gkv D 1 = read_u8 gkv D"
proof -
  have "within_page a 1" for a
    by (simp add: within_page_iff Suc_le_eq)
  then show ?thesis by (simp add: fun_eq_iff mem_read_def read_u8_def read_with_def read_slow_with_def)
qed

section \<open>The invariant\<close>

abbreviation ram :: "Mem32 \<Rightarrow> nat \<Rightarrow> u8" where
  "ram m \<equiv> shm_data (host m) (physical_memory m)"

definition page_mapped :: "Mem32 \<Rightarrow> nat \<Rightarrow> bool" where
  "page_mapped m p \<longleftrightarrow> logical_pages (host m) p = Some (physical_memory m, 4096 * p) \<and> 4096 * p < physical_len m"

definition plain_ram :: "nat \<Rightarrow> Mem32 \<Rightarrow> bool" where
  "plain_ram N m \<longleftrightarrow> \<not> paging_enabled m \<and> a20_enabled m \<and> physical_len m = N \<and> N mod 4096 = 0 \<and> N < 2 ^ 32"

text \<open>Pages that need not trap are mapped to the RAM at their own address, the recorded mappings are the
  real ones, and a page that may be written without a trap is a dirty frame.\<close>

definition flat_ok :: "nat \<Rightarrow> Mem32 \<Rightarrow> bool" where
  "flat_ok N m \<longleftrightarrow> plain_ram N m \<and> md_ok (metadata m) \<and> fixed_ok (2 ^ 14) (frame_is_clean m) \<and>
     (\<forall>p < 2 ^ 20. \<not> bit (md_view (metadata m) p) 2 \<longrightarrow> page_mapped m p) \<and>
     (\<forall>a c. current_mappings m a = Some c \<longrightarrow> c = ucast a \<and> unat a mod 4096 = 0 \<and> logical_pages (host m) (unat a div 4096) = Some (physical_memory m, unat a)) \<and>
     (\<forall>p < 2 ^ 20. \<not> bit (md_view (metadata m) p) 1 \<longrightarrow> \<not> data_bit (frame_is_clean m) p)"

lemma flat_okD:
  assumes "flat_ok N m"
  shows "plain_ram N m" "md_ok (metadata m)" "fixed_ok (2 ^ 14) (frame_is_clean m)"
    "\<And>p. p < 2 ^ 20 \<Longrightarrow> \<not> bit (md_view (metadata m) p) 2 \<Longrightarrow> page_mapped m p"
    "\<And>a c. current_mappings m a = Some c \<Longrightarrow> c = ucast a \<and> unat a mod 4096 = 0 \<and> logical_pages (host m) (unat a div 4096) = Some (physical_memory m, unat a)"
    "\<And>p. p < 2 ^ 20 \<Longrightarrow> \<not> bit (md_view (metadata m) p) 1 \<Longrightarrow> \<not> data_bit (frame_is_clean m) p"
  using assms unfolding flat_ok_def by blast+

lemma page_less': "unat (a :: u32) div 4096 < 2 ^ 20"
  using page_less [of a] by simp

lemma should_trap_iff:
  "should_trap_linear_access m a w u \<longleftrightarrow>
     (let b = md_view (metadata m) (unat a div 4096) in bit b 2 \<or> (w \<and> bit b 1) \<or> (u \<and> bit b 0))"
  using page_less' [of a] by (simp add: should_trap_linear_access_def trap_iff md_get_for_address_def md_view_def Let_def)

lemma host_loc_mapped:
  assumes "page_mapped m (a div 4096)" "a < 2 ^ 32" "physical_len m mod 4096 = 0"
  shows "host_loc (host m) a = Some (physical_memory m, a)" "a < physical_len m"
proof -
  have "4096 * (a div 4096) < physical_len m" using assms(1) by (simp add: page_mapped_def)
  then have "4096 * (a div 4096) + 4096 \<le> physical_len m" using assms(3) by (auto simp: mod_eq_0_iff_dvd elim!: dvdE)
  moreover have "a < 4096 * (a div 4096) + 4096" using mult_div_mod_eq [of 4096 a] mod_less_divisor [of 4096 a] by linarith
  ultimately show l: "a < physical_len m" by linarith
  show "host_loc (host m) a = Some (physical_memory m, a)"
    using assms(1,2) l by (simp add: host_loc_def page_mapped_def physical_len_def MAPPING_KIND_PHYSICAL_def)
qed

lemma host_read_mapped:
  assumes "\<And>i. i < n \<Longrightarrow> page_mapped m ((a + i) div 4096)" "a + n \<le> 2 ^ 32" "physical_len m mod 4096 = 0"
  shows "host_read (host m) a n = Some (map (\<lambda>i. ram m (a + i)) [0..<n])"
proof -
  have loc: "host_loc (host m) (a + i) = Some (physical_memory m, a + i)" if "i < n" for i
    using host_loc_mapped [OF assms(1) [OF that] _ assms(3)] assms(2) that by simp
  then obtain bs where bs: "host_read (host m) a n = Some bs"
    using host_read_defined [of "host m" a n] by (cases "host_read (host m) a n") auto
  moreover have "bs = map (\<lambda>i. ram m (a + i)) [0..<n]"
  proof (rule nth_equalityI)
    show "length bs = length (map (\<lambda>i. ram m (a + i)) [0..<n])" using host_read_length [OF bs] by simp
  next
    fix i assume "i < length bs"
    then have "i < n" using host_read_length [OF bs] by simp
    then show "bs ! i = map (\<lambda>i. ram m (a + i)) [0..<n] ! i" using host_read_nth [OF bs, of i] loc [of i] by simp
  qed
  ultimately show ?thesis by simp
qed

lemma host_write_mapped:
  assumes "\<And>i. i < length bs \<Longrightarrow> page_mapped m ((a + i) div 4096)" "a + length bs \<le> 2 ^ 32" "physical_len m mod 4096 = 0"
  shows "host_write (host m) a bs = Some (host m\<lparr>shm_data := (shm_data (host m))(physical_memory m := store_bytes (ram m) a bs)\<rparr>)"
  using assms
proof (induction bs arbitrary: a m)
  case Nil
  then show ?case by simp
next
  case (Cons b bs)
  have loc: "host_loc (host m) a = Some (physical_memory m, a)"
    using host_loc_mapped [of m a] Cons.prems(1) [of 0] Cons.prems(2,3) by simp
  let ?m = "m\<lparr>host := put_byte (host m) (physical_memory m, a) b\<rparr>"
  have "host_write (host ?m) (Suc a) bs =
      Some (host ?m\<lparr>shm_data := (shm_data (host ?m))(physical_memory ?m := store_bytes (ram ?m) (Suc a) bs)\<rparr>)"
  proof (rule Cons.IH)
    fix i assume "i < length bs"
    then show "page_mapped ?m ((Suc a + i) div 4096)"
      using Cons.prems(1) [of "Suc i"] by (simp add: page_mapped_def physical_len_def)
  qed (use Cons.prems(2,3) in \<open>simp_all add: physical_len_def\<close>)
  then show ?case using loc
    by (auto simp: put_byte_def intro!: arg_cong [where f = "\<lambda>d. host m\<lparr>shm_data := d\<rparr>"])
qed

text \<open>Everything but the metadata and the mappings of the linear pages.\<close>

definition same_rest :: "Mem32 \<Rightarrow> Mem32 \<Rightarrow> bool" where
  "same_rest m m' \<longleftrightarrow> shm_data (host m') = shm_data (host m) \<and> shm_size (host m') = shm_size (host m) \<and>
     physical_memory m' = physical_memory m \<and> paging_enabled m' = paging_enabled m \<and> a20_enabled m' = a20_enabled m \<and>
     frame_is_clean m' = frame_is_clean m"

text \<open>Mapping a page after a trap.\<close>

lemma map_page_flat:
  assumes ok: "flat_ok N m" and x: "unat x < N" and a: "emu_addr a = x" "phys_addr a = ucast x"
    and w: "writable a \<longrightarrow> \<not> data_bit (frame_is_clean m) (unat x div 4096)"
  shows "\<exists>m'. map_page m a (physical_memory m) 0 (ucast x AND NOT 0xfff, (ucast x AND NOT 0xfff) + 0x1000) = Some m' \<and>
    flat_ok N m' \<and> same_rest m m' \<and> page_mapped m' (unat x div 4096)"
proof -
  let ?p = "unat x div 4096"
  let ?l = "x AND NOT 0xfff"
  obtain md where md: "md_set (metadata m) x (access_metadata a) = Some md" using md_set_eq by blast
  have view: "md_view md = (md_view (metadata m))(?p := access_metadata a)" using md_view_set [OF md] by simp
  have mdok: "md_ok md" by (rule md_ok_set [OF flat_okD(2) [OF ok] md])
  have off: "ucast (ucast (ucast x AND NOT 0xfff :: u64) :: u32) = (ucast ?l :: u64)"
    by (auto simp: bits bit_simps)
  have p: "unat ?l = 4096 * ?p" by (rule unat_page_base)
  have room: "(ucast x AND NOT 0xfff :: u64) + 4096 \<le> (ucast x AND NOT 0xfff) + 0x1000" by simp
  let ?m = "m\<lparr>metadata := md\<rparr>"
  let ?c = "case current_mappings m ?l of None \<Rightarrow> - 1 | Some c \<Rightarrow> c"
  define m' where "m' = (if ?c \<noteq> ucast ?l then ?m\<lparr>current_mappings := (current_mappings m)(?l := Some (ucast ?l)),
      host := mmap_logical (host m) ?p (physical_memory m) (4096 * ?p)\<rparr> else ?m)"
  have step: "map_page m a (physical_memory m) 0 (ucast x AND NOT 0xfff, (ucast x AND NOT 0xfff) + 0x1000) = Some m'"
    using md off p by (simp add: map_page_def set_metadata_def a map_address_before_access_def Let_def m'_def)
  have maxc: "ucast ?l \<noteq> (- 1 :: u64)"
  proof
    assume "ucast ?l = (- 1 :: u64)"
    then have "bit (ucast ?l :: u64) 63 = bit (- 1 :: u64) 63" by simp
    then show False by (simp add: bit_ucast_iff bit_high_False)
  qed
  have keep: "logical_pages (host m) ?p = Some (physical_memory m, 4096 * ?p)" if "?c = ucast ?l"
  proof (cases "current_mappings m ?l")
    case None
    then show ?thesis using that maxc by simp
  next
    case (Some c)
    then show ?thesis using flat_okD(5) [OF ok Some] p by simp
  qed
  have rest: "same_rest m m'" "metadata m' = md" by (simp_all add: m'_def same_rest_def mmap_logical_def)
  then have plain: "plain_ram N m'" using flat_okD(1) [OF ok] by (simp add: plain_ram_def same_rest_def physical_len_def)
  have pages: "logical_pages (host m') = (logical_pages (host m))(?p := Some (physical_memory m, 4096 * ?p))"
    using keep by (auto simp: m'_def mmap_logical_def)
  have mapped: "page_mapped m' q \<longleftrightarrow> q = ?p \<or> page_mapped m q" for q
    using rest(1) x flat_okD(1) [OF ok] by (auto simp: page_mapped_def pages same_rest_def physical_len_def plain_ram_def)
  have "flat_ok N m'"
    unfolding flat_ok_def
  proof (intro conjI allI impI)
    show "plain_ram N m'" "md_ok (metadata m')" using plain mdok rest(2) by simp_all
    show "fixed_ok (2 ^ 14) (frame_is_clean m')" using flat_okD(3) [OF ok] rest(1) by (simp add: same_rest_def)
  next
    fix q assume q: "q < 2 ^ 20" "\<not> bit (md_view (metadata m') q) 2"
    then show "page_mapped m' q"
      using flat_okD(4) [OF ok q(1)] by (cases "q = ?p") (auto simp: mapped rest(2) view)
  next
    fix b c assume c: "current_mappings m' b = Some c"
    have old: "c = ucast b \<and> unat b mod 4096 = 0 \<and> logical_pages (host m') (unat b div 4096) = Some (physical_memory m', unat b)"
      if "current_mappings m b = Some c"
    proof -
      have "4096 * (unat b div 4096) = unat b" using flat_okD(5) [OF ok that] by (simp add: mod_0_imp_dvd)
      then show ?thesis using flat_okD(5) [OF ok that] rest(1)
        by (cases "unat b div 4096 = ?p") (simp_all add: pages same_rest_def)
    qed
    have new: "c = ucast b \<and> unat b mod 4096 = 0 \<and> logical_pages (host m') (unat b div 4096) = Some (physical_memory m', unat b)"
      if "b = ?l" "c = ucast ?l"
      using p rest(1) by (simp add: that pages same_rest_def)
    have "current_mappings m' = current_mappings m \<or> current_mappings m' = (current_mappings m)(?l := Some (ucast ?l))"
      unfolding m'_def by (cases "?c \<noteq> ucast ?l") simp_all
    then have "current_mappings m b = Some c \<or> b = ?l \<and> c = ucast ?l" using c by (auto split: if_splits)
    then have "c = ucast b \<and> unat b mod 4096 = 0 \<and> logical_pages (host m') (unat b div 4096) = Some (physical_memory m', unat b)"
      by (elim disjE conjE) (rule old, assumption, rule new, assumption+)
    then show "c = ucast b" "unat b mod 4096 = 0" "logical_pages (host m') (unat b div 4096) = Some (physical_memory m', unat b)"
      by simp_all
  next
    fix q assume q: "q < 2 ^ 20" "\<not> bit (md_view (metadata m') q) 1"
    then show "\<not> data_bit (frame_is_clean m') q"
      using flat_okD(6) [OF ok q(1)] w rest(1)
      by (cases "q = ?p") (auto simp: rest(2) view access_metadata_bits same_rest_def)
  qed
  then show ?thesis using step rest(1) mapped by blast
qed

section \<open>Reads\<close>

definition flat_view :: "nat \<Rightarrow> Mem32 \<Rightarrow> u32 \<Rightarrow> u8" where
  "flat_view N m a = (if unat a < N then ram m (unat a) else 0xff)"

abbreviation no_map :: get_key_value where
  "no_map \<equiv> \<lambda>_. None"

lemma same_rest_trans: "same_rest m m1 \<Longrightarrow> same_rest m1 m2 \<Longrightarrow> same_rest m m2"
  by (simp add: same_rest_def)

lemma same_rest_refl [simp]: "same_rest m m"
  by (simp add: same_rest_def)

lemma flat_view_same: "same_rest m m' \<Longrightarrow> flat_view N m' = flat_view N m"
  by (simp add: same_rest_def flat_view_def fun_eq_iff)

lemma lookup_no_map: "phys_map_lookup no_map a = (Ref_Default, a AND NOT 0xfff, (a AND NOT 0xfff) + 0x1000)"
  by (simp add: phys_map_lookup_def Let_def)

lemma phys_frame_is_dirty_flat:
  "flat_ok N m \<Longrightarrow> phys_frame_is_dirty m (ucast (x :: u32)) = Some (\<not> data_bit (frame_is_clean m) (unat x div 4096))"
proof -
  assume "flat_ok N m"
  then have "length (frame_is_clean m) = 2 ^ 14" using flat_okD(3) by (fastforce simp: fixed_ok_def)
  moreover have "unat (drop_bit 12 (ucast x :: u64)) = unat x div 4096"
    using unat_drop_bit_eq [of 12 "ucast x :: u64"] by (simp only: unat_ucast64) (simp add: drop_bit_eq_div)
  ultimately show ?thesis
    using page_less' [of x] by (simp add: phys_frame_is_dirty_def atomic_get_bit)
qed

lemma resolve_flat:
  assumes "flat_ok N m"
  shows "resolve_access_address m x w u = Some (m, Inr
     \<lparr>emu_addr = x, phys_addr = ucast x, writable = w \<or> \<not> data_bit (frame_is_clean m) (unat x div 4096),
      phys_frame_needs_dirty_mark = w \<and> data_bit (frame_is_clean m) (unat x div 4096), ra_user_accessible = True\<rparr>)"
  using flat_okD(1) [OF assms] phys_frame_is_dirty_flat [OF assms, of x]
  by (simp add: resolve_access_address_def plain_ram_def)

lemma add_no_wrap: "unat (x :: u32) + i < 2 ^ 32 \<Longrightarrow> unat (x + of_nat i) = unat x + i"
  by (simp add: unat_word_ariths unat_of_nat)

lemma same_page:
  assumes "(x :: nat) mod 4096 + i < 4096"
  shows "(x + i) div 4096 = x div 4096"
proof -
  have "i < 4096" using assms by linarith
  then have "i div 4096 = 0" "i mod 4096 = i" by simp_all
  then show ?thesis using assms div_add1_eq [of x i 4096] by simp
qed

lemma no_wrap_in_page: "unat (x :: u32) mod 4096 + i < 4096 \<Longrightarrow> unat x + i < 2 ^ 32"
proof -
  assume "unat x mod 4096 + i < 4096"
  then have "unat x + i < 4096 * (unat x div 4096) + 4096" using mult_div_mod_eq [of 4096 "unat x"] by linarith
  also have "\<dots> \<le> 2 ^ 32" using page_less' [of x] by simp
  finally show ?thesis .
qed

lemma within_page_end: "0 < n \<Longrightarrow> within_page x n \<Longrightarrow> unat x + n \<le> 2 ^ 32"
proof -
  assume n: "0 < n" "within_page x n"
  then have "unat x mod 4096 + (n - 1) < 4096" by (simp add: within_page_iff)
  then have "unat x + (n - 1) < 2 ^ 32" by (rule no_wrap_in_page)
  then show ?thesis using n(1) by linarith
qed

text \<open>The host reads at a pointer whose pages are mapped.\<close>

lemma read_pointer_flat:
  assumes ok: "flat_ok N m" and pages: "\<And>i. i < n \<Longrightarrow> page_mapped m ((unat x + i) div 4096)" and n: "unat x + n \<le> 2 ^ 32"
  shows "read_pointer n m x d = Some (m, d, Inr (map (\<lambda>i. flat_view N m (x + of_nat i)) [0..<n]))"
proof -
  have N: "physical_len m = N" "N mod 4096 = 0" using flat_okD(1) [OF ok] by (simp_all add: plain_ram_def)
  have "host_read (host m) (unat x) n = Some (map (\<lambda>i. ram m (unat x + i)) [0..<n])"
    using host_read_mapped [OF pages n] N by simp
  moreover have "ram m (unat x + i) = flat_view N m (x + of_nat i)" if "i < n" for i
    using host_loc_mapped(2) [OF pages [OF that]] n N that by (simp add: flat_view_def add_no_wrap)
  ultimately show ?thesis by (simp add: read_pointer_def)
qed

definition reads :: "nat \<Rightarrow> Mem32 \<Rightarrow> 'd \<Rightarrow> ('d, u8 list) access_result \<Rightarrow> u8 list \<Rightarrow> bool" where
  "reads N m d r bs \<longleftrightarrow> (\<exists>m'. r = Some (m', d, Inr bs) \<and> flat_ok N m' \<and> same_rest m m')"

lemma read_trapped_flat:
  assumes ok: "flat_ok N m" and n: "0 < n" "within_page x n"
  shows "reads N m d (read_trapped no_map D n m x u d) (map (\<lambda>i. flat_view N m (x + of_nat i)) [0..<n])"
proof (cases "unat x < N")
  case True
  define a where "a = \<lparr>emu_addr = x, phys_addr = ucast x, writable = \<not> data_bit (frame_is_clean m) (unat x div 4096),
      phys_frame_needs_dirty_mark = False, ra_user_accessible = True\<rparr>"
  obtain m' where m': "map_page m a (physical_memory m) 0 (ucast x AND NOT 0xfff, (ucast x AND NOT 0xfff) + 0x1000) = Some m'"
    "flat_ok N m'" "same_rest m m'" "page_mapped m' (unat x div 4096)"
    using map_page_flat [OF ok True, of a] by (auto simp: a_def)
  have res: "resolve_physical_address m (phys_addr a) = Some (ucast x)"
    using True flat_okD(1) [OF ok] by (simp add: resolve_physical_address_def plain_ram_def a_def)
  have h: "handle_trapped_linear_memory_read no_map D n m a d = Some (m', d, None)"
    using m'(1) res by (simp add: handle_trapped_linear_memory_read_def lookup_no_map) (simp add: a_def)
  have "read_pointer n m' x d = Some (m', d, Inr (map (\<lambda>i. flat_view N m' (x + of_nat i)) [0..<n]))"
  proof (rule read_pointer_flat [OF m'(2)])
    show "page_mapped m' ((unat x + i) div 4096)" if "i < n" for i
      using m'(4) n that by (simp add: within_page_iff same_page)
    show "unat x + n \<le> 2 ^ 32" by (rule within_page_end) (rule n)+
  qed
  then show ?thesis using h m' by (simp add: reads_def read_trapped_def resolve_flat [OF ok] a_def [symmetric] flat_view_same)
next
  case False
  define a where "a = \<lparr>emu_addr = x, phys_addr = ucast x, writable = \<not> data_bit (frame_is_clean m) (unat x div 4096),
      phys_frame_needs_dirty_mark = False, ra_user_accessible = True\<rparr>"
  have "resolve_physical_address m (ucast x) = None"
    using False flat_okD(1) [OF ok] by (simp add: resolve_physical_address_def plain_ram_def)
  then have h: "handle_trapped_linear_memory_read no_map D n m a d = Some (m, d, Some (data_MAX n))"
    by (simp add: handle_trapped_linear_memory_read_def lookup_no_map a_def)
  have "flat_view N m (x + of_nat i) = 0xff" if "i < n" for i
    using False that n no_wrap_in_page [of x i] by (simp add: flat_view_def within_page_iff add_no_wrap)
  then have "data_MAX n = map (\<lambda>i. flat_view N m (x + of_nat i)) [0..<n]"
    by (simp add: data_MAX_def list_eq_iff_nth_eq)
  then show ?thesis using h ok by (simp add: reads_def read_trapped_def resolve_flat [OF ok] a_def [symmetric])
qed

lemma not_trapped:
  assumes "flat_ok N m" "\<not> should_trap_linear_access m x w u"
  shows "page_mapped m (unat x div 4096)" "w \<longrightarrow> \<not> data_bit (frame_is_clean m) (unat x div 4096)"
  using assms(2) flat_okD(4,6) [OF assms(1) page_less' [of x]] by (auto simp: should_trap_iff Let_def)

text \<open>An access of at most a page whose first and last byte do not trap.\<close>

lemma ends_mapped:
  assumes ok: "flat_ok N m" and n: "0 < n" "n \<le> 4096"
    and t: "\<not> should_trap_linear_access m x w u" "\<not> should_trap_linear_access m (x + (of_nat n - 1)) w u"
  shows "unat x + n \<le> 2 ^ 32" "i < n \<Longrightarrow> page_mapped m ((unat x + i) div 4096)"
    "i < n \<Longrightarrow> w \<longrightarrow> \<not> data_bit (frame_is_clean m) ((unat x + i) div 4096)"
proof -
  have N: "physical_len m = N" "N mod 4096 = 0" "N < 2 ^ 32" using flat_okD(1) [OF ok] by (simp_all add: plain_ram_def)
  have "unat x < N" using host_loc_mapped(2) [OF not_trapped(1) [OF ok t(1)]] unsigned_less [of x, where 'a = nat] N by simp
  moreover have "N + 4096 \<le> 2 ^ 32" using N by (auto simp: mod_eq_0_iff_dvd elim!: dvdE)
  ultimately show l: "unat x + n \<le> 2 ^ 32" using n by linarith
  have "x + (of_nat n - 1) = x + of_nat (n - 1)" using n(1) by (simp add: of_nat_diff Suc_le_eq)
  then have last: "unat (x + (of_nat n - 1)) = unat x + (n - 1)" using add_no_wrap [of x "n - 1"] l n(1) by simp
  assume i: "i < n"
  have "unat x div 4096 \<le> (unat x + i) div 4096" "(unat x + i) div 4096 \<le> (unat x + (n - 1)) div 4096"
    using i by (auto intro: div_le_mono)
  moreover have "(unat x + (n - 1)) div 4096 \<le> unat x div 4096 + 1"
    using n div_le_mono [of "unat x + (n - 1)" "unat x + 4096" 4096] by simp
  ultimately have "(unat x + i) div 4096 = unat x div 4096 \<or> (unat x + i) div 4096 = (unat x + (n - 1)) div 4096" by linarith
  then show "page_mapped m ((unat x + i) div 4096)" "w \<longrightarrow> \<not> data_bit (frame_is_clean m) ((unat x + i) div 4096)"
    using not_trapped [OF ok t(1)] not_trapped [OF ok t(2)] last by auto
qed

lemma multiple_within_page:
  assumes "0 < n" "n dvd 4096" "unat (x :: u32) mod n = 0"
  shows "within_page x n"
proof -
  obtain k where k: "4096 = n * k" using assms(2) by (elim dvdE)
  have "unat x mod 4096 mod n = 0" using assms(2,3) by (simp add: mod_mod_cancel)
  then obtain j where j: "unat x mod 4096 = n * j" by (auto simp: mod_eq_0_iff_dvd elim: dvdE)
  have "n * j < n * k" using k j mod_less_divisor [of 4096 "unat x"] by simp
  then have "j + 1 \<le> k" using assms(1) by simp
  then have "n * (j + 1) \<le> n * k" by (rule mult_le_mono2)
  then show ?thesis using k j assms(1) by (simp add: within_page_iff)
qed

text \<open>An access on the fast path.\<close>

lemma fast_path_mapped:
  assumes ok: "flat_ok N m" and n: "0 < n" "n dvd 4096" and f: "multibyte_access_can_use_fast_path n m x w u"
  shows "unat x + n \<le> 2 ^ 32" "i < n \<Longrightarrow> page_mapped m ((unat x + i) div 4096)"
    "i < n \<Longrightarrow> w \<longrightarrow> \<not> data_bit (frame_is_clean m) ((unat x + i) div 4096)"
proof -
  have n2: "n \<le> 4096" using n(2) by (simp add: dvd_imp_le)
  have t: "\<not> should_trap_linear_access m x w u" using f by (simp add: multibyte_access_can_use_fast_path_def)
  have "unat x + n \<le> 2 ^ 32 \<and> (i < n \<longrightarrow> page_mapped m ((unat x + i) div 4096) \<and>
      (w \<longrightarrow> \<not> data_bit (frame_is_clean m) ((unat x + i) div 4096)))" for i
  proof (cases "unat x mod n = 0")
    case True
    then have p: "within_page x n" by (rule multiple_within_page [OF n])
    then have "i < n \<Longrightarrow> (unat x + i) div 4096 = unat x div 4096" using n(1) by (simp add: within_page_iff same_page)
    then show ?thesis using within_page_end [OF n(1) p] not_trapped [OF ok t] by auto
  next
    case False
    then have "\<not> should_trap_linear_access m (x + (of_nat n - 1)) w u"
      using f by (simp add: multibyte_access_can_use_fast_path_def add_diff_eq)
    then show ?thesis using ends_mapped [OF ok n(1) n2 t] by blast
  qed
  then show "unat x + n \<le> 2 ^ 32" "i < n \<Longrightarrow> page_mapped m ((unat x + i) div 4096)"
    "i < n \<Longrightarrow> w \<longrightarrow> \<not> data_bit (frame_is_clean m) ((unat x + i) div 4096)" by blast+
qed

lemma read_with_flat:
  assumes ok: "flat_ok N m" and n: "0 < n" "n dvd 4096"
    and slices: "\<not> within_page x n \<Longrightarrow> reads N m d (slices m x n u d) (map (\<lambda>i. flat_view N m (x + of_nat i)) [0..<n])"
  shows "reads N m d (read_with slices no_map D n m x u d) (map (\<lambda>i. flat_view N m (x + of_nat i)) [0..<n])"
proof (cases "multibyte_access_can_use_fast_path n m x False u")
  case True
  then show ?thesis
    using read_pointer_flat [OF ok fast_path_mapped(2) [OF ok n True] fast_path_mapped(1) [OF ok n True], where d = d] ok
    by (simp add: read_with_def reads_def)
next
  case False
  have n2: "n \<le> 4096" using n(2) by (simp add: dvd_imp_le)
  show ?thesis
  proof (cases "\<not> should_trap_linear_access m x False u \<and> \<not> should_trap_linear_access m (x + (of_nat n - 1)) False u")
    case True
    then show ?thesis
      using read_pointer_flat [OF ok ends_mapped(2) [OF ok n(1) n2] ends_mapped(1) [OF ok n(1) n2], where d = d] ok False
      by (auto simp: read_with_def read_slow_with_def reads_def)
  next
    case trap: False
    show ?thesis
    proof (cases "within_page x n")
      case True
      then show ?thesis using read_trapped_flat [OF ok n(1) True, of d D u] False trap
        by (simp only: read_with_def read_slow_with_def if_False if_True)
    next
      case cross: False
      then show ?thesis using slices [OF cross] False trap
        by (simp only: read_with_def read_slow_with_def if_False)
    qed
  qed
qed

lemma read_slice_flat: "flat_ok N m \<Longrightarrow>
  reads N m d (read_slice no_map D m x n u d) (map (\<lambda>i. flat_view N m (x + of_nat i)) [0..<n])"
proof (induction n arbitrary: m x)
  case 0
  then show ?case by (simp add: reads_def)
next
  case (Suc n)
  have "reads N m d (read_u8 no_map D m x u d) [flat_view N m x]"
    using read_with_flat [OF Suc.prems, of 1 x d "\<lambda>_ _ _ _ _. None" u D] within_page_iff [of 1 x]
    by (simp add: read_u8_def Suc_le_eq)
  then obtain m1 where m1: "read_u8 no_map D m x u d = Some (m1, d, Inr [flat_view N m x])" "flat_ok N m1" "same_rest m m1"
    by (auto simp: reads_def)
  have "map (\<lambda>i. flat_view N m (x + of_nat i)) [0..<Suc n] =
      flat_view N m x # map (\<lambda>i. flat_view N m1 (x + 1 + of_nat i)) [0..<n]"
    unfolding flat_view_same [OF m1(3)] upt_conv_Cons [OF zero_less_Suc] list.map map_Suc_upt [symmetric]
    by (simp add: add.assoc)
  moreover obtain m2 where "read_slice no_map D m1 (x + 1) n u d =
      Some (m2, d, Inr (map (\<lambda>i. flat_view N m1 (x + 1 + of_nat i)) [0..<n]))" "flat_ok N m2" "same_rest m1 m2"
    using Suc.IH [OF m1(2), of "x + 1"] by (auto simp: reads_def)
  ultimately show ?case using m1 same_rest_trans [OF m1(3)] by (simp add: reads_def)
qed

lemma mem_read_flat:
  assumes "flat_ok N m" "0 < n" "n dvd 4096"
  shows "reads N m d (mem_read no_map D n m x u d) (map (\<lambda>i. flat_view N m (x + of_nat i)) [0..<n])"
  unfolding mem_read_def by (rule read_with_flat [OF assms]) (rule read_slice_flat [OF assms(1)])

section \<open>Writes\<close>

text \<open>A store into the array, which drops the bytes beyond the RAM.\<close>

definition flat_store :: "nat \<Rightarrow> (u32 \<Rightarrow> u8) \<Rightarrow> u32 \<Rightarrow> u8 list \<Rightarrow> u32 \<Rightarrow> u8" where
  "flat_store N f x bs = (\<lambda>a. if unat (a - x) < length bs \<and> unat a < N then bs ! unat (a - x) else f a)"

lemma store_bytes_nth:
  "store_bytes f a bs j = (if a \<le> j \<and> j < a + length bs then bs ! (j - a) else f j)"
proof (induction bs arbitrary: f a)
  case (Cons b bs)
  show ?case unfolding store_bytes.simps Cons.IH by (auto simp: nth_Cons' Suc_le_eq le_less)
qed auto

text \<open>What a write does to the memory: the state with the bytes stored.\<close>

definition with_ram :: "Mem32 \<Rightarrow> (nat \<Rightarrow> u8) \<Rightarrow> Mem32" where
  "with_ram m f = m\<lparr>host := (host m)\<lparr>shm_data := (shm_data (host m))(physical_memory m := f)\<rparr>\<rparr>"

lemma with_ram_ok: "flat_ok N (with_ram m f) = flat_ok N m" "frame_is_clean (with_ram m f) = frame_is_clean m"
  by (simp_all add: flat_ok_def with_ram_def plain_ram_def page_mapped_def physical_len_def)

lemma with_ram_view:
  assumes "unat x + length bs \<le> 2 ^ 32"
  shows "flat_view N (with_ram m (store_bytes (ram m) (unat x) bs)) = flat_store N (flat_view N m) x bs"
proof
  fix a
  have sub: "unat (a - x) < length bs \<longleftrightarrow> unat x \<le> unat a \<and> unat a < unat x + length bs"
  proof (cases "x \<le> a")
    case True
    then show ?thesis by (auto simp: unat_sub word_le_nat_alt)
  next
    case False
    then have "unat (a - x) = 2 ^ 32 + unat a - unat x" by (simp add: unat_sub_if_size word_size word_le_nat_alt)
    then show ?thesis using False assms unsigned_less [of a, where 'a = nat] by (auto simp: word_le_nat_alt)
  qed
  show "flat_view N (with_ram m (store_bytes (ram m) (unat x) bs)) a = flat_store N (flat_view N m) x bs a"
    using sub by (auto simp: flat_view_def flat_store_def with_ram_def store_bytes_nth unat_sub word_le_nat_alt)
qed

lemma write_unchecked_flat:
  assumes ok: "flat_ok N m" and pages: "\<And>i. i < length bs \<Longrightarrow> page_mapped m ((unat x + i) div 4096)" and n: "unat x + length bs \<le> 2 ^ 32"
  shows "write_unchecked m x bs = Some (with_ram m (store_bytes (ram m) (unat x) bs))"
  using host_write_mapped [OF pages n] flat_okD(1) [OF ok]
  by (simp add: write_unchecked_def with_ram_def plain_ram_def)

lemma ones_mono_ok:
  assumes "flat_ok N m" "fixed_ok (2 ^ 14) b" "\<And>p. data_bit b p \<Longrightarrow> data_bit (frame_is_clean m) p"
  shows "flat_ok N (m\<lparr>frame_is_clean := b\<rparr>)"
  using assms by (auto simp: flat_ok_def plain_ram_def page_mapped_def physical_len_def)

text \<open>Devices whose notification reads the RAM (what \<open>read_physical_slice_no_mmio\<close> gives, as the
  instruction cache does to keep a copy) and leaves the memory as it is.\<close>

type_synonym 'd observer = "u32 \<Rightarrow> (u32 \<Rightarrow> u8) \<Rightarrow> 'd \<Rightarrow> 'd"

definition observing :: "'d Mmio \<Rightarrow> 'd observer \<Rightarrow> 'd Mmio" where
  "observing D obs = D\<lparr>notify_memory_dirty := (\<lambda>f m d. (m, obs f (flat_view (physical_len m) m) d))\<rparr>"

lemma observing_simps [simp]:
  "advise_memory_dirty (observing D obs) = advise_memory_dirty D"
  "notify_memory_dirty (observing D obs) f m d = (m, obs f (flat_view (physical_len m) m) d)"
  by (simp_all add: observing_def)

text \<open>The devices see a write to a clean frame: they are asked, and told when the frame is marked, with the
  contents \<open>v\<close> of the memory before the write.\<close>

definition flat_device :: "'d Mmio \<Rightarrow> 'd observer \<Rightarrow> nat \<Rightarrow> (u32 \<Rightarrow> u8) \<Rightarrow> u32 \<Rightarrow> nat \<Rightarrow> nat set \<times> 'd \<Rightarrow> nat set \<times> 'd" where
  "flat_device D obs N v x n = (\<lambda>(clean, d).
     if unat x < N \<and> unat x div 4096 \<in> clean
     then let (advice, d) = advise_memory_dirty D x (of_nat n) d in
          (case advice of DirtyOk \<Rightarrow> (clean - {unat x div 4096}, obs (drop_bit 12 x) v d) | DoNotMark \<Rightarrow> (clean, d))
     else (clean, d))"

definition writes :: "'d Mmio \<Rightarrow> 'd observer \<Rightarrow> nat \<Rightarrow> Mem32 \<Rightarrow> 'd \<Rightarrow> (Mem32 \<times> 'd) option \<Rightarrow> u32 \<Rightarrow> u8 list \<Rightarrow> bool" where
  "writes D obs N m d r x bs \<longleftrightarrow> (\<exists>m' d'. r = Some (m', d') \<and> flat_ok N m' \<and> flat_view N m' = flat_store N (flat_view N m) x bs \<and>
     (ones (frame_is_clean m'), d') = flat_device D obs N (flat_view N m) x (length bs) (ones (frame_is_clean m), d))"

lemma write_mapped_flat:
  assumes ok: "flat_ok N m" and pages: "\<And>i. i < length bs \<Longrightarrow> page_mapped m ((unat x + i) div 4096)"
    and n: "0 < length bs" "unat x + length bs \<le> 2 ^ 32" and dirty: "\<not> data_bit (frame_is_clean m) (unat x div 4096)"
  shows "writes D obs N m d (map_option (\<lambda>m. (m, d)) (write_unchecked m x bs)) x bs"
  using write_unchecked_flat [OF ok pages n(2)] with_ram_view [OF n(2)] ok dirty
  by (simp add: writes_def with_ram_ok flat_device_def)

lemma ucast_ucast64 [simp]: "ucast (ucast (x :: u32) :: u64) = x"
  by simp

lemma frame_of: "unat (drop_bit 12 (ucast (x :: u32) :: u64)) = unat x div 4096"
  using unat_drop_bit_eq [of 12 "ucast x :: u64"] by (simp only: unat_ucast64) (simp add: drop_bit_eq_div)

lemma frame_index_ucast [simp]: "frame_index (ucast (x :: u32)) = drop_bit 12 x"
  by (simp add: frame_index_def)

lemma page_in_ram:
  assumes "plain_ram N m" "unat x < N" "0 < n" "within_page x n"
  shows "unat x + n \<le> N"
proof -
  have "4096 * (unat x div 4096) < N" using assms(2) by (rule le_less_trans [rotated]) simp
  then have "4096 * (unat x div 4096) + 4096 \<le> N" using assms(1) by (auto simp: plain_ram_def mod_eq_0_iff_dvd elim!: dvdE)
  moreover have "unat x = 4096 * (unat x div 4096) + unat x mod 4096" by simp
  ultimately show ?thesis using assms(3,4) unfolding within_page_iff [OF assms(3)] by linarith
qed

lemma clean_view [simp]:
  "flat_view N (m\<lparr>frame_is_clean := b\<rparr>) = flat_view N m" "physical_len (m\<lparr>frame_is_clean := b\<rparr>) = physical_len m"
  by (simp_all add: flat_view_def physical_len_def fun_eq_iff)

lemma mark_dirty_flat:
  assumes "flat_ok N m" "data_bit (frame_is_clean m) (unat x div 4096)"
  shows "\<exists>b. mark_phys_frame_dirty (observing D obs) m (ucast x) d = Some (m\<lparr>frame_is_clean := b\<rparr>, obs (drop_bit 12 x) (flat_view N m) d, True) \<and>
    flat_ok N (m\<lparr>frame_is_clean := b\<rparr>) \<and> ones b = ones (frame_is_clean m) - {unat x div 4096}"
proof -
  have p: "unat x div 4096 < 64 * 2 ^ 14" using page_less' [of x] by simp
  obtain b where b: "atomic_reset (frame_is_clean m) (unat x div 4096) = Some (b, True)" "fixed_ok (2 ^ 14) b"
    "ones b = ones (frame_is_clean m) - {unat x div 4096}"
    using atomic.del_member [OF flat_okD(3) [OF assms(1)] p] assms(2) by auto
  have "flat_ok N (m\<lparr>frame_is_clean := b\<rparr>)"
  proof (rule ones_mono_ok [OF assms(1) b(2)])
    fix q assume "data_bit b q"
    then have "q \<in> ones b" by simp
    then show "data_bit (frame_is_clean m) q" unfolding b(3) by simp
  qed
  moreover have "physical_len m = N" using flat_okD(1) [OF assms(1)] by (simp add: plain_ram_def)
  ultimately show ?thesis using b by (intro exI [of _ b]) (simp add: mark_phys_frame_dirty_def frame_of Let_def)
qed

lemma handle_write_flat:
  assumes ok: "flat_ok N m" and n: "0 < length bs" "within_page x (length bs)"
    and a: "a = \<lparr>emu_addr = x, phys_addr = ucast x, writable = True,
      phys_frame_needs_dirty_mark = data_bit (frame_is_clean m) (unat x div 4096), ra_user_accessible = True\<rparr>"
  shows "writes D obs N m d (write_resolved no_map (observing D obs) m (Some a) x bs d) x bs"
proof (cases "unat x < N")
  case False
  have beyond: "unat b \<ge> N" if "unat (b - x) < length bs" for b
  proof -
    have "b = x + of_nat (unat (b - x))" by simp
    moreover have "unat x + unat (b - x) < 2 ^ 32" using that within_page_end [OF n] by linarith
    ultimately have "unat b = unat x + unat (b - x)" using add_no_wrap by metis
    then show ?thesis using False by simp
  qed
  have "flat_store N (flat_view N m) x bs = flat_view N m"
    by (auto simp: flat_store_def fun_eq_iff dest: beyond)
  moreover have "write_resolved no_map (observing D obs) m (Some a) x bs d = Some (m, d)"
    using False flat_okD(1) [OF ok]
    by (simp add: write_resolved_def handle_trapped_linear_memory_write_def lookup_no_map a plain_ram_def)
  ultimately show ?thesis using False ok by (simp add: writes_def flat_device_def)
next
  case True
  let ?p = "unat x div 4096"
  have len: "unat x < physical_len m" using True flat_okD(1) [OF ok] by (simp add: plain_ram_def)
  have fin: "unat x + length bs \<le> 2 ^ 32" by (rule within_page_end) (rule n)+
  have same: "(unat x + i) div 4096 = ?p" if "i < length bs" for i
    using that n by (simp add: within_page_iff same_page)
  text \<open>Once the frame is dirty: the page is mapped and the data goes to the linear view.\<close>
  have mapped: "\<exists>m2. map_page m1 a (physical_memory m1) 0 (ucast x AND NOT 0xfff, (ucast x AND NOT 0xfff) + 0x1000) = Some m2 \<and>
      (\<exists>m3. write_unchecked m2 x bs = Some m3 \<and> flat_ok N m3 \<and> flat_view N m3 = flat_store N (flat_view N m1) x bs \<and>
        frame_is_clean m3 = frame_is_clean m1)"
    if ok1: "flat_ok N m1" and dirty: "\<not> data_bit (frame_is_clean m1) ?p" for m1
  proof -
    obtain m2 where m2: "map_page m1 a (physical_memory m1) 0 (ucast x AND NOT 0xfff, (ucast x AND NOT 0xfff) + 0x1000) = Some m2"
      "flat_ok N m2" "same_rest m1 m2" "page_mapped m2 ?p"
      using map_page_flat [OF ok1 True, of a] dirty by (auto simp: a)
    have "write_unchecked m2 x bs = Some (with_ram m2 (store_bytes (ram m2) (unat x) bs))"
      by (rule write_unchecked_flat [OF m2(2) _ fin]) (simp add: same m2(4))
    then show ?thesis
      using m2 with_ram_view [OF fin, of N m2] by (simp add: with_ram_ok flat_view_same [OF m2(3)]) (simp add: same_rest_def)
  qed
  show ?thesis
  proof (cases "data_bit (frame_is_clean m) ?p")
    case False
    then show ?thesis
      using mapped [OF ok False] len
      by (auto simp: write_resolved_def handle_trapped_linear_memory_write_def lookup_no_map writes_def flat_device_def) (auto simp: a)
  next
    case clean: True
    obtain advice d1 where adv: "advise_memory_dirty D x (of_nat (length bs)) d = (advice, d1)" by fastforce
    show ?thesis
    proof (cases advice)
      case DoNotMark
      have "shm_write_slice (host m) (physical_memory m) x bs =
          Some ((host m)\<lparr>shm_data := (shm_data (host m))(physical_memory m := store_bytes (ram m) (unat x) bs)\<rparr>)"
        using page_in_ram [OF flat_okD(1) [OF ok] True n] flat_okD(1) [OF ok]
        by (simp add: shm_write_slice_def plain_ram_def physical_len_def add.commute)
      then have "write_resolved no_map (observing D obs) m (Some a) x bs d = Some (with_ram m (store_bytes (ram m) (unat x) bs), d1)"
        using len clean adv DoNotMark
        by (simp add: write_resolved_def handle_trapped_linear_memory_write_def lookup_no_map a write_shm_def with_ram_def)
      then show ?thesis
        using with_ram_view [OF fin, of N m] ok True clean adv DoNotMark by (simp add: writes_def with_ram_ok flat_device_def)
    next
      case DirtyOk
      obtain b where b: "mark_phys_frame_dirty (observing D obs) m (ucast x) d1 =
          Some (m\<lparr>frame_is_clean := b\<rparr>, obs (drop_bit 12 x) (flat_view N m) d1, True)"
        "flat_ok N (m\<lparr>frame_is_clean := b\<rparr>)" "ones b = ones (frame_is_clean m) - {?p}"
        using mark_dirty_flat [OF ok clean, of D obs d1] by auto
      have "\<not> data_bit (frame_is_clean (m\<lparr>frame_is_clean := b\<rparr>)) ?p" 
      proof -
        have "?p \<notin> ones b" by (simp only: b(3)) simp
        then show ?thesis by simp
      qed
      from mapped [OF b(2) this] obtain m2 m3 where
        "map_page (m\<lparr>frame_is_clean := b\<rparr>) a (physical_memory m) 0 (ucast x AND NOT 0xfff, (ucast x AND NOT 0xfff) + 0x1000) = Some m2"
        "write_unchecked m2 x bs = Some m3" "flat_ok N m3" "flat_view N m3 = flat_store N (flat_view N (m\<lparr>frame_is_clean := b\<rparr>)) x bs"
        "frame_is_clean m3 = b" by auto
      moreover have "flat_view N (m\<lparr>frame_is_clean := b\<rparr>) = flat_view N m" by (simp add: flat_view_def fun_eq_iff)
      ultimately show ?thesis
        using len clean adv DirtyOk b True
        by (simp add: write_resolved_def handle_trapped_linear_memory_write_def lookup_no_map writes_def flat_device_def) (simp add: a)
    qed
  qed
qed

lemma mem_write_flat:
  assumes ok: "flat_ok N m" and n: "0 < length bs" "length bs dvd 4096" "within_page x (length bs)"
  shows "\<exists>m' d'. mem_write no_map (observing D obs) m x u bs d = Some (m', d', Inr ()) \<and> writes D obs N m d (Some (m', d')) x bs"
proof -
  have fin: "unat x + length bs \<le> 2 ^ 32" by (rule within_page_end) (rule n)+
  have n2: "length bs \<le> 4096" using n(2) by (simp add: dvd_imp_le)
  have direct: "\<exists>m'. write_unchecked m x bs = Some m' \<and> writes D obs N m d (Some (m', d)) x bs"
    if "\<And>i. i < length bs \<Longrightarrow> page_mapped m ((unat x + i) div 4096)" "\<not> data_bit (frame_is_clean m) (unat x div 4096)"
    using write_mapped_flat [OF ok that(1) n(1) fin that(2), of D obs d] write_unchecked_flat [OF ok that(1) fin] by simp
  show ?thesis
  proof (cases "multibyte_access_can_use_fast_path (length bs) m x True u")
    case True
    have "\<not> data_bit (frame_is_clean m) (unat x div 4096)" using fast_path_mapped(3) [OF ok n(1,2) True, of 0] n(1) by simp
    then obtain m' where "write_unchecked m x bs = Some m'" "writes D obs N m d (Some (m', d)) x bs"
      using direct fast_path_mapped(2) [OF ok n(1,2) True] by blast
    then show ?thesis using True by (simp add: mem_write_def)
  next
    case slow: False
    show ?thesis
    proof (cases "should_trap_linear_access m x True u")
      case False
      have "\<exists>m'. write_unchecked m x bs = Some m' \<and> writes D obs N m d (Some (m', d)) x bs"
      proof (rule direct)
        show "page_mapped m ((unat x + i) div 4096)" if "i < length bs" for i
          using not_trapped(1) [OF ok False] that n by (simp add: within_page_iff same_page)
        show "\<not> data_bit (frame_is_clean m) (unat x div 4096)" using not_trapped(2) [OF ok False] by simp
      qed
      then show ?thesis using slow False n(3)
        by (auto simp: mem_write_def write_slow_def prepare_write_def resolve_if_trapped_def execute_prepared_write_def write_resolved_def)
    next
      case True
      define a where "a = \<lparr>emu_addr = x, phys_addr = ucast x, writable = True,
        phys_frame_needs_dirty_mark = data_bit (frame_is_clean m) (unat x div 4096), ra_user_accessible = True\<rparr>"
      have "writes D obs N m d (write_resolved no_map (observing D obs) m (Some a) x bs d) x bs"
        by (rule handle_write_flat [OF ok n(1,3) a_def])
      then show ?thesis using slow True n(3)
        by (auto simp: mem_write_def write_slow_def prepare_write_def resolve_if_trapped_def execute_prepared_write_def
            resolve_flat [OF ok] a_def [symmetric] writes_def)
    qed
  qed
qed

section \<open>Control operations\<close>

lemma flat_ok_metadata:
  assumes "flat_ok N m" "md_ok md"
    and "\<And>p. p < 2 ^ 20 \<Longrightarrow> bit (md_view (metadata m) p) 2 \<Longrightarrow> bit (md_view md p) 2"
    and "\<And>p. p < 2 ^ 20 \<Longrightarrow> bit (md_view (metadata m) p) 1 \<Longrightarrow> bit (md_view md p) 1"
  shows "flat_ok N (m\<lparr>metadata := md\<rparr>)"
  using assms by (auto simp: flat_ok_def plain_ram_def page_mapped_def physical_len_def)

lemma bit_ff: "bit (0xff :: u8) i \<longleftrightarrow> i < 8"
proof -
  have "(0xff :: u8) = mask 8" by (simp add: mask_eq_exp_minus_1)
  then show ?thesis by (simp only: bit_mask_iff) auto
qed

lemma invalidate_all_flat:
  assumes "flat_ok N m"
  shows "\<exists>m'. invalidate_all_pages m = Some m' \<and> flat_ok N m' \<and> same_rest m m'"
proof -
  obtain md where md: "md_clear (metadata m) = Some md" by (auto simp: md_clear_eq)
  have v: "md_view md = (\<lambda>_. 0xff)" "md_ok md" using md_view_clear md_ok_clear flat_okD(2) [OF assms] md by blast+
  have "flat_ok N (m\<lparr>metadata := md\<rparr>)" by (rule flat_ok_metadata [OF assms v(2)]) (simp_all add: v bit_ff)
  then show ?thesis by (simp add: invalidate_all_pages_def md same_rest_def)
qed

lemma invalidate_page_flat:
  assumes "flat_ok N m"
  shows "\<exists>m'. invalidate_page m a = Some m' \<and> flat_ok N m' \<and> same_rest m m'"
proof -
  obtain md where md: "md_set (metadata m) a 0xff = Some md" using md_set_eq by blast
  have v: "md_view md = (md_view (metadata m))(unat a div 2 ^ 12 := 0xff)" "md_ok md"
    using md_view_set [OF md] md_ok_set [OF flat_okD(2) [OF assms] md] by simp_all
  have "flat_ok N (m\<lparr>metadata := md\<rparr>)" by (rule flat_ok_metadata [OF assms v(2)]) (simp_all add: v bit_ff)
  then show ?thesis by (simp add: invalidate_page_def set_metadata_def md same_rest_def)
qed

text \<open>After frames became clean, every page traps on writes.\<close>

lemma trap_all_writes_flat:
  assumes ok: "flat_ok N m" and b: "fixed_ok (2 ^ 14) b"
  shows "\<exists>m'. trap_all_writes (m\<lparr>frame_is_clean := b\<rparr>) = Some m' \<and> flat_ok N m' \<and> frame_is_clean m' = b \<and> flat_view N m' = flat_view N m"
proof -
  let ?x = "trap_on_write 0 True"
  obtain md where md: "md_enable_for_all (metadata m) ?x = Some md" by (auto simp: md_enable_eq)
  have v: "md_view md = (\<lambda>n. md_view (metadata m) n OR ?x)" "md_ok md"
    using md_view_enable md_ok_enable flat_okD(2) [OF ok] md by blast+
  have w: "bit ?x (Suc 0)" by (simp add: trap_on_write_def trap_bits)
  have "flat_ok N (m\<lparr>frame_is_clean := b, metadata := md\<rparr>)"
    using ok b v(2) w unfolding flat_ok_def
    by (auto simp: v(1) bit_or_iff plain_ram_def page_mapped_def physical_len_def)
  then show ?thesis by (simp add: trap_all_writes_def md flat_view_def fun_eq_iff)
qed

lemma clean_frames_ok:
  "fixed_ok N b \<Longrightarrow> i + n \<le> 64 * N \<Longrightarrow> \<exists>b'. clean_frames b i n = Some b' \<and> fixed_ok N b' \<and> ones b' = ones b \<union> {i..<i + n}"
proof (induction n arbitrary: b i)
  case (Suc n)
  obtain b1 where b1: "atomic_set b i = Some (b1, i \<notin> ones b)" "fixed_ok N b1" "ones b1 = insert i (ones b)"
    using atomic.put_member [OF Suc.prems(1), of i] Suc.prems(2) by auto
  then show ?case using Suc.IH [OF b1(2), of "Suc i"] Suc.prems(2) by (auto simp: b1(3))
qed simp

lemma clean_phys_frame_flat:
  assumes "flat_ok N m"
  shows "\<exists>m'. clean_phys_frame m (ucast (a :: u32)) = Some m' \<and> flat_ok N m' \<and>
    ones (frame_is_clean m') = insert (unat a div 4096) (ones (frame_is_clean m)) \<and> flat_view N m' = flat_view N m"
proof -
  have p: "unat a div 4096 < 64 * 2 ^ 14" using page_less' [of a] by simp
  obtain b where "atomic_set (frame_is_clean m) (unat a div 4096) = Some (b, unat a div 4096 \<notin> ones (frame_is_clean m))"
    "fixed_ok (2 ^ 14) b" "ones b = insert (unat a div 4096) (ones (frame_is_clean m))"
    using atomic.put_member [OF flat_okD(3) [OF assms] p] by blast
  then show ?thesis using trap_all_writes_flat [OF assms] by (fastforce simp: clean_phys_frame_def frame_of)
qed

lemma clean_all_flat:
  assumes "flat_ok N m"
  shows "\<exists>m'. clean_all_phys_frames m = Some m' \<and> flat_ok N m' \<and>
    ones (frame_is_clean m') = {..<2 ^ 20} \<and> flat_view N m' = flat_view N m"
proof -
  obtain b where b: "clean_frames (frame_is_clean m) 0 (2 ^ 20) = Some b" "fixed_ok (2 ^ 14) b"
    "ones b = ones (frame_is_clean m) \<union> {0..<0 + 2 ^ 20}"
    using clean_frames_ok [OF flat_okD(3) [OF assms], of 0 "2 ^ 20"] by auto
  have "p < 2 ^ 20" if "p \<in> ones (frame_is_clean m)" for p
    using that data_bit_less flat_okD(3) [OF assms] by (fastforce simp: fixed_ok_def)
  then have "ones b = {..<2 ^ 20}" using b(3) by auto
  then show ?thesis
    using b trap_all_writes_flat [OF assms b(2)] by (auto simp: clean_all_phys_frames_def clean_phys_frame_range_def)
qed

section \<open>The memory refines an array with dirty frames\<close>

datatype FlatOp =
    FRead u32 nat bool
  | FWrite u32 "u8 list" bool
  | FInvalidateAll
  | FInvalidatePage u32
  | FClean u32
  | FCleanAll

text \<open>The state with the devices and what the reads returned.\<close>

fun flat_step :: "'d Mmio \<Rightarrow> Mem32 \<times> 'd \<times> u8 list list \<Rightarrow> FlatOp \<Rightarrow> (Mem32 \<times> 'd \<times> u8 list list) option" where
  "flat_step D (m, d, out) (FRead a n u) =
     (case mem_read no_map D n m a u d of Some (m', d', Inr bs) \<Rightarrow> Some (m', d', out @ [bs]) | _ \<Rightarrow> None)"
| "flat_step D (m, d, out) (FWrite a bs u) =
     (case mem_write no_map D m a u bs d of Some (m', d', Inr _) \<Rightarrow> Some (m', d', out) | _ \<Rightarrow> None)"
| "flat_step D (m, d, out) FInvalidateAll = map_option (\<lambda>m. (m, d, out)) (invalidate_all_pages m)"
| "flat_step D (m, d, out) (FInvalidatePage a) = map_option (\<lambda>m. (m, d, out)) (invalidate_page m a)"
| "flat_step D (m, d, out) (FClean a) = map_option (\<lambda>m. (m, d, out)) (clean_phys_frame m (ucast a))"
| "flat_step D (m, d, out) FCleanAll = map_option (\<lambda>m. (m, d, out)) (clean_all_phys_frames m)"

text \<open>The same on an array of bytes and a set of clean frames.\<close>

type_synonym 'd flat = "(u32 \<Rightarrow> u8) \<times> nat set \<times> 'd \<times> u8 list list"

fun flat_spec :: "nat \<Rightarrow> 'd Mmio \<Rightarrow> 'd observer \<Rightarrow> 'd flat \<Rightarrow> FlatOp \<Rightarrow> 'd flat" where
  "flat_spec N D obs (f, clean, d, out) (FRead a n u) = (f, clean, d, out @ [map (\<lambda>i. f (a + of_nat i)) [0..<n]])"
| "flat_spec N D obs (f, clean, d, out) (FWrite a bs u) =
     (let (clean', d') = flat_device D obs N f a (length bs) (clean, d) in (flat_store N f a bs, clean', d', out))"
| "flat_spec N D obs (f, clean, d, out) FInvalidateAll = (f, clean, d, out)"
| "flat_spec N D obs (f, clean, d, out) (FInvalidatePage a) = (f, clean, d, out)"
| "flat_spec N D obs (f, clean, d, out) (FClean a) = (f, insert (unat a div 4096) clean, d, out)"
| "flat_spec N D obs (f, clean, d, out) FCleanAll = (f, {..<2 ^ 20}, d, out)"

text \<open>Data has 1, 2, 4 or 8 bytes, and a write stays within a page.\<close>

definition data_size :: "nat \<Rightarrow> bool" where
  "data_size n \<longleftrightarrow> n \<in> {1, 2, 4, 8}"

fun flat_admits :: "'d flat \<Rightarrow> FlatOp \<Rightarrow> bool" where
  "flat_admits s (FRead a n u) \<longleftrightarrow> data_size n"
| "flat_admits s (FWrite a bs u) \<longleftrightarrow> data_size (length bs) \<and> within_page a (length bs)"
| "flat_admits s _ \<longleftrightarrow> True"

definition flat_abs :: "nat \<Rightarrow> Mem32 \<times> 'd \<times> u8 list list \<Rightarrow> 'd flat" where
  "flat_abs N = (\<lambda>(m, d, out). (flat_view N m, ones (frame_is_clean m), d, out))"

lemma data_sizeD: "data_size n \<Longrightarrow> 0 < n \<and> n dvd 4096"
  by (auto simp: data_size_def)

lemma same_frames: "same_rest m m' \<Longrightarrow> frame_is_clean m' = frame_is_clean m"
  by (simp add: same_rest_def)

interpretation flat: refined_machine "flat_step (observing D obs)" "\<lambda>(m, _). flat_ok N m" "flat_abs N" "flat_spec N D obs" flat_admits
  for N and D :: "'d Mmio" and obs
proof
  fix s :: "Mem32 \<times> 'd \<times> u8 list list" and e
  assume inv: "(\<lambda>(m, _). flat_ok N m) s" and adm: "flat_admits (flat_abs N s) e"
  obtain m d out where s: "s = (m, d, out)" by (cases s) auto
  with inv have ok: "flat_ok N m" by simp
  show "\<exists>s'. flat_step (observing D obs) s e = Some s' \<and> (\<lambda>(m, _). flat_ok N m) s' \<and> flat_abs N s' = flat_spec N D obs (flat_abs N s) e"
  proof (cases e)
    case (FRead a n u)
    then have n: "0 < n" "n dvd 4096" using adm data_sizeD s by (auto simp: flat_abs_def)
    then obtain m' where "mem_read no_map (observing D obs) n m a u d = Some (m', d, Inr (map (\<lambda>i. flat_view N m (a + of_nat i)) [0..<n]))"
      "flat_ok N m'" "same_rest m m'"
      using mem_read_flat [OF ok n, of d "observing D obs" a u] by (auto simp: reads_def)
    then show ?thesis using FRead s by (simp add: flat_abs_def flat_view_same same_frames)
  next
    case (FWrite a bs u)
    then have n: "0 < length bs" "length bs dvd 4096" "within_page a (length bs)"
      using adm data_sizeD s by (auto simp: flat_abs_def)
    then obtain m' d' where w: "mem_write no_map (observing D obs) m a u bs d = Some (m', d', Inr ())" "writes D obs N m d (Some (m', d')) a bs"
      using mem_write_flat [OF ok n, of D obs u d] by blast
    then show ?thesis using FWrite s by (auto simp: writes_def flat_abs_def split: prod.splits)
  next
    case FInvalidateAll
    then show ?thesis using invalidate_all_flat [OF ok] s by (auto simp: flat_abs_def flat_view_same same_frames)
  next
    case (FInvalidatePage a)
    then show ?thesis using invalidate_page_flat [OF ok, of a] s by (auto simp: flat_abs_def flat_view_same same_frames)
  next
    case (FClean a)
    then show ?thesis using clean_phys_frame_flat [OF ok, of a] s by (auto simp: flat_abs_def)
  next
    case FCleanAll
    then show ?thesis using clean_all_flat [OF ok] s by (auto simp: flat_abs_def)
  qed
qed

section \<open>The machine that starts up\<close>

lemma u64_page_bits: "x AND 0xfff = 0 \<Longrightarrow> unat x mod 4096 = 0" for x :: u64
  using unat_page_offset [of x] by simp

lemma boot_flat:
  assumes new: "mem_new R h shm md rm = Some (m0, rm0)" and a20: "set_a20_line m0 True = Some m" and N: "shm_size h shm = N" "N < 2 ^ 32"
  shows "flat_ok N m" "flat_abs N (m, d, []) = (\<lambda>a. if unat a < N then shm_data h shm (unat a) else 0xff, {..<2 ^ 20}, d, [])"
proof -
  let ?b = "replicate (2 ^ 14) (- 1) :: u64 list"
  define h1 where "h1 = mmap_physical (h\<lparr>logical_pages := (\<lambda>_. None), phys_pages := (\<lambda>_. None)\<rparr>) 0 (N div 4096) shm 0"
  define i where "i = \<lparr>page_table_addr = 0, a20_enabled = False, system_write_protect = False, page_size_extension = False,
           physical_address_extension = False, paging_enabled = False, frame_is_clean = ?b, metadata = md_initialize md,
           current_mappings = (\<lambda>_. None), physical_memory = shm, host = h1\<rparr>"
  have un: "unat (of_nat N :: u64) = N" using N(2) by (simp add: unat_of_nat)
  have b: "atomic_new_all_ones 0x100000 = Some ?b" using atomic_new_ok(1) [of "2 ^ 14"] by simp
  have area: "area_ok 0 (of_nat N)" and ci: "clean_and_invalidate i 0 (of_nat N) = Some m0"
    using new un N(1) by (auto simp: mem_new_def b map_physical_memory_to_default_def i_def h1_def split: if_splits)
  have N4: "N mod 4096 = 0" using area u64_page_bits [of "of_nat N"] un by (simp add: area_ok_def)
  have pages: "0 + N div 4096 \<le> 64 * 2 ^ 14" using N(2) div_le_mono [of N "2 ^ 32" 4096] by simp
  obtain b1 where b1: "clean_frames ?b 0 (N div 4096) = Some b1" "fixed_ok (2 ^ 14) b1" "ones b1 = ones ?b \<union> {0..<0 + N div 4096}"
    using clean_frames_ok [OF atomic_new_ok(2), of 0 "N div 4096" "2 ^ 14" "- 1"] pages by auto
  have "ones ?b = {..<2 ^ 20}" by (rule set_eqI) (simp add: atomic_new_ok(3))
  moreover have "{0..<0 + N div 4096} \<subseteq> {..<2 ^ 20}" using pages by (simp add: subset_eq)
  ultimately have ones1: "ones b1 = {..<2 ^ 20}" using b1(3) by (simp only: Un_absorb2)
  obtain md1 where md1: "md_enable_for_all (md_initialize md) (trap_on_write 0 True) = Some md1" by (auto simp: md_enable_eq)
  obtain md2 where md2: "md_clear md1 = Some md2" by (auto simp: md_clear_eq)
  obtain md3 where md3: "md_clear md2 = Some md3" by (auto simp: md_clear_eq)
  have ok1: "md_ok md1" by (rule md_ok_enable [OF md_ok_initialize(1) md1])
  have ok2: "md_ok md2" by (rule md_ok_clear [OF ok1 md2])
  have ok3: "md_ok md3" "md_view md3 = (\<lambda>_. 0xff)" using md_ok_clear [OF ok2 md3] md_view_clear [OF ok2 md3] by simp_all
  have m0: "m0 = i\<lparr>frame_is_clean := b1, metadata := md2\<rparr>"
    using ci b1(1) md1 md2 N4
    by (simp add: clean_and_invalidate_def clean_phys_frame_range_def un trap_all_writes_def invalidate_all_pages_def i_def)
  have m: "m = i\<lparr>frame_is_clean := b1, metadata := md3, a20_enabled := True\<rparr>"
    using a20 md3 by (simp add: m0 set_a20_line_def invalidate_all_pages_def i_def)
  show "flat_ok N m"
    unfolding flat_ok_def
    using ok3 b1(2) N N4 by (auto simp: m i_def plain_ram_def physical_len_def bit_ff h1_def mmap_physical_def)
  show "flat_abs N (m, d, []) = (\<lambda>a. if unat a < N then shm_data h shm (unat a) else 0xff, {..<2 ^ 20}, d, [])"
    by (simp add: flat_abs_def m i_def ones1 flat_view_def fun_eq_iff h1_def mmap_physical_def)
qed

lemma boot_total:
  assumes N: "shm_size h shm = N" "0 < N" "N mod 4096 = 0" "N < 2 ^ 32"
  shows "\<exists>m0 m. mem_new R h shm md rm = Some (m0, rm_remove R rm (0, of_nat N)) \<and> set_a20_line m0 True = Some m"
proof -
  have un: "unat (of_nat N :: u64) = N" using N(4) by (simp add: unat_of_nat)
  have "unat (of_nat N AND 0xfff :: u64) = 0" using unat_page_offset [of "of_nat N :: u64"] N(3) un by simp
  moreover have "(0 :: u64) < of_nat N" using un N(2) by (simp add: word_less_nat_alt)
  ultimately have area: "area_ok 0 (of_nat N)" by (simp add: area_ok_def unsigned_eq_0_iff)
  have b: "atomic_new_all_ones 0x100000 = Some (replicate (2 ^ 14) (- 1))" using atomic_new_ok(1) [of "2 ^ 14"] by simp
  have pages: "0 + N div 4096 \<le> 64 * 2 ^ 14" using N(4) div_le_mono [of N "2 ^ 32" 4096] by simp
  obtain b1 where "clean_frames (replicate (2 ^ 14) (- 1)) 0 (N div 4096) = Some b1"
    using clean_frames_ok [OF atomic_new_ok(2) pages] by blast
  then show ?thesis
    using area b un N(1,3) by (simp add: mem_new_def map_physical_memory_to_default_def clean_and_invalidate_def
        clean_phys_frame_range_def trap_all_writes_def md_enable_eq invalidate_all_pages_def md_clear_eq set_a20_line_def)
qed

text \<open>C30: Without paging the memory is an array of bytes. Boot a machine with \<open>N\<close> bytes of RAM and enable
  the A20 line; then, whatever sequence of reads, writes within a page, invalidations and cleanings of
  frames follows, in user or supervisor mode and with any devices whose notification does not itself
  write to the memory, nothing panics, every read returns the bytes last written, or 0xff beyond the
  RAM, and the devices are consulted for exactly the writes to clean frames and told exactly when a
  frame becomes dirty, with the memory as it is before the write.\<close>

theorem flat_memory_run:
  assumes "mem_new R h shm md rm = Some (m0, rm0)" and "set_a20_line m0 True = Some m"
    and "shm_size h shm = N" and "N < 2 ^ 32"
    and "admitted (flat_spec N D obs) flat_admits (\<lambda>a. if unat a < N then shm_data h shm (unat a) else 0xff, {..<2 ^ 20}, d, []) ops"
  shows "\<exists>m' d' out. run (flat_step (observing D obs)) (m, d, []) ops = Some (m', d', out) \<and>
    (flat_view N m', ones (frame_is_clean m'), d', out) =
      foldl (flat_spec N D obs) (\<lambda>a. if unat a < N then shm_data h shm (unat a) else 0xff, {..<2 ^ 20}, d, []) ops"
proof -
  have "\<exists>s'. run (flat_step (observing D obs)) (m, d, []) ops = Some s' \<and> (\<lambda>(m, _). flat_ok N m) s' \<and>
      flat_abs N s' = foldl (flat_spec N D obs) (flat_abs N (m, d, [])) ops"
    using boot_flat(1) [OF assms(1-4)] assms(5) unfolding boot_flat(2) [OF assms(1-4), symmetric]
    by (intro flat.run_refines) simp_all
  then show ?thesis unfolding boot_flat(2) [OF assms(1-4)] by (auto simp: flat_abs_def)
qed

text \<open>A machine with two pages of RAM whose devices count notifications and add up the first bytes they see:
  the bytes of a word that is written across the trap and the fast path come back, and the write to the
  clean frame was announced once.\<close>

definition demo_devices :: "nat Mmio" where
  "demo_devices = \<lparr>read_mem = (\<lambda>_ _ n d. (data_MAX n, d)), write_mem = (\<lambda>_ _ _ d. d), notify_memory_dirty = (\<lambda>_ m d. (m, d)),
     advise_memory_dirty = (\<lambda>_ _ d. (DirtyOk, d)), notify_dirty = (\<lambda>_ _ d. d)\<rparr>"

definition demo_observer :: "nat observer" where
  "demo_observer f v d = d + 1 + unat (v (push_bit 12 f))"

definition demo_ranges :: "unit RangeMap_ops" where
  "demo_ranges = \<lparr>rm_get_key_value = (\<lambda>_ _. None), rm_insert = (\<lambda>_ _ _. ()), rm_remove = (\<lambda>_ _. ())\<rparr>"

definition demo_ram :: Host where
  "demo_ram = \<lparr>shm_data = (\<lambda>_ _. 0), shm_size = (\<lambda>_. 0x2000), logical_pages = (\<lambda>_. None), phys_pages = (\<lambda>_. None)\<rparr>"

definition demo_ops :: "FlatOp list" where
  "demo_ops = [FRead 0x1000 2 True, FWrite 0x1000 [1, 2] False, FWrite 0x1001 [3] True, FRead 0x0fff 4 True, FRead 0x1fff 2 False]"


lemma demo_admitted:
  "admitted (flat_spec 0x2000 demo_devices demo_observer) flat_admits ((\<lambda>a. if unat a < 0x2000 then 0 else 0xff), {..<2 ^ 20}, 0, []) demo_ops"
  by (simp add: demo_ops_def data_size_def within_page_iff)

lemma demo_outcome:
  "foldl (flat_spec 0x2000 demo_devices demo_observer) ((\<lambda>a. if unat a < 0x2000 then 0 else 0xff), {..<2 ^ 20}, 0, []) demo_ops = (f, c, d, out)
    \<Longrightarrow> d = 1 \<and> out = [[0, 0], [0, 1, 3, 0], [0, 0xff]]"
  by (simp add: demo_ops_def flat_device_def demo_devices_def demo_observer_def flat_store_def upt_conv_Cons unsigned_minus_1_eq_mask mask_eq_exp_minus_1 cong: if_cong)

lemma demo_boots:
  obtains m0 m where "mem_new demo_ranges demo_ram 0 \<lparr>md_bytes = (\<lambda>_. 0), md_modified = (\<lambda>_. 0)\<rparr> () = Some (m0, ())"
    "set_a20_line m0 True = Some m"
  using boot_total [of demo_ram 0 "0x2000" demo_ranges "\<lparr>md_bytes = (\<lambda>_. 0), md_modified = (\<lambda>_. 0)\<rparr>" "()"] that
  by (auto simp: demo_ram_def)

lemma flat_memory_run_witness:
  "\<exists>m0 m s'. mem_new demo_ranges demo_ram 0 \<lparr>md_bytes = (\<lambda>_. 0), md_modified = (\<lambda>_. 0)\<rparr> () = Some (m0, ()) \<and>
     set_a20_line m0 True = Some m \<and> run (flat_step (observing demo_devices demo_observer)) (m, 0, []) demo_ops = Some s' \<and>
     snd s' = (1, [[0, 0], [0, 1, 3, 0], [0, 0xff]])"
proof -
  obtain m0 m where b: "mem_new demo_ranges demo_ram 0 \<lparr>md_bytes = (\<lambda>_. 0), md_modified = (\<lambda>_. 0)\<rparr> () = Some (m0, ())"
    "set_a20_line m0 True = Some m" by (rule demo_boots)
  have size: "shm_size demo_ram 0 = 0x2000" "(0x2000 :: nat) < 2 ^ 32" and data: "shm_data demo_ram 0 a = 0" for a
    by (simp_all add: demo_ram_def)
  obtain m' d' out where r: "run (flat_step (observing demo_devices demo_observer)) (m, 0, []) demo_ops = Some (m', d', out)"
    "(flat_view 0x2000 m', ones (frame_is_clean m'), d', out) =
      foldl (flat_spec 0x2000 demo_devices demo_observer) (\<lambda>a. if unat a < 0x2000 then 0 else 0xff, {..<2 ^ 20}, 0, []) demo_ops"
    using flat_memory_run [OF b size, of demo_devices demo_observer 0 demo_ops] demo_admitted unfolding data by blast
  then show ?thesis using b demo_outcome [OF r(2) [symmetric]] by auto
qed

end
