(* ===== verification/Mem_Paged.thy ===== *)
theory Mem_Paged
  imports Mem_Flat
begin

text \<open>
  The emulated memory with paging, in a physical address space of plain RAM: what an access does that has
  to be checked, because the metadata of its page traps. It goes to the translated address and leaves the
  page mapped there, or it raises the page fault of the translation. The last section shows accesses
  that go wrong: after the check of one privilege level the page is open to the other, and writes that
  cross a page or reach a second shared memory object.
\<close>

unbundle bit_operations_syntax

section \<open>Translations keep the offset in the page\<close>

lemma bit_frame_base: "i < 12 \<Longrightarrow> 12 \<le> sh \<Longrightarrow> \<not> bit (frame_base sh e) i"
  by (auto simp: frame_base_def bit_simps)

lemma walk_offset:
  "walk_levels rd eb ls base lin w u = Some (p, Translation a w' u' d e g) \<Longrightarrow> \<forall>l \<in> set ls. 12 \<le> lv_shift l \<Longrightarrow>
     i < 12 \<Longrightarrow> bit a i \<longleftrightarrow> bit lin i"
proof (induction rd eb ls base lin w u arbitrary: p rule: walk_levels.induct)
  case (2 rd eb l ls base lin w u)
  then show ?case
    by (auto simp: Let_def bit_frame_base bit_or_iff field_def bit_ucast_iff bit_take_bit_iff dest: bit_imp_le_length
        split: option.splits if_splits)
qed simp

lemma translation_offset:
  assumes "translation_of m lin = Some (p, Translation a w u d e g)"
  shows "unat a mod 4096 = unat lin mod 4096"
proof -
  have b: "bit a i \<longleftrightarrow> bit lin i" if "i < 12" for i
  proof (cases "physical_address_extension m")
    case True
    with assms show ?thesis unfolding translation_of_def by (simp only: if_True) (erule walk_offset, simp_all add: that)
  next
    case False
    with assms show ?thesis unfolding translation_of_def by (simp only: if_False) (erule walk_offset, simp_all add: that)
  qed
  have "take_bit 12 a = ucast (take_bit 12 lin)" using b by (auto simp: bits bit_simps)
  then have "unat (take_bit 12 a) = unat (ucast (take_bit 12 lin) :: u64)" by simp
  then show ?thesis by (simp only: unat_ucast64 unsigned_take_bit_eq) (simp add: take_bit_eq_mod)
qed

section \<open>Mapping a page to the RAM\<close>

definition maps_ok :: "Mem32 \<Rightarrow> bool" where
  "maps_ok m \<longleftrightarrow> (\<forall>x c. current_mappings m x = Some c \<longrightarrow>
     unat x mod 4096 = 0 \<and> logical_pages (host m) (unat x div 4096) = Some (physical_memory m, unat c))"

lemma map_page_ram:
  assumes ok: "maps_ok m" and a: "unat (phys_addr a) < 2 ^ 32"
  shows "\<exists>md cm. md_set (metadata m) (emu_addr a) (access_metadata a) = Some md \<and>
    (let m' = m\<lparr>metadata := md, current_mappings := cm, host := (host m)\<lparr>logical_pages := (logical_pages (host m))
           (unat (emu_addr a) div 4096 := Some (physical_memory m, 4096 * (unat (phys_addr a) div 4096)))\<rparr>\<rparr> in
     map_page m a (physical_memory m) 0 (phys_addr a AND NOT 0xfff, (phys_addr a AND NOT 0xfff) + 0x1000) = Some m' \<and> maps_ok m')"
proof -
  let ?x = "emu_addr a"
  let ?p = "unat ?x div 4096"
  let ?f = "unat (phys_addr a) div 4096"
  let ?l = "?x AND NOT 0xfff"
  obtain md where md: "md_set (metadata m) ?x (access_metadata a) = Some md" using md_set_eq by blast
  have p: "unat ?l = 4096 * ?p" by (rule unat_page_base)
  have f: "unat (phys_addr a AND NOT 0xfff) = 4096 * ?f" by (rule unat_page_base)
  define off where "off = (ucast (ucast (phys_addr a AND NOT 0xfff) :: u32) :: u64)"
  have off: "unat off = 4096 * ?f"
  proof -
    have "4096 * ?f < 2 ^ 32" using a by (rule le_less_trans [rotated]) simp
    then show ?thesis unfolding off_def unat_ucast64 by (simp add: unsigned_ucast_eq f [simplified] take_bit_nat_eq_self)
  qed
  have maxc: "off \<noteq> - 1"
  proof
    assume "off = - 1"
    then have "bit off 63 = bit (- 1 :: u64) 63" by simp
    then show False by (simp add: off_def bit_ucast_iff bit_high_False)
  qed
  let ?m = "m\<lparr>metadata := md\<rparr>"
  let ?c = "case current_mappings m ?l of None \<Rightarrow> - 1 | Some c \<Rightarrow> c"
  define m' where "m' = (if ?c \<noteq> off then ?m\<lparr>current_mappings := (current_mappings m)(?l := Some off),
      host := mmap_logical (host m) ?p (physical_memory m) (4096 * ?f)\<rparr> else ?m)"
  have step: "map_page m a (physical_memory m) 0 (phys_addr a AND NOT 0xfff, (phys_addr a AND NOT 0xfff) + 0x1000) = Some m'"
    using md off p by (simp add: map_page_def set_metadata_def map_address_before_access_def Let_def m'_def off_def)
  have keep: "logical_pages (host m) ?p = Some (physical_memory m, 4096 * ?f)" if "?c = off"
  proof (cases "current_mappings m ?l")
    case None
    then show ?thesis using that maxc by simp
  next
    case (Some c)
    then have "logical_pages (host m) (unat ?l div 4096) = Some (physical_memory m, unat c)" using ok unfolding maps_ok_def by blast
    then show ?thesis using Some that off p by simp
  qed
  have pages: "logical_pages (host m') = (logical_pages (host m))(?p := Some (physical_memory m, 4096 * ?f))"
    using keep by (auto simp: m'_def mmap_logical_def)
  have rest: "same_rest m m'" "metadata m' = md" by (simp_all add: m'_def same_rest_def mmap_logical_def)
  have "maps_ok m'"
    unfolding maps_ok_def
  proof (intro allI impI)
    fix b c assume c: "current_mappings m' b = Some c"
    have "unat b mod 4096 = 0 \<and> logical_pages (host m') (unat b div 4096) = Some (physical_memory m', unat c)"
      if "current_mappings m b = Some c" "b \<noteq> ?l"
    proof -
      have o: "unat b mod 4096 = 0" "logical_pages (host m) (unat b div 4096) = Some (physical_memory m, unat c)"
        using ok that(1) by (auto simp: maps_ok_def)
      have "4096 * (unat b div 4096) = unat b" using o(1) by (simp add: mod_0_imp_dvd)
      then have "unat b div 4096 \<noteq> ?p" using that(2) p by (metis unsigned_word_eqI)
      then show ?thesis using o rest(1) by (simp add: pages same_rest_def)
    qed
    moreover have "unat b mod 4096 = 0 \<and> logical_pages (host m') (unat b div 4096) = Some (physical_memory m', unat c)"
      if "b = ?l" "c = off"
      using p off rest(1) by (simp add: that pages same_rest_def)
    moreover have "current_mappings m b = Some c \<and> b \<noteq> ?l \<or> b = ?l \<and> c = off"
    proof (cases "?c = off")
      case True
      then have "current_mappings m' = current_mappings m" by (simp add: m'_def)
      then show ?thesis using c True by (cases "b = ?l") auto
    next
      case False
      then have "current_mappings m' = (current_mappings m)(?l := Some off)" by (simp add: m'_def)
      then show ?thesis using c by (auto split: if_splits)
    qed
    ultimately show "unat b mod 4096 = 0 \<and> logical_pages (host m') (unat b div 4096) = Some (physical_memory m', unat c)"
      by (elim disjE conjE) simp_all
  qed
  moreover have "\<exists>cm. m' = m\<lparr>metadata := md, current_mappings := cm,
      host := (host m)\<lparr>logical_pages := (logical_pages (host m))(?p := Some (physical_memory m, 4096 * ?f))\<rparr>\<rparr>"
  proof (cases "?c = off")
    case True
    then have "(logical_pages (host m))(?p := Some (physical_memory m, 4096 * ?f)) = logical_pages (host m)"
      using keep by auto
    then show ?thesis using True by (auto simp: m'_def intro!: exI [of _ "current_mappings m"])
  next
    case False
    then show ?thesis by (auto simp: m'_def mmap_logical_def)
  qed
  ultimately show ?thesis using step md unfolding Let_def by metis
qed

section \<open>Checked accesses\<close>

definition paged_ok :: "nat \<Rightarrow> Mem32 \<Rightarrow> bool" where
  "paged_ok N m \<longleftrightarrow> host_ok (host m) \<and> tables_aligned m \<and> paging_enabled m \<and> a20_enabled m \<and> physical_len m = N \<and>
     N mod 4096 = 0 \<and> N \<le> 2 ^ 32 \<and> fixed_ok (2 ^ 14) (frame_is_clean m) \<and> maps_ok m \<and> md_ok (metadata m)"

lemma page_in_ram64:
  assumes "N mod 4096 = 0" "(a :: nat) < N" "a mod 4096 + n \<le> 4096"
  shows "a + n \<le> N"
proof -
  have "4096 * (a div 4096) < N" using assms(2) by (rule le_less_trans [rotated]) simp
  then have "4096 * (a div 4096) + 4096 \<le> N" using assms(1) by (auto simp: mod_eq_0_iff_dvd elim!: dvdE)
  moreover have "a = 4096 * (a div 4096) + a mod 4096" by simp
  ultimately show ?thesis using assms(3) by linarith
qed

text \<open>The linear view of a page that is mapped to a frame.\<close>

lemma host_loc_frame:
  assumes m: "logical_pages (host m) (unat (x :: u32) div 4096) = Some (physical_memory m, 4096 * (a div 4096))"
    and off: "a mod 4096 = unat x mod 4096" and i: "unat x mod 4096 + i < 4096" and a: "a + i < physical_len m"
  shows "host_loc (host m) (unat x + i) = Some (physical_memory m, a + i)"
proof -
  have "(unat x + i) div 4096 = unat x div 4096" by (rule same_page [OF i])
  moreover have "(unat x + i) mod 4096 = unat x mod 4096 + i"
    using i by (metis add.assoc mod_less div_mult_mod_eq mod_mult_self3)
  moreover have "4096 * (a div 4096) + (unat x mod 4096 + i) = a + i"
    using off mult_div_mod_eq [of 4096 a] by linarith
  moreover have "unat x + i < 2 ^ 32" by (rule no_wrap_in_page [OF i])
  ultimately show ?thesis using m a by (simp add: host_loc_def MAPPING_KIND_PHYSICAL_def physical_len_def)
qed

lemma host_read_loc:
  "(\<And>i. i < n \<Longrightarrow> host_loc h (x + i) = Some (s, a + i)) \<Longrightarrow> host_read h x n = Some (map (\<lambda>i. shm_data h s (a + i)) [0..<n])"
proof (induction n arbitrary: x a)
  case (Suc n)
  have "host_loc h x = Some (s, a)" using Suc.prems [of 0] by simp
  moreover have "host_read h (Suc x) n = Some (map (\<lambda>i. shm_data h s (Suc a + i)) [0..<n])"
    by (rule Suc.IH) (use Suc.prems [of "Suc i" for i] in simp)
  ultimately show ?case by (simp add: upt_conv_Cons map_Suc_upt [symmetric] comp_def del: upt_Suc)
qed simp

lemma host_write_loc:
  "(\<And>i. i < length bs \<Longrightarrow> host_loc h (x + i) = Some (s, a + i)) \<Longrightarrow>
     host_write h x bs = Some (h\<lparr>shm_data := (shm_data h)(s := store_bytes (shm_data h s) a bs)\<rparr>)"
proof (induction bs arbitrary: h x a)
  case (Cons b bs)
  have loc: "host_loc h x = Some (s, a)" using Cons.prems [of 0] by simp
  let ?h = "put_byte h (s, a) b"
  have "host_write ?h (Suc x) bs = Some (?h\<lparr>shm_data := (shm_data ?h)(s := store_bytes (shm_data ?h s) (Suc a) bs)\<rparr>)"
    by (rule Cons.IH) (use Cons.prems [of "Suc i" for i] in simp)
  then show ?case using loc by (auto simp: put_byte_def intro!: arg_cong [where f = "\<lambda>d. h\<lparr>shm_data := d\<rparr>"])
qed simp

lemma paged_ok_data [simp]: "paged_ok N (m\<lparr>host := flag_entries x (host m) q\<rparr>) = paged_ok N m" "paged_ok N (marked b q m) = paged_ok N m"
  by (simp_all add: paged_ok_def maps_ok_def marked_def tables_aligned_def physical_len_def)

text \<open>After the check of an access to the RAM its page is mapped to the frame, with the traps of the access.\<close>

lemma paged_map:
  assumes ok: "paged_ok N m" and a: "unat (phys_addr r) < N"
  shows "\<exists>m'. map_page m r (physical_memory m) 0 (phys_addr r AND NOT 0xfff, (phys_addr r AND NOT 0xfff) + 0x1000) = Some m' \<and>
    paged_ok N m' \<and> shm_data (host m') = shm_data (host m) \<and> physical_memory m' = physical_memory m \<and>
    frame_is_clean m' = frame_is_clean m \<and>
    md_view (metadata m') (unat (emu_addr r) div 4096) = access_metadata r \<and>
    logical_pages (host m') (unat (emu_addr r) div 4096) = Some (physical_memory m', 4096 * (unat (phys_addr r) div 4096))"
proof -
  have maps: "maps_ok m" and lim: "unat (phys_addr r) < 2 ^ 32" using ok a by (auto simp: paged_ok_def)
  obtain md cm where md: "md_set (metadata m) (emu_addr r) (access_metadata r) = Some md"
    and m': "map_page m r (physical_memory m) 0 (phys_addr r AND NOT 0xfff, (phys_addr r AND NOT 0xfff) + 0x1000) =
      Some (m\<lparr>metadata := md, current_mappings := cm, host := (host m)\<lparr>logical_pages := (logical_pages (host m))
           (unat (emu_addr r) div 4096 := Some (physical_memory m, 4096 * (unat (phys_addr r) div 4096)))\<rparr>\<rparr>)"
      "maps_ok (m\<lparr>metadata := md, current_mappings := cm, host := (host m)\<lparr>logical_pages := (logical_pages (host m))
           (unat (emu_addr r) div 4096 := Some (physical_memory m, 4096 * (unat (phys_addr r) div 4096)))\<rparr>\<rparr>)"
    using map_page_ram [OF maps lim] unfolding Let_def by blast
  have mdok: "md_ok md" using md_ok_set [OF _ md] ok by (simp add: paged_ok_def)
  have hok: "host_ok ((host m)\<lparr>logical_pages := (logical_pages (host m))
           (unat (emu_addr r) div 4096 := Some (physical_memory m, 4096 * (unat (phys_addr r) div 4096)))\<rparr>)"
    using ok by (auto simp: paged_ok_def host_ok_def)
  show ?thesis
    by (intro exI conjI, rule m'(1)) (use m'(2) mdok hok ok md_view_set [OF md] in \<open>simp_all add: paged_ok_def tables_aligned_def physical_len_def\<close>)
qed

lemma paged_loc:
  assumes ok: "paged_ok N m" and a: "unat a < N" "unat a mod 4096 = unat x mod 4096" and n: "0 < n" "within_page x n" "i < n"
    and m: "logical_pages (host m) (unat x div 4096) = Some (physical_memory m, 4096 * (unat a div 4096))"
  shows "host_loc (host m) (unat x + i) = Some (physical_memory m, unat a + i)"
proof (rule host_loc_frame [OF m a(2)])
  have "unat x mod 4096 + n \<le> 4096" using n by (simp add: within_page_iff)
  then show "unat x mod 4096 + i < 4096" using n(3) by simp
  have "unat a + n \<le> N" using page_in_ram64 [of N "unat a" n] ok a \<open>unat x mod 4096 + n \<le> 4096\<close> by (simp add: paged_ok_def)
  then show "unat a + i < physical_len m" using n(3) ok by (simp add: paged_ok_def)
qed

lemma paged_frame_dirty:
  assumes "paged_ok N m"
  shows "phys_frame_is_dirty m a = (if unat a < 2 ^ 32 then Some (\<not> data_bit (frame_is_clean m) (unat a div 4096)) else None)"
proof -
  have len: "length (frame_is_clean m) = 2 ^ 14" using assms by (auto simp: paged_ok_def fixed_ok_def)
  have f: "unat (drop_bit 12 a) = unat a div 4096" using unat_drop_bit_eq [of 12 a] by (simp add: drop_bit_eq_div)
  have "unat a < 2 ^ 32 \<longleftrightarrow> unat a div 4096 < 64 * 2 ^ 14" by (simp add: div_less_iff_less_mult)
  then show ?thesis using len f
    by (simp add: phys_frame_is_dirty_def atomic_get_bit atomic_get_out_of_range del: One_nat_def)
qed

lemma read_trapped_paged:
  assumes ok: "paged_ok N m" and n: "0 < n" "within_page x n" and a: "unat (phys_addr r) < N"
    "unat (phys_addr r) mod 4096 = unat x mod 4096" and r: "emu_addr r = x" "\<not> phys_frame_needs_dirty_mark r"
  shows "\<exists>m'. (case handle_trapped_linear_memory_read no_map D n m r d of
             None \<Rightarrow> None
           | Some (m, d, Some bs) \<Rightarrow> Some (m, d, Inr bs)
           | Some (m, d, None) \<Rightarrow> read_pointer n m x d) =
      Some (m', d, Inr (map (\<lambda>i. ram m (unat (phys_addr r) + i)) [0..<n])) \<and> paged_ok N m' \<and> shm_data (host m') = shm_data (host m) \<and>
      physical_memory m' = physical_memory m \<and> md_view (metadata m') (unat x div 4096) = access_metadata r"
proof -
  obtain m' where m': "map_page m r (physical_memory m) 0 (phys_addr r AND NOT 0xfff, (phys_addr r AND NOT 0xfff) + 0x1000) = Some m'"
    "paged_ok N m'" "shm_data (host m') = shm_data (host m)" "physical_memory m' = physical_memory m"
    "md_view (metadata m') (unat x div 4096) = access_metadata r"
    "logical_pages (host m') (unat x div 4096) = Some (physical_memory m', 4096 * (unat (phys_addr r) div 4096))"
    using paged_map [OF ok a(1)] unfolding r(1) by blast
  have "resolve_physical_address m (phys_addr r) = Some (phys_addr r)"
    using ok a(1) by (simp add: resolve_physical_address_def paged_ok_def)
  then have h: "handle_trapped_linear_memory_read no_map D n m r d = Some (m', d, None)"
    using m'(1) r(2) by (simp add: handle_trapped_linear_memory_read_def lookup_no_map)
  have "host_read (host m') (unat x) n = Some (map (\<lambda>i. ram m (unat (phys_addr r) + i)) [0..<n])"
    using host_read_loc [OF paged_loc [OF m'(2) a n _ m'(6)]] m'(3,4) by simp
  then show ?thesis using h m' by (simp add: read_pointer_def)
qed

lemma trapped_read:
  assumes "should_trap_linear_access m x False user" "within_page x n"
  shows "mem_read gkv D n m x user d = read_trapped gkv D n m x user d"
  using assms by (simp add: mem_read_def read_with_def read_slow_with_def multibyte_access_can_use_fast_path_def)

lemma trapped_write:
  assumes "should_trap_linear_access m x True user" "within_page x (length bs)"
  shows "mem_write gkv D m x user bs d =
    (case resolve_access_address m x True user of
       None \<Rightarrow> None
     | Some (m, Inl e) \<Rightarrow> Some (m, d, Inl e)
     | Some (m, Inr a) \<Rightarrow> map_option (\<lambda>(m, d). (m, d, Inr ())) (write_resolved gkv D m (Some a) x bs d))"
  using assms
  by (auto simp: mem_write_def write_slow_def prepare_write_def resolve_if_trapped_def execute_prepared_write_def
      multibyte_access_can_use_fast_path_def split: option.splits sum.splits)

lemma access_open: "md_view (metadata m) (unat x div 4096) = access_metadata r \<Longrightarrow> (w \<longrightarrow> writable r) \<Longrightarrow>
    (user \<longrightarrow> ra_user_accessible r) \<Longrightarrow> \<not> should_trap_linear_access m x w user"
  by (auto simp: should_trap_iff Let_def access_metadata_bits)

text \<open>A read that the translation admits.\<close>

lemma allowed_read_paged:
  assumes ok: "paged_ok N m" and trap: "should_trap_linear_access m x False user" and n: "0 < n" "within_page x n"
    and tr: "translation_of m x = Some (p, Translation a w u dy e g)" and acc: "\<not> (user \<and> \<not> u)" "unat a < 2 ^ 32"
  shows "if unat a < N
    then \<exists>m'. mem_read no_map D n m x user d = Some (m', d, Inr (map (\<lambda>i. ram (marked True p m) (unat a + i)) [0..<n])) \<and>
      paged_ok N m' \<and> shm_data (host m') = shm_data (host (marked True p m)) \<and> \<not> should_trap_linear_access m' x False user
    else mem_read no_map D n m x user d = Some (marked True p m, d, Inr (data_MAX n))"
proof -
  have spec: "host_ok (host m)" "tables_aligned m" "paging_enabled m" and N: "N \<le> 2 ^ 32" "physical_len m = N" "a20_enabled m"
    using ok by (simp_all add: paged_ok_def)
  let ?M = "marked True p m"
  have okM: "paged_ok N ?M" using ok by simp
  define r where "r = \<lparr>emu_addr = x, phys_addr = a,
    writable = access_allowed m w True True user \<and> dy \<and> \<not> data_bit (frame_is_clean m) (unat a div 4096),
    phys_frame_needs_dirty_mark = False, ra_user_accessible = u\<rparr>"
  have res: "resolve_access_address m x False user = Some (?M, Inr r)"
    using acc by (simp add: resolve_access_address_spec [OF spec] tr access_allowed_def paged_frame_dirty [OF ok] r_def flag_entries_def)
  note T = trapped_read [OF trap n(2)]
  show ?thesis
  proof (cases "unat a < N")
    case inside: True
    have r: "unat (phys_addr r) < N" "unat (phys_addr r) mod 4096 = unat x mod 4096" "emu_addr r = x"
      "\<not> phys_frame_needs_dirty_mark r" using inside translation_offset [OF tr] by (simp_all add: r_def)
    obtain m' where m': "mem_read no_map D n m x user d = Some (m', d, Inr (map (\<lambda>i. ram ?M (unat (phys_addr r) + i)) [0..<n]))"
      "paged_ok N m'" "shm_data (host m') = shm_data (host ?M)" "md_view (metadata m') (unat x div 4096) = access_metadata r"
      using read_trapped_paged [OF okM n r, of D d] unfolding T read_trapped_def res by auto
    have "\<not> should_trap_linear_access m' x False user"
      by (rule access_open [OF m'(4)]) (use acc in \<open>simp_all add: r_def\<close>)
    then show ?thesis using m'(1-3) inside by (simp add: r_def)
  next
    case False
    have "resolve_physical_address ?M a = None"
      using False N by (simp add: resolve_physical_address_def physical_len_def marked_def)
    then show ?thesis using False
      by (simp add: T read_trapped_def res handle_trapped_linear_memory_read_def lookup_no_map r_def)
  qed
qed

text \<open>C31: A checked read goes where the page tables say. With paging on and the RAM at the bottom of the
  physical address space, a read whose page traps either raises the page fault of its translation,
  with the right code and only accessed flags changed, or returns the bytes of the RAM at the translated
  address (ones beyond the RAM), after which the page does not trap again for such a read. It panics
  only when the tables are not in mapped memory or lead beyond 4 GiB.\<close>

theorem paged_read:
  assumes "paged_ok N m" and "should_trap_linear_access m x False user" and "0 < n" and "within_page x n"
  shows "case translation_of m x of
      None \<Rightarrow> mem_read no_map D n m x user d = None
    | Some (p, Missing) \<Rightarrow>
        mem_read no_map D n m x user d = Some (marked True p m, d, Inl (PageFault (fault_code False False user) x))
    | Some (p, Translation a w u _ _ _) \<Rightarrow>
        if user \<and> \<not> u
        then mem_read no_map D n m x user d = Some (marked True p m, d, Inl (PageFault (fault_code True False user) x))
        else if unat a < N
        then \<exists>m'. mem_read no_map D n m x user d = Some (m', d, Inr (map (\<lambda>i. ram (marked True p m) (unat a + i)) [0..<n])) \<and>
               paged_ok N m' \<and> shm_data (host m') = shm_data (host (marked True p m)) \<and> \<not> should_trap_linear_access m' x False user
        else if unat a < 2 ^ 32 then mem_read no_map D n m x user d = Some (marked True p m, d, Inr (data_MAX n))
        else mem_read no_map D n m x user d = None"
proof -
  have spec: "host_ok (host m)" "tables_aligned m" "paging_enabled m" and N: "N \<le> 2 ^ 32"
    using assms(1) by (simp_all add: paged_ok_def)
  note R = resolve_access_address_spec [OF spec, of x False user] and T = trapped_read [OF assms(2,4)]
  show ?thesis
  proof (cases "translation_of m x")
    case None
    then show ?thesis by (simp add: T read_trapped_def R)
  next
    case (Some pt)
    obtain p t where pt: "pt = (p, t)" by (cases pt)
    show ?thesis
    proof (cases t)
      case Missing
      then show ?thesis using Some pt by (simp add: T read_trapped_def R)
    next
      case (Translation a w u dy e g)
      have tr: "translation_of m x = Some (p, Translation a w u dy e g)" using Some pt Translation by simp
      show ?thesis
      proof (cases "\<not> (user \<and> \<not> u) \<and> unat a < 2 ^ 32")
        case False
        then show ?thesis using N unfolding T read_trapped_def R tr
          by (auto simp: access_allowed_def paged_frame_dirty [OF assms(1)])
      next
        case True
        note W = allowed_read_paged [OF assms tr conjunct1 [OF True] conjunct2 [OF True], of D d]
        show ?thesis unfolding tr option.case prod.case translation.case
          by (simp only: conjunct1 [OF True] conjunct2 [OF True] if_False if_True) (rule W)
      qed
    qed
  qed
qed


lemma mark_dirty_paged:
  assumes ok: "paged_ok N m" and a: "unat (a :: u64) < 2 ^ 32" "data_bit (frame_is_clean m) (unat a div 4096)"
  shows "\<exists>b. mark_phys_frame_dirty (observing D obs) m a d = Some (m\<lparr>frame_is_clean := b\<rparr>, obs (drop_bit 12 (ucast a)) (flat_view N m) d, True) \<and>
    paged_ok N (m\<lparr>frame_is_clean := b\<rparr>) \<and> ones b = ones (frame_is_clean m) - {unat a div 4096}"
proof -
  have p: "unat a div 4096 < 64 * 2 ^ 14" using a(1) by (simp add: div_less_iff_less_mult)
  have fok: "fixed_ok (2 ^ 14) (frame_is_clean m)" using ok by (simp add: paged_ok_def)
  have f: "unat (drop_bit 12 a) = unat a div 4096" using unat_drop_bit_eq [of 12 a] by (simp add: drop_bit_eq_div)
  obtain b where b: "atomic_reset (frame_is_clean m) (unat a div 4096) = Some (b, True)" "fixed_ok (2 ^ 14) b"
    "ones b = ones (frame_is_clean m) - {unat a div 4096}"
    using atomic.del_member [OF fok p] a(2) by auto
  have "paged_ok N (m\<lparr>frame_is_clean := b\<rparr>)"
    using ok b(2) by (simp add: paged_ok_def maps_ok_def tables_aligned_def physical_len_def)
  moreover have "physical_len m = N" using ok by (simp add: paged_ok_def)
  ultimately show ?thesis using b by (intro exI [of _ b]) (simp add: mark_phys_frame_dirty_def f frame_index_def Let_def)
qed


text \<open>What a write leaves behind: the bytes stored in the RAM of the state \<open>m\<close>, the devices consulted.\<close>

definition stored :: "'d Mmio \<Rightarrow> 'd observer \<Rightarrow> nat \<Rightarrow> Mem32 \<Rightarrow> 'd \<Rightarrow> u64 \<Rightarrow> u8 list \<Rightarrow> Mem32 \<Rightarrow> 'd \<Rightarrow> bool" where
  "stored D obs N m d a bs m' d' \<longleftrightarrow> paged_ok N m' \<and>
     shm_data (host m') = (shm_data (host m))(physical_memory m := store_bytes (ram m) (unat a) bs) \<and>
     (ones (frame_is_clean m'), d') = flat_device D obs N (flat_view N m) (ucast a) (length bs) (ones (frame_is_clean m), d)"

lemma unat_ucast32: "unat (a :: u64) < 2 ^ 32 \<Longrightarrow> unat (ucast a :: u32) = unat a"
  by (simp add: unsigned_ucast_eq take_bit_nat_eq_self)

lemma write_resolved_paged:
  assumes ok: "paged_ok N m" and n: "0 < length bs" "within_page x (length bs)" and a: "unat (phys_addr r) < N"
    "unat (phys_addr r) mod 4096 = unat x mod 4096" and r: "emu_addr r = x" "writable r"
    "phys_frame_needs_dirty_mark r \<longleftrightarrow> data_bit (frame_is_clean m) (unat (phys_addr r) div 4096)"
  shows "\<exists>m' d'. write_resolved no_map (observing D obs) m (Some r) x bs d = Some (m', d') \<and> stored D obs N m d (phys_addr r) bs m' d' \<and>
    (unat (phys_addr r) div 4096 \<notin> ones (frame_is_clean m') \<longrightarrow> md_view (metadata m') (unat x div 4096) = access_metadata r)"
proof -
  let ?a = "phys_addr r"
  let ?p = "unat ?a div 4096"
  have lim: "unat ?a < 2 ^ 32" and len: "physical_len m = N" using ok a(1) by (auto simp: paged_ok_def)
  note u32 = unat_ucast32 [OF lim]
  text \<open>Once the frame is dirty.\<close>
  have mapped: "\<exists>m2 m3. map_page m1 r (physical_memory m1) 0 (?a AND NOT 0xfff, (?a AND NOT 0xfff) + 0x1000) = Some m2 \<and>
      write_unchecked m2 x bs = Some m3 \<and> paged_ok N m3 \<and>
      shm_data (host m3) = (shm_data (host m1))(physical_memory m1 := store_bytes (ram m1) (unat ?a) bs) \<and>
      frame_is_clean m3 = frame_is_clean m1 \<and> md_view (metadata m3) (unat x div 4096) = access_metadata r"
    if ok1: "paged_ok N m1" for m1
  proof -
    obtain m2 where m2: "map_page m1 r (physical_memory m1) 0 (?a AND NOT 0xfff, (?a AND NOT 0xfff) + 0x1000) = Some m2"
      "paged_ok N m2" "shm_data (host m2) = shm_data (host m1)" "physical_memory m2 = physical_memory m1"
      "frame_is_clean m2 = frame_is_clean m1" "md_view (metadata m2) (unat x div 4096) = access_metadata r"
      "logical_pages (host m2) (unat x div 4096) = Some (physical_memory m2, 4096 * ?p)"
      using paged_map [OF ok1 a(1)] unfolding r(1) by blast
    have "host_write (host m2) (unat x) bs =
        Some (host m2\<lparr>shm_data := (shm_data (host m2))(physical_memory m2 := store_bytes (ram m2) (unat ?a) bs)\<rparr>)"
      by (rule host_write_loc) (rule paged_loc [OF m2(2) a n _ m2(7)])
    then have w: "write_unchecked m2 x bs =
        Some (m2\<lparr>host := host m2\<lparr>shm_data := (shm_data (host m2))(physical_memory m2 := store_bytes (ram m2) (unat ?a) bs)\<rparr>\<rparr>)"
      by (simp add: write_unchecked_def)
    have "paged_ok N (m2\<lparr>host := host m2\<lparr>shm_data := (shm_data (host m2))(physical_memory m2 := store_bytes (ram m2) (unat ?a) bs)\<rparr>\<rparr>)"
      using m2(2) by (simp add: paged_ok_def maps_ok_def tables_aligned_def physical_len_def host_ok_def)
    note p3 = this
    show ?thesis by (intro exI conjI, rule m2(1), rule w, rule p3) (simp_all add: m2(3-6))
  qed
  show ?thesis
  proof (cases "data_bit (frame_is_clean m) ?p")
    case False
    obtain m2 m3 where m3: "map_page m r (physical_memory m) 0 (?a AND NOT 0xfff, (?a AND NOT 0xfff) + 0x1000) = Some m2"
      "write_unchecked m2 x bs = Some m3" "paged_ok N m3"
      "shm_data (host m3) = (shm_data (host m))(physical_memory m := store_bytes (ram m) (unat ?a) bs)"
      "frame_is_clean m3 = frame_is_clean m" "md_view (metadata m3) (unat x div 4096) = access_metadata r"
      using mapped [OF ok] by blast
    have "write_resolved no_map (observing D obs) m (Some r) x bs d = Some (m3, d)"
      using m3(1,2) False r(3) a(1) len
      by (simp add: write_resolved_def handle_trapped_linear_memory_write_def lookup_no_map)
    moreover have "stored D obs N m d ?a bs m3 d"
      using m3(3-5) False u32 by (simp add: stored_def flat_device_def)
    ultimately show ?thesis using m3(6) by blast
  next
    case clean: True
    obtain advice d1 where adv: "advise_memory_dirty D (ucast ?a) (of_nat (length bs)) d = (advice, d1)" by fastforce
    show ?thesis
    proof (cases advice)
      case DoNotMark
      let ?m = "m\<lparr>host := (host m)\<lparr>shm_data := (shm_data (host m))(physical_memory m := store_bytes (ram m) (unat ?a) bs)\<rparr>\<rparr>"
      have "unat ?a + length bs \<le> N"
        using page_in_ram64 [of N "unat ?a" "length bs"] ok a n by (simp add: paged_ok_def within_page_iff)
      then have "write_shm m (physical_memory m) ?a bs = Some ?m"
        using u32 len by (simp add: write_shm_def shm_write_slice_def physical_len_def add.commute)
      then have "write_resolved no_map (observing D obs) m (Some r) x bs d = Some (?m, d1)"
        using clean adv DoNotMark r(3) a(1) len
        by (simp add: write_resolved_def handle_trapped_linear_memory_write_def lookup_no_map)
      moreover have "stored D obs N m d ?a bs ?m d1"
        using ok clean adv DoNotMark u32 a(1)
        by (simp add: stored_def flat_device_def paged_ok_def maps_ok_def tables_aligned_def physical_len_def host_ok_def)
      ultimately show ?thesis using clean by auto
    next
      case DirtyOk
      obtain b where b: "mark_phys_frame_dirty (observing D obs) m ?a d1 = Some (m\<lparr>frame_is_clean := b\<rparr>, obs (drop_bit 12 (ucast ?a)) (flat_view N m) d1, True)"
        "paged_ok N (m\<lparr>frame_is_clean := b\<rparr>)" "ones b = ones (frame_is_clean m) - {?p}"
        using mark_dirty_paged [OF ok lim clean, of D obs d1] by (elim exE conjE) (rule that)
      obtain m2 m3 where m3: "map_page (m\<lparr>frame_is_clean := b\<rparr>) r (physical_memory m) 0 (?a AND NOT 0xfff, (?a AND NOT 0xfff) + 0x1000) = Some m2"
        "write_unchecked m2 x bs = Some m3" "paged_ok N m3"
        "shm_data (host m3) = (shm_data (host m))(physical_memory m := store_bytes (ram m) (unat ?a) bs)"
        "frame_is_clean m3 = b" "md_view (metadata m3) (unat x div 4096) = access_metadata r"
        using mapped [OF b(2)] by auto
      have "write_resolved no_map (observing D obs) m (Some r) x bs d = Some (m3, obs (drop_bit 12 (ucast ?a)) (flat_view N m) d1)"
        using m3(1,2) clean adv DirtyOk b(1) r(3) a(1) len
        by (simp add: write_resolved_def handle_trapped_linear_memory_write_def lookup_no_map)
      moreover have "stored D obs N m d ?a bs m3 (obs (drop_bit 12 (ucast ?a)) (flat_view N m) d1)"
        using m3(3-5) clean adv DirtyOk u32 a(1) b(3) by (simp add: stored_def flat_device_def)
      ultimately show ?thesis using m3(6) by blast
    qed
  qed
qed

text \<open>A write that the translation admits.\<close>

lemma allowed_write_paged:
  assumes ok: "paged_ok N m" and trap: "should_trap_linear_access m x True user" and n: "0 < length bs" "within_page x (length bs)"
    and tr: "translation_of m x = Some (p, Translation a w u dy e g)" and acc: "access_allowed m w u True user" "unat a < 2 ^ 32"
    and M: "M = (marked True p m)\<lparr>host := flag_entries 0x40 (host (marked True p m)) (if dy then [] else [e])\<rparr>"
  shows "if N \<le> unat a then mem_write no_map (observing D obs) m x user bs d = Some (M, d, Inr ())
    else \<exists>m' d'. mem_write no_map (observing D obs) m x user bs d = Some (m', d', Inr ()) \<and> stored D obs N M d a bs m' d' \<and>
      (unat a div 4096 \<notin> ones (frame_is_clean m') \<longrightarrow> \<not> should_trap_linear_access m' x True user)"
proof -
  have spec: "host_ok (host m)" "tables_aligned m" "paging_enabled m" and N: "N \<le> 2 ^ 32" "physical_len m = N"
    using ok by (simp_all add: paged_ok_def)
  have okM: "paged_ok N M" using ok by (simp add: M)
  have cM: "frame_is_clean M = frame_is_clean m" "physical_len M = N" using N by (simp_all add: M physical_len_def marked_def)
  define r where "r = \<lparr>emu_addr = x, phys_addr = a, writable = True,
    phys_frame_needs_dirty_mark = data_bit (frame_is_clean m) (unat a div 4096), ra_user_accessible = u\<rparr>"
  have res: "resolve_access_address m x True user = Some (M, Inr r)"
    using acc by (simp add: resolve_access_address_spec [OF spec] tr paged_frame_dirty [OF ok] r_def M)
  note T = trapped_write [OF trap n(2)]
  show ?thesis
  proof (cases "unat a < N")
    case inside: True
    have r: "unat (phys_addr r) < N" "unat (phys_addr r) mod 4096 = unat x mod 4096" "emu_addr r = x" "writable r"
      "phys_frame_needs_dirty_mark r \<longleftrightarrow> data_bit (frame_is_clean M) (unat (phys_addr r) div 4096)"
      using inside translation_offset [OF tr] by (simp_all add: r_def cM)
    obtain m' d' where m': "write_resolved no_map (observing D obs) M (Some r) x bs d = Some (m', d')" "stored D obs N M d (phys_addr r) bs m' d'"
      "unat (phys_addr r) div 4096 \<notin> ones (frame_is_clean m') \<longrightarrow> md_view (metadata m') (unat x div 4096) = access_metadata r"
      using write_resolved_paged [OF okM n r, of D obs d] by blast
    have "unat a div 4096 \<notin> ones (frame_is_clean m') \<longrightarrow> \<not> should_trap_linear_access m' x True user"
      using m'(3) access_open [of m' x r True user] acc by (auto simp: r_def access_allowed_def)
    then show ?thesis using m'(1,2) inside by (simp add: T res r_def)
  next
    case False
    then show ?thesis using acc N
      by (simp add: T res write_resolved_def handle_trapped_linear_memory_write_def lookup_no_map r_def cM)
  qed
qed

text \<open>C32: A checked write to linear address \<open>x\<close> that does not leave its page raises the page fault of its
  translation, or stores its bytes in the RAM at the translated address and nothing else but the flags
  of the table entries, is lost beyond the RAM, and consults the devices exactly when it is the first
  write to a clean frame; their notification is given the memory before the write (and does not itself
  write). Once the frame is dirty, the page does not trap again for such a write. The write panics
  exactly when the walk of the tables does, or when they translate to an address beyond 4 GiB. Writes
  that cross a page are not covered: see \<open>split_write_shifts_bytes\<close>.\<close>

theorem paged_write:
  assumes "paged_ok N m" and "should_trap_linear_access m x True user" and "0 < length bs" and "within_page x (length bs)"
  shows "case translation_of m x of
      None \<Rightarrow> mem_write no_map (observing D obs) m x user bs d = None
    | Some (p, Missing) \<Rightarrow>
        mem_write no_map (observing D obs) m x user bs d = Some (marked True p m, d, Inl (PageFault (fault_code False True user) x))
    | Some (p, Translation a w u dy e _) \<Rightarrow>
        if \<not> access_allowed m w u True user
        then mem_write no_map (observing D obs) m x user bs d = Some (marked True p m, d, Inl (PageFault (fault_code True True user) x))
        else if 2 ^ 32 \<le> unat a then mem_write no_map (observing D obs) m x user bs d = None
        else let M = (marked True p m)\<lparr>host := flag_entries 0x40 (host (marked True p m)) (if dy then [] else [e])\<rparr> in
          if N \<le> unat a then mem_write no_map (observing D obs) m x user bs d = Some (M, d, Inr ())
          else \<exists>m' d'. mem_write no_map (observing D obs) m x user bs d = Some (m', d', Inr ()) \<and> stored D obs N M d a bs m' d' \<and>
            (unat a div 4096 \<notin> ones (frame_is_clean m') \<longrightarrow> \<not> should_trap_linear_access m' x True user)"
proof -
  have spec: "host_ok (host m)" "tables_aligned m" "paging_enabled m"
    using assms(1) by (simp_all add: paged_ok_def)
  note R = resolve_access_address_spec [OF spec, of x True user] and T = trapped_write [OF assms(2,4)]
  show ?thesis
  proof (cases "translation_of m x")
    case None
    then show ?thesis by (simp add: T R)
  next
    case (Some pt)
    obtain p t where pt: "pt = (p, t)" by (cases pt)
    show ?thesis
    proof (cases t)
      case Missing
      then show ?thesis using Some pt by (simp add: T R)
    next
      case (Translation a w u dy e g)
      have tr: "translation_of m x = Some (p, Translation a w u dy e g)" using Some pt Translation by simp
      show ?thesis
      proof (cases "access_allowed m w u True user \<and> unat a < 2 ^ 32")
        case False
        then show ?thesis unfolding T R tr by (auto simp: paged_frame_dirty [OF assms(1)])
      next
        case True
        note W = allowed_write_paged [OF assms tr conjunct1 [OF True] conjunct2 [OF True] refl, of D obs d]
        show ?thesis unfolding tr option.case prod.case translation.case Let_def
          using conjunct1 [OF True] conjunct2 [OF True, folded not_le] by (simp only: not_True_eq_False if_False) (rule W)
      qed
    qed
  qed
qed


text \<open>That machine with frames enough.\<close>

definition demo_paged :: Mem32 where
  "demo_paged = demo\<lparr>frame_is_clean := replicate (2 ^ 14) 0\<rparr>"

lemma demo_paged_ok: "paged_ok 0x10000 demo_paged"
proof -
  have "md_ok (metadata demo)" by (simp add: demo_def md_ok_def chunk_modified_def)
  moreover have "fixed_ok (2 ^ 14) (replicate (2 ^ 14) 0)" by (simp add: fixed_ok_def)
  ultimately show ?thesis
    using demo_ok by (simp add: paged_ok_def demo_paged_def maps_ok_def tables_aligned_def physical_len_def)
      (simp add: demo_def demo_host_def)
qed

lemma demo_paged_translation: "translation_of demo_paged 0x1234 = Some ([0x1000, 0x2004], Translation 0x5234 False False False 0x2004 False)"
proof -
  have "translation_of demo_paged = translation_of demo" by (simp add: fun_eq_iff translation_of_def demo_paged_def del: walk_levels.simps)
  then show ?thesis by (simp add: demo_translation)
qed

lemma demo_paged_traps: "should_trap_linear_access demo_paged x w u"
  by (simp add: should_trap_iff demo_paged_def demo_def md_view_def)

text \<open>The supervisor reads the page of the machine of \<open>Mem_Translation\<close>; it may not write to it.\<close>

lemma paged_read_witness:
  "\<exists>m'. mem_read no_map unit_mmio 2 demo_paged 0x1234 False () = Some (m', (), Inr [0, 0]) \<and> paged_ok 0x10000 m'"
proof -
  have w: "(0 :: nat) < 2" "within_page 0x1234 2" by (simp_all add: within_page_iff)
  have "entry_locs (host demo_paged) [0x1000, 0x2004] = {(0, 0x1000), (0, 0x2004)}"
    by (auto simp: entry_locs_def demo_paged_def demo_def demo_host_def host_loc_def MAPPING_KIND_PHYSICAL_def)
  then have d: "ram (marked True [0x1000, 0x2004] demo_paged) i = 0" if "0x5000 \<le> i" for i
    using that by (simp add: marked_def flag_entries_data) (simp add: demo_paged_def demo_def demo_host_def)
  show ?thesis
    using paged_read [OF demo_paged_ok demo_paged_traps w, where D = unit_mmio and d = "()" and user = False]
    by (auto simp: demo_paged_translation d upt_conv_Cons)
qed

lemma paged_write_fault:
  "map_option snd (mem_write no_map (observing unit_mmio (\<lambda>_ _ d. d)) demo_paged 0x1234 False [1, 2] ()) = Some ((), Inl (PageFault 3 0x1234))"
proof -
  have p: "system_write_protect demo_paged" by (simp add: demo_paged_def demo_def)
  have t: "should_trap_linear_access demo_paged 0x1234 True False" by (rule demo_paged_traps)
  have "resolve_access_address demo_paged 0x1234 True False = Some (marked True [0x1000, 0x2004] demo_paged, Inl (PageFault 3 0x1234))"
    using demo_paged_ok by (subst resolve_access_address_spec) (simp_all add: paged_ok_def demo_paged_translation access_allowed_def fault_code_def p)
  moreover have "within_page 0x1234 (length [1 :: u8, 2])" by (simp add: within_page_iff)
  ultimately show ?thesis by (simp add: trapped_write [OF t, of "[1, 2]"])
qed

text \<open>The same machine with \<open>CR0.WP\<close> clear and every frame clean: the supervisor may write. The device is told
  of the frame 5 and still sees the old byte.\<close>

definition demo_clean :: Mem32 where
  "demo_clean = demo_paged\<lparr>system_write_protect := False, frame_is_clean := replicate (2 ^ 14) (- 1)\<rparr>"

lemma demo_clean_ok: "paged_ok 0x10000 demo_clean"
proof -
  have "fixed_ok (2 ^ 14) (replicate (2 ^ 14) (- 1))" by (simp add: fixed_ok_def)
  then show ?thesis using demo_paged_ok unfolding paged_ok_def demo_clean_def
    by (simp add: maps_ok_def tables_aligned_def physical_len_def)
qed

lemma demo_clean_translation: "translation_of demo_clean 0x1234 = Some ([0x1000, 0x2004], Translation 0x5234 False False False 0x2004 False)"
proof -
  have "translation_of demo_clean = translation_of demo_paged"
    by (simp add: fun_eq_iff translation_of_def demo_clean_def del: walk_levels.simps)
  then show ?thesis by (simp add: demo_paged_translation)
qed

lemma paged_write_witness:
  "\<exists>m'. mem_write no_map (observing demo_devices (\<lambda>f v d. unat f + unat (v 0x5234))) demo_clean 0x1234 False [1, 2] 0 = Some (m', 5, Inr ())
     \<and> shm_data (host m') 0 0x5234 = 1 \<and> shm_data (host m') 0 0x5235 = 2 \<and> \<not> should_trap_linear_access m' 0x1234 True False"
proof -
  let ?D = "observing demo_devices (\<lambda>f v d. unat f + unat (v 0x5234))"
  let ?M = "(marked True [0x1000, 0x2004] demo_clean)\<lparr>host := flag_entries 0x40 (host (marked True [0x1000, 0x2004] demo_clean)) [0x2004]\<rparr>"
  have w: "0 < length [1 :: u8, 2]" "within_page 0x1234 (length [1 :: u8, 2])" by (simp_all add: within_page_iff)
  have t: "should_trap_linear_access demo_clean 0x1234 True False" by (simp add: should_trap_iff demo_clean_def demo_paged_def demo_def md_view_def)
  have p: "\<not> system_write_protect demo_clean" by (simp add: demo_clean_def)
  obtain m' d' where m: "mem_write no_map ?D demo_clean 0x1234 False [1, 2] 0 = Some (m', d', Inr ())"
    and st: "stored demo_devices (\<lambda>f v d. unat f + unat (v 0x5234)) 0x10000 ?M 0 0x5234 [1, 2] m' d'"
    and tr: "0x5234 div 4096 \<notin> ones (frame_is_clean m') \<longrightarrow> \<not> should_trap_linear_access m' 0x1234 True False"
    using paged_write [OF demo_clean_ok t w, where D = demo_devices and obs = "\<lambda>f v d. unat f + unat (v 0x5234)" and d = 0]
    by (auto simp: demo_clean_translation access_allowed_def p Let_def)
  have locs: "entry_locs (host demo_clean) [0x1000, 0x2004] = {(0, 0x1000), (0, 0x2004)}" "entry_locs (host demo_clean) [0x2004] = {(0, 0x2004)}"
    by (auto simp: entry_locs_def demo_clean_def demo_paged_def demo_def demo_host_def host_loc_def MAPPING_KIND_PHYSICAL_def)
  have locs2: "entry_locs (flag_entries x (host demo_clean) p) q = entry_locs (host demo_clean) q" for x p q
    by (simp add: entry_locs_def)
  have "ram demo_clean 0x5234 = 0" by (simp add: demo_clean_def demo_paged_def demo_def demo_host_def)
  then have old: "ram ?M 0x5234 = 0" by (simp add: marked_def flag_entries_data locs locs2)
  have five: "5 \<in> ones (frame_is_clean ?M)" by (simp add: demo_clean_def marked_def atomic_new_ok(3))
  have dev: "(ones (frame_is_clean m'), d') = (ones (frame_is_clean ?M) - {5}, 5)"
    using st five old by (simp add: stored_def flat_device_def flat_view_def demo_devices_def)
  have "physical_memory ?M = 0" by (simp add: marked_def demo_clean_def demo_paged_def demo_def)
  then have "shm_data (host m') 0 0x5234 = 1" "shm_data (host m') 0 0x5235 = 2" using st by (simp_all add: stored_def store_bytes_nth)
  moreover have "5 \<notin> ones (frame_is_clean m')" using dev by blast
  then have "\<not> should_trap_linear_access m' 0x1234 True False" using tr by simp
  ultimately show ?thesis using m dev by simp
qed

section \<open>Accesses that go wrong\<close>

text \<open>With \<open>CR0.WP\<close> clear the supervisor may write to a read-only page of the user, and the write is
  recorded as if the page were writable: the user then writes to it without a check.\<close>

lemma supervisor_write_opens_page:
  assumes ok: "paged_ok N m" and trap: "should_trap_linear_access m x True False" and n: "0 < length bs" "within_page x (length bs)"
    and wp: "\<not> system_write_protect m" and t: "translation_of m x = Some (p, Translation a False True dy e g)"
    and a: "unat a < N" "\<not> data_bit (frame_is_clean m) (unat a div 4096)"
  shows "\<exists>m' d'. mem_write no_map (observing D obs) m x False bs d = Some (m', d', Inr ()) \<and> \<not> should_trap_linear_access m' x True True"
proof -
  have spec: "host_ok (host m)" "tables_aligned m" "paging_enabled m" and lim: "unat a < 2 ^ 32"
    using ok a(1) by (auto simp: paged_ok_def)
  define M where "M = (marked True p m)\<lparr>host := flag_entries 0x40 (host (marked True p m)) (if dy then [] else [e])\<rparr>"
  define r where "r = \<lparr>emu_addr = x, phys_addr = a, writable = True, phys_frame_needs_dirty_mark = False, ra_user_accessible = True\<rparr>"
  have res: "resolve_access_address m x True False = Some (M, Inr r)"
    using a(2) lim wp by (simp add: resolve_access_address_spec [OF spec] t access_allowed_def paged_frame_dirty [OF ok] r_def M_def)
  have okM: "paged_ok N M" and cM: "frame_is_clean M = frame_is_clean m" using ok by (simp_all add: M_def)
  have r: "unat (phys_addr r) < N" "unat (phys_addr r) mod 4096 = unat x mod 4096" "emu_addr r = x" "writable r"
    "phys_frame_needs_dirty_mark r \<longleftrightarrow> data_bit (frame_is_clean M) (unat (phys_addr r) div 4096)"
    using a translation_offset [OF t] by (simp_all add: r_def cM)
  obtain m' d' where m': "write_resolved no_map (observing D obs) M (Some r) x bs d = Some (m', d')" "stored D obs N M d (phys_addr r) bs m' d'"
    "unat (phys_addr r) div 4096 \<notin> ones (frame_is_clean m') \<longrightarrow> md_view (metadata m') (unat x div 4096) = access_metadata r"
    using write_resolved_paged [OF okM n r, of D obs d] by blast
  have "ones (frame_is_clean m') = ones (frame_is_clean m)"
    using m'(2) a(2) lim by (simp add: stored_def flat_device_def cM r_def unat_ucast32)
  then have "\<not> should_trap_linear_access m' x True True"
    using m'(3) a(2) by (intro access_open [where r = r]) (simp_all add: r_def)
  then show ?thesis using m'(1) by (simp add: trapped_write [OF trap n(2)] res)
qed

text \<open>A write that crosses a page takes the offset in the second page from the start of the access: the
  last two of four bytes at 0x1ffe reach a device at the offsets 0x2002 and 0x2003 instead of 0x2000 and 0x2001.\<close>

definition log_devices :: "(u32 \<times> u8 list) list Mmio" where
  "log_devices = \<lparr>read_mem = (\<lambda>_ _ n d. (data_MAX n, d)), write_mem = (\<lambda>_ a bs d. d @ [(a, bs)]), notify_memory_dirty = (\<lambda>_ m d. (m, d)),
     advise_memory_dirty = (\<lambda>_ _ d. (DirtyOk, d)), notify_dirty = (\<lambda>_ _ d. d)\<rparr>"

lemma split_write_shifts_bytes:
  "map_option (\<lambda>(_, d, _). d)
     (mem_write (\<lambda>_. Some ((0, 0x100000000), Entry_Mmio 0)) log_devices (demo\<lparr>paging_enabled := False\<rparr>) 0x1ffe False [1, 2, 3, 4] [])
   = Some [(0x1ffe, [1]), (0x1fff, [2]), (0x2002, [3]), (0x2003, [4])]"
proof -
  let ?m = "demo\<lparr>paging_enabled := False\<rparr>"
  have t: "should_trap_linear_access ?m x w u" for x w u by (simp add: should_trap_iff demo_def md_view_def)
  have f: "phys_frame_is_dirty ?m 0x1ffe = Some True" "phys_frame_is_dirty ?m 0x2000 = Some True"
    by (simp_all add: phys_frame_is_dirty_def atomic_get_def atomic_index_def demo_def wrapping_shr_def)
  have w: "\<not> within_page 0x1ffe (Suc (Suc (Suc (Suc 0))))" by (simp add: within_page_iff)
  show ?thesis
    using w by (simp add: mem_write_def multibyte_access_can_use_fast_path_def t write_slow_def prepare_write_def resolve_if_trapped_def
        resolve_access_address_def f execute_prepared_write_def with_offset_def write_resolved_def
        handle_trapped_linear_memory_write_def phys_map_lookup_def log_devices_def)
qed

text \<open>The recorded mapping of a linear page is its offset and not the object: a page that is to be mapped
  to the same offset of another object keeps the old one.\<close>

lemma stale_mapping_kept:
  assumes "current_mappings m (x AND NOT 0xfff) = Some (ucast (ucast ((a AND NOT 0xfff) + delta) :: u32))"
    and "fst area \<le> a AND NOT 0xfff" "snd area \<ge> (a AND NOT 0xfff) + 4096"
  shows "map_address_before_access m x a shm delta area = Some m"
  using assms by (simp add: map_address_before_access_def Let_def)

text \<open>A read of several bytes that wraps at the top of the address space takes the fast path when both
  pages are mapped, and goes on into the physical view: the last bytes are those of physical address 0.\<close>

lemma wrapping_read_leaves_linear_view:
  assumes "\<not> should_trap_linear_access m 0xfffffffe False user" "\<not> should_trap_linear_access m 1 False user"
    and "mem_read gkv D 4 m 0xfffffffe user d = Some (m', d', Inr bs)"
  shows "host_read (host m) MAPPING_KIND_PHYSICAL 2 = Some (drop 2 bs)"
proof -
  have one: "(0x100000001 :: u32) = 1" by (rule unsigned_word_eqI [where 'a = nat]) simp
  have "read_pointer 4 m 0xfffffffe d = Some (m', d', Inr bs)"
    using assms by (simp add: one mem_read_def read_with_def multibyte_access_can_use_fast_path_def)
  then have r: "host_read (host m) 0xfffffffe 4 = Some bs" by (auto simp: read_pointer_def)
  have four: "(4 :: nat) = Suc (Suc 2)" by simp
  have "host_read (host m) 0xfffffffe (Suc (Suc 2)) = Some bs" using r by (simp only: four)
  then obtain b c cs where bs: "bs = b # c # cs" "host_read (host m) (Suc (Suc 0xfffffffe)) 2 = Some cs"
    unfolding host_read.simps(2) by (auto split: option.splits)
  have "Suc (Suc 0xfffffffe) = MAPPING_KIND_PHYSICAL" by (simp add: MAPPING_KIND_PHYSICAL_def)
  then show ?thesis using bs by (simp only: drop_Suc_Cons drop_0 numeral_2_eq_2)
qed

text \<open>\<open>write_physical_slice\<close> marks the frames of every 4096th byte from the start: two bytes across a frame
  boundary mark only the first frame.\<close>

lemma physical_slice_leaves_frame_clean:
  "map_option (\<lambda>(m, _). (frame_is_clean m, ram m 0x2000))
     (write_physical_slice no_map unit_mmio (demo\<lparr>frame_is_clean := [0x6]\<rparr>) 0x1fff [1, 2] ()) = Some ([0x4], 2)"
proof -
  let ?m = "demo\<lparr>frame_is_clean := [0x6]\<rparr>"
  have o: "page_offsets (Suc (Suc 0)) = [0]" by (simp add: page_offsets_def)
  have f: "mark_phys_frame_dirty unit_mmio ?m 0x1fff () = Some (demo\<lparr>frame_is_clean := [0x4]\<rparr>, (), True)"
    by (simp add: mark_phys_frame_dirty_def atomic_reset_def atomic_index_def wrapping_shl_def unit_mmio_def)
  show ?thesis
    by (simp add: write_physical_slice_def o f lookup_no_map resolve_physical_address_def physical_len_def poke_def)
      (simp add: demo_def demo_host_def host_loc_def resolve_physical_address_def physical_len_def poke_def MAPPING_KIND_PHYSICAL_def put_byte_def)
qed

end
