(* ===== verification/Map_Node.thy ===== *)
theory Map_Node
  imports Prelude
begin

text \<open>
  The graphs that decode instructions (\<open>liblisa/src/instr/map/node.rs\<close> and the type of
  \<open>liblisa/src/instr/map/mod.rs\<close>). A node has an edge for each byte; an edge fails, ends at a value, or
  leads to another node, which is packed into 32 bits. Looking an instruction up follows its bytes.
  A failed assertion and an index out of range are \<open>None\<close>.
\<close>

unbundle bit_operations_syntax

section \<open>Edges\<close>

type_synonym NodeIndex = nat
type_synonym ValIndex = nat
type_synonym NodeId = u32

datatype UnpackedNodeId = NodeIndex NodeIndex | ValIndex ValIndex

definition FAIL :: NodeId where
  "FAIL = - 1"

definition ROOT :: NodeIndex where
  "ROOT = 0"

text \<open>\<open>NodeIndex::new\<close> and \<open>ValIndex::new\<close> assert that the top bits are clear.\<close>

definition index_new :: "nat \<Rightarrow> nat option" where
  "index_new n = (if n < 2 ^ 31 then Some n else None)"

definition from_node_index :: "NodeIndex \<Rightarrow> NodeId" where
  "from_node_index n = of_nat n"

definition from_val_index :: "ValIndex \<Rightarrow> NodeId" where
  "from_val_index v = of_nat v OR 0x80000000"

definition unpack :: "NodeId \<Rightarrow> UnpackedNodeId option" where
  "unpack i =
     (if i = FAIL then None
      else if i AND 0x80000000 = 0 then Some (NodeIndex (unat i))
      else Some (ValIndex (unat (i AND 0x7fffffff))))"

section \<open>Nodes\<close>

text \<open>\<open>Next\<close> is an array of 256 edges.\<close>

type_synonym Next = "NodeId list"

definition all_bytes :: "u8 list" where
  "all_bytes = map of_nat [0..<256]"

definition ALL_FAIL :: Next where
  "ALL_FAIL = replicate 256 FAIL"

definition next_new :: "(u8 \<Rightarrow> NodeId) \<Rightarrow> Next" where
  "next_new f = map f all_bytes"

definition next_get :: "Next \<Rightarrow> u8 \<Rightarrow> NodeId" where
  "next_get nx b = nx ! unat b"

definition remap_node_indices :: "(NodeIndex \<Rightarrow> NodeId) \<Rightarrow> Next \<Rightarrow> Next" where
  "remap_node_indices f = map (\<lambda>i. case unpack i of Some (NodeIndex n) \<Rightarrow> f n | _ \<Rightarrow> i)"

definition remap_value_indices :: "(ValIndex \<Rightarrow> NodeId) \<Rightarrow> Next \<Rightarrow> Next" where
  "remap_value_indices f = map (\<lambda>i. case unpack i of Some (ValIndex v) \<Rightarrow> f v | _ \<Rightarrow> i)"

definition next_invert :: "Next \<Rightarrow> Next" where
  "next_invert = map (\<lambda>i. case unpack i of Some (ValIndex _) \<Rightarrow> FAIL | None \<Rightarrow> from_val_index 0 | Some (NodeIndex _) \<Rightarrow> i)"

definition is_val :: "NodeId \<Rightarrow> bool" where
  "is_val i = (case unpack i of Some (ValIndex _) \<Rightarrow> True | _ \<Rightarrow> False)"

definition any_not_fail :: "Next \<Rightarrow> bool" where
  "any_not_fail nx = list_ex (\<lambda>i. i \<noteq> FAIL) nx"

definition any_fail :: "Next \<Rightarrow> bool" where
  "any_fail nx = list_ex (\<lambda>i. i = FAIL) nx"

definition any_done :: "Next \<Rightarrow> bool" where
  "any_done nx = list_ex is_val nx"

section \<open>Instruction maps\<close>

record 'a InstructionMap =
  nodes :: "Next list"
  vals :: "'a list"

datatype 'a LookupResult = Found 'a | NeedMoreBytes | NotPresent

definition map_new :: "'a InstructionMap" where
  "map_new = \<lparr>nodes = [ALL_FAIL], vals = []\<rparr>"

definition matching_any :: "'a \<Rightarrow> 'a InstructionMap" where
  "matching_any v = \<lparr>nodes = [next_new (\<lambda>_. from_val_index 0)], vals = [v]\<rparr>"

definition is_all_fail :: "'a InstructionMap \<Rightarrow> bool" where
  "is_all_fail g \<longleftrightarrow> nodes g = [ALL_FAIL]"

definition is_all_done :: "'a InstructionMap \<Rightarrow> bool" where
  "is_all_done g \<longleftrightarrow> length (nodes g) = 1 \<and> list_all is_val (nodes g ! 0)"

definition map_is_empty :: "'a InstructionMap \<Rightarrow> bool" where
  "map_is_empty g \<longleftrightarrow> \<not> list_ex any_done (nodes g)"

text \<open>\<open>get_with_node_id\<close> from a node on.\<close>

fun get_from :: "'a InstructionMap \<Rightarrow> NodeIndex \<Rightarrow> u8 list \<Rightarrow> (NodeIndex \<times> 'a LookupResult) option" where
  "get_from g node [] = Some (node, NeedMoreBytes)"
| "get_from g node (byte # bytes) =
     (if node < length (nodes g)
      then case unpack (next_get (nodes g ! node) byte) of
             Some (ValIndex v) \<Rightarrow> if v < length (vals g) then Some (node, Found (vals g ! v)) else None
           | Some (NodeIndex n) \<Rightarrow> get_from g n bytes
           | None \<Rightarrow> Some (node, NotPresent)
      else None)"

definition get_with_node_id :: "'a InstructionMap \<Rightarrow> u8 list \<Rightarrow> (NodeIndex \<times> 'a LookupResult) option" where
  "get_with_node_id g bytes = get_from g ROOT bytes"

definition map_get :: "'a InstructionMap \<Rightarrow> u8 list \<Rightarrow> 'a LookupResult option" where
  "map_get g bytes = map_option snd (get_with_node_id g bytes)"

definition map_matches :: "'a InstructionMap \<Rightarrow> u8 list \<Rightarrow> bool option" where
  "map_matches g bytes = map_option (\<lambda>r. case r of Found _ \<Rightarrow> True | _ \<Rightarrow> False) (map_get g bytes)"

text \<open>\<open>get_iteratively\<close>: the bytes come from a source of state \<open>'s\<close>. The bytes read so far are kept in an
  \<open>ArrayVec\<close> of 16, and \<open>Instruction::new\<close> refuses more than 15.\<close>

function iterate_from ::
  "'a InstructionMap \<Rightarrow> ('s \<Rightarrow> ('e + u8) \<times> 's) \<Rightarrow> NodeIndex \<Rightarrow> u8 list \<Rightarrow> 's \<Rightarrow> (('e + (u8 list \<times> 'a) option) \<times> 's) option" where
  "iterate_from g next_byte node instr s =
     (case next_byte s of
        (Inl e, s) \<Rightarrow> Some (Inl e, s)
      | (Inr byte, s) \<Rightarrow>
          if length instr < 16 \<and> node < length (nodes g)
          then let instr = instr @ [byte] in
            (case unpack (next_get (nodes g ! node) byte) of
               Some (ValIndex v) \<Rightarrow>
                 if length instr \<le> 15 \<and> v < length (vals g) then Some (Inr (Some (instr, vals g ! v)), s) else None
             | Some (NodeIndex n) \<Rightarrow> iterate_from g next_byte n instr s
             | None \<Rightarrow> Some (Inr None, s))
          else None)"
  by pat_completeness auto

termination
  by (relation "measure (\<lambda>(_, _, _, instr, _). 16 - length instr)") auto

definition get_iteratively ::
  "'a InstructionMap \<Rightarrow> ('s \<Rightarrow> ('e + u8) \<times> 's) \<Rightarrow> 's \<Rightarrow> (('e + (u8 list \<times> 'a) option) \<times> 's) option" where
  "get_iteratively g next_byte = iterate_from g next_byte ROOT []"

section \<open>Well-formed maps\<close>

lemma length_all_bytes [simp]: "length all_bytes = 256"
  by (simp add: all_bytes_def)

lemma nth_all_bytes [simp]: "i < 256 \<Longrightarrow> all_bytes ! i = of_nat i"
  by (simp add: all_bytes_def)

lemma unat_u8_less [simp]: "unat (b :: u8) < 256"
  using unsigned_less [of b, where 'a = nat] by simp

lemma length_next_new [simp]: "length (next_new f) = 256"
  by (simp add: next_new_def)

lemma next_get_new [simp]: "next_get (next_new f) b = f b"
  by (simp add: next_get_def next_new_def)

text \<open>Packing and unpacking.\<close>

lemma mask31: "(0x7fffffff :: u32) = mask 31" "(0x80000000 :: u32) = push_bit 31 1"
  by (simp_all add: mask_eq_exp_minus_1)

lemma top_bit: "(x :: u32) AND 0x80000000 = 0 \<longleftrightarrow> \<not> bit x 31"
  using bit_test [of x 31] unfolding mask31 by blast

lemma unpack_FAIL [simp]: "unpack FAIL = None"
  by (simp add: unpack_def)

lemma bit31_of_nat: "n < 2 ^ 31 \<Longrightarrow> \<not> bit (of_nat n :: u32) 31"
  unfolding bit_of_nat_iff by (simp add: bit_iff_odd)

lemma bit_from_val_index: "k < 32 \<Longrightarrow> bit (from_val_index v) k \<longleftrightarrow> k = 31 \<or> bit (of_nat v :: u32) k"
proof -
  assume k: "k < 32"
  have "bit (0x80000000 :: u32) k \<longleftrightarrow> k = 31"
    unfolding mask31(2) bit_push_bit_iff using k by (auto simp: bit_1_iff)
  then show ?thesis by (auto simp: from_val_index_def bit_or_iff)
qed

lemma unpack_node [simp]:
  assumes "n < 2 ^ 31"
  shows "unpack (from_node_index n) = Some (NodeIndex n)"
proof -
  have b: "\<not> bit (from_node_index n) 31" unfolding from_node_index_def by (rule bit31_of_nat [OF assms])
  have "from_node_index n \<noteq> FAIL"
  proof
    assume "from_node_index n = FAIL"
    then show False using b by (simp add: FAIL_def)
  qed
  then show ?thesis using b assms by (simp only: unpack_def top_bit) (simp add: from_node_index_def unat_of_nat)
qed

lemma unpack_val [simp]:
  assumes "v < 2 ^ 31 - 1"
  shows "unpack (from_val_index v) = Some (ValIndex v)"
proof -
  have b: "bit (from_val_index v) 31" by (simp add: bit_from_val_index)
  have low: "take_bit 31 (from_val_index v) = of_nat v"
  proof (rule bit_word_eqI)
    fix i
    show "bit (take_bit 31 (from_val_index v)) i = bit (of_nat v :: u32) i" if "i < LENGTH(32)"
    proof (cases "i = 31")
      case True
      then show ?thesis using assms bit31_of_nat [of v] by (simp add: bit_take_bit_iff)
    next
      case False
      then show ?thesis using that by (auto simp: bit_take_bit_iff bit_from_val_index)
    qed
  qed
  have "from_val_index v \<noteq> FAIL"
  proof
    assume "from_val_index v = FAIL"
    then have "of_nat v = (0x7fffffff :: u32)" using low by (simp add: FAIL_def mask31)
    then have "unat (of_nat v :: u32) = unat (0x7fffffff :: u32)" by (rule arg_cong)
    then show False using assms by (simp add: unat_of_nat)
  qed
  then show ?thesis
    using b low assms by (simp only: unpack_def top_bit mask31(1) flip: take_bit_eq_mask) (simp add: unat_of_nat)
qed

lemma unpack_NodeIndex: "unpack i = Some (NodeIndex n) \<longleftrightarrow> n < 2 ^ 31 \<and> i = from_node_index n"
proof
  assume u: "unpack i = Some (NodeIndex n)"
  then have b: "\<not> bit i 31" and n: "n = unat i" by (auto simp: unpack_def top_bit split: if_splits)
  have "take_bit 31 i = i"
  proof (rule bit_word_eqI)
    show "bit (take_bit 31 i) k = bit i k" if "k < LENGTH(32)" for k
      using b that by (cases "k = 31") (auto simp: bit_take_bit_iff)
  qed
  then have "unat i = take_bit 31 (unat i)" by (metis unsigned_take_bit_eq)
  then have "unat i < 2 ^ 31" by (metis take_bit_nat_less_exp)
  then show "n < 2 ^ 31 \<and> i = from_node_index n" using n by (simp add: from_node_index_def)
qed simp

lemma unpack_ValIndex: "unpack i = Some (ValIndex v) \<longleftrightarrow> v < 2 ^ 31 - 1 \<and> i = from_val_index v"
proof
  assume u: "unpack i = Some (ValIndex v)"
  then have b: "bit i 31" and v: "v = unat (take_bit 31 i)" and nf: "i \<noteq> FAIL"
    by (auto simp: unpack_def top_bit take_bit_eq_mask mask31(1) [symmetric] split: if_splits)
  have i: "i = from_val_index v"
  proof (rule bit_word_eqI)
    show "bit i k = bit (from_val_index v) k" if "k < LENGTH(32)" for k
      using b that v by (cases "k = 31") (auto simp: bit_take_bit_iff bit_from_val_index)
  qed
  have "v < 2 ^ 31" unfolding v by (simp only: unsigned_take_bit_eq) (rule take_bit_nat_less_exp)
  moreover have "v \<noteq> 2 ^ 31 - 1"
  proof
    assume v': "v = 2 ^ 31 - 1"
    have "from_val_index (2 ^ 31 - 1) = FAIL" by (simp add: from_val_index_def FAIL_def)
    then show False using nf i v' by simp
  qed
  ultimately show "v < 2 ^ 31 - 1 \<and> i = from_val_index v" using i by simp
qed simp

lemma unpack_None [simp]: "unpack i = None \<longleftrightarrow> i = FAIL"
  by (auto simp: unpack_def)

text \<open>The largest value index is packed to the failing edge.\<close>

lemma last_value_index_fails: "index_new 0x7fffffff = Some 0x7fffffff" "from_val_index 0x7fffffff = FAIL"
  by (simp_all add: index_new_def from_val_index_def FAIL_def)

lemma is_val_iff: "is_val i \<longleftrightarrow> (\<exists>v. unpack i = Some (ValIndex v))"
  by (auto simp: is_val_def split: option.split UnpackedNodeId.split)

text \<open>Edges lead to nodes and values that exist.\<close>

definition edge_ok :: "nat \<Rightarrow> nat \<Rightarrow> NodeId \<Rightarrow> bool" where
  "edge_ok N V i \<longleftrightarrow> (\<forall>n. unpack i = Some (NodeIndex n) \<longrightarrow> n < N) \<and> (\<forall>v. unpack i = Some (ValIndex v) \<longrightarrow> v < V)"

definition nodes_ok :: "nat \<Rightarrow> nat \<Rightarrow> Next list \<Rightarrow> bool" where
  "nodes_ok N V ns \<longleftrightarrow> (\<forall>nx \<in> set ns. length nx = 256 \<and> (\<forall>i \<in> set nx. edge_ok N V i))"

definition imap_ok :: "'a InstructionMap \<Rightarrow> bool" where
  "imap_ok g \<longleftrightarrow> nodes g \<noteq> [] \<and> length (nodes g) \<le> 2 ^ 31 \<and> nodes_ok (length (nodes g)) (length (vals g)) (nodes g)"

lemma nodes_okD:
  "nodes_ok N V ns \<Longrightarrow> n < length ns \<Longrightarrow> length (ns ! n) = 256"
  "nodes_ok N V ns \<Longrightarrow> n < length ns \<Longrightarrow> edge_ok N V (next_get (ns ! n) b)"
  by (auto simp: nodes_ok_def next_get_def dest!: nth_mem)

lemma imap_okD:
  "imap_ok g \<Longrightarrow> nodes g \<noteq> []" "imap_ok g \<Longrightarrow> nodes_ok (length (nodes g)) (length (vals g)) (nodes g)"
  "imap_ok g \<Longrightarrow> length (nodes g) \<le> 2 ^ 31"
  by (simp_all add: imap_ok_def)

text \<open>What a lookup returns, for maps that are well-formed.\<close>

definition edge :: "'a InstructionMap \<Rightarrow> NodeIndex \<Rightarrow> u8 \<Rightarrow> UnpackedNodeId option" where
  "edge g n b = unpack (next_get (nodes g ! n) b)"

fun look :: "'a InstructionMap \<Rightarrow> NodeIndex \<Rightarrow> u8 list \<Rightarrow> 'a LookupResult" where
  "look g n [] = NeedMoreBytes"
| "look g n (b # bs) =
     (case edge g n b of None \<Rightarrow> NotPresent | Some (ValIndex v) \<Rightarrow> Found (vals g ! v) | Some (NodeIndex m) \<Rightarrow> look g m bs)"

lemma edge_node: "imap_ok g \<Longrightarrow> n < length (nodes g) \<Longrightarrow> edge g n b = Some (NodeIndex m) \<Longrightarrow> m < length (nodes g)"
  using nodes_okD(2) [OF imap_okD(2), of g n b] by (simp add: edge_def edge_ok_def)

lemma edge_val: "imap_ok g \<Longrightarrow> n < length (nodes g) \<Longrightarrow> edge g n b = Some (ValIndex v) \<Longrightarrow> v < length (vals g)"
  using nodes_okD(2) [OF imap_okD(2), of g n b] by (simp add: edge_def edge_ok_def)

lemma get_from_look: "imap_ok g \<Longrightarrow> n < length (nodes g) \<Longrightarrow> map_option snd (get_from g n bs) = Some (look g n bs)"
proof (induction bs arbitrary: n)
  case (Cons b bs)
  then show ?case
    using edge_node [OF Cons.prems, of b] edge_val [OF Cons.prems, of b]
    by (auto simp: edge_def split: option.split UnpackedNodeId.split)
qed simp

lemma map_get_look: "imap_ok g \<Longrightarrow> map_get g bs = Some (look g 0 bs)"
  using get_from_look [of g 0 bs] by (simp add: map_get_def get_with_node_id_def ROOT_def imap_okD(1))

text \<open>Longer instructions.\<close>

lemma look_append: "look g n (bs @ cs) = look g n bs" if "look g n bs \<noteq> NeedMoreBytes"
  using that by (induction bs arbitrary: n) (auto split: option.split UnpackedNodeId.split)

text \<open>Two nodes from which related edges leave.\<close>

definition edge_rel :: "(NodeIndex \<Rightarrow> NodeIndex \<Rightarrow> bool) \<Rightarrow> 'a InstructionMap \<Rightarrow> 'a InstructionMap \<Rightarrow> UnpackedNodeId option \<Rightarrow> UnpackedNodeId option \<Rightarrow> bool" where
  "edge_rel R g h e f =
     (case e of
        None \<Rightarrow> f = None
      | Some (ValIndex v) \<Rightarrow> (\<exists>w. f = Some (ValIndex w) \<and> vals g ! v = vals h ! w)
      | Some (NodeIndex n) \<Rightarrow> (\<exists>m. f = Some (NodeIndex m) \<and> R n m))"

lemma look_bisimilar:
  assumes "\<And>n m b. R n m \<Longrightarrow> edge_rel R g h (edge g n b) (edge h m b)" and "R n m"
  shows "look g n bs = look h m bs"
  using assms(2)
proof (induction bs arbitrary: n m)
  case (Cons b bs)
  show ?case using assms(1) [OF Cons.prems, of b] Cons.IH
    by (auto simp: edge_rel_def split: option.splits UnpackedNodeId.splits)
qed simp

section \<open>Reading byte by byte\<close>

text \<open>A source that fails after the bytes of a list.\<close>

fun feed :: "'e \<Rightarrow> u8 list \<Rightarrow> ('e + u8) \<times> u8 list" where
  "feed e [] = (Inl e, [])"
| "feed e (b # bs) = (Inr b, bs)"

fun consumed :: "'a InstructionMap \<Rightarrow> NodeIndex \<Rightarrow> u8 list \<Rightarrow> nat" where
  "consumed g n [] = 0"
| "consumed g n (b # bs) = (case edge g n b of Some (NodeIndex m) \<Rightarrow> Suc (consumed g m bs) | _ \<Rightarrow> 1)"

lemma consumed_le: "consumed g n bs \<le> length bs"
  by (induction bs arbitrary: n) (auto split: option.split UnpackedNodeId.split)

lemma iterate_from_ok:
  "imap_ok g \<Longrightarrow> n < length (nodes g) \<Longrightarrow> length instr + length bs \<le> 15 \<Longrightarrow>
     iterate_from g (feed e) n instr bs = Some
       (case look g n bs of
          Found v \<Rightarrow> Inr (Some (instr @ take (consumed g n bs) bs, v))
        | NotPresent \<Rightarrow> Inr None
        | NeedMoreBytes \<Rightarrow> Inl e, drop (consumed g n bs) bs)"
proof (induction bs arbitrary: n instr)
  case Nil
  then show ?case by (subst iterate_from.simps) simp
next
  case (Cons b bs)
  show ?case
    using edge_node [OF Cons.prems(1,2), of b] edge_val [OF Cons.prems(1,2), of b] Cons.prems
      Cons.IH [of _ "instr @ [b]"]
    by (subst iterate_from.simps)
      (auto simp: edge_def split: option.split UnpackedNodeId.split LookupResult.split)
qed

section \<open>Properties\<close>

text \<open>A map with two instructions, of one byte and of two.\<close>

definition example_map :: "nat InstructionMap" where
  "example_map =
     \<lparr>nodes = [next_new (\<lambda>b. if b = 0x0f then from_node_index 1 else if b = 0x90 then from_val_index 0 else FAIL),
               next_new (\<lambda>b. if b = 0x05 then from_val_index 1 else FAIL)],
      vals = [10, 20]\<rparr>"

lemma next_new_ok: "(\<And>b. edge_ok N V (f b)) \<Longrightarrow> length (next_new f) = 256 \<and> (\<forall>i \<in> set (next_new f). edge_ok N V i)"
  by (auto simp: next_new_def)

lemma example_map_ok: "imap_ok example_map"
proof -
  let ?ok = "\<lambda>nx. length nx = 256 \<and> (\<forall>i \<in> set nx. edge_ok 2 2 i)"
  have "?ok (next_new (\<lambda>b. if b = 0x0f then from_node_index 1 else if b = 0x90 then from_val_index 0 else FAIL))"
    by (rule next_new_ok) (simp add: edge_ok_def)
  moreover have "?ok (next_new (\<lambda>b. if b = 0x05 then from_val_index 1 else FAIL))"
    by (rule next_new_ok) (simp add: edge_ok_def)
  ultimately have "nodes_ok 2 2 (nodes example_map)" unfolding nodes_ok_def example_map_def by simp
  moreover have "length (nodes example_map) = 2" "length (vals example_map) = 2" "nodes example_map \<noteq> []" by (simp_all add: example_map_def)
  ultimately show ?thesis by (simp add: imap_ok_def)
qed

lemma example_map_size:
  "length (nodes example_map) = 2" "length (vals example_map) = 2" "nodes example_map \<noteq> []"
  "nodes_ok (length (nodes example_map)) 2 (nodes example_map)"
proof -
  show l: "length (nodes example_map) = 2" "length (vals example_map) = 2" "nodes example_map \<noteq> []" by (simp_all add: example_map_def)
  show "nodes_ok (length (nodes example_map)) 2 (nodes example_map)" using imap_okD(2) [OF example_map_ok] unfolding l(2) .
qed

lemma example_map_get: "map_get example_map [0x0f, 0x05] = Some (Found 20)" "map_get example_map [0x90] = Some (Found 10)"
  by (simp_all add: map_get_look [OF example_map_ok]) (simp_all add: example_map_def edge_def)

text \<open>C33: looking an instruction up byte by byte from a source reads exactly the bytes that the lookup of the
  whole instruction needs, gives the value that it gives, with the bytes that were read, and fails only
  when the source ends first.\<close>

theorem get_iteratively_get:
  assumes "imap_ok g" "length bs \<le> 15"
  shows "\<exists>r. map_get g bs = Some r \<and>
    get_iteratively g (feed e) bs = Some
       (case r of
          Found v \<Rightarrow> Inr (Some (take (consumed g ROOT bs) bs, v))
        | NotPresent \<Rightarrow> Inr None
        | NeedMoreBytes \<Rightarrow> Inl e, drop (consumed g ROOT bs) bs)"
proof -
  have "ROOT < length (nodes g)" "length ([] :: u8 list) + length bs \<le> 15" using assms imap_okD(1) [OF assms(1)] by (simp_all add: ROOT_def)
  from iterate_from_ok [OF assms(1) this, of e] have i: "get_iteratively g (feed e) bs = Some
       (case look g ROOT bs of
          Found v \<Rightarrow> Inr (Some (take (consumed g ROOT bs) bs, v))
        | NotPresent \<Rightarrow> Inr None
        | NeedMoreBytes \<Rightarrow> Inl e, drop (consumed g ROOT bs) bs)"
    unfolding get_iteratively_def append_Nil .
  have "map_get g bs = Some (look g ROOT bs)" using map_get_look [OF assms(1)] by (simp add: ROOT_def)
  then show ?thesis using i by blast
qed

theorem get_iteratively_get_witness:
  "get_iteratively example_map (feed ()) [0x0f, 0x05, 0x66] = Some (Inr (Some ([0x0f, 0x05], 20)), [0x66])"
  using get_iteratively_get [of example_map "[0x0f, 0x05, 0x66]" "()"]
  by (auto simp: example_map_ok map_get_look) (simp_all add: example_map_def edge_def ROOT_def)

end
