(* ===== verification/Map_Scc.thy ===== *)
theory Map_Scc
  imports Map_Node "HOL-Library.Sublist"
begin

text \<open>
  The strongly connected components of a graph (\<open>liblisa/src/instr/map/components.rs\<close>): Tarjan's
  algorithm without recursion, as one step of its inner loop after the other. The groups it reports are
  disjoint, hold exactly the nodes that the root reaches, and come in an order in which edges only lead
  back: every successor of a node is in the group of the node or in an earlier one.
\<close>

section \<open>The algorithm\<close>

record Info =
  on_stack :: bool
  tarjan_index :: "nat option"
  lowlink :: nat

text \<open>The stack and the frontier have their top first. \<open>reported\<close> are the groups the callback got, the
  first call first. The \<open>transitions()\<close> of a node are its edges.\<close>

record Components =
  info :: "Info list"
  stack :: "NodeIndex list"
  next_index :: nat
  frontier :: "(NodeIndex \<times> NodeId list) list"
  reported :: "NodeIndex list list"

definition scc_enter :: "Next list \<Rightarrow> NodeIndex \<Rightarrow> Components \<Rightarrow> Components" where
  "scc_enter ns w c =
     c\<lparr>info := (info c)[w := \<lparr>on_stack = True, tarjan_index = Some (next_index c), lowlink = next_index c\<rparr>],
       next_index := next_index c + 1, stack := w # stack c, frontier := (w, ns ! w) # frontier c\<rparr>"

definition set_lowlink :: "NodeIndex \<Rightarrow> nat \<Rightarrow> Components \<Rightarrow> Components" where
  "set_lowlink v l c = c\<lparr>info := (info c)[v := (info c ! v)\<lparr>lowlink := min (lowlink (info c ! v)) l\<rparr>]\<rparr>"

definition leave_stack :: "Info list \<Rightarrow> NodeIndex list \<Rightarrow> Info list" where
  "leave_stack = foldl (\<lambda>i w. i[w := (i ! w)\<lparr>on_stack := False\<rparr>])"

definition report_group :: "NodeIndex \<Rightarrow> Components \<Rightarrow> Components" where
  "report_group v c =
     (let num = length (takeWhile (\<lambda>w. w \<noteq> v) (stack c)) + 1; group = rev (take num (stack c)) in
      c\<lparr>reported := reported c @ [group], info := leave_stack (info c) group, stack := drop num (stack c)\<rparr>)"

definition scc_step :: "Next list \<Rightarrow> Components \<Rightarrow> Components option" where
  "scc_step ns c =
     (case frontier c of
        [] \<Rightarrow> Some c
      | (v, it) # rest \<Rightarrow>
          if v < length (info c)
          then case it of
            e # it' \<Rightarrow>
              (let c = c\<lparr>frontier := (v, it') # rest\<rparr> in
               case unpack e of
                 Some (NodeIndex w) \<Rightarrow>
                   if w < length (info c) \<and> w < length ns
                   then case tarjan_index (info c ! w) of
                       None \<Rightarrow> Some (scc_enter ns w c)
                     | Some wi \<Rightarrow> Some (if on_stack (info c ! w) then set_lowlink v wi c else c)
                   else None
               | _ \<Rightarrow> Some c)
          | [] \<Rightarrow>
              (let c = (if Some (lowlink (info c ! v)) = tarjan_index (info c ! v) then report_group v c else c);
                   c = c\<lparr>frontier := rest\<rparr> in
               Some (case rest of [] \<Rightarrow> c | (p, _) # _ \<Rightarrow> set_lowlink p (lowlink (info c ! v)) c))
          else None)"

text \<open>Each step takes an edge or leaves a node, and a node is entered once.\<close>

definition undiscovered :: "Components \<Rightarrow> nat list" where
  "undiscovered c = filter (\<lambda>w. tarjan_index (info c ! w) = None) [0..<length (info c)]"

definition scc_measure :: "Next list \<Rightarrow> Components \<Rightarrow> nat" where
  "scc_measure ns c =
     sum_list (map (\<lambda>w. length (ns ! w) + 2) (undiscovered c)) + sum_list (map (\<lambda>(_, it). length it + 1) (frontier c))"

lemma nth_update_if: "xs[i := x] ! j = (if i = j \<and> i < length xs then x else xs ! j)"
  by (cases "i < length xs") (auto simp: nth_list_update not_less list_update_beyond)

lemma undiscovered_mono:
  assumes "length (info c') = length (info c)" "\<And>w. w < length (info c) \<Longrightarrow> tarjan_index (info c' ! w) = tarjan_index (info c ! w)"
  shows "undiscovered c' = undiscovered c"
  using assms by (auto simp: undiscovered_def intro!: filter_cong)

lemma leave_stack_info:
  "length (leave_stack is ws) = length is"
  "w < length is \<Longrightarrow> leave_stack is ws ! w = (is ! w)\<lparr>on_stack := on_stack (is ! w) \<and> w \<notin> set ws\<rparr>"
proof -
  show "length (leave_stack is ws) = length is"
    by (induction ws arbitrary: "is") (simp_all add: leave_stack_def)
  show "w < length is \<Longrightarrow> leave_stack is ws ! w = (is ! w)\<lparr>on_stack := on_stack (is ! w) \<and> w \<notin> set ws\<rparr>"
    by (induction ws arbitrary: "is") (auto simp: leave_stack_def nth_update_if)
qed

lemma set_lowlink_info:
  "length (info (set_lowlink v l c)) = length (info c)"
  "tarjan_index (info (set_lowlink v l c) ! w) = tarjan_index (info c ! w)"
  "on_stack (info (set_lowlink v l c) ! w) = on_stack (info c ! w)"
  "v < length (info c) \<Longrightarrow> lowlink (info (set_lowlink v l c) ! w) = (if w = v then min (lowlink (info c ! v)) l else lowlink (info c ! w))"
  by (auto simp: set_lowlink_def nth_update_if)

lemma set_lowlink_rest [simp]:
  "stack (set_lowlink v l c) = stack c" "next_index (set_lowlink v l c) = next_index c"
  "frontier (set_lowlink v l c) = frontier c" "reported (set_lowlink v l c) = reported c"
  by (simp_all add: set_lowlink_def)

lemma report_group_info:
  "length (info (report_group v c)) = length (info c)"
  "w < length (info c) \<Longrightarrow> tarjan_index (info (report_group v c) ! w) = tarjan_index (info c ! w)"
  "w < length (info c) \<Longrightarrow> lowlink (info (report_group v c) ! w) = lowlink (info c ! w)"
  "frontier (report_group v c) = frontier c" "next_index (report_group v c) = next_index c"
  by (simp_all add: report_group_def Let_def leave_stack_info)

lemma undiscovered_enter:
  fixes f :: "nat \<Rightarrow> nat"
  assumes "w < length (info c)" "tarjan_index (info c ! w) = None"
  shows "sum_list (map f (undiscovered c)) = f w + sum_list (map f (undiscovered (scc_enter ns w c)))"
proof -
  have "undiscovered (scc_enter ns w c) = filter (\<lambda>x. w \<noteq> x) (undiscovered c)"
    unfolding undiscovered_def filter_filter
    by (rule filter_cong) (auto simp: scc_enter_def nth_update_if split: if_splits)
  then have "undiscovered (scc_enter ns w c) = remove1 w (undiscovered c)"
    using distinct_remove1_removeAll [of "undiscovered c" w] by (simp add: removeAll_filter_not_eq undiscovered_def)
  moreover have "w \<in> set (undiscovered c)" using assms by (simp add: undiscovered_def)
  ultimately show ?thesis by (simp add: sum_list_map_remove1)
qed

lemma scc_step_measure:
  assumes "scc_step ns c = Some c'" "frontier c \<noteq> []"
  shows "scc_measure ns c' < scc_measure ns c"
proof -
  obtain v it rest where f: "frontier c = (v, it) # rest" using assms(2) by (cases "frontier c") auto
  have v: "v < length (info c)" using assms(1) f by (auto simp: scc_step_def split: if_splits)
  show ?thesis
  proof (cases it)
    case Nil
    let ?c = "if Some (lowlink (info c ! v)) = tarjan_index (info c ! v) then report_group v c else c"
    have "length (info c') = length (info c) \<and> (\<forall>w < length (info c). tarjan_index (info c' ! w) = tarjan_index (info c ! w)) \<and> frontier c' = rest"
      using assms(1) f v Nil by (auto simp: scc_step_def Let_def set_lowlink_info report_group_info split: list.splits)
    then have "undiscovered c' = undiscovered c" "frontier c' = rest" by (auto intro: undiscovered_mono)
    then show ?thesis using f Nil by (simp add: scc_measure_def)
  next
    case (Cons e it')
    show ?thesis
    proof (cases "\<exists>w. unpack e = Some (NodeIndex w) \<and> tarjan_index (info c ! w) = None")
      case True
      then obtain w where w: "unpack e = Some (NodeIndex w)" "tarjan_index (info c ! w) = None" by blast
      let ?c = "c\<lparr>frontier := (v, it') # rest\<rparr>"
      have c': "c' = scc_enter ns w ?c" "w < length (info ?c)" "tarjan_index (info ?c ! w) = None"
        using assms(1) f v Cons w by (auto simp: scc_step_def Let_def split: if_splits)
      have "undiscovered ?c = undiscovered c" by (rule undiscovered_mono) simp_all
      then have "sum_list (map (\<lambda>w. length (ns ! w) + 2) (undiscovered c)) =
          length (ns ! w) + 2 + sum_list (map (\<lambda>w. length (ns ! w) + 2) (undiscovered c'))"
        using undiscovered_enter [OF c'(2,3), of "\<lambda>w. length (ns ! w) + 2" ns] c'(1) by simp
      then show ?thesis using f Cons c'(1) by (simp add: scc_measure_def) (simp add: scc_enter_def)
    next
      case False
      then have "length (info c') = length (info c) \<and> (\<forall>w < length (info c). tarjan_index (info c' ! w) = tarjan_index (info c ! w)) \<and> frontier c' = (v, it') # rest"
        using assms(1) f v Cons
        by (auto simp: scc_step_def Let_def set_lowlink_info split: option.splits UnpackedNodeId.splits if_splits)
      then have "undiscovered c' = undiscovered c" "frontier c' = (v, it') # rest" by (auto intro: undiscovered_mono)
      then show ?thesis using f Cons by (simp add: scc_measure_def)
    qed
  qed
qed

function scc_run :: "Next list \<Rightarrow> Components \<Rightarrow> Components option" where
  "scc_run ns c =
     (if frontier c = [] then Some c
      else case scc_step ns c of None \<Rightarrow> None | Some c' \<Rightarrow> scc_run ns c')"
  by pat_completeness auto

termination
  by (relation "measure (\<lambda>(ns, c). scc_measure ns c)") (auto intro: scc_step_measure)

declare scc_run.simps [simp del]

text \<open>\<open>iterate\<close>: the groups that the callback gets.\<close>

definition scc_iterate :: "Next list \<Rightarrow> NodeIndex list list option" where
  "scc_iterate ns =
     (let c = \<lparr>info = replicate (length ns) \<lparr>on_stack = False, tarjan_index = None, lowlink = 0\<rparr>, stack = [], next_index = 0,
          frontier = [], reported = []\<rparr> in
      if ROOT < length ns then map_option reported (scc_run ns (scc_enter ns ROOT c)) else None)"

section \<open>The invariant\<close>

definition successors :: "NodeId list \<Rightarrow> NodeIndex set" where
  "successors es = {u. \<exists>e \<in> set es. unpack e = Some (NodeIndex u)}"

lemma successors_append: "successors (xs @ ys) = successors xs \<union> successors ys"
  by (auto simp: successors_def)

lemma successors_Nil [simp]: "successors [] = {}"
  by (simp add: successors_def)

lemma successors_single: "successors [e] = (case unpack e of Some (NodeIndex u) \<Rightarrow> {u} | _ \<Rightarrow> {})"
  by (auto simp: successors_def split: option.split UnpackedNodeId.split)

definition successor_rel :: "Next list \<Rightarrow> (NodeIndex \<times> NodeIndex) set" where
  "successor_rel ns = {(a, b). a < length ns \<and> b \<in> successors (ns ! a)}"

definition discovered :: "Components \<Rightarrow> NodeIndex \<Rightarrow> bool" where
  "discovered c w \<longleftrightarrow> w < length (info c) \<and> tarjan_index (info c ! w) \<noteq> None"

definition ix :: "Components \<Rightarrow> NodeIndex \<Rightarrow> nat" where
  "ix c w = the (tarjan_index (info c ! w))"

definition low :: "Components \<Rightarrow> NodeIndex \<Rightarrow> nat" where
  "low c w = lowlink (info c ! w)"

text \<open>The target \<open>u\<close> of an edge that the algorithm took, from the part of the stack that belongs to the
  frontier node \<open>f\<close>.\<close>

definition taken :: "Components \<Rightarrow> NodeIndex \<Rightarrow> NodeIndex \<Rightarrow> bool" where
  "taken c f u \<longleftrightarrow> discovered c u \<and> (u \<in> set (stack c) \<longrightarrow> low c f \<le> ix c u)"

text \<open>The nodes \<open>A\<close> above \<open>f\<close> are done; of \<open>f\<close> the edges \<open>it\<close> remain.\<close>

definition segment_ok :: "Next list \<Rightarrow> Components \<Rightarrow> NodeIndex \<Rightarrow> NodeId list \<Rightarrow> NodeIndex list \<Rightarrow> bool" where
  "segment_ok ns c f it A \<longleftrightarrow> (\<forall>w \<in> set A. \<forall>u \<in> successors (ns ! w). taken c f u) \<and>
     (\<exists>pre. ns ! f = pre @ it \<and> (\<forall>u \<in> successors pre. taken c f u))"

fun segments :: "(NodeIndex \<Rightarrow> NodeId list \<Rightarrow> NodeIndex list \<Rightarrow> bool) \<Rightarrow> NodeIndex list \<Rightarrow> (NodeIndex \<times> NodeId list) list \<Rightarrow> bool" where
  "segments P S [] \<longleftrightarrow> S = []"
| "segments P S ((f, it) # F) \<longleftrightarrow> (\<exists>A B. S = A @ f # B \<and> P f it A \<and> segments P B F)"

lemma segments_mono:
  "segments P S F \<Longrightarrow> (\<And>f it A. f \<in> set S \<Longrightarrow> (f, it) \<in> set F \<Longrightarrow> P f it A \<Longrightarrow> Q f it A) \<Longrightarrow> segments Q S F"
proof (induction P S F rule: segments.induct)
  case (2 P S f it F)
  then obtain A B where S: "S = A @ f # B" "P f it A" "segments P B F" by auto
  have "segments Q B F" by (rule "2.IH" [OF S(3)]) (use "2.prems"(2) S(1) in auto)
  moreover have "Q f it A" using "2.prems"(2) S by auto
  ultimately show ?case using S(1) by auto
qed simp

lemma segments_subset: "segments P S F \<Longrightarrow> fst ` set F \<subseteq> set S"
  by (induction P S F rule: segments.induct) fastforce+

definition closed_groups :: "Next list \<Rightarrow> NodeIndex list list \<Rightarrow> bool" where
  "closed_groups ns gs \<longleftrightarrow> (\<forall>k < length gs. \<forall>w \<in> set (gs ! k). successors (ns ! w) \<subseteq> set (concat (take (Suc k) gs)))"

lemma closed_groups_snoc:
  "closed_groups ns (gs @ [g]) \<longleftrightarrow> closed_groups ns gs \<and> (\<forall>w \<in> set g. successors (ns ! w) \<subseteq> set (concat (gs @ [g])))"
  unfolding closed_groups_def
proof (intro iffI conjI allI impI ballI)
  fix k w assume c: "\<forall>k < length (gs @ [g]). \<forall>w \<in> set ((gs @ [g]) ! k). successors (ns ! w) \<subseteq> set (concat (take (Suc k) (gs @ [g])))"
  show "successors (ns ! w) \<subseteq> set (concat (take (Suc k) gs))" if "k < length gs" "w \<in> set (gs ! k)"
    using c [rule_format, of k w] that by (simp add: nth_append)
  show "successors (ns ! w) \<subseteq> set (concat (gs @ [g]))" if "w \<in> set g"
    using c [rule_format, of "length gs" w] that by simp
next
  fix k w assume c: "(\<forall>k < length gs. \<forall>w \<in> set (gs ! k). successors (ns ! w) \<subseteq> set (concat (take (Suc k) gs))) \<and>
      (\<forall>w \<in> set g. successors (ns ! w) \<subseteq> set (concat (gs @ [g])))"
    and k: "k < length (gs @ [g])" "w \<in> set ((gs @ [g]) ! k)"
  show "successors (ns ! w) \<subseteq> set (concat (take (Suc k) (gs @ [g])))"
  proof (cases "k < length gs")
    case True
    then show ?thesis using c k by (simp add: nth_append)
  next
    case False
    then have "k = length gs" using k(1) by simp
    then show ?thesis using c k by simp
  qed
qed

definition scc_inv :: "Next list \<Rightarrow> Components \<Rightarrow> bool" where
  "scc_inv ns c \<longleftrightarrow>
     length (info c) = length ns \<and>
     distinct (stack c @ concat (reported c)) \<and>
     set (stack c @ concat (reported c)) = {w. discovered c w} \<and>
     (\<forall>w < length ns. on_stack (info c ! w) \<longleftrightarrow> w \<in> set (stack c)) \<and>
     sorted_wrt (\<lambda>a b. ix c b < ix c a) (stack c) \<and>
     (\<forall>w \<in> set (stack c). ix c w < next_index c) \<and>
     segments (segment_ok ns c) (stack c) (frontier c) \<and>
     (stack c \<noteq> [] \<longrightarrow> ix c (last (stack c)) = 0) \<and>
     (\<forall>f \<in> fst ` set (frontier c). low c f \<le> ix c f) \<and>
     closed_groups ns (reported c) \<and>
     discovered c ROOT \<and>
     (\<forall>w. discovered c w \<longrightarrow> (ROOT, w) \<in> (successor_rel ns)\<^sup>*)"

text \<open>Low links may be lowered.\<close>

lemma lower_inv:
  assumes inv: "scc_inv ns c"
  shows "scc_inv ns (set_lowlink v l c)"
proof -
  let ?c = "set_lowlink v l c"
  have len: "length (info c) = length ns" and seg: "segments (segment_ok ns c) (stack c) (frontier c)"
    and lows: "\<forall>f \<in> fst ` set (frontier c). low c f \<le> ix c f"
    using inv by (auto simp: scc_inv_def)
  have same: "discovered ?c = discovered c" "ix ?c = ix c" by (simp_all add: fun_eq_iff discovered_def ix_def set_lowlink_info)
  have lower: "low ?c g \<le> low c g" for g
    by (auto simp: low_def set_lowlink_def nth_update_if)
  have old: "taken ?c g u" if "taken c g u" for g u
    using that lower [of g] by (auto simp: taken_def same)
  have "segments (segment_ok ns ?c) (stack ?c) (frontier ?c)"
    unfolding set_lowlink_rest by (rule segments_mono [OF seg]) (use old in \<open>unfold segment_ok_def, blast\<close>)
  moreover have "\<forall>f \<in> fst ` set (frontier ?c). low ?c f \<le> ix ?c f"
    using lows lower by (fastforce simp: same intro: order_trans)
  ultimately show ?thesis using inv by (simp add: scc_inv_def same set_lowlink_info)
qed

lemma frontier_irrelevant:
  "discovered (c\<lparr>frontier := F\<rparr>) = discovered c" "ix (c\<lparr>frontier := F\<rparr>) = ix c" "low (c\<lparr>frontier := F\<rparr>) = low c"
  "taken (c\<lparr>frontier := F\<rparr>) = taken c" "segment_ok ns (c\<lparr>frontier := F\<rparr>) = segment_ok ns c"
  by (simp_all add: fun_eq_iff discovered_def ix_def low_def taken_def segment_ok_def)

text \<open>A step that takes an edge to a node it knows, or to none.\<close>

lemma advance_inv:
  assumes inv: "scc_inv ns c" and f: "frontier c = (v, e # it) # rest"
    and t: "\<And>u. unpack e = Some (NodeIndex u) \<Longrightarrow> taken c v u"
  shows "scc_inv ns (c\<lparr>frontier := (v, it) # rest\<rparr>)"
proof -
  obtain A B where S: "stack c = A @ v # B" "segment_ok ns c v (e # it) A" "segments (segment_ok ns c) B rest"
    using inv f by (auto simp: scc_inv_def)
  obtain pre where pre: "ns ! v = pre @ e # it" "\<forall>u \<in> successors pre. taken c v u" using S(2) by (auto simp: segment_ok_def)
  have "\<forall>u \<in> successors (pre @ [e]). taken c v u"
    using pre(2) t by (auto simp: successors_append successors_single split: option.splits UnpackedNodeId.splits)
  then have "segment_ok ns c v it A"
    using S(2) pre(1) by (auto simp: segment_ok_def intro!: exI [of _ "pre @ [e]"])
  then have "segments (segment_ok ns c) (stack c) ((v, it) # rest)" using S by auto
  then show ?thesis using inv f by (simp add: scc_inv_def frontier_irrelevant)
qed

text \<open>A step that enters a node.\<close>

lemma enter_inv:
  assumes inv: "scc_inv ns c" and f: "frontier c = (v, e # it) # rest"
    and w: "unpack e = Some (NodeIndex w)" "w < length ns" "\<not> discovered c w"
  shows "scc_inv ns (scc_enter ns w (c\<lparr>frontier := (v, it) # rest\<rparr>))"
proof -
  let ?c = "scc_enter ns w (c\<lparr>frontier := (v, it) # rest\<rparr>)"
  have len: "length (info c) = length ns" and all: "set (stack c @ concat (reported c)) = {w. discovered c w}"
    and dist: "distinct (stack c)" and seg: "segments (segment_ok ns c) (stack c) ((v, e # it) # rest)"
    and next_max: "\<forall>w \<in> set (stack c). ix c w < next_index c"
    and reach: "\<forall>w. discovered c w \<longrightarrow> (ROOT, w) \<in> (successor_rel ns)\<^sup>*" and lows: "\<forall>f \<in> fst ` set (frontier c). low c f \<le> ix c f"
    using inv f by (auto simp: scc_inv_def)
  have fields: "stack ?c = w # stack c" "frontier ?c = (w, ns ! w) # (v, it) # rest" "reported ?c = reported c"
    "next_index ?c = next_index c + 1" "length (info ?c) = length ns"
    using len by (simp_all add: scc_enter_def)
  have new: "discovered ?c w" "ix ?c w = next_index c" "low ?c w = next_index c"
    using w(2) len by (simp_all add: scc_enter_def discovered_def ix_def low_def)
  have same: "discovered ?c u = discovered c u" "ix ?c u = ix c u" "low ?c u = low c u" "on_stack (info ?c ! u) = on_stack (info c ! u)"
    if "u \<noteq> w" for u
    using that by (simp_all add: scc_enter_def discovered_def ix_def low_def)
  have notw: "u \<noteq> w" if "discovered c u" for u using that w(3) by blast
  have stkw: "w \<notin> set (stack c)" "w \<notin> set (concat (reported c))" using all w(3) by auto
  obtain A B where S: "stack c = A @ v # B" "segment_ok ns c v (e # it) A" "segments (segment_ok ns c) B rest" using seg by auto
  have v: "v \<in> set (stack c)" using S(1) by simp
  have dv: "discovered c v" using v all by auto
  have low_max: "low c g \<le> next_index c" if "g \<in> fst ` set (frontier c)" for g
  proof -
    have "g \<in> set (stack c)" using segments_subset [OF seg] that f by auto
    then show ?thesis using lows next_max that by (meson less_imp_le order_trans)
  qed
  have old: "taken ?c g u" if "taken c g u" "g \<in> set (stack c)" for g u
  proof -
    have "g \<noteq> w" using that(2) stkw(1) by blast
    then show ?thesis using that notw [of u] by (auto simp: taken_def same fields(1))
  qed
  have tw: "taken ?c v w" using new notw [OF dv] low_max [of v] f by (simp add: taken_def same)
  have "segment_ok ns ?c v it A"
    unfolding segment_ok_def
  proof (intro conjI ballI)
    fix x u assume "x \<in> set A" "u \<in> successors (ns ! x)"
    then show "taken ?c v u" using S(2) old v(1) by (auto simp: segment_ok_def)
  next
    obtain pre where pre: "ns ! v = pre @ e # it" "\<forall>u \<in> successors pre. taken c v u" using S(2) by (auto simp: segment_ok_def)
    have "\<forall>u \<in> successors (pre @ [e]). taken ?c v u"
      using pre(2) old v(1) tw w(1) by (auto simp: successors_append successors_single)
    then show "\<exists>pre. ns ! v = pre @ it \<and> (\<forall>u \<in> successors pre. taken ?c v u)" using pre(1) by (intro exI [of _ "pre @ [e]"]) simp
  qed
  moreover have "segments (segment_ok ns ?c) B rest"
  proof (rule segments_mono [OF S(3)])
    fix g jt C assume g: "g \<in> set B" "segment_ok ns c g jt C"
    then have "g \<in> set (stack c)" using S(1) by simp
    then show "segment_ok ns ?c g jt C" using g(2) old unfolding segment_ok_def by blast
  qed
  moreover have "segment_ok ns ?c w (ns ! w) []" by (simp add: segment_ok_def)
  ultimately have segs: "segments (segment_ok ns ?c) (stack ?c) (frontier ?c)"
    unfolding fields(1,2) segments.simps S(1) by (metis append_Nil)
  have mem: "discovered c u" if "u \<in> set (stack c)" for u using that all by auto
  have sorted: "sorted_wrt (\<lambda>a b. ix ?c b < ix ?c a) (stack ?c)"
  proof -
    have "sorted_wrt (\<lambda>a b. ix ?c b < ix ?c a) (stack c)"
      by (rule sorted_wrt_mono_rel [where P = "\<lambda>a b. ix c b < ix c a"]) (use inv mem notw same(2) in \<open>auto simp: scc_inv_def\<close>)
    then show ?thesis using next_max new(2) mem notw same(2) by (auto simp: fields(1))
  qed
  have "\<forall>u \<in> set (stack ?c). ix ?c u < next_index ?c"
    using next_max new(2) mem notw same(2) by (auto simp: fields(1,4) less_Suc_eq)
  moreover have "ix ?c (last (stack ?c)) = 0"
  proof -
    have ne: "stack c \<noteq> []" using v by auto
    then have "last (stack ?c) = last (stack c)" by (simp add: fields(1))
    moreover have "last (stack c) \<noteq> w" using ne stkw(1) last_in_set by blast
    ultimately show ?thesis using inv ne same(2) by (simp add: scc_inv_def)
  qed
  moreover have "\<forall>g \<in> fst ` set (frontier ?c). low ?c g \<le> ix ?c g"
  proof
    fix g assume "g \<in> fst ` set (frontier ?c)"
    then consider "g = w" | "g \<in> fst ` set (frontier c)" using f by (auto simp: fields(2))
    then show "low ?c g \<le> ix ?c g"
    proof cases
      case 2
      then have "g \<in> set (stack c)" using segments_subset [OF seg] f by auto
      then have "g \<noteq> w" using stkw(1) by blast
      then show ?thesis using bspec [OF lows 2] by (simp add: same)
    qed (simp add: new)
  qed
  moreover have "set (stack ?c @ concat (reported ?c)) = {u. discovered ?c u}"
  proof -
    have "discovered ?c u \<longleftrightarrow> u = w \<or> discovered c u" for u using new(1) same(1) [of u] by (cases "u = w") simp_all
    then show ?thesis using all by (simp add: fields) blast
  qed
  moreover have "\<forall>u < length ns. on_stack (info ?c ! u) \<longleftrightarrow> u \<in> set (stack ?c)"
  proof (intro allI impI)
    fix u assume "u < length ns"
    then show "on_stack (info ?c ! u) \<longleftrightarrow> u \<in> set (stack ?c)"
      using inv same(4) [of u] len by (cases "u = w") (auto simp: scc_inv_def fields(1) scc_enter_def)
  qed
  moreover have "\<forall>u. discovered ?c u \<longrightarrow> (ROOT, u) \<in> (successor_rel ns)\<^sup>*"
  proof (intro allI impI)
    fix u assume u: "discovered ?c u"
    show "(ROOT, u) \<in> (successor_rel ns)\<^sup>*"
    proof (cases "u = w")
      case True
      obtain pre where "ns ! v = pre @ e # it" using S(2) by (auto simp: segment_ok_def)
      then have "w \<in> successors (ns ! v)" using w(1) by (auto simp: successors_def)
      moreover have "v < length ns" using dv len by (simp add: discovered_def)
      ultimately have "(v, w) \<in> successor_rel ns" by (simp add: successor_rel_def)
      then show ?thesis using True reach dv by (meson rtrancl.rtrancl_into_rtrancl)
    next
      case False
      then show ?thesis using u reach same(1) by simp
    qed
  qed
  moreover have "distinct (stack ?c @ concat (reported ?c))" using inv stkw w(3) by (simp add: scc_inv_def fields)
  moreover have "discovered ?c ROOT" using inv same(1) [of ROOT] new(1) by (cases "ROOT = w") (auto simp: scc_inv_def)
  ultimately show ?thesis using inv segs sorted fields w(3) by (simp add: scc_inv_def)
qed

text \<open>A step that leaves a node: its part of the stack goes to the node below in the frontier, or is
  reported as a group.\<close>

lemma leave_inv:
  assumes inv: "scc_inv ns c" and f: "frontier c = (v, []) # (p, it) # rest" and l: "low c p \<le> low c v"
  shows "scc_inv ns (c\<lparr>frontier := (p, it) # rest\<rparr>)"
proof -
  obtain A B C D where S: "stack c = A @ v # B" "segment_ok ns c v [] A"
    "B = C @ p # D" "segment_ok ns c p it C" "segments (segment_ok ns c) D rest"
    using inv f by (auto simp: scc_inv_def)
  have up: "taken c p u" if "taken c v u" for u using that l by (auto simp: taken_def)
  have "segment_ok ns c p it (A @ v # C)"
    using S(2,4) up by (auto simp: segment_ok_def)
  then have "segments (segment_ok ns c) (stack c) ((p, it) # rest)"
    unfolding segments.simps using S(1,3,5) by (intro exI [of _ "A @ v # C"] exI [of _ D]) simp
  then show ?thesis using inv f by (simp add: scc_inv_def frontier_irrelevant)
qed

lemma report_inv:
  assumes inv: "scc_inv ns c" and f: "frontier c = (v, []) # rest" and l: "low c v = ix c v"
  shows "scc_inv ns ((report_group v c)\<lparr>frontier := rest\<rparr>)"
proof -
  have len: "length (info c) = length ns" and all: "set (stack c @ concat (reported c)) = {w. discovered c w}"
    and dist: "distinct (stack c @ concat (reported c))" and sorted: "sorted_wrt (\<lambda>a b. ix c b < ix c a) (stack c)"
    and closed: "closed_groups ns (reported c)"
    using inv by (auto simp: scc_inv_def)
  obtain A B where S: "stack c = A @ v # B" "segment_ok ns c v [] A" "segments (segment_ok ns c) B rest"
    using inv f by (auto simp: scc_inv_def)
  have tw: "takeWhile (\<lambda>w. w \<noteq> v) (stack c) = A"
    using dist unfolding S(1) by (subst takeWhile_append2) auto
  let ?g = "rev (A @ [v])"
  have r: "report_group v c = c\<lparr>reported := reported c @ [?g], info := leave_stack (info c) ?g, stack := B\<rparr>"
    unfolding report_group_def Let_def tw using S(1) by simp
  let ?c = "(report_group v c)\<lparr>frontier := rest\<rparr>"
  have fields: "reported ?c = reported c @ [?g]" "stack ?c = B" "next_index ?c = next_index c" "frontier ?c = rest"
    "length (info ?c) = length ns" "info ?c = leave_stack (info c) ?g"
    using len by (simp_all add: r leave_stack_info(1))
  have same: "discovered ?c w = discovered c w" "w < length ns \<Longrightarrow> ix ?c w = ix c w" "w < length ns \<Longrightarrow> low ?c w = low c w" for w
    using len by (auto simp: discovered_def ix_def low_def report_group_info)
  have less: "w < length ns" if "discovered c w" for w using that len by (simp add: discovered_def)
  have mem: "discovered c w" if "w \<in> set (stack c)" for w using that all by auto
  have old: "taken ?c g u" if "taken c g u" "g \<in> set B" for g u
  proof -
    have "u < length ns" "g < length ns" using that less [of u] less [OF mem, of g] S(1) by (auto simp: taken_def)
    then show ?thesis using that(1) S(1) by (auto simp: taken_def same fields(2))
  qed
  have "segments (segment_ok ns ?c) (stack ?c) (frontier ?c)"
    unfolding fields(2,4)
  proof (rule segments_mono [OF S(3)])
    fix g jt C assume "g \<in> set B" "segment_ok ns c g jt C"
    then show "segment_ok ns ?c g jt C" using old unfolding segment_ok_def by blast
  qed
  moreover have "closed_groups ns (reported ?c)"
  proof -
    have all_taken: "taken c v u" if "w \<in> set (A @ [v])" "u \<in> successors (ns ! w)" for w u
      using S(2) that by (auto simp: segment_ok_def)
    have "u \<in> set (concat (reported c @ [?g]))" if "w \<in> set ?g" "u \<in> successors (ns ! w)" for w u
    proof (cases "u \<in> set (stack c)")
      case True
      then have "ix c v \<le> ix c u" using all_taken [of w u] that l by (simp add: taken_def)
      moreover have "u \<in> set B \<Longrightarrow> ix c u < ix c v" using sorted S(1) by (simp add: sorted_wrt_append)
      ultimately have "u \<notin> set B" by (meson leD)
      then show ?thesis using True S(1) by auto
    next
      case False
      have "discovered c u" using all_taken [of w u] that by (simp add: taken_def)
      then show ?thesis using False all by auto
    qed
    then show ?thesis using closed unfolding fields(1) closed_groups_snoc by blast
  qed
  moreover have "sorted_wrt (\<lambda>a b. ix ?c b < ix ?c a) (stack ?c)"
  proof -
    have "sorted_wrt (\<lambda>a b. ix c b < ix c a) B" using sorted S(1) by (simp add: sorted_wrt_append)
    then show ?thesis unfolding fields(2)
      by (rule sorted_wrt_mono_rel [rotated]) (use less mem S(1) in \<open>simp add: same(2)\<close>)
  qed
  moreover have "\<forall>w < length ns. on_stack (info ?c ! w) \<longleftrightarrow> w \<in> set (stack ?c)"
    using inv S(1) dist by (auto simp: scc_inv_def fields leave_stack_info len)
  moreover have "stack ?c \<noteq> [] \<longrightarrow> ix ?c (last (stack ?c)) = 0"
    using inv S(1) less [OF mem] by (auto simp: scc_inv_def fields(2) same(2))
  moreover have "\<forall>g \<in> fst ` set (frontier ?c). low ?c g \<le> ix ?c g"
  proof
    fix g assume g: "g \<in> fst ` set (frontier ?c)"
    then have "g \<in> set B" using segments_subset [OF S(3)] by (auto simp: fields(4))
    then have "g < length ns" using less mem S(1) by simp
    then show "low ?c g \<le> ix ?c g" using inv g f by (auto simp: scc_inv_def same fields(4))
  qed
  moreover have "\<forall>w \<in> set (stack ?c). ix ?c w < next_index ?c"
    using inv S(1) less [OF mem] by (auto simp: scc_inv_def fields same(2))
  moreover have "set (stack ?c @ concat (reported ?c)) = {w. discovered ?c w}" "distinct (stack ?c @ concat (reported ?c))"
    using all dist S(1) by (auto simp: fields same(1))
  ultimately show ?thesis using inv fields(5) same(1) by (simp add: scc_inv_def)
qed

lemma set_lowlink_frontier: "set_lowlink v l (c\<lparr>frontier := F\<rparr>) = (set_lowlink v l c)\<lparr>frontier := F\<rparr>"
  by (simp add: set_lowlink_def)

lemma low_set_lowlink: "v < length (info c) \<Longrightarrow> low (set_lowlink v l c) v = min (low c v) l"
  by (simp add: low_def set_lowlink_info)

lemma scc_step_inv:
  assumes inv: "scc_inv ns c" and ok: "nodes_ok (length ns) V ns" and ne: "frontier c \<noteq> []"
  shows "\<exists>c'. scc_step ns c = Some c' \<and> scc_inv ns c'"
proof -
  obtain v it rest where f: "frontier c = (v, it) # rest" using ne by (cases "frontier c") auto
  have len: "length (info c) = length ns" and all: "set (stack c @ concat (reported c)) = {w. discovered c w}"
    and seg: "segments (segment_ok ns c) (stack c) (frontier c)"
    and onst: "\<forall>w < length ns. on_stack (info c ! w) \<longleftrightarrow> w \<in> set (stack c)"
    and lows: "\<forall>f \<in> fst ` set (frontier c). low c f \<le> ix c f"
    using inv by (auto simp: scc_inv_def)
  obtain A B where S: "stack c = A @ v # B" "segment_ok ns c v it A" "segments (segment_ok ns c) B rest" using seg f by auto
  have dv: "discovered c v" using S(1) all by auto
  then have v: "v < length (info c)" by (simp add: discovered_def)
  show ?thesis
  proof (cases it)
    case (Cons e it')
    obtain pre where pre: "ns ! v = pre @ e # it'" using S(2) Cons by (auto simp: segment_ok_def)
    have edge: "w < length ns" if "unpack e = Some (NodeIndex w)" for w
    proof -
      have "ns ! v \<in> set ns" "e \<in> set (ns ! v)" using v len pre nth_mem [of v ns] by auto
      then have "edge_ok (length ns) V e" using ok by (auto simp: nodes_ok_def)
      then show ?thesis using that by (simp add: edge_ok_def)
    qed
    show ?thesis
    proof (cases "\<exists>w. unpack e = Some (NodeIndex w) \<and> \<not> discovered c w")
      case True
      then obtain w where w: "unpack e = Some (NodeIndex w)" "\<not> discovered c w" by blast
      then have "scc_step ns c = Some (scc_enter ns w (c\<lparr>frontier := (v, it') # rest\<rparr>))"
        using edge [OF w(1)] v len f Cons by (simp add: scc_step_def discovered_def)
      then show ?thesis using enter_inv [OF inv f [unfolded Cons] w(1) edge [OF w(1)] w(2)] by blast
    next
      case False
      show ?thesis
      proof (cases "\<exists>w. unpack e = Some (NodeIndex w) \<and> on_stack (info c ! w)")
        case True
        then obtain w where w: "unpack e = Some (NodeIndex w)" "on_stack (info c ! w)" by blast
        obtain i where i: "tarjan_index (info c ! w) = Some i" using False w(1) by (auto simp: discovered_def)
        let ?c = "set_lowlink v i c"
        have step: "scc_step ns c = Some (set_lowlink v i (c\<lparr>frontier := (v, it') # rest\<rparr>))"
          using edge [OF w(1)] v len f Cons w i by (simp add: scc_step_def)
        have "scc_inv ns (?c\<lparr>frontier := (v, it') # rest\<rparr>)"
        proof (rule advance_inv [OF lower_inv [OF inv]])
          show "frontier ?c = (v, e # it') # rest" using f Cons by simp
          fix u assume "unpack e = Some (NodeIndex u)"
          then have "u = w" using w(1) by simp
          then show "taken ?c v u" using False w(1) i v len edge [OF w(1)]
            by (simp add: taken_def low_set_lowlink discovered_def ix_def set_lowlink_info)
        qed
        then show ?thesis using step by (simp add: set_lowlink_frontier)
      next
        case off: False
        have "scc_inv ns (c\<lparr>frontier := (v, it') # rest\<rparr>)"
        proof (rule advance_inv [OF inv f [unfolded Cons]])
          fix u assume u: "unpack e = Some (NodeIndex u)"
          then show "taken c v u" using False off onst edge [OF u] by (auto simp: taken_def)
        qed
        moreover have "scc_step ns c = Some (c\<lparr>frontier := (v, it') # rest\<rparr>)"
          using False off f Cons v edge len
          by (auto simp: scc_step_def Let_def discovered_def split: option.split UnpackedNodeId.split)
        ultimately show ?thesis by blast
      qed
    qed
  next
    case Nil
    have i: "tarjan_index (info c ! v) = Some (ix c v)" using dv by (auto simp: discovered_def ix_def)
    have lv: "lowlink (info c ! v) = low c v" by (simp add: low_def)
    show ?thesis
    proof (cases "low c v = ix c v")
      case True
      have r: "scc_inv ns ((report_group v c)\<lparr>frontier := rest\<rparr>)" by (rule report_inv [OF inv f [unfolded Nil] True])
      show ?thesis
      proof (cases rest)
        case Nil': Nil
        then show ?thesis using r f Nil v i lv True by (simp add: scc_step_def)
      next
        case (Cons p rest')
        then show ?thesis using lower_inv [OF r] f Nil v i lv True by (cases p) (simp add: scc_step_def)
      qed
    next
      case False
      show ?thesis
      proof (cases rest)
        case Nil': Nil
        then have "ix c v = 0" using S(1,3) inv by (simp add: scc_inv_def)
        moreover have "low c v \<le> ix c v" using lows f by simp
        ultimately show ?thesis using False by simp
      next
        case (Cons q rest')
        obtain p pit where q: "q = (p, pit)" by (cases q)
        let ?c = "set_lowlink p (low c v) c"
        have "p \<noteq> v" using S(1,3) Cons q inv by (auto simp: scc_inv_def)
        moreover have p: "p < length (info c)"
        proof -
          have "p \<in> set (stack c)" using S(1,3) Cons q by auto
          then show ?thesis using all by (auto simp: discovered_def)
        qed
        ultimately have "low ?c p \<le> low ?c v" by (simp add: low_set_lowlink) (simp add: low_def set_lowlink_info)
        then have "scc_inv ns (?c\<lparr>frontier := (p, pit) # rest'\<rparr>)"
          using leave_inv [OF lower_inv [OF inv], of p "low c v" v p pit rest'] f Nil Cons q by simp
        then show ?thesis using f Nil v i lv False Cons q by (simp add: scc_step_def set_lowlink_frontier)
      qed
    qed
  qed
qed

lemma scc_run_inv:
  "scc_inv ns c \<Longrightarrow> nodes_ok (length ns) V ns \<Longrightarrow> \<exists>c'. scc_run ns c = Some c' \<and> scc_inv ns c' \<and> frontier c' = []"
proof (induction ns c rule: scc_run.induct)
  case (1 ns c)
  show ?case
  proof (cases "frontier c = []")
    case True
    then show ?thesis using 1 by (subst scc_run.simps) simp
  next
    case False
    obtain c' where c': "scc_step ns c = Some c'" "scc_inv ns c'" using scc_step_inv [OF 1(2,3) False] by blast
    show ?thesis using 1(1) [OF False c'(1,2) 1(3)] c'(1) False by (subst scc_run.simps) simp
  qed
qed

lemma scc_start_inv:
  assumes "ns \<noteq> []"
  shows "scc_inv ns (scc_enter ns ROOT \<lparr>info = replicate (length ns) \<lparr>on_stack = False, tarjan_index = None, lowlink = 0\<rparr>,
    stack = [], next_index = 0, frontier = [], reported = []\<rparr>)" (is "scc_inv ns ?r")
proof -
  have root: "ROOT < length ns" using assms by (simp add: ROOT_def)
  have "segments (segment_ok ns ?r) [ROOT] [(ROOT, ns ! ROOT)]" by (auto simp: segment_ok_def intro!: exI [of _ "[]"])
  then show ?thesis
    using root by (auto simp: scc_inv_def scc_enter_def closed_groups_def discovered_def ix_def low_def nth_update_if split: if_splits)
qed

text \<open>What the callback gets.\<close>

definition topological_groups :: "Next list \<Rightarrow> NodeIndex list list \<Rightarrow> bool" where
  "topological_groups ns gs \<longleftrightarrow> distinct (concat gs) \<and> set (concat gs) = (successor_rel ns)\<^sup>* `` {ROOT} \<and> closed_groups ns gs"

lemma scc_iterate_ok:
  assumes "nodes_ok (length ns) V ns" "ns \<noteq> []"
  shows "\<exists>gs. scc_iterate ns = Some gs \<and> topological_groups ns gs \<and> set (concat gs) \<subseteq> {..<length ns}"
proof -
  let ?c = "\<lparr>info = replicate (length ns) \<lparr>on_stack = False, tarjan_index = None, lowlink = 0\<rparr>, stack = [], next_index = 0,
          frontier = [], reported = []\<rparr>"
  let ?r = "scc_enter ns ROOT ?c"
  have root: "ROOT < length ns" using assms(2) by (simp add: ROOT_def)
  obtain c where c: "scc_run ns ?r = Some c" "scc_inv ns c" "frontier c = []"
    using scc_run_inv [OF scc_start_inv [OF assms(2)] assms(1)] by blast
  have st: "stack c = []" using c(2,3) by (simp add: scc_inv_def)
  have disc: "set (concat (reported c)) = {w. discovered c w}" and d: "distinct (concat (reported c))"
    and closed: "closed_groups ns (reported c)" and rd: "discovered c ROOT" and len: "length (info c) = length ns"
    and reach: "\<forall>w. discovered c w \<longrightarrow> (ROOT, w) \<in> (successor_rel ns)\<^sup>*"
    using c(2) st by (simp_all add: scc_inv_def)
  have step: "u \<in> set (concat (reported c))" if w: "w \<in> set (concat (reported c))" "u \<in> successors (ns ! w)" for w u
  proof -
    obtain k where "k < length (reported c)" "w \<in> set (reported c ! k)"
      using w(1) by (metis (no_types, lifting) UN_E in_set_conv_nth set_concat)
    then have "u \<in> set (concat (take (Suc k) (reported c)))" using closed w(2) unfolding closed_groups_def by blast
    then show ?thesis by (auto dest: in_set_takeD)
  qed
  have "(ROOT, w) \<in> (successor_rel ns)\<^sup>* \<Longrightarrow> w \<in> set (concat (reported c))" for w
    by (induction rule: rtrancl_induct) (use rd disc step in \<open>auto simp: successor_rel_def\<close>)
  then have "set (concat (reported c)) = (successor_rel ns)\<^sup>* `` {ROOT}" using disc reach by blast
  moreover have "set (concat (reported c)) \<subseteq> {..<length ns}" using disc len by (auto simp: discovered_def)
  ultimately show ?thesis using c(1) root d closed by (simp add: scc_iterate_def topological_groups_def)
qed

end
