(* ===== verification/Map_Partition.thy ===== *)
theory Map_Partition
  imports Map_Scc Bitmap_Growing "HOL-Library.Monad_Syntax"
begin

text \<open>
  The partition of a graph into nodes that behave alike (\<open>liblisa/src/instr/map/partition.rs\<close>), a variant of
  Hopcroft's minimisation. Nodes start in buckets by a hash of their edges, buckets are split until
  their nodes agree on where every byte leads, and the first node of each partition is kept.

  Parameters: \<open>fx\<close> is what \<open>FxHasher64\<close> (crate \<open>fxhash\<close>) makes of the words written to it, \<open>ord\<close> the order in
  which a \<open>HashMap\<close> with the given entries iterates. The rounds of a large graph run in parallel and
  collect their results in order, which is what the sequential rounds here do.
\<close>

unbundle bit_operations_syntax

section \<open>Partition identifiers\<close>

type_synonym PartitionId = u32

definition PID_ZERO :: PartitionId where
  "PID_ZERO = 0"

definition PID_FAIL :: PartitionId where
  "PID_FAIL = - 1"

definition UNREACHABLE :: PartitionId where
  "UNREACHABLE = - 3"

definition pid_from_usize :: "nat \<Rightarrow> PartitionId option" where
  "pid_from_usize n = (if n < 2 ^ 31 then Some (of_nat n) else None)"

definition pid_from_val_index :: "ValIndex \<Rightarrow> PartitionId option" where
  "pid_from_val_index v = (if v < 2 ^ 31 then Some (of_nat v OR 0x80000000) else None)"

definition is_nonterminal :: "PartitionId \<Rightarrow> bool" where
  "is_nonterminal p \<longleftrightarrow> p AND 0x80000000 = 0"

record Partition =
  last_update :: nat
  pnodes :: "NodeIndex list"

text \<open>\<open>xs[i]\<close> and \<open>xs[i] = x\<close>, which panic out of range.\<close>

definition at :: "'a list \<Rightarrow> nat \<Rightarrow> 'a option" where
  "at xs i = (if i < length xs then Some (xs ! i) else None)"

definition put :: "'a list \<Rightarrow> nat \<Rightarrow> 'a \<Rightarrow> 'a list option" where
  "put xs i x = (if i < length xs then Some (xs[i := x]) else None)"

definition partition_of :: "PartitionId list \<Rightarrow> NodeId \<Rightarrow> PartitionId option" where
  "partition_of pon i =
     (case unpack i of
        Some (NodeIndex n) \<Rightarrow> at pon n
      | Some (ValIndex v) \<Rightarrow> pid_from_val_index v
      | None \<Rightarrow> Some PID_FAIL)"

section \<open>Initial partitions\<close>

record Initial =
  ini_partitions :: "Partition list"
  ini_buckets :: "u32 \<Rightarrow> PartitionId option"
  ini_of :: "PartitionId list"
  ini_hashes :: "u32 list"

definition edge_word :: "u32 list \<Rightarrow> NodeId \<Rightarrow> u32 option" where
  "edge_word hashes i =
     (case unpack i of
        Some (NodeIndex n) \<Rightarrow> at hashes n
      | Some (ValIndex v) \<Rightarrow> Some (0x80000000 OR of_nat v)
      | None \<Rightarrow> Some 0x55555555)"

definition has_self_loop :: "NodeIndex \<Rightarrow> Next \<Rightarrow> bool" where
  "has_self_loop n nx = list_ex (\<lambda>i. unpack i = Some (NodeIndex n)) nx"

definition init_node :: "(u32 list \<Rightarrow> u32) \<Rightarrow> Next list \<Rightarrow> nat \<Rightarrow> Initial \<Rightarrow> NodeIndex \<Rightarrow> Initial option" where
  "init_node fx ns group_len st n =
     do {
       nx \<leftarrow> at ns n;
       words \<leftarrow> those (map (edge_word (ini_hashes st)) nx);
       let hash = fx words;
       (st, pid) \<leftarrow> (case ini_buckets st hash of
           Some pid \<Rightarrow> Some (st, pid)
         | None \<Rightarrow> do {
             pid \<leftarrow> pid_from_usize (length (ini_partitions st));
             Some (st\<lparr>ini_partitions := ini_partitions st @ [\<lparr>last_update = 0, pnodes = []\<rparr>],
                     ini_buckets := (ini_buckets st)(hash \<mapsto> pid)\<rparr>, pid) });
       p \<leftarrow> at (ini_partitions st) (unat pid);
       parts \<leftarrow> put (ini_partitions st) (unat pid) (p\<lparr>pnodes := pnodes p @ [n]\<rparr>);
       pon \<leftarrow> put (ini_of st) n pid;
       hashes \<leftarrow> (if \<not> has_self_loop n nx \<and> group_len = 1 then put (ini_hashes st) n hash else Some (ini_hashes st));
       Some (st\<lparr>ini_partitions := parts, ini_of := pon, ini_hashes := hashes\<rparr>)
     }"

definition init_group :: "(u32 list \<Rightarrow> u32) \<Rightarrow> Next list \<Rightarrow> Initial \<Rightarrow> NodeIndex list \<Rightarrow> Initial option" where
  "init_group fx ns st grp =
     do {
       hashes \<leftarrow> run (\<lambda>h n. put h n 0x12345678) (ini_hashes st) grp;
       run (init_node fx ns (length grp)) (st\<lparr>ini_hashes := hashes\<rparr>) grp
     }"

definition compute_initial_partitions :: "(u32 list \<Rightarrow> u32) \<Rightarrow> Next list \<Rightarrow> (Partition list \<times> PartitionId list) option" where
  "compute_initial_partitions fx ns =
     do {
       groups \<leftarrow> scc_iterate ns;
       st \<leftarrow> run (init_group fx ns)
         \<lparr>ini_partitions = [], ini_buckets = (\<lambda>_. None), ini_of = replicate (length ns) UNREACHABLE,
          ini_hashes = replicate (length ns) 0\<rparr> groups;
       Some (ini_partitions st, ini_of st)
     }"

section \<open>Splitting\<close>

type_synonym key = "PartitionId list"

definition compute_partition_key :: "Next \<Rightarrow> PartitionId list \<Rightarrow> u8 list \<Rightarrow> key option" where
  "compute_partition_key nx pon indices =
     run (\<lambda>key b. do { p \<leftarrow> partition_of pon (next_get nx b); Some (key[unat b := p]) }) (replicate 256 PID_ZERO) indices"

type_synonym pending = "NodeIndex list \<times> key \<times> u8"
type_synonym new_partitions = "((u8 \<times> PartitionId) \<times> (key \<times> NodeIndex list)) list"
type_synonym map_order = "new_partitions \<Rightarrow> new_partitions"

text \<open>\<open>entry(k).or_insert_with(|| (key, Vec::new())).1.push(n)\<close>\<close>

fun push_entry :: "u8 \<times> PartitionId \<Rightarrow> key \<Rightarrow> NodeIndex \<Rightarrow> new_partitions \<Rightarrow> new_partitions" where
  "push_entry k key n [] = [(k, (key, [n]))]"
| "push_entry k key n ((k', (key', ms)) # m) =
     (if k' = k then (k', (key', ms @ [n])) # m else (k', (key', ms)) # push_entry k key n m)"

text \<open>One node under \<open>retain_mut\<close>: the kept nodes and the new partitions.\<close>

definition retain_node :: "Next list \<Rightarrow> PartitionId list \<Rightarrow> u8 list \<Rightarrow> key \<Rightarrow> u8 \<Rightarrow> NodeIndex list \<times> new_partitions \<Rightarrow> NodeIndex
    \<Rightarrow> (NodeIndex list \<times> new_partitions) option" where
  "retain_node ns pon indices primary start kn n =
     do {
       nx \<leftarrow> at ns n;
       key \<leftarrow> compute_partition_key nx pon indices;
       Some (case find (\<lambda>i. i \<ge> start \<and> primary ! unat i \<noteq> key ! unat i) indices of
           Some b \<Rightarrow> (fst kn, push_entry (b, key ! unat b) key n (snd kn))
         | None \<Rightarrow> (fst kn @ [n], snd kn))
     }"

definition saturating_succ :: "u8 \<Rightarrow> u8" where
  "saturating_succ b = (if b = 0xff then 0xff else b + 1)"

definition split_pending :: "map_order \<Rightarrow> Next list \<Rightarrow> PartitionId list \<Rightarrow> u8 list \<Rightarrow> nat
    \<Rightarrow> Partition list \<times> pending list \<Rightarrow> pending \<Rightarrow> (Partition list \<times> pending list) option" where
  "split_pending ord ns pon indices tick rp p =
     (case p of (ms, primary, start) \<Rightarrow> do {
        (kept, news) \<leftarrow> run (retain_node ns pon indices primary start) ([], []) ms;
        Some (fst rp @ [\<lparr>last_update = tick, pnodes = kept\<rparr>],
              snd rp @ map (\<lambda>((b, _), (key, ms)). (ms, key, saturating_succ b)) (ord news))
     })"

partial_function (option) split_loop :: "map_order \<Rightarrow> Next list \<Rightarrow> PartitionId list \<Rightarrow> u8 list \<Rightarrow> nat
    \<Rightarrow> Partition list \<Rightarrow> pending list \<Rightarrow> Partition list option" where
  "split_loop ord ns pon indices tick result pending =
     (if pending = [] then Some result
      else do {
        (result, new_pending) \<leftarrow> run (split_pending ord ns pon indices tick) (result, []) pending;
        split_loop ord ns pon indices tick result new_pending
      })"

text \<open>The bytes whose target may have changed since the partition was last checked.\<close>

definition needs_update :: "Partition list \<Rightarrow> Partition \<Rightarrow> bool \<Rightarrow> PartitionId \<Rightarrow> bool option" where
  "needs_update all cur check p =
     (if check then Some True
      else if is_nonterminal p then map_option (\<lambda>q. last_update q \<ge> last_update cur) (at all (unat p))
      else Some False)"

definition split_partitions :: "map_order \<Rightarrow> Next list \<Rightarrow> PartitionId list \<Rightarrow> Partition \<Rightarrow> Partition list \<Rightarrow> nat \<Rightarrow> bool
    \<Rightarrow> Partition list option" where
  "split_partitions ord ns pon cur all tick check =
     do {
       n \<leftarrow> at (pnodes cur) 0;
       nx \<leftarrow> at ns n;
       primary \<leftarrow> compute_partition_key nx pon all_bytes;
       needed \<leftarrow> those (map (needs_update all cur check) primary);
       let indices = filter (\<lambda>b. needed ! unat b) all_bytes;
       if indices = [] then Some [cur]
       else split_loop ord ns pon indices tick [] [(pnodes cur, primary, 0)]
     }"

section \<open>Rounds\<close>

definition split_one :: "map_order \<Rightarrow> Next list \<Rightarrow> Partition list \<Rightarrow> PartitionId list \<Rightarrow> nat \<Rightarrow> bool
    \<Rightarrow> (PartitionId \<times> Partition list) list \<Rightarrow> nat \<Rightarrow> (PartitionId \<times> Partition list) list option" where
  "split_one ord ns parts pon tick first extra index =
     do {
       pid \<leftarrow> pid_from_usize index;
       cur \<leftarrow> at parts index;
       if length (pnodes cur) > 1
       then do {
         result \<leftarrow> split_partitions ord ns pon cur parts tick first;
         Some (if length result > 1 then extra @ [(pid, result)] else extra)
       } else Some extra
     }"

definition add_partition :: "Partition list \<times> PartitionId list \<Rightarrow> Partition \<Rightarrow> (Partition list \<times> PartitionId list) option" where
  "add_partition st p =
     do {
       pid \<leftarrow> pid_from_usize (length (fst st));
       pon \<leftarrow> run (\<lambda>pon n. put pon n pid) (snd st) (pnodes p);
       Some (fst st @ [p], pon)
     }"

text \<open>The last part takes the place of the partition that was split, the others get new identifiers.\<close>

definition apply_split :: "nat \<Rightarrow> Partition list \<times> PartitionId list \<Rightarrow> PartitionId \<times> Partition list
    \<Rightarrow> (Partition list \<times> PartitionId list) option" where
  "apply_split tick st e =
     (case e of (pid, result) \<Rightarrow>
        if result = [] then None
        else do {
          parts \<leftarrow> put (fst st) (unat pid) \<lparr>last_update = tick, pnodes = pnodes (last result)\<rparr>;
          run add_partition (parts, snd st) (butlast result)
        })"

partial_function (option) run_partitioning :: "map_order \<Rightarrow> Next list \<Rightarrow> Partition list \<Rightarrow> PartitionId list \<Rightarrow> nat \<Rightarrow> bool
    \<Rightarrow> (Partition list \<times> PartitionId list) option" where
  "run_partitioning ord ns parts pon tick first =
     do {
       extra \<leftarrow> run (split_one ord ns parts pon tick first) [] [0..<length parts];
       if extra = [] then Some (parts, pon)
       else do {
         (parts, pon) \<leftarrow> run (apply_split tick) (parts, pon) extra;
         run_partitioning ord ns parts pon (tick + 1) False
       }
     }"

section \<open>Canonical nodes\<close>

record Partitions =
  canonical_nodes :: "NodeId option list"
  nodes_to_keep :: GrowingBitmap
  partition_of_node :: "PartitionId list"

definition canonical_step :: "PartitionId list \<Rightarrow> nat \<times> GrowingBitmap \<times> NodeId option list \<Rightarrow> NodeIndex
    \<Rightarrow> (nat \<times> GrowingBitmap \<times> NodeId option list) option" where
  "canonical_step pon st n =
     (case st of (next_id, keep, canonical) \<Rightarrow> do {
        pid \<leftarrow> at pon n;
        if pid = UNREACHABLE then Some st
        else do {
          c \<leftarrow> at canonical (unat pid);
          if c \<noteq> None then Some st
          else do {
            i \<leftarrow> index_new n;
            (keep, _) \<leftarrow> gb_set keep i;
            j \<leftarrow> index_new next_id;
            Some (next_id + 1, keep, canonical[unat pid := Some (from_node_index j)])
          }
        }
      })"

definition partitions_of :: "map_order \<Rightarrow> (u32 list \<Rightarrow> u32) \<Rightarrow> Next list \<Rightarrow> Partitions option" where
  "partitions_of ord fx ns =
     do {
       (parts, pon) \<leftarrow> compute_initial_partitions fx ns;
       (parts, pon) \<leftarrow> run_partitioning ord ns parts pon 1 True;
       (_, keep, canonical) \<leftarrow> run (canonical_step pon) (0, gb_new_all_zeros (length ns), replicate (length parts) None) [0..<length pon];
       Some \<lparr>canonical_nodes = canonical, nodes_to_keep = keep, partition_of_node = pon\<rparr>
     }"

text \<open>\<open>canonical_node_of\<close>: the inner option is \<open>None\<close> for an unreachable node.\<close>

definition canonical_node_of :: "Partitions \<Rightarrow> NodeIndex \<Rightarrow> NodeId option option" where
  "canonical_node_of P n =
     do {
       p \<leftarrow> at (partition_of_node P) n;
       if is_nonterminal p then at (canonical_nodes P) (unat p)
       else if p = PID_FAIL then Some (Some FAIL)
       else if p = UNREACHABLE then Some None
       else map_option (\<lambda>v. Some (from_val_index v)) (index_new (unat (p AND 0x7fffffff)))
     }"

definition should_keep :: "Partitions \<Rightarrow> NodeIndex \<Rightarrow> bool" where
  "should_keep P n = gb_get (nodes_to_keep P) n"

definition no_optimizations_possible :: "Partitions \<Rightarrow> bool option" where
  "no_optimizations_possible P =
     run (\<lambda>ok n. if \<not> ok then Some False
        else do {
          p \<leftarrow> at (partition_of_node P) n;
          if p = UNREACHABLE then Some False
          else do {
            c \<leftarrow> at (canonical_nodes P) (unat p);
            i \<leftarrow> index_new n;
            Some (c = Some (from_node_index i))
          }
        }) True [0..<length (partition_of_node P)]"

end
