(* ===== verification/Map_Split.thy ===== *)
theory Map_Split
  imports Map_Partition "HOL-Library.Multiset"
begin

text \<open>
  Partitions are correct: splitting keeps every node in exactly one partition, the rounds end, and in the
  end two nodes of a partition have the same terminal edges, and their other edges lead to the same
  partition. The hash and the order of the maps do not matter for that, and neither does the shortcut
  that compares only the bytes whose target changed since the last check of a partition.
\<close>

unbundle bit_operations_syntax

section \<open>Loops that do not fail\<close>

lemma run_prefix:
  assumes "P [] s" "\<And>xs x s. prefix (xs @ [x]) es \<Longrightarrow> P xs s \<Longrightarrow> \<exists>s'. f s x = Some s' \<and> P (xs @ [x]) s'"
  shows "\<exists>s'. run f s es = Some s' \<and> P es s'"
proof -
  have "P ys s \<Longrightarrow> ys @ zs = es \<Longrightarrow> \<exists>s'. run f s zs = Some s' \<and> P es s'" for ys zs s
  proof (induction zs arbitrary: ys s)
    case (Cons z zs)
    obtain s' where s': "f s z = Some s'" "P (ys @ [z]) s'"
      using assms(2) [of ys z s] Cons.prems by (auto simp: prefix_def)
    show ?case using Cons.IH [OF s'(2)] Cons.prems(2) s'(1) by simp
  qed simp
  then show ?thesis using assms(1) by fastforce
qed

lemma at_Some [simp]: "i < length xs \<Longrightarrow> at xs i = Some (xs ! i)"
  by (simp add: at_def)

lemma put_Some [simp]: "i < length xs \<Longrightarrow> put xs i x = Some (xs[i := x])"
  by (simp add: put_def)

lemma those_map_Some: "(\<And>x. x \<in> set xs \<Longrightarrow> f x = Some (g x)) \<Longrightarrow> those (map f xs) = Some (map g xs)"
  by (induction xs) auto

section \<open>Where an edge leads, as a partition\<close>

definition target :: "PartitionId list \<Rightarrow> NodeId \<Rightarrow> PartitionId" where
  "target pon i = (case unpack i of Some (NodeIndex n) \<Rightarrow> pon ! n | _ \<Rightarrow> i)"

abbreviation toward :: "Next list \<Rightarrow> PartitionId list \<Rightarrow> NodeIndex \<Rightarrow> u8 \<Rightarrow> PartitionId" where
  "toward ns pon n b \<equiv> target pon (next_get (ns ! n) b)"

lemma PID_FAIL_eq: "PID_FAIL = FAIL"
  by (simp add: PID_FAIL_def FAIL_def)

lemma partition_of_target: "edge_ok (length pon) V i \<Longrightarrow> partition_of pon i = Some (target pon i)"
  by (auto simp: partition_of_def target_def edge_ok_def PID_FAIL_eq pid_from_val_index_def from_val_index_def unpack_ValIndex
      split: option.split UnpackedNodeId.split)

lemma is_nonterminal_node [simp]: "n < 2 ^ 31 \<Longrightarrow> is_nonterminal (of_nat n)"
  unfolding is_nonterminal_def top_bit by (rule bit31_of_nat)

lemma is_nonterminal_terminal:
  assumes "\<And>n. unpack i \<noteq> Some (NodeIndex n)"
  shows "\<not> is_nonterminal i"
proof (cases "i = FAIL")
  case False
  then show ?thesis using assms [of "unat i"] by (auto simp: is_nonterminal_def unpack_def)
qed (simp add: is_nonterminal_def FAIL_def)

lemma unat_of_nat31 [simp]: "n < 2 ^ 31 \<Longrightarrow> unat (of_nat n :: u32) = n"
  by (simp add: unat_of_nat)

lemma of_nat31_eq: "n < 2 ^ 31 \<Longrightarrow> m < 2 ^ 31 \<Longrightarrow> (of_nat n :: u32) = of_nat m \<longleftrightarrow> n = m"
  by (metis unat_of_nat31)

section \<open>Keys\<close>

lemma u8_unat_inj: "unat (b :: u8) = unat c \<longleftrightarrow> b = c"
  by (simp add: word_unat_eq_iff)

lemma sum_list_member: "x \<in> set xs \<Longrightarrow> f x \<subseteq># sum_list (map f xs)"
  by (induction xs) (auto intro: subset_mset.order_trans [OF _ mset_subset_eq_add_right])

text \<open>What the functions on a graph of \<open>N\<close> nodes and \<open>V\<close> values rely on.\<close>

definition graph_ok :: "nat \<Rightarrow> nat \<Rightarrow> Next list \<Rightarrow> PartitionId list \<Rightarrow> bool" where
  "graph_ok N V ns pon \<longleftrightarrow> nodes_ok N V ns \<and> length ns = N \<and> length pon = N"

lemma partition_key_ok:
  assumes "graph_ok N V ns pon" "n < N"
  shows "\<exists>key. compute_partition_key (ns ! n) pon indices = Some key \<and> length key = 256 \<and>
    (\<forall>b. key ! unat b = (if b \<in> set indices then toward ns pon n b else PID_ZERO))"
proof -
  let ?P = "\<lambda>xs key. length key = 256 \<and> (\<forall>b. key ! unat b = (if b \<in> set xs then toward ns pon n b else PID_ZERO))"
  have "\<exists>key. compute_partition_key (ns ! n) pon indices = Some key \<and> ?P indices key"
    unfolding compute_partition_key_def
  proof (rule run_prefix)
    show "?P [] (replicate 256 PID_ZERO)" by simp
  next
    fix xs x key assume P: "?P xs key"
    have "edge_ok (length pon) V (next_get (ns ! n) x)"
      using nodes_okD(2) [of N V ns n x] assms by (simp add: graph_ok_def)
    then have "partition_of pon (next_get (ns ! n) x) = Some (toward ns pon n x)" by (rule partition_of_target)
    then show "\<exists>key'. do { p \<leftarrow> partition_of pon (next_get (ns ! n) x); Some (key[unat x := p]) } = Some key' \<and> ?P (xs @ [x]) key'"
      using P by (auto simp: nth_update_if u8_unat_inj)
  qed
  then show ?thesis by blast
qed

section \<open>Splitting one partition\<close>

definition agree :: "Next list \<Rightarrow> PartitionId list \<Rightarrow> u8 list \<Rightarrow> NodeIndex \<Rightarrow> NodeIndex \<Rightarrow> bool" where
  "agree ns pon indices n m \<longleftrightarrow> (\<forall>b \<in> set indices. toward ns pon n b = toward ns pon m b)"

text \<open>An entry of \<open>pending\<close>: the key is that of its first node, and all its nodes agree before \<open>start\<close>.\<close>

definition entry_ok :: "Next list \<Rightarrow> PartitionId list \<Rightarrow> u8 list \<Rightarrow> pending \<Rightarrow> bool" where
  "entry_ok ns pon indices e \<longleftrightarrow> (case e of (ms, primary, start) \<Rightarrow> ms \<noteq> [] \<and> set ms \<subseteq> {..<length ns} \<and>
     (\<forall>i \<in> set indices. primary ! unat i = toward ns pon (hd ms) i) \<and>
     (\<forall>n \<in> set ms. \<forall>i \<in> set indices. i < start \<longrightarrow> toward ns pon n i = primary ! unat i))"

text \<open>An entry of the map of new partitions, for nodes that first differ from \<open>primary\<close> at \<open>b\<close>.\<close>

definition news_ok :: "Next list \<Rightarrow> PartitionId list \<Rightarrow> u8 list \<Rightarrow> key \<Rightarrow> u8 \<Rightarrow> new_partitions \<Rightarrow> bool" where
  "news_ok ns pon indices primary start news \<longleftrightarrow> (\<forall>((b, p), (key, ms)) \<in> set news. ms \<noteq> [] \<and> set ms \<subseteq> {..<length ns} \<and> b \<in> set indices \<and>
     (\<forall>i \<in> set indices. key ! unat i = toward ns pon (hd ms) i) \<and>
     (\<forall>n \<in> set ms. toward ns pon n b = p \<and> (\<forall>i \<in> set indices. start \<le> i \<longrightarrow> i < b \<longrightarrow> toward ns pon n i = primary ! unat i)))"

lemma news_ok_Cons: "news_ok ns pon indices primary start (e # m) \<longleftrightarrow>
    news_ok ns pon indices primary start [e] \<and> news_ok ns pon indices primary start m"
  by (simp add: news_ok_def)

lemma push_entry_ok:
  assumes "news_ok ns pon indices primary start news" "n < length ns" "b \<in> set indices" "\<forall>i \<in> set indices. key ! unat i = toward ns pon n i"
    "toward ns pon n b = p" "\<forall>i \<in> set indices. start \<le> i \<longrightarrow> i < b \<longrightarrow> toward ns pon n i = primary ! unat i"
  shows "news_ok ns pon indices primary start (push_entry (b, p) key n news)"
  using assms(1)
proof (induction news)
  case Nil
  then show ?case using assms by (simp add: news_ok_def)
next
  case (Cons e m)
  obtain b' p' key' ms where e: "e = ((b', p'), (key', ms))" by (metis prod.exhaust)
  have old: "news_ok ns pon indices primary start [e]" "news_ok ns pon indices primary start m"
    using Cons.prems news_ok_Cons by blast+
  show ?case
  proof (cases "(b', p') = (b, p)")
    case True
    have "news_ok ns pon indices primary start [((b', p'), (key', ms @ [n]))]"
      using old(1) True assms(2-6) by (auto simp: news_ok_def e)
    then show ?thesis using True old(2) news_ok_Cons [where e = "((b', p'), (key', ms @ [n]))" and m = m] by (simp add: e)
  next
    case False
    then have "push_entry (b, p) key n (e # m) = e # push_entry (b, p) key n m" by (auto simp: e)
    then show ?thesis using Cons.IH [OF old(2)] old(1) news_ok_Cons by metis
  qed
qed

definition members :: "new_partitions \<Rightarrow> NodeIndex multiset" where
  "members news = (\<Sum>e \<leftarrow> news. mset (snd (snd e)))"

lemma push_entry_members: "members (push_entry k key n news) = add_mset n (members news)"
  by (induction k key n news rule: push_entry.induct) (auto simp: members_def)

lemma find_first:
  assumes "sorted xs" "find P xs = Some (b :: u8)"
  shows "b \<in> set xs" "P b" "i \<in> set xs \<Longrightarrow> i < b \<Longrightarrow> \<not> P i"
proof -
  obtain k where k: "k < length xs" "b = xs ! k" "P b" "\<forall>j < k. \<not> P (xs ! j)" using assms(2) by (auto simp: find_Some_iff)
  then show "b \<in> set xs" "P b" by simp_all
  assume i: "i \<in> set xs" "i < b"
  then obtain j where j: "j < length xs" "i = xs ! j" by (auto simp: in_set_conv_nth)
  have "\<not> k \<le> j"
  proof
    assume "k \<le> j"
    then have "b \<le> i" using sorted_nth_mono [OF assms(1)] j k(2) by simp
    then show False using i(2) by simp
  qed
  then show "\<not> P i" using k(4) j by simp
qed

text \<open>One node under \<open>retain_mut\<close>.\<close>

definition fits :: "Next list \<Rightarrow> PartitionId list \<Rightarrow> u8 list \<Rightarrow> key \<Rightarrow> u8 \<Rightarrow> NodeIndex \<Rightarrow> bool" where
  "fits ns pon indices primary start n \<longleftrightarrow> (\<forall>i \<in> set indices. start \<le> i \<longrightarrow> primary ! unat i = toward ns pon n i)"

lemma retain_node_ok:
  assumes g: "graph_ok N V ns pon" and s: "sorted indices" and n: "n < N"
    and P: "news_ok ns pon indices primary start news"
  shows "\<exists>kn'. retain_node ns pon indices primary start (kept, news) n = Some kn' \<and>
    (if fits ns pon indices primary start n then kn' = (kept @ [n], news)
     else fst kn' = kept \<and> news_ok ns pon indices primary start (snd kn') \<and> members (snd kn') = add_mset n (members news))"
proof -
  obtain key where key: "compute_partition_key (ns ! n) pon indices = Some key"
    "\<forall>b. key ! unat b = (if b \<in> set indices then toward ns pon n b else PID_ZERO)"
    using partition_key_ok [OF g n, of indices] by blast
  have len: "n < length ns" using g n by (simp add: graph_ok_def)
  let ?D = "\<lambda>i. i \<ge> start \<and> primary ! unat i \<noteq> key ! unat i"
  show ?thesis
  proof (cases "find ?D indices")
    case None
    then have "fits ns pon indices primary start n" using key(2) by (auto simp: find_None_iff fits_def)
    then show ?thesis using len key(1) None by (simp add: retain_node_def)
  next
    case (Some b)
    note first = find_first [OF s Some]
    have "\<not> fits ns pon indices primary start n" using first(1,2) key(2) by (auto simp: fits_def)
    moreover have "news_ok ns pon indices primary start (push_entry (b, key ! unat b) key n news)"
      using P len first key(2) by (intro push_entry_ok) auto
    ultimately show ?thesis using len key(1) Some by (simp add: retain_node_def push_entry_members)
  qed
qed

lemma retain_ok:
  assumes g: "graph_ok N V ns pon" and s: "sorted indices" and e: "entry_ok ns pon indices (ms, primary, start)"
  shows "\<exists>kept news. run (retain_node ns pon indices primary start) ([], []) ms = Some (kept, news) \<and>
    kept \<noteq> [] \<and> (\<forall>n \<in> set kept. \<forall>m \<in> set kept. agree ns pon indices n m) \<and>
    news_ok ns pon indices primary start news \<and> mset kept + members news = mset ms"
proof -
  let ?P = "\<lambda>xs kn. fst kn = filter (fits ns pon indices primary start) xs \<and> news_ok ns pon indices primary start (snd kn) \<and>
    mset (fst kn) + members (snd kn) = mset xs"
  have ms: "set ms \<subseteq> {..<N}" using e g by (auto simp: entry_ok_def graph_ok_def)
  have "\<exists>kn. run (retain_node ns pon indices primary start) ([], []) ms = Some kn \<and> ?P ms kn"
  proof (rule run_prefix)
    show "?P [] ([], [])" by (simp add: news_ok_def members_def)
  next
    fix xs n kn assume p: "prefix (xs @ [n]) ms" and P: "?P xs kn"
    have n: "n < N" using p ms by (auto simp: prefix_def)
    have "news_ok ns pon indices primary start (snd kn)" using P by blast
    from retain_node_ok [OF g s n this, where kept = "fst kn"] obtain kn' where kn': "retain_node ns pon indices primary start kn n = Some kn'"
      "if fits ns pon indices primary start n then kn' = (fst kn @ [n], snd kn)
       else fst kn' = fst kn \<and> news_ok ns pon indices primary start (snd kn') \<and> members (snd kn') = add_mset n (members (snd kn))"
      unfolding prod.collapse by blast
    have P': "fst kn = filter (fits ns pon indices primary start) xs" "news_ok ns pon indices primary start (snd kn)"
      "mset (filter (fits ns pon indices primary start) xs) + members (snd kn) = mset xs" using P by metis+
    have "?P (xs @ [n]) kn'" using kn'(2) P' by (cases "fits ns pon indices primary start n") (simp_all add: P' del: mset_filter)
    then show "\<exists>kn'. retain_node ns pon indices primary start kn n = Some kn' \<and> ?P (xs @ [n]) kn'" using kn'(1) by blast
  qed
  then obtain kept news where r: "run (retain_node ns pon indices primary start) ([], []) ms = Some (kept, news)" "?P ms (kept, news)"
    by auto
  have h: "ms \<noteq> []" "\<forall>i \<in> set indices. primary ! unat i = toward ns pon (hd ms) i"
    "\<forall>n \<in> set ms. \<forall>i \<in> set indices. i < start \<longrightarrow> toward ns pon n i = primary ! unat i"
    using e unfolding entry_ok_def prod.case by blast+
  have "fits ns pon indices primary start (hd ms)" using h(2) by (simp add: fits_def)
  then have "hd ms \<in> set (filter (fits ns pon indices primary start) ms)" unfolding set_filter using h(1) hd_in_set by blast
  moreover have "kept = filter (fits ns pon indices primary start) ms" using r(2) by (simp only: fst_conv)
  ultimately have "hd ms \<in> set kept" by (simp only:)
  then have "kept \<noteq> []" by auto
  moreover have "toward ns pon n i = primary ! unat i" if "n \<in> set kept" "i \<in> set indices" for n i
  proof -
    have "n \<in> set (filter (fits ns pon indices primary start) ms)" using that(1) r(2) by (simp only: fst_conv)
    then have n: "n \<in> set ms" "fits ns pon indices primary start n" unfolding set_filter by blast+
    show ?thesis
    proof (cases "i < start")
      case True
      then show ?thesis using h(3) n(1) that(2) by blast
    next
      case False
      then have "primary ! unat i = toward ns pon n i" using n(2) that(2) unfolding fits_def by (meson not_less)
      then show ?thesis by (rule sym)
    qed
  qed
  then have "\<forall>n \<in> set kept. \<forall>m \<in> set kept. agree ns pon indices n m" by (simp add: agree_def)
  ultimately show ?thesis using r by auto
qed

lemma saturating_succ_less:
  assumes "i < saturating_succ b"
  shows "i \<le> b"
proof (cases "b = 0xff")
  case True
  then have "unat b = 255" by simp
  then show ?thesis using unat_u8_less [of i] unfolding word_le_nat_alt by linarith
next
  case False
  then have "unat b \<noteq> 255" by (simp add: word_unat_eq_iff)
  then have "unat b < 255" using unat_u8_less [of b] by linarith
  then have "unat (b + 1) = unat b + 1" by (simp add: unat_word_ariths)
  then show ?thesis using assms False by (simp add: saturating_succ_def word_less_nat_alt word_le_nat_alt)
qed

lemma new_entry_ok:
  assumes "news_ok ns pon indices primary start news" "((b, p), (key, ms)) \<in> set news"
    "\<forall>n \<in> set ms. \<forall>i \<in> set indices. i < start \<longrightarrow> toward ns pon n i = primary ! unat i"
  shows "entry_ok ns pon indices (ms, key, saturating_succ b)"
proof -
  have n: "ms \<noteq> []" "set ms \<subseteq> {..<length ns}" "b \<in> set indices" "\<forall>i \<in> set indices. key ! unat i = toward ns pon (hd ms) i"
    "\<forall>n \<in> set ms. toward ns pon n b = p \<and> (\<forall>i \<in> set indices. start \<le> i \<longrightarrow> i < b \<longrightarrow> toward ns pon n i = primary ! unat i)"
    using assms(1,2) by (auto simp: news_ok_def)
  have same: "toward ns pon n i = toward ns pon (hd ms) i" if "n \<in> set ms" "i \<in> set indices" "i \<le> b" for n i
  proof (cases "i = b")
    case True
    then show ?thesis using n(1,5) that by simp
  next
    case False
    then have "i < b" using that(3) by simp
    then show ?thesis using n(1,5) assms(3) that by (cases "i < start") (simp_all add: not_less)
  qed
  have "toward ns pon n i = key ! unat i" if "n \<in> set ms" "i \<in> set indices" "i < saturating_succ b" for n i
    using same [OF that(1,2) saturating_succ_less [OF that(3)]] n(4) that(2) by simp
  then show ?thesis unfolding entry_ok_def prod.case using n(1,2,4) by blast
qed

definition pending_members :: "pending list \<Rightarrow> NodeIndex multiset" where
  "pending_members ps = (\<Sum>e \<leftarrow> ps. mset (fst e))"

definition pieces_members :: "Partition list \<Rightarrow> NodeIndex multiset" where
  "pieces_members ps = (\<Sum>p \<leftarrow> ps. mset (pnodes p))"

lemma members_append:
  "pending_members (ps @ qs) = pending_members ps + pending_members qs" "pieces_members (xs @ ys) = pieces_members xs + pieces_members ys"
  by (simp_all add: pending_members_def pieces_members_def)

definition piece_ok :: "Next list \<Rightarrow> PartitionId list \<Rightarrow> u8 list \<Rightarrow> nat \<Rightarrow> Partition \<Rightarrow> bool" where
  "piece_ok ns pon indices tick p \<longleftrightarrow> last_update p = tick \<and> pnodes p \<noteq> [] \<and>
     (\<forall>n \<in> set (pnodes p). \<forall>m \<in> set (pnodes p). agree ns pon indices n m)"

text \<open>The order in which a map iterates is some order of its entries.\<close>

definition order_ok :: "map_order \<Rightarrow> bool" where
  "order_ok ord \<longleftrightarrow> (\<forall>m. mset (ord m) = mset m)"

lemma sum_list_order: "mset xs = mset ys \<Longrightarrow> sum_list (map f xs) = sum_list (map f ys)" for f :: "'a \<Rightarrow> 'b multiset"
  by (metis mset_map sum_mset_sum_list)

lemma split_pending_ok:
  assumes g: "graph_ok N V ns pon" and s: "sorted indices" and o: "order_ok ord" and e: "entry_ok ns pon indices e"
  shows "\<exists>p new. split_pending ord ns pon indices tick rp e = Some (fst rp @ [p], snd rp @ new) \<and> piece_ok ns pon indices tick p \<and>
    (\<forall>f \<in> set new. entry_ok ns pon indices f) \<and> mset (pnodes p) + pending_members new = mset (fst e)"
proof -
  obtain ms primary start where e': "e = (ms, primary, start)" by (metis prod.exhaust)
  obtain kept news where r: "run (retain_node ns pon indices primary start) ([], []) ms = Some (kept, news)"
    "kept \<noteq> []" "\<forall>n \<in> set kept. \<forall>m \<in> set kept. agree ns pon indices n m" "news_ok ns pon indices primary start news"
    "mset kept + members news = mset ms"
    using retain_ok [OF g s e [unfolded e']] by blast
  define entry where "entry = (\<lambda>((b, _ :: PartitionId), (key, ms)). (ms, key, saturating_succ b) :: pending)"
  have set: "set (ord news) = set news" using o by (metis order_ok_def set_mset_mset)
  have sub: "set (snd (snd x)) \<subseteq> set ms" if "x \<in> set news" for x
  proof -
    have "set_mset (members news) \<subseteq> set ms" using r(5) by (metis mset_subset_eq_add_right set_mset_mono set_mset_mset)
    moreover have "set (snd (snd x)) \<subseteq> set_mset (members news)"
      using set_mset_mono [OF sum_list_member [OF that, of "\<lambda>e. mset (snd (snd e))"]] by (simp add: members_def)
    ultimately show ?thesis by blast
  qed
  have start: "\<forall>n \<in> set ms. \<forall>i \<in> set indices. i < start \<longrightarrow> toward ns pon n i = primary ! unat i"
    using e unfolding entry_ok_def e' prod.case by blast
  have "entry_ok ns pon indices (entry x)" if "x \<in> set news" for x
  proof -
    obtain b p key us where x: "x = ((b, p), (key, us))" by (metis prod.exhaust)
    show ?thesis
      using new_entry_ok [OF r(4) that [unfolded x]] sub [OF that] start by (auto simp: entry_def x)
  qed
  then have new: "\<forall>f \<in> set (map entry (ord news)). entry_ok ns pon indices f" using set by auto
  have "map (\<lambda>e. mset (fst e)) (map entry (ord news)) = map (\<lambda>e. mset (snd (snd e))) (ord news)"
    by (auto simp: entry_def)
  then have "pending_members (map entry (ord news)) = members (ord news)" by (simp only: pending_members_def members_def)
  also have "\<dots> = members news" unfolding members_def by (rule sum_list_order) (use o in \<open>simp add: order_ok_def\<close>)
  finally show ?thesis
    using r new
    by (intro exI [of _ "\<lparr>last_update = tick, pnodes = kept\<rparr>"] exI [of _ "map entry (ord news)"])
      (simp add: split_pending_def e' piece_ok_def entry_def)
qed

lemma split_pass_ok:
  assumes g: "graph_ok N V ns pon" and s: "sorted indices" and o: "order_ok ord" and e: "\<forall>e \<in> set ps. entry_ok ns pon indices e"
  shows "\<exists>pieces new. run (split_pending ord ns pon indices tick) (result, []) ps = Some (result @ pieces, new) \<and>
    length pieces = length ps \<and> (\<forall>p \<in> set pieces. piece_ok ns pon indices tick p) \<and> (\<forall>f \<in> set new. entry_ok ns pon indices f) \<and>
    pieces_members pieces + pending_members new = pending_members ps"
proof -
  let ?P = "\<lambda>xs st. \<exists>pieces. fst st = result @ pieces \<and> length pieces = length xs \<and> (\<forall>p \<in> set pieces. piece_ok ns pon indices tick p) \<and>
    (\<forall>f \<in> set (snd st). entry_ok ns pon indices f) \<and> pieces_members pieces + pending_members (snd st) = pending_members xs"
  have "\<exists>st. run (split_pending ord ns pon indices tick) (result, []) ps = Some st \<and> ?P ps st"
  proof (rule run_prefix)
    show "?P [] (result, [])" by (simp add: pieces_members_def pending_members_def)
  next
    fix xs x st assume "prefix (xs @ [x]) ps" and P: "?P xs st"
    then have "entry_ok ns pon indices x" using e by (auto simp: prefix_def)
    then obtain p new where p: "split_pending ord ns pon indices tick st x = Some (fst st @ [p], snd st @ new)" "piece_ok ns pon indices tick p"
      "\<forall>f \<in> set new. entry_ok ns pon indices f" "mset (pnodes p) + pending_members new = mset (fst x)"
      using split_pending_ok [OF g s o] by blast
    obtain pieces where pieces: "fst st = result @ pieces" "length pieces = length xs" "\<forall>p \<in> set pieces. piece_ok ns pon indices tick p"
      "\<forall>f \<in> set (snd st). entry_ok ns pon indices f" "pieces_members pieces + pending_members (snd st) = pending_members xs" using P by blast
    have "pieces_members (pieces @ [p]) + pending_members (snd st @ new) = pending_members (xs @ [x])"
      unfolding members_append pieces(5) [symmetric] p(4) [symmetric] by (simp add: ac_simps pieces_members_def pending_members_def flip: p(4))
    then have "?P (xs @ [x]) (fst st @ [p], snd st @ new)"
      using p pieces by (intro exI [of _ "pieces @ [p]"]) auto
    then show "\<exists>st'. split_pending ord ns pon indices tick st x = Some st' \<and> ?P (xs @ [x]) st'" using p(1) by blast
  qed
  then show ?thesis by (metis prod.collapse)
qed

lemma split_loop_ok:
  assumes g: "graph_ok N V ns pon" and s: "sorted indices" and o: "order_ok ord"
  shows "\<forall>e \<in> set ps. entry_ok ns pon indices e \<Longrightarrow>
    \<exists>pieces. split_loop ord ns pon indices tick result ps = Some (result @ pieces) \<and> length ps \<le> length pieces \<and>
      (\<forall>p \<in> set pieces. piece_ok ns pon indices tick p) \<and> pieces_members pieces = pending_members ps"
proof (induction "size (pending_members ps)" arbitrary: ps result rule: less_induct)
  case less
  show ?case
  proof (cases "ps = []")
    case True
    then show ?thesis by (subst split_loop.simps) (simp add: pieces_members_def pending_members_def)
  next
    case False
    obtain pieces new where pass: "run (split_pending ord ns pon indices tick) (result, []) ps = Some (result @ pieces, new)"
      "length pieces = length ps" "\<forall>p \<in> set pieces. piece_ok ns pon indices tick p" "\<forall>f \<in> set new. entry_ok ns pon indices f"
      "pieces_members pieces + pending_members new = pending_members ps"
      using split_pass_ok [OF g s o less.prems] by blast
    obtain q where "q \<in> set pieces" using pass(2) False by (cases pieces) auto
    then have "mset (pnodes q) \<subseteq># pieces_members pieces" "pnodes q \<noteq> []"
      using pass(3) sum_list_member [of q pieces "\<lambda>p. mset (pnodes p)"] by (simp_all add: pieces_members_def piece_ok_def)
    then have "pieces_members pieces \<noteq> {#}" by auto
    then have "size (pending_members new) < size (pending_members ps)"
      using pass(5) by (metis add.commute less_add_same_cancel1 nonempty_has_size size_union)
    from less.hyps [OF this pass(4)] obtain more where
      "split_loop ord ns pon indices tick (result @ pieces) new = Some ((result @ pieces) @ more)"
      "\<forall>p \<in> set more. piece_ok ns pon indices tick p" "pieces_members more = pending_members new" by blast
    then show ?thesis
      using pass False by (subst split_loop.simps) (auto simp: pieces_members_def intro!: exI [of _ "pieces @ more"])
  qed
qed

end
