(* ===== verification/Map_Rounds.thy ===== *)
theory Map_Rounds
  imports Map_Split
begin

text \<open>
  The rounds of the partitioning. The invariant: every reachable node is in the one partition that it is
  recorded with, and two nodes of a partition lead to the same partition for a byte, unless the
  partitions they lead to were touched since their own partition was last checked. A round that splits
  nothing shows that no such byte is left.
\<close>

unbundle bit_operations_syntax

section \<open>Partitions and the nodes they hold\<close>

definition parts_ok :: "NodeIndex set \<Rightarrow> Next list \<Rightarrow> Partition list \<Rightarrow> PartitionId list \<Rightarrow> bool" where
  "parts_ok R ns parts pon \<longleftrightarrow> length pon = length ns \<and> R \<subseteq> {..<length ns} \<and>
     (\<forall>n < length ns. n \<notin> R \<longrightarrow> pon ! n = UNREACHABLE) \<and>
     (\<forall>i < length parts. pnodes (parts ! i) \<noteq> [] \<and> (\<forall>n \<in> set (pnodes (parts ! i)). pon ! n = of_nat i)) \<and>
     set (concat (map pnodes parts)) = R \<and> distinct (concat (map pnodes parts))"

definition successors_in :: "NodeIndex set \<Rightarrow> Next list \<Rightarrow> bool" where
  "successors_in R ns \<longleftrightarrow> (\<forall>n \<in> R. successors (ns ! n) \<subseteq> R)"

lemma length_concat_nonempty: "\<forall>x \<in> set xss. x \<noteq> [] \<Longrightarrow> length xss \<le> length (concat xss)"
proof (induction xss)
  case (Cons x xss)
  then show ?case by (cases x) auto
qed simp

lemma parts_few:
  assumes "parts_ok R ns parts pon"
  shows "length parts \<le> length ns"
proof -
  have "\<forall>x \<in> set (map pnodes parts). x \<noteq> []" using assms by (auto simp: parts_ok_def in_set_conv_nth)
  then have "length parts \<le> length (concat (map pnodes parts))" using length_concat_nonempty by fastforce
  also have "\<dots> = card R" using assms distinct_card by (fastforce simp: parts_ok_def)
  also have "\<dots> \<le> length ns" using assms card_mono [of "{..<length ns}" R] by (simp add: parts_ok_def)
  finally show ?thesis .
qed

lemma part_of_node:
  assumes "parts_ok R ns parts pon" "n \<in> R"
  obtains i where "i < length parts" "n \<in> set (pnodes (parts ! i))" "pon ! n = of_nat i"
proof -
  have "n \<in> set (concat (map pnodes parts))" using assms by (simp add: parts_ok_def)
  then obtain p where "p \<in> set parts" "n \<in> set (pnodes p)" by auto
  then obtain i where "i < length parts" "n \<in> set (pnodes (parts ! i))" by (metis in_set_conv_nth)
  then show thesis using that assms(1) by (auto simp: parts_ok_def)
qed

lemma in_part_iff:
  assumes ok: "parts_ok R ns parts pon" and N: "length ns \<le> 2 ^ 31" and i: "i < length parts"
  shows "n \<in> set (pnodes (parts ! i)) \<longleftrightarrow> n \<in> R \<and> pon ! n = of_nat i"
proof
  assume n: "n \<in> set (pnodes (parts ! i))"
  have "parts ! i \<in> set parts" using i by simp
  then have "n \<in> set (concat (map pnodes parts))" using n by auto
  moreover have "set (concat (map pnodes parts)) = R" using ok unfolding parts_ok_def by blast
  ultimately have "n \<in> R" by (simp only:)
  then show "n \<in> R \<and> pon ! n = of_nat i" using ok n i by (simp add: parts_ok_def)
next
  assume n: "n \<in> R \<and> pon ! n = of_nat i"
  obtain j where j: "j < length parts" "n \<in> set (pnodes (parts ! j))" "pon ! n = of_nat j"
    using part_of_node [OF ok] n by blast
  have "i < 2 ^ 31" "j < 2 ^ 31" using parts_few [OF ok] N i j(1) by linarith+
  then show "n \<in> set (pnodes (parts ! i))" using j n of_nat31_eq [of i j] by simp
qed

lemma successor_edge: "unpack (next_get nx b) = Some (NodeIndex m) \<Longrightarrow> length nx = 256 \<Longrightarrow> m \<in> successors nx"
  unfolding successors_def next_get_def using unat_u8_less [of b] by (auto intro!: bexI [of _ "nx ! unat b"])

text \<open>An edge of a reachable node leads to a partition, or it is terminal and stands for itself.\<close>

lemma toward_cases:
  assumes ok: "parts_ok R ns parts pon" and g: "graph_ok N V ns pon" and N: "N \<le> 2 ^ 31" and R: "successors_in R ns" and n: "n \<in> R"
  obtains (node) m k where "unpack (next_get (ns ! n) b) = Some (NodeIndex m)" "m \<in> R" "k < length parts" "toward ns pon n b = of_nat k"
      "pon ! m = of_nat k" "is_nonterminal (toward ns pon n b)"
  | (terminal) "\<forall>m. unpack (next_get (ns ! n) b) \<noteq> Some (NodeIndex m)" "toward ns pon n b = next_get (ns ! n) b"
      "\<not> is_nonterminal (toward ns pon n b)"
proof (cases "\<exists>m. unpack (next_get (ns ! n) b) = Some (NodeIndex m)")
  case True
  then obtain m where m: "unpack (next_get (ns ! n) b) = Some (NodeIndex m)" by blast
  have len: "n < length ns" using ok n by (auto simp: parts_ok_def)
  then have "length (ns ! n) = 256" using g nodes_okD(1) by (auto simp: graph_ok_def)
  then have "m \<in> R" using successor_edge [OF m] R n by (auto simp: successors_in_def)
  moreover from this obtain k where k: "k < length parts" "m \<in> set (pnodes (parts ! k))" "pon ! m = of_nat k" by (rule part_of_node [OF ok])
  moreover have "k < 2 ^ 31" using k(1) parts_few [OF ok] N g by (simp add: graph_ok_def)
  ultimately show thesis using node [of m k] m by (simp add: target_def)
next
  case False
  then have "toward ns pon n b = next_get (ns ! n) b" by (auto simp: target_def split: option.split UnpackedNodeId.split)
  then show thesis using terminal False is_nonterminal_terminal [of "next_get (ns ! n) b"] by metis
qed

section \<open>One partition in a round\<close>

text \<open>Whether a byte is compared, for a partition whose first node leads to \<open>p\<close>.\<close>

definition needed :: "Partition list \<Rightarrow> Partition \<Rightarrow> bool \<Rightarrow> PartitionId \<Rightarrow> bool" where
  "needed all cur check p \<longleftrightarrow> check \<or> is_nonterminal p \<and> last_update (all ! unat p) \<ge> last_update cur"

lemma all_bytes_all: "b \<in> set all_bytes"
proof -
  have "b = all_bytes ! unat b" using unat_u8_less [of b] by simp
  then show ?thesis using unat_u8_less [of b] nth_mem [of "unat b" all_bytes] by simp
qed

lemma sorted_all_bytes: "sorted all_bytes"
  by (auto simp: sorted_iff_nth_mono_less word_le_nat_alt unat_of_nat)

lemma list_from_bytes: "length xs = 256 \<Longrightarrow> xs = map (\<lambda>b. xs ! unat b) all_bytes"
  by (auto simp: list_eq_iff_nth_eq unat_of_nat)

text \<open>What splitting a partition gives: its nodes again, in parts that agree on the compared bytes.\<close>

definition split_of :: "Next list \<Rightarrow> PartitionId list \<Rightarrow> Partition list \<Rightarrow> nat \<Rightarrow> bool \<Rightarrow> Partition \<Rightarrow> Partition list \<Rightarrow> bool" where
  "split_of ns pon parts tick check cur result \<longleftrightarrow> result \<noteq> [] \<and> pieces_members result = mset (pnodes cur) \<and>
     (1 < length result \<longrightarrow> (\<forall>p \<in> set result. last_update p = tick)) \<and>
     (\<forall>p \<in> set result. pnodes p \<noteq> [] \<and> (\<forall>n \<in> set (pnodes p). \<forall>m \<in> set (pnodes p). \<forall>b.
        needed parts cur check (toward ns pon (hd (pnodes cur)) b) \<longrightarrow> toward ns pon n b = toward ns pon m b))"

lemma split_partitions_ok:
  assumes ok: "parts_ok R ns parts pon" and g: "graph_ok N V ns pon" and N: "N \<le> 2 ^ 31" and R: "successors_in R ns"
    and o: "order_ok ord" and i: "i < length parts"
  shows "\<exists>result. split_partitions ord ns pon (parts ! i) parts tick check = Some result \<and> split_of ns pon parts tick check (parts ! i) result"
proof -
  let ?cur = "parts ! i"
  obtain n rest where cur: "pnodes ?cur = n # rest" using ok i by (cases "pnodes ?cur") (auto simp: parts_ok_def)
  have nR: "m \<in> R" if "m \<in> set (pnodes ?cur)" for m
    using in_part_iff [OF ok _ i] N g that by (simp add: graph_ok_def)
  have n: "n \<in> R" using nR cur by simp
  have len: "n < N" "length ns = N" using ok n g by (auto simp: parts_ok_def graph_ok_def)
  obtain key where key: "compute_partition_key (ns ! n) pon all_bytes = Some key" "length key = 256"
    "\<forall>b. key ! unat b = toward ns pon n b"
    using partition_key_ok [OF g len(1), of all_bytes] all_bytes_all by auto
  let ?need = "needed parts ?cur check"
  have "needs_update parts ?cur check p = Some (?need p)" if p: "p \<in> set key" for p
  proof -
    obtain b where b: "p = toward ns pon n b" using p list_from_bytes [OF key(2)] key(3) by auto
    show ?thesis
    proof (rule toward_cases [OF ok g N R n, of b])
      fix m k assume "k < length parts" "toward ns pon n b = of_nat k"
      moreover from this have "k < 2 ^ 31" using parts_few [OF ok] N len by linarith
      ultimately show ?thesis by (simp add: needs_update_def needed_def b)
    next
      assume "\<not> is_nonterminal (toward ns pon n b)"
      then show ?thesis by (simp add: needs_update_def needed_def b)
    qed
  qed
  then have th: "those (map (needs_update parts ?cur check) key) = Some (map ?need key)" by (rule those_map_Some)
  define indices where "indices = filter (\<lambda>b. map ?need key ! unat b) all_bytes"
  have mem: "b \<in> set indices \<longleftrightarrow> ?need (toward ns pon n b)" for b
    using key(2,3) by (simp add: indices_def all_bytes_all)
  have sorted: "sorted indices" unfolding indices_def by (rule sorted_wrt_filter) (rule sorted_all_bytes)
  have step: "split_partitions ord ns pon ?cur parts tick check =
      (if indices = [] then Some [?cur] else split_loop ord ns pon indices tick [] [(pnodes ?cur, key, 0)])"
    using len key(1) th cur by (simp add: split_partitions_def indices_def)
  show ?thesis
  proof (cases "indices = []")
    case True
    then have "\<not> ?need (toward ns pon n b)" for b using mem [of b] by simp
    then show ?thesis using step True cur by (simp add: split_of_def pieces_members_def)
  next
    case False
    have "set (pnodes ?cur) \<subseteq> {..<length ns}" using nR ok by (auto simp: parts_ok_def)
    then have "entry_ok ns pon indices (pnodes ?cur, key, 0)"
      using key(3) cur by (simp add: entry_ok_def)
    then obtain pieces where p: "split_loop ord ns pon indices tick [] [(pnodes ?cur, key, 0)] = Some pieces"
      "1 \<le> length pieces" "\<forall>p \<in> set pieces. piece_ok ns pon indices tick p" "pieces_members pieces = mset (pnodes ?cur)"
      using split_loop_ok [OF g sorted o, of "[(pnodes ?cur, key, 0)]" tick "[]"] by (auto simp: pending_members_def)
    have "pnodes q \<noteq> [] \<and> (\<forall>u \<in> set (pnodes q). \<forall>m \<in> set (pnodes q). \<forall>b. ?need (toward ns pon (hd (pnodes ?cur)) b) \<longrightarrow>
        toward ns pon u b = toward ns pon m b)" if "q \<in> set pieces" for q
      using p(3) that unfolding piece_ok_def agree_def cur list.sel(1) mem [symmetric] by blast
    moreover have "pieces \<noteq> []" using p(2) by auto
    ultimately have "split_of ns pon parts tick check ?cur pieces" using p(3,4) unfolding split_of_def piece_ok_def by blast
    then show ?thesis using step False p(1) by simp
  qed
qed

section \<open>Putting the parts in place\<close>

lemma put_all:
  "set ms \<subseteq> {..<length pon} \<Longrightarrow> \<exists>pon'. run (\<lambda>pon n. put pon n pid) pon ms = Some pon' \<and> length pon' = length pon \<and>
     (\<forall>n. pon' ! n = (if n \<in> set ms then pid else pon ! n))"
proof (induction ms arbitrary: pon)
  case (Cons m ms)
  have m: "m < length pon" using Cons.prems by simp
  have "set ms \<subseteq> {..<length (pon[m := pid])}" using Cons.prems by simp
  from Cons.IH [OF this] obtain pon' where "run (\<lambda>pon n. put pon n pid) (pon[m := pid]) ms = Some pon'" "length pon' = length (pon[m := pid])"
    "\<forall>n. pon' ! n = (if n \<in> set ms then pid else pon[m := pid] ! n)" by blast
  then show ?case using m by (auto simp: nth_update_if)
qed simp

lemma add_partitions:
  "length parts + length ps \<le> 2 ^ 31 \<Longrightarrow> \<forall>p \<in> set ps. set (pnodes p) \<subseteq> {..<length pon} \<Longrightarrow> distinct (concat (map pnodes ps)) \<Longrightarrow>
    \<exists>pon'. run add_partition (parts, pon) ps = Some (parts @ ps, pon') \<and> length pon' = length pon \<and>
      (\<forall>j < length ps. \<forall>n \<in> set (pnodes (ps ! j)). pon' ! n = of_nat (length parts + j)) \<and>
      (\<forall>n. n \<notin> set (concat (map pnodes ps)) \<longrightarrow> pon' ! n = pon ! n)"
proof (induction ps arbitrary: parts pon)
  case (Cons p ps)
  have "set (pnodes p) \<subseteq> {..<length pon}" using Cons.prems(2) by simp
  from put_all [OF this, of "of_nat (length parts)"] obtain pon1 where
    pon1: "run (\<lambda>pon n. put pon n (of_nat (length parts))) pon (pnodes p) = Some pon1" "length pon1 = length pon"
      "\<forall>n. pon1 ! n = (if n \<in> set (pnodes p) then of_nat (length parts) else pon ! n)" by blast
  have new: "length parts < 2 ^ 31" using Cons.prems(1) by simp
  have step: "add_partition (parts, pon) p = Some (parts @ [p], pon1)"
    using new pon1(1) by (simp add: add_partition_def pid_from_usize_def)
  have prems: "length (parts @ [p]) + length ps \<le> 2 ^ 31" "\<forall>p \<in> set ps. set (pnodes p) \<subseteq> {..<length pon1}" "distinct (concat (map pnodes ps))"
    using Cons.prems pon1(2) by simp_all
  from Cons.IH [OF prems] obtain pon' where pon': "run add_partition (parts @ [p], pon1) ps = Some ((parts @ [p]) @ ps, pon')"
    "length pon' = length pon1" "\<forall>j < length ps. \<forall>n \<in> set (pnodes (ps ! j)). pon' ! n = of_nat (length (parts @ [p]) + j)"
    "\<forall>n. n \<notin> set (concat (map pnodes ps)) \<longrightarrow> pon' ! n = pon1 ! n" by blast
  have disj: "n \<notin> set (concat (map pnodes ps))" if "n \<in> set (pnodes p)" for n using Cons.prems(3) that by auto
  have "pon' ! n = of_nat (length parts + j)" if "j < length (p # ps)" "n \<in> set (pnodes ((p # ps) ! j))" for j n
  proof (cases j)
    case 0
    then show ?thesis using that pon'(4) disj [of n] pon1(3) by simp
  next
    case (Suc k)
    then show ?thesis using that pon'(3) by simp
  qed
  moreover have "pon' ! n = pon ! n" if "n \<notin> set (concat (map pnodes (p # ps)))" for n
    using that pon'(4) pon1(3) by simp
  ultimately show ?case using step pon'(1,2) pon1(2) by simp
qed simp

lemma members_concat: "pieces_members ps = mset (concat (map pnodes ps))"
  by (simp add: pieces_members_def mset_concat comp_def)

lemma members_update: "i < length ps \<Longrightarrow> pieces_members (ps[i := p]) + mset (pnodes (ps ! i)) = pieces_members ps + mset (pnodes p)"
proof -
  assume i: "i < length ps"
  have "ps = take i ps @ ps ! i # drop (Suc i) ps" by (rule id_take_nth_drop [OF i])
  then have "pieces_members ps = pieces_members (take i ps) + (mset (pnodes (ps ! i)) + pieces_members (drop (Suc i) ps))"
    by (metis (no_types, lifting) list.simps(9) members_append(2) pieces_members_def sum_list.Cons)
  moreover have "pieces_members (ps[i := p]) = pieces_members (take i ps) + (mset (pnodes p) + pieces_members (drop (Suc i) ps))"
    by (simp add: upd_conv_take_nth_drop [OF i] members_append) (simp add: pieces_members_def)
  ultimately show ?thesis by simp
qed

lemma apply_split_ok:
  fixes tick :: nat
  assumes ok: "parts_ok R ns parts pon" and N: "length ns \<le> 2 ^ 31" and i: "i < length parts"
    and r: "result \<noteq> []" "pieces_members result = mset (pnodes (parts ! i))" "\<forall>p \<in> set result. pnodes p \<noteq> []"
  defines "parts' \<equiv> parts[i := \<lparr>last_update = tick, pnodes = pnodes (last result)\<rparr>] @ butlast result"
  shows "\<exists>pon'. apply_split tick (parts, pon) (of_nat i, result) = Some (parts', pon') \<and> parts_ok R ns parts' pon'"
proof -
  let ?l = "\<lparr>last_update = tick, pnodes = pnodes (last result)\<rparr>"
  have R: "set (concat (map pnodes parts)) = R" "distinct (concat (map pnodes parts))" "R \<subseteq> {..<length ns}" "length pon = length ns"
    "\<forall>n < length ns. n \<notin> R \<longrightarrow> pon ! n = UNREACHABLE"
    using ok unfolding parts_ok_def by blast+
  have small: "i < 2 ^ 31" using i parts_few [OF ok] N by linarith
  have res: "result = butlast result @ [last result]" using r(1) by simp
  have "mset (pnodes (parts ! i)) = pieces_members (butlast result) + mset (pnodes (last result))"
    unfolding r(2) [symmetric] by (subst res) (simp only: members_append, simp add: pieces_members_def)
  then have "(pieces_members (parts[i := ?l]) + pieces_members (butlast result)) + mset (pnodes (last result)) =
      pieces_members parts + mset (pnodes (last result))"
    using members_update [OF i, of ?l] by (simp add: ac_simps)
  then have same: "pieces_members parts' = pieces_members parts" unfolding parts'_def members_append by simp
  then have mset: "mset (concat (map pnodes parts')) = mset (concat (map pnodes parts))" by (simp only: members_concat)
  then have set': "set (concat (map pnodes parts')) = R" "distinct (concat (map pnodes parts'))"
    using R(1,2) mset_eq_setD mset_eq_imp_distinct_iff by (metis, blast)
  have ne: "pnodes p \<noteq> []" if "p \<in> set parts'" for p
  proof -
    have "p \<in> set parts \<or> p = ?l \<or> p \<in> set result"
      using that set_update_subset_insert [of parts i ?l] by (auto simp: parts'_def dest: in_set_butlastD)
    moreover have "\<forall>q \<in> set parts. pnodes q \<noteq> []" using ok unfolding parts_ok_def by (metis in_set_conv_nth)
    moreover have "pnodes ?l \<noteq> []" using r(1,3) by simp
    ultimately show ?thesis using r(3) by metis
  qed
  have "length parts' \<le> length (concat (map pnodes parts'))" using length_concat_nonempty [of "map pnodes parts'"] ne by auto
  also have "\<dots> = card R" using set' distinct_card by fastforce
  also have "\<dots> \<le> length ns" using card_mono [of "{..<length ns}" R] R(3) by simp
  finally have len: "length parts' \<le> 2 ^ 31" using N by linarith
  let ?parts1 = "parts[i := ?l]"
  have c: "concat (map pnodes parts') = concat (map pnodes ?parts1) @ concat (map pnodes (butlast result))" by (simp add: parts'_def)
  have "set (concat (map pnodes (butlast result))) \<subseteq> {..<length pon}" using set'(1) R(3,4) unfolding c by auto
  then have "\<forall>p \<in> set (butlast result). set (pnodes p) \<subseteq> {..<length pon}" by auto
  moreover have "length ?parts1 + length (butlast result) \<le> 2 ^ 31" using len by (simp add: parts'_def)
  moreover have "distinct (concat (map pnodes (butlast result)))" using set'(2) unfolding c by simp
  ultimately obtain pon' where pon': "run add_partition (?parts1, pon) (butlast result) = Some (parts', pon')" "length pon' = length pon"
    "\<forall>j < length (butlast result). \<forall>n \<in> set (pnodes (butlast result ! j)). pon' ! n = of_nat (length ?parts1 + j)"
    "\<forall>n. n \<notin> set (concat (map pnodes (butlast result))) \<longrightarrow> pon' ! n = pon ! n"
    using add_partitions [of ?parts1 "butlast result" pon] unfolding parts'_def by blast
  have idx: "pon' ! n = of_nat j" if j: "j < length parts'" "n \<in> set (pnodes (parts' ! j))" for j n
  proof (cases "j < length parts")
    case True
    then have p: "parts' ! j = ?parts1 ! j" by (simp add: parts'_def nth_append)
    have "?parts1 ! j \<in> set ?parts1" using True by simp
    then have "n \<in> set (concat (map pnodes ?parts1))" using j(2) p by auto
    then have "n \<notin> set (concat (map pnodes (butlast result)))" using set'(2) unfolding c distinct_append by blast
    then have keep: "pon' ! n = pon ! n" using pon'(4) by blast
    have "n \<in> set (pnodes (parts ! j))"
    proof (cases "j = i")
      case True
      have "last result \<in> set result" using r(1) by simp
      then have "mset (pnodes (last result)) \<subseteq># mset (pnodes (parts ! i))"
        using sum_list_member [of "last result" result "\<lambda>p. mset (pnodes p)"] unfolding r(2) [symmetric] pieces_members_def by blast
      then have "set (pnodes (last result)) \<subseteq> set (pnodes (parts ! i))" using set_mset_mono set_mset_mset by metis
      then show ?thesis using j(2) p True i by auto
    next
      case False
      then show ?thesis using j(2) p by simp
    qed
    then show ?thesis using keep ok True by (simp add: parts_ok_def)
  next
    case False
    then have "parts' ! j = butlast result ! (j - length parts)" "j - length parts < length (butlast result)"
      using j(1) by (auto simp: parts'_def nth_append)
    then show ?thesis using pon'(3) j(2) False by (metis le_add_diff_inverse length_list_update not_less)
  qed
  have out: "pon' ! n = UNREACHABLE" if "n < length ns" "n \<notin> R" for n
  proof -
    have "n \<notin> set (concat (map pnodes (butlast result)))" using that(2) set'(1) unfolding c by auto
    then show ?thesis using pon'(4) R(5) that by metis
  qed
  have "parts_ok R ns parts' pon'"
    using pon'(2) R(3,4) set' idx out ne unfolding parts_ok_def by (auto simp: nth_mem)
  moreover have "apply_split tick (parts, pon) (of_nat i, result) = Some (parts', pon')"
    using small i r(1) pon'(1) by (simp add: apply_split_def)
  ultimately show ?thesis by blast
qed

end
