(* ===== verification/Map_Stable.thy ===== *)
theory Map_Stable
  imports Map_Rounds
begin

text \<open>
  The rounds end, and what they end with is stable: two nodes of a partition lead to the same partition
  for every byte. So nodes of one partition behave alike, whatever the hash and the map order.
\<close>

unbundle bit_operations_syntax

lemma run_append: "run f s (xs @ ys) = (case run f s xs of None \<Rightarrow> None | Some s' \<Rightarrow> run f s' ys)"
  by (induction xs arbitrary: s) (auto split: option.split)

section \<open>The invariant between rounds\<close>

text \<open>An edge leads to a partition that was touched at \<open>t\<close> or later.\<close>

definition touched :: "Partition list \<Rightarrow> nat \<Rightarrow> PartitionId \<Rightarrow> bool" where
  "touched parts t p \<longleftrightarrow> is_nonterminal p \<and> last_update (parts ! unat p) \<ge> t"

definition almost_stable :: "Next list \<Rightarrow> Partition list \<Rightarrow> PartitionId list \<Rightarrow> bool" where
  "almost_stable ns parts pon \<longleftrightarrow> (\<forall>p \<in> set parts. \<forall>n \<in> set (pnodes p). \<forall>m \<in> set (pnodes p). \<forall>b.
     toward ns pon n b = toward ns pon m b \<or>
     touched parts (last_update p) (toward ns pon n b) \<and> touched parts (last_update p) (toward ns pon m b))"

definition agree_all :: "Next list \<Rightarrow> PartitionId list \<Rightarrow> NodeIndex list \<Rightarrow> bool" where
  "agree_all ns pon ms \<longleftrightarrow> (\<forall>n \<in> set ms. \<forall>m \<in> set ms. \<forall>b. toward ns pon n b = toward ns pon m b)"

definition stable :: "Next list \<Rightarrow> Partition list \<Rightarrow> PartitionId list \<Rightarrow> bool" where
  "stable ns parts pon \<longleftrightarrow> (\<forall>p \<in> set parts. agree_all ns pon (pnodes p))"

lemma split_settles:
  assumes inv: "check \<or> almost_stable ns parts pon" and p: "cur \<in> set parts" and ne: "pnodes cur \<noteq> []"
    and s: "split_of ns pon parts tick check cur result" and q: "q \<in> set result"
  shows "agree_all ns pon (pnodes q)"
  unfolding agree_all_def
proof (intro ballI allI)
  fix n m b assume nm: "n \<in> set (pnodes q)" "m \<in> set (pnodes q)"
  let ?h = "hd (pnodes cur)"
  have "mset (pnodes q) \<subseteq># mset (pnodes cur)"
    using sum_list_member [of q result "\<lambda>p. mset (pnodes p)"] q s unfolding split_of_def pieces_members_def by metis
  then have sub: "set (pnodes q) \<subseteq> set (pnodes cur)" using set_mset_mono set_mset_mset by metis
  have h: "?h \<in> set (pnodes cur)" using ne by simp
  show "toward ns pon n b = toward ns pon m b"
  proof (cases "needed parts cur check (toward ns pon ?h b)")
    case True
    then show ?thesis using s q nm unfolding split_of_def by blast
  next
    case False
    then have a: "almost_stable ns parts pon" "\<not> touched parts (last_update cur) (toward ns pon ?h b)"
      using inv unfolding needed_def touched_def by blast+
    have "toward ns pon u b = toward ns pon ?h b" if "u \<in> set (pnodes cur)" for u
      using a p h that unfolding almost_stable_def by blast
    then show ?thesis using nm sub by (metis subsetD)
  qed
qed

section \<open>One round\<close>

text \<open>The partitions that a round splits, and what it makes of each.\<close>

definition splits :: "map_order \<Rightarrow> Next list \<Rightarrow> Partition list \<Rightarrow> PartitionId list \<Rightarrow> nat \<Rightarrow> bool \<Rightarrow> nat \<Rightarrow> Partition list" where
  "splits ord ns parts pon tick first i = the (split_partitions ord ns pon (parts ! i) parts tick first)"

definition to_split :: "map_order \<Rightarrow> Next list \<Rightarrow> Partition list \<Rightarrow> PartitionId list \<Rightarrow> nat \<Rightarrow> bool \<Rightarrow> nat \<Rightarrow> bool" where
  "to_split ord ns parts pon tick first i \<longleftrightarrow> length (pnodes (parts ! i)) > 1 \<and> length (splits ord ns parts pon tick first i) > 1"

lemma splits_ok:
  assumes ok: "parts_ok R ns parts pon" and g: "graph_ok N V ns pon" and N: "N \<le> 2 ^ 31" and R: "successors_in R ns"
    and o: "order_ok ord" and i: "i < length parts"
  shows "split_partitions ord ns pon (parts ! i) parts tick check = Some (splits ord ns parts pon tick check i)"
    "split_of ns pon parts tick check (parts ! i) (splits ord ns parts pon tick check i)"
  using split_partitions_ok [OF ok g N R o i, of tick check] by (auto simp: splits_def)

lemma split_round_ok:
  assumes ok: "parts_ok R ns parts pon" and g: "graph_ok N V ns pon" and N: "N \<le> 2 ^ 31" and R: "successors_in R ns"
    and o: "order_ok ord"
  shows "run (split_one ord ns parts pon tick first) [] [0..<length parts] =
    Some (map (\<lambda>i. (of_nat i, splits ord ns parts pon tick first i)) (filter (to_split ord ns parts pon tick first) [0..<length parts]))"
proof -
  let ?res = "splits ord ns parts pon tick first" and ?sp = "to_split ord ns parts pon tick first"
  let ?P = "\<lambda>xs extra. extra = map (\<lambda>i. (of_nat i :: PartitionId, ?res i)) (filter ?sp xs)"
  have "\<exists>extra. run (split_one ord ns parts pon tick first) [] [0..<length parts] = Some extra \<and> ?P [0..<length parts] extra"
  proof (rule run_prefix)
    show "?P [] []" by simp
  next
    fix xs i extra assume p: "prefix (xs @ [i]) [0..<length parts]" and P: "?P xs extra"
    have "i \<in> set [0..<length parts]" using set_mono_prefix [OF p] by auto
    then have i: "i < length parts" by simp
    moreover have "i < 2 ^ 31" using i parts_few [OF ok] N g by (simp add: graph_ok_def)
    ultimately have "split_one ord ns parts pon tick first extra i = Some (if ?sp i then extra @ [(of_nat i, ?res i)] else extra)"
      using splits_ok(1) [OF ok g N R o i, of tick first] by (simp add: split_one_def pid_from_usize_def to_split_def)
    then show "\<exists>s'. split_one ord ns parts pon tick first extra i = Some s' \<and> ?P (xs @ [i]) s'" using P by simp
  qed
  then show ?thesis by blast
qed

lemma agree_all_few: "length ms \<le> 1 \<Longrightarrow> agree_all ns pon ms"
  by (cases ms) (auto simp: agree_all_def)

lemma split_parts_agree:
  assumes ok: "parts_ok R ns parts pon" and g: "graph_ok N V ns pon" and N: "N \<le> 2 ^ 31" and R: "successors_in R ns"
    and o: "order_ok ord" and inv: "first \<or> almost_stable ns parts pon" and i: "i < length parts"
  shows "\<forall>q \<in> set (splits ord ns parts pon tick first i). agree_all ns pon (pnodes q)"
    "\<not> to_split ord ns parts pon tick first i \<Longrightarrow> agree_all ns pon (pnodes (parts ! i))"
proof -
  note s = splits_ok(2) [OF ok g N R o i, of tick first]
  have ne: "pnodes (parts ! i) \<noteq> []" using ok i by (simp add: parts_ok_def)
  show a: "\<forall>q \<in> set (splits ord ns parts pon tick first i). agree_all ns pon (pnodes q)"
    using split_settles [OF inv nth_mem [OF i] ne s] by blast
  assume no: "\<not> to_split ord ns parts pon tick first i"
  show "agree_all ns pon (pnodes (parts ! i))"
  proof (cases "length (pnodes (parts ! i)) > 1")
    case True
    then have "length (splits ord ns parts pon tick first i) \<le> 1" using no by (simp add: to_split_def)
    moreover have r: "splits ord ns parts pon tick first i \<noteq> []"
      "pieces_members (splits ord ns parts pon tick first i) = mset (pnodes (parts ! i))"
      using s unfolding split_of_def by blast+
    ultimately obtain q where q: "splits ord ns parts pon tick first i = [q]"
      using r(1) by (cases "splits ord ns parts pon tick first i") simp_all
    have "mset (pnodes q) = mset (pnodes (parts ! i))" using r(2) q by (simp add: pieces_members_def)
    then have "set (pnodes q) = set (pnodes (parts ! i))" by (rule mset_eq_setD)
    moreover have "agree_all ns pon (pnodes q)" using a q by simp
    ultimately show ?thesis unfolding agree_all_def by blast
  qed (simp add: agree_all_few)
qed

section \<open>Applying the splits of a round\<close>

text \<open>Every partition is an old one that was not split, or a part of one that was.\<close>

definition piece_of :: "(nat \<Rightarrow> Partition list) \<Rightarrow> nat \<Rightarrow> nat list \<Rightarrow> Partition \<Rightarrow> bool" where
  "piece_of res tick done p \<longleftrightarrow> last_update p = tick \<and> (\<exists>i \<in> set done. \<exists>q \<in> set (res i). pnodes p = pnodes q)"

definition origin :: "Partition list \<Rightarrow> (nat \<Rightarrow> Partition list) \<Rightarrow> nat \<Rightarrow> nat list \<Rightarrow> Partition list \<Rightarrow> bool" where
  "origin parts res tick done parts1 \<longleftrightarrow> length parts + length done \<le> length parts1 \<and>
     (\<forall>k < length parts1. if k < length parts \<and> k \<notin> set done then parts1 ! k = parts ! k else piece_of res tick done (parts1 ! k))"

lemma origin_step:
  assumes o: "origin parts res tick done parts1" and i: "i < length parts" "i \<notin> set done"
    and r: "length (res i) > 1" "\<forall>p \<in> set (res i). last_update p = tick"
  shows "origin parts res tick (done @ [i]) (parts1[i := \<lparr>last_update = tick, pnodes = pnodes (last (res i))\<rparr>] @ butlast (res i))"
    (is "origin _ _ _ _ (parts1[i := ?l] @ _)")
proof -
  have len: "length parts + length done \<le> length parts1" using o unfolding origin_def by blast
  have ne: "res i \<noteq> []" using r(1) by auto
  have new: "piece_of res tick (done @ [i]) ?l" "piece_of res tick (done @ [i]) p" if "p \<in> set (butlast (res i))" for p
    using r(2) last_in_set [OF ne] in_set_butlastD [OF that] by (auto simp: piece_of_def)
  have l: "piece_of res tick (done @ [i]) ?l" using last_in_set [OF ne] by (auto simp: piece_of_def)
  have mono: "piece_of res tick (done @ [i]) p" if "piece_of res tick done p" for p using that by (auto simp: piece_of_def)
  have "if k < length parts \<and> k \<notin> set (done @ [i]) then (parts1[i := ?l] @ butlast (res i)) ! k = parts ! k
      else piece_of res tick (done @ [i]) ((parts1[i := ?l] @ butlast (res i)) ! k)"
    if k: "k < length (parts1[i := ?l] @ butlast (res i))" for k
  proof (cases "k < length parts1")
    case True
    then have "(parts1[i := ?l] @ butlast (res i)) ! k = (if k = i then ?l else parts1 ! k)" by (simp add: nth_append)
    moreover have "if k < length parts \<and> k \<notin> set done then parts1 ! k = parts ! k else piece_of res tick done (parts1 ! k)"
      using o True unfolding origin_def by blast
    ultimately show ?thesis using l mono by (auto split: if_splits)
  next
    case False
    then have "(parts1[i := ?l] @ butlast (res i)) ! k \<in> set (butlast (res i))" using k by (auto simp: nth_append)
    then show ?thesis using new(2) False len by auto
  qed
  then show ?thesis using len r(1) unfolding origin_def by auto
qed

lemma apply_splits_ok:
  fixes tick :: nat
  assumes ok: "parts_ok R ns parts pon" and N: "length ns \<le> 2 ^ 31" and L: "distinct L" "set L \<subseteq> {..<length parts}"
    and r: "\<forall>i \<in> set L. length (res i) > 1 \<and> pieces_members (res i) = mset (pnodes (parts ! i)) \<and>
      (\<forall>p \<in> set (res i). pnodes p \<noteq> [] \<and> last_update p = tick)"
  shows "\<exists>parts' pon'. run (apply_split tick) (parts, pon) (map (\<lambda>i. (of_nat i, res i)) L) = Some (parts', pon') \<and>
    parts_ok R ns parts' pon' \<and> origin parts res tick L parts'"
  using L r
proof (induction L rule: rev_induct)
  case Nil
  then show ?case using ok by (simp add: origin_def)
next
  case (snoc i L)
  then obtain parts1 pon1 where IH: "run (apply_split tick) (parts, pon) (map (\<lambda>i. (of_nat i, res i)) L) = Some (parts1, pon1)"
    "parts_ok R ns parts1 pon1" "origin parts res tick L parts1" by auto
  have i: "i < length parts" "i \<notin> set L" using snoc.prems by auto
  have o: "i < length parts1" "parts1 ! i = parts ! i" using IH(3) i unfolding origin_def by auto
  have r: "length (res i) > 1" "pieces_members (res i) = mset (pnodes (parts1 ! i))" "\<forall>p \<in> set (res i). pnodes p \<noteq> []"
    "\<forall>p \<in> set (res i). last_update p = tick" using snoc.prems(3) o(2) by simp_all
  have ne: "res i \<noteq> []" using r(1) by auto
  from apply_split_ok [OF IH(2) N o(1) ne r(2,3), of tick] obtain pon' where
    "apply_split tick (parts1, pon1) (of_nat i, res i) = Some (parts1[i := \<lparr>last_update = tick, pnodes = pnodes (last (res i))\<rparr>] @ butlast (res i), pon')"
    "parts_ok R ns (parts1[i := \<lparr>last_update = tick, pnodes = pnodes (last (res i))\<rparr>] @ butlast (res i)) pon'" by blast
  moreover have "origin parts res tick (L @ [i]) (parts1[i := \<lparr>last_update = tick, pnodes = pnodes (last (res i))\<rparr>] @ butlast (res i))"
    by (rule origin_step [OF IH(3) i r(1,4)])
  ultimately show ?case using IH(1) by (simp add: run_append)
qed

text \<open>Nodes that were together stay together, or both are in partitions that were just touched.\<close>

lemma moved:
  assumes ok: "parts_ok R ns parts pon" and ok': "parts_ok R ns parts' pon'" and N: "length ns \<le> 2 ^ 31"
    and o: "origin parts res tick L parts'" and xy: "x \<in> R" "y \<in> R" "pon ! x = pon ! y"
  shows "pon' ! x = pon' ! y \<or> touched parts' tick (pon' ! x) \<and> touched parts' tick (pon' ! y)"
proof -
  obtain i where i: "i < length parts" "pon ! x = of_nat i" using part_of_node [OF ok xy(1)] by metis
  have len: "length parts \<le> length parts'" using o unfolding origin_def by linarith
  show ?thesis
  proof (cases "i \<in> set L")
    case False
    then have "parts' ! i = parts ! i" using o i(1) len unfolding origin_def by auto
    then have "x \<in> set (pnodes (parts' ! i))" "y \<in> set (pnodes (parts' ! i))"
      using in_part_iff [OF ok N i(1)] xy i(2) by simp_all
    then have "pon' ! x = of_nat i" "pon' ! y = of_nat i"
      using in_part_iff [OF ok' N, of i] i(1) len by simp_all
    then show ?thesis by simp
  next
    case True
    have "touched parts' tick (pon' ! z)" if z: "z \<in> R" "pon ! z = of_nat i" for z
    proof -
      obtain k where k: "k < length parts'" "z \<in> set (pnodes (parts' ! k))" "pon' ! z = of_nat k" by (rule part_of_node [OF ok' z(1)])
      have small: "k < 2 ^ 31" "i < 2 ^ 31" using k(1) i(1) parts_few [OF ok'] len N by linarith+
      have "\<not> (k < length parts \<and> k \<notin> set L)"
      proof
        assume a: "k < length parts \<and> k \<notin> set L"
        then have "parts' ! k = parts ! k" using o k(1) unfolding origin_def by auto
        then have "pon ! z = of_nat k" using ok k(2) a by (simp add: parts_ok_def)
        then have "k = i" using z(2) of_nat31_eq [OF small] by metis
        then show False using a True by simp
      qed
      then have "piece_of res tick L (parts' ! k)" using o k(1) unfolding origin_def by auto
      then show ?thesis using k(3) small(1) by (simp add: touched_def piece_of_def)
    qed
    then show ?thesis using xy i(2) by metis
  qed
qed

lemma round_almost_stable:
  assumes ok: "parts_ok R ns parts pon" and ok': "parts_ok R ns parts' pon'" and g: "graph_ok N V ns pon" and N: "N \<le> 2 ^ 31"
    and R: "successors_in R ns" and o: "origin parts res tick L parts'"
    and agree: "\<forall>p \<in> set parts'. agree_all ns pon (pnodes p)" and t: "\<forall>p \<in> set parts'. last_update p \<le> tick"
  shows "almost_stable ns parts' pon'"
  unfolding almost_stable_def
proof (intro ballI allI)
  fix p n m b assume p: "p \<in> set parts'" and nm: "n \<in> set (pnodes p)" "m \<in> set (pnodes p)"
  have len: "length ns \<le> 2 ^ 31" using g N by (simp add: graph_ok_def)
  have "n \<in> set (concat (map pnodes parts'))" "m \<in> set (concat (map pnodes parts'))" using p nm by auto
  then have R': "n \<in> R" "m \<in> R" using ok' unfolding parts_ok_def by metis+
  have same: "toward ns pon n b = toward ns pon m b" using agree p nm unfolding agree_all_def by blast
  let ?goal = "toward ns pon' n b = toward ns pon' m b \<or>
     touched parts' (last_update p) (toward ns pon' n b) \<and> touched parts' (last_update p) (toward ns pon' m b)"
  show ?goal
  proof (rule toward_cases [OF ok g N R R'(1), of b])
    fix x k assume x: "unpack (next_get (ns ! n) b) = Some (NodeIndex x)" "x \<in> R" "toward ns pon n b = of_nat k" "pon ! x = of_nat k"
      "is_nonterminal (toward ns pon n b)"
    show ?goal
    proof (rule toward_cases [OF ok g N R R'(2), of b])
      fix y l assume y: "unpack (next_get (ns ! m) b) = Some (NodeIndex y)" "y \<in> R" "toward ns pon m b = of_nat l" "pon ! y = of_nat l"
      have "pon ! x = pon ! y" using x(3,4) y(3,4) same by metis
      from moved [OF ok ok' len o x(2) y(2) this]
      have "pon' ! x = pon' ! y \<or> touched parts' (last_update p) (pon' ! x) \<and> touched parts' (last_update p) (pon' ! y)"
        using t p by (auto simp: touched_def)
      moreover have "toward ns pon' n b = pon' ! x" "toward ns pon' m b = pon' ! y" using x(1) y(1) by (simp_all add: target_def)
      ultimately show ?goal by (simp only:)
    next
      assume "\<not> is_nonterminal (toward ns pon m b)"
      then have False using x(5) unfolding same by blast
      then show ?goal ..
    qed
  next
    assume x: "\<forall>x. unpack (next_get (ns ! n) b) \<noteq> Some (NodeIndex x)" "toward ns pon n b = next_get (ns ! n) b"
      "\<not> is_nonterminal (toward ns pon n b)"
    show ?goal
    proof (rule toward_cases [OF ok g N R R'(2), of b])
      assume "is_nonterminal (toward ns pon m b)"
      then have False using x(3) unfolding same by blast
      then show ?goal ..
    next
      assume y: "\<forall>x. unpack (next_get (ns ! m) b) \<noteq> Some (NodeIndex x)" "toward ns pon m b = next_get (ns ! m) b"
      have "next_get (ns ! n) b = next_get (ns ! m) b" using x(2) y(2) same by metis
      then show ?goal by simp
    qed
  qed
qed

section \<open>All rounds\<close>

lemma run_partitioning_ok:
  assumes "parts_ok R ns parts pon" "graph_ok N V ns pon" "N \<le> 2 ^ 31" "successors_in R ns" "order_ok ord"
    "first \<or> almost_stable ns parts pon" "\<forall>p \<in> set parts. last_update p \<le> tick"
  shows "\<exists>parts' pon'. run_partitioning ord ns parts pon tick first = Some (parts', pon') \<and>
    parts_ok R ns parts' pon' \<and> stable ns parts' pon'"
  using assms
proof (induction "length ns - length parts" arbitrary: parts pon tick first rule: less_induct)
  case less
  note ok = less.prems(1) and g = less.prems(2) and N = less.prems(3) and R = less.prems(4) and o = less.prems(5) and inv = less.prems(6)
  let ?res = "splits ord ns parts pon tick first" and ?L = "filter (to_split ord ns parts pon tick first) [0..<length parts]"
  have len: "length ns = N" using g by (simp add: graph_ok_def)
  note round = split_round_ok [OF ok g N R o, of tick first]
  have agree: "\<forall>q \<in> set (?res i). agree_all ns pon (pnodes q)" "i \<notin> set ?L \<Longrightarrow> agree_all ns pon (pnodes (parts ! i))" if "i < length parts" for i
    using split_parts_agree [OF ok g N R o inv that, of tick] that by simp_all
  show ?case
  proof (cases "?L = []")
    case True
    then have "stable ns parts pon" using agree(2) unfolding stable_def by (metis empty_iff empty_set in_set_conv_nth)
    moreover have "run_partitioning ord ns parts pon tick first = Some (parts, pon)"
      using round True by (subst run_partitioning.simps) simp
    ultimately show ?thesis using ok by blast
  next
    case False
    have r: "\<forall>i \<in> set ?L. length (?res i) > 1 \<and> pieces_members (?res i) = mset (pnodes (parts ! i)) \<and>
      (\<forall>p \<in> set (?res i). pnodes p \<noteq> [] \<and> last_update p = tick)"
    proof
      fix i assume "i \<in> set ?L"
      then have i: "i < length parts" "length (?res i) > 1" by (auto simp: to_split_def)
      then show "length (?res i) > 1 \<and> pieces_members (?res i) = mset (pnodes (parts ! i)) \<and>
          (\<forall>p \<in> set (?res i). pnodes p \<noteq> [] \<and> last_update p = tick)"
        using splits_ok(2) [OF ok g N R o i(1), of tick first] unfolding split_of_def by blast
    qed
    have L: "distinct ?L" "set ?L \<subseteq> {..<length parts}" by auto
    obtain parts' pon' where a: "run (apply_split tick) (parts, pon) (map (\<lambda>i. (of_nat i, ?res i)) ?L) = Some (parts', pon')"
      "parts_ok R ns parts' pon'" "origin parts ?res tick ?L parts'"
      using apply_splits_ok [OF ok _ L r] N len by auto
    have more: "length parts < length parts'" using a(3) False unfolding origin_def by (cases ?L) auto
    have "length parts' \<le> length ns" by (rule parts_few [OF a(2)])
    then have fewer: "length ns - length parts' < length ns - length parts" using more by linarith
    have g': "graph_ok N V ns pon'" using g a(2) by (simp add: graph_ok_def parts_ok_def)
    have each: "agree_all ns pon (pnodes p) \<and> last_update p \<le> tick" if p: "p \<in> set parts'" for p
    proof -
      obtain k where k: "k < length parts'" "p = parts' ! k" using p by (metis in_set_conv_nth)
      show ?thesis
      proof (cases "k < length parts \<and> k \<notin> set ?L")
        case True
        then have "p = parts ! k" using a(3) k unfolding origin_def by auto
        then show ?thesis using True agree(2) [of k] less.prems(7) by simp
      next
        case False
        then have "piece_of ?res tick ?L p" using a(3) k unfolding origin_def by auto
        then obtain i q where "last_update p = tick" "i < length parts" "q \<in> set (?res i)" "pnodes p = pnodes q"
          unfolding piece_of_def using L(2) by blast
        then show ?thesis using agree(1) [of i] by simp
      qed
    qed
    have "almost_stable ns parts' pon'"
      using round_almost_stable [OF ok a(2) g N R a(3)] each by blast
    then obtain parts2 pon2 where "run_partitioning ord ns parts' pon' (tick + 1) False = Some (parts2, pon2)"
      "parts_ok R ns parts2 pon2" "stable ns parts2 pon2"
      using less.hyps [OF fewer a(2) g' N R o, of False "tick + 1"] each by fastforce
    moreover have "run_partitioning ord ns parts pon tick first = run_partitioning ord ns parts' pon' (tick + 1) False"
      using round a(1) False by (subst run_partitioning.simps) simp
    ultimately show ?thesis by simp
  qed
qed

end
