(* ===== verification/Map_Initial.thy ===== *)
theory Map_Initial
  imports Map_Stable
begin

text \<open>
  The initial partitions hold each node that the root reaches, once, whatever the hash. From them the
  partitioning gets a stable partition, and a canonical node for each part.
\<close>

unbundle bit_operations_syntax

section \<open>The initial partitions\<close>

lemma parts_card: "parts_ok R ns parts pon \<Longrightarrow> length parts \<le> card R"
proof -
  assume ok: "parts_ok R ns parts pon"
  have "\<forall>x \<in> set (map pnodes parts). x \<noteq> []" using ok by (auto simp: parts_ok_def in_set_conv_nth)
  then have "length parts \<le> length (concat (map pnodes parts))" using length_concat_nonempty by fastforce
  then show ?thesis using ok distinct_card by (fastforce simp: parts_ok_def)
qed

lemma parts_okI:
  assumes "length pon = length ns" "R \<subseteq> {..<length ns}" "\<forall>n < length ns. n \<notin> R \<longrightarrow> pon ! n = UNREACHABLE"
    "\<And>i. i < length parts \<Longrightarrow> pnodes (parts ! i) \<noteq> []" "\<And>i n. i < length parts \<Longrightarrow> n \<in> set (pnodes (parts ! i)) \<Longrightarrow> pon ! n = of_nat i"
    "set (concat (map pnodes parts)) = R" "distinct (concat (map pnodes parts))"
  shows "parts_ok R ns parts pon"
  using assms unfolding parts_ok_def by blast

lemma parts_okD:
  assumes "parts_ok R ns parts pon"
  shows "length pon = length ns" "R \<subseteq> {..<length ns}" "\<forall>n < length ns. n \<notin> R \<longrightarrow> pon ! n = UNREACHABLE"
    "i < length parts \<Longrightarrow> pnodes (parts ! i) \<noteq> []" "i < length parts \<Longrightarrow> n \<in> set (pnodes (parts ! i)) \<Longrightarrow> pon ! n = of_nat i"
    "i < length parts \<Longrightarrow> n \<in> set (pnodes (parts ! i)) \<Longrightarrow> n \<in> R"
    "set (concat (map pnodes parts)) = R" "distinct (concat (map pnodes parts))"
proof -
  show R: "set (concat (map pnodes parts)) = R" using assms unfolding parts_ok_def by blast
  show "n \<in> R" if "i < length parts" "n \<in> set (pnodes (parts ! i))"
    using that nth_mem [OF that(1)] unfolding R [symmetric] by auto
qed (use assms in \<open>unfold parts_ok_def, blast+\<close>)

lemma parts_add:
  assumes ok: "parts_ok R ns parts pon" and i: "i < length parts" and n: "n < length ns" "n \<notin> R"
  defines "parts' \<equiv> parts[i := (parts ! i)\<lparr>pnodes := pnodes (parts ! i) @ [n]\<rparr>]"
  shows "parts_ok (insert n R) ns parts' (pon[n := of_nat i])"
proof -
  have "pieces_members parts' = pieces_members parts + {#n#}"
    using members_update [OF i, of "(parts ! i)\<lparr>pnodes := pnodes (parts ! i) @ [n]\<rparr>"] by (simp add: parts'_def)
  then have m: "mset (concat (map pnodes parts')) = mset (n # concat (map pnodes parts))" by (simp only: members_concat) simp
  then have "set (concat (map pnodes parts')) = set (n # concat (map pnodes parts))" by (rule mset_eq_setD)
  then have s: "set (concat (map pnodes parts')) = insert n R" using parts_okD(7) [OF ok] by simp
  have d: "distinct (concat (map pnodes parts'))" unfolding mset_eq_imp_distinct_iff [OF m] distinct.simps parts_okD(7) [OF ok] using parts_okD(8) [OF ok] n(2) by blast
  have "(pon[n := of_nat i]) ! k = of_nat j" if j: "j < length parts'" "k \<in> set (pnodes (parts' ! j))" for j k
  proof (cases "k = n")
    case True
    have "j = i"
    proof (rule ccontr)
      assume "j \<noteq> i"
      then have "k \<in> R" using j parts_okD(6) [OF ok, of j k] by (simp add: parts'_def)
      then show False using True n(2) by simp
    qed
    then show ?thesis using True n(1) parts_okD(1) [OF ok] by simp
  next
    case False
    then have "k \<in> set (pnodes (parts ! j))" "j < length parts" using j i by (auto simp: parts'_def nth_list_update split: if_splits)
    then show ?thesis using parts_okD(5) [OF ok, of j k] False by simp
  qed
  moreover have "pnodes (parts' ! j) \<noteq> []" if "j < length parts'" for j
    using that parts_okD(4) [OF ok, of j] i by (cases "j = i") (simp_all add: parts'_def)
  ultimately show ?thesis
    using parts_okD(1-3) [OF ok] n s d by (intro parts_okI) auto
qed

lemma parts_new:
  assumes ok: "parts_ok R ns parts pon" and n: "n < length ns" "n \<notin> R"
  shows "parts_ok (insert n R) ns (parts @ [\<lparr>last_update = u, pnodes = [n]\<rparr>]) (pon[n := of_nat (length parts)])" (is "parts_ok _ _ ?p _")
proof -
  have s: "set (concat (map pnodes ?p)) = insert n R" "distinct (concat (map pnodes ?p))"
    using parts_okD(7,8) [OF ok] n(2) by auto
  have "(pon[n := of_nat (length parts)]) ! k = of_nat j" if j: "j < length ?p" "k \<in> set (pnodes (?p ! j))" for j k
  proof (cases "j < length parts")
    case True
    then have "k \<in> R" "pon ! k = of_nat j" using j parts_okD(5,6) [OF ok, of j k] by (simp_all add: nth_append)
    then show ?thesis using n(2) by (cases "k = n") simp_all
  next
    case False
    then have "j = length parts" using j(1) by simp
    then show ?thesis using j(2) n(1) parts_okD(1) [OF ok] by simp
  qed
  moreover have "pnodes (?p ! j) \<noteq> []" if "j < length ?p" for j
    using that parts_okD(4) [OF ok, of j] by (auto simp: nth_append)
  ultimately show ?thesis using parts_okD(1-3) [OF ok] n s by (intro parts_okI) auto
qed

definition initial_ok :: "Next list \<Rightarrow> NodeIndex list \<Rightarrow> Initial \<Rightarrow> bool" where
  "initial_ok ns done st \<longleftrightarrow> parts_ok (set done) ns (ini_partitions st) (ini_of st) \<and>
     (\<forall>p \<in> set (ini_partitions st). last_update p = 0) \<and>
     (\<forall>h pid. ini_buckets st h = Some pid \<longrightarrow> (\<exists>i < length (ini_partitions st). pid = of_nat i)) \<and>
     length (ini_hashes st) = length ns"

lemma put_if: "i < length xs \<Longrightarrow> \<exists>ys. (if c then put xs i x else Some xs) = Some ys \<and> length ys = length xs"
  by simp

lemma init_node_ok:
  assumes g: "nodes_ok (length ns) V ns" and N: "length ns \<le> 2 ^ 31" and V: "V < 2 ^ 31"
    and st: "initial_ok ns done st" and n: "n < length ns" "n \<notin> set done"
  shows "\<exists>st'. init_node fx ns k st n = Some st' \<and> initial_ok ns (done @ [n]) st'"
proof -
  have ok: "parts_ok (set done) ns (ini_partitions st) (ini_of st)" and hl: "length (ini_hashes st) = length ns"
    and lu: "\<forall>p \<in> set (ini_partitions st). last_update p = 0"
    and bk: "\<And>h pid. ini_buckets st h = Some pid \<Longrightarrow> \<exists>i < length (ini_partitions st). pid = of_nat i"
    using st by (simp_all add: initial_ok_def)
  let ?parts = "ini_partitions st"
  have "\<exists>w. edge_word (ini_hashes st) i = Some w" if "i \<in> set (ns ! n)" for i
  proof -
    have "edge_ok (length ns) V i" using g n(1) that nth_mem unfolding nodes_ok_def by blast
    then show ?thesis using hl by (auto simp: edge_word_def edge_ok_def split: option.split UnpackedNodeId.split)
  qed
  then have "those (map (edge_word (ini_hashes st)) (ns ! n)) = Some (map (\<lambda>i. the (edge_word (ini_hashes st) i)) (ns ! n))"
    by (intro those_map_Some) fastforce
  then obtain words where w: "those (map (edge_word (ini_hashes st)) (ns ! n)) = Some words" by blast
  obtain hashes where h: "(if \<not> has_self_loop n (ns ! n) \<and> k = 1 then put (ini_hashes st) n (fx words) else Some (ini_hashes st)) = Some hashes"
    "length hashes = length ns" using put_if [of n "ini_hashes st"] n(1) hl by metis
  have "card (set done) < card {..<length ns}" using parts_okD(2) [OF ok] n by (intro psubset_card_mono) auto
  then have few: "length ?parts < 2 ^ 31" using parts_card [OF ok] N by simp
  show ?thesis
  proof (cases "ini_buckets st (fx words)")
    case (Some pid)
    then obtain i where i: "i < length ?parts" "pid = of_nat i" using bk by blast
    then have u: "unat pid = i" using few by simp
    let ?st = "st\<lparr>ini_partitions := ?parts[i := (?parts ! i)\<lparr>pnodes := pnodes (?parts ! i) @ [n]\<rparr>], ini_of := (ini_of st)[n := of_nat i], ini_hashes := hashes\<rparr>"
    have step: "init_node fx ns k st n = Some ?st"
      using n(1) w Some i u h(1) parts_okD(1) [OF ok] by (simp add: init_node_def Let_def split del: if_split)
    have "\<forall>p \<in> set (?parts[i := (?parts ! i)\<lparr>pnodes := pnodes (?parts ! i) @ [n]\<rparr>]). last_update p = 0"
    proof
      fix p assume "p \<in> set (?parts[i := (?parts ! i)\<lparr>pnodes := pnodes (?parts ! i) @ [n]\<rparr>])"
      then consider "p \<in> set ?parts" | "p = (?parts ! i)\<lparr>pnodes := pnodes (?parts ! i) @ [n]\<rparr>"
        using set_update_subset_insert by fast
      then show "last_update p = 0" using lu nth_mem [OF i(1)] by cases simp_all
    qed
    then have "initial_ok ns (done @ [n]) ?st"
      using parts_add [OF ok i(1) n] bk h(2) by (auto simp: initial_ok_def)
    then show ?thesis using step by blast
  next
    case None
    let ?i = "length ?parts"
    let ?st = "st\<lparr>ini_partitions := ?parts @ [\<lparr>last_update = 0, pnodes = [n]\<rparr>], ini_buckets := (ini_buckets st)(fx words \<mapsto> of_nat ?i),
      ini_of := (ini_of st)[n := of_nat ?i], ini_hashes := hashes\<rparr>"
    have step: "init_node fx ns k st n = Some ?st"
      using n(1) w None few h(1) parts_okD(1) [OF ok] by (simp add: init_node_def Let_def pid_from_usize_def cong: if_cong split del: if_split)
    have "\<exists>i < length (?parts @ [\<lparr>last_update = 0, pnodes = [n]\<rparr>]). pid = of_nat i"
      if "((ini_buckets st)(fx words \<mapsto> of_nat ?i)) h = Some pid" for h pid
    proof (cases "h = fx words")
      case True
      then show ?thesis using that by (intro exI [of _ ?i]) simp
    next
      case False
      then have "ini_buckets st h = Some pid" using that by simp
      then obtain i where "i < ?i" "pid = of_nat i" using bk by blast
      then show ?thesis by (intro exI [of _ i]) simp
    qed
    then have "initial_ok ns (done @ [n]) ?st"
      using parts_new [OF ok n, of 0] lu h(2) by (simp add: initial_ok_def)
    then show ?thesis using step by blast
  qed
qed

lemma init_group_ok:
  assumes g: "nodes_ok (length ns) V ns" and N: "length ns \<le> 2 ^ 31" and V: "V < 2 ^ 31"
    and st: "initial_ok ns done st" and grp: "set grp \<subseteq> {..<length ns}" "distinct (done @ grp)"
  shows "\<exists>st'. init_group fx ns st grp = Some st' \<and> initial_ok ns (done @ grp) st'"
proof -
  have hl: "length (ini_hashes st) = length ns" using st by (simp add: initial_ok_def)
  obtain hashes where h: "run (\<lambda>h n. put h n 0x12345678) (ini_hashes st) grp = Some hashes" "length hashes = length ns"
    using put_all [where pon = "ini_hashes st" and ms = grp and pid = "0x12345678"] grp(1) hl by auto
  have start: "initial_ok ns done (st\<lparr>ini_hashes := hashes\<rparr>)" using st h(2) by (simp add: initial_ok_def)
  have "\<exists>st'. run (init_node fx ns (length grp)) (st\<lparr>ini_hashes := hashes\<rparr>) grp = Some st' \<and> initial_ok ns (done @ grp) st'"
  proof (rule run_prefix)
    show "initial_ok ns (done @ []) (st\<lparr>ini_hashes := hashes\<rparr>)" using start by simp
  next
    fix xs n s assume p: "prefix (xs @ [n]) grp" and s: "initial_ok ns (done @ xs) s"
    have "n < length ns" "n \<notin> set (done @ xs)" using p grp by (auto simp: prefix_def)
    from init_node_ok [OF g N V s this]
    show "\<exists>s'. init_node fx ns (length grp) s n = Some s' \<and> initial_ok ns (done @ xs @ [n]) s'" by simp
  qed
  then show ?thesis using h(1) by (simp add: init_group_def)
qed

lemma initial_partitions_ok:
  assumes g: "nodes_ok (length ns) V ns" and ne: "ns \<noteq> []" and N: "length ns \<le> 2 ^ 31" and V: "V < 2 ^ 31"
  shows "\<exists>parts pon. compute_initial_partitions fx ns = Some (parts, pon) \<and>
    parts_ok ((successor_rel ns)\<^sup>* `` {ROOT}) ns parts pon \<and> (\<forall>p \<in> set parts. last_update p = 0)"
proof -
  obtain gs where gs: "scc_iterate ns = Some gs" "topological_groups ns gs" "set (concat gs) \<subseteq> {..<length ns}"
    using scc_iterate_ok [OF g ne] by blast
  let ?s = "\<lparr>ini_partitions = [], ini_buckets = (\<lambda>_. None), ini_of = replicate (length ns) UNREACHABLE, ini_hashes = replicate (length ns) 0\<rparr>"
  have "\<exists>st. run (init_group fx ns) ?s gs = Some st \<and> initial_ok ns (concat gs) st"
  proof (rule run_prefix)
    show "initial_ok ns (concat []) ?s" by (auto simp: initial_ok_def parts_ok_def)
  next
    fix xs grp st assume p: "prefix (xs @ [grp]) gs" and s: "initial_ok ns (concat xs) st"
    obtain zs where zs: "gs = xs @ grp # zs" using p by (auto simp: prefix_def)
    then have c: "concat gs = (concat xs @ grp) @ concat zs" by simp
    have "distinct (concat gs)" using gs(2) unfolding topological_groups_def by blast
    then have "set grp \<subseteq> {..<length ns}" "distinct (concat xs @ grp)"
      using gs(3) unfolding c by (simp_all only: set_append distinct_append le_sup_iff)
    from init_group_ok [OF g N V s this]
    show "\<exists>st'. init_group fx ns st grp = Some st' \<and> initial_ok ns (concat (xs @ [grp])) st'" by simp
  qed
  then obtain st where "run (init_group fx ns) ?s gs = Some st" "initial_ok ns (concat gs) st" by blast
  moreover have "set (concat gs) = (successor_rel ns)\<^sup>* `` {ROOT}" using gs(2) unfolding topological_groups_def by blast
  ultimately show ?thesis using gs(1) by (simp add: compute_initial_partitions_def initial_ok_def)
qed

end
