(* ===== verification/Map_Canonical.thy ===== *)
theory Map_Canonical
  imports Map_Initial
begin

text \<open>
  The canonical nodes: the first node of each partition is kept, and its new index counts the kept nodes
  before it, so the root keeps index 0.
\<close>

unbundle bit_operations_syntax

section \<open>First nodes and their ranks\<close>

definition is_first :: "PartitionId list \<Rightarrow> NodeIndex \<Rightarrow> bool" where
  "is_first pon n \<longleftrightarrow> pon ! n \<noteq> UNREACHABLE \<and> (\<forall>m < n. pon ! m \<noteq> pon ! n)"

definition kept :: "PartitionId list \<Rightarrow> nat \<Rightarrow> NodeIndex list" where
  "kept pon k = filter (is_first pon) [0..<k]"

definition rank :: "PartitionId list \<Rightarrow> NodeIndex \<Rightarrow> nat" where
  "rank pon n = length (kept pon n)"

definition leader :: "PartitionId list \<Rightarrow> NodeIndex \<Rightarrow> NodeIndex" where
  "leader pon n = (LEAST m. pon ! m = pon ! n)"

lemma kept_Suc: "kept pon (Suc n) = kept pon n @ (if is_first pon n then [n] else [])"
  by (simp add: kept_def)

lemma rank_le: "rank pon n \<le> n"
  unfolding rank_def kept_def by (rule order_trans [OF length_filter_le]) simp

lemma rank_nth: "is_first pon n \<Longrightarrow> n < k \<Longrightarrow> rank pon n < length (kept pon k) \<and> kept pon k ! rank pon n = n"
proof (induction k)
  case (Suc k)
  show ?case
  proof (cases "n = k")
    case True
    then show ?thesis using Suc.prems(1) by (simp add: kept_Suc rank_def)
  next
    case False
    then show ?thesis using Suc by (simp add: kept_Suc nth_append)
  qed
qed simp

lemma leader_same: "pon ! leader pon n = pon ! n"
  unfolding leader_def by (rule LeastI) simp

lemma leader_le: "leader pon n \<le> n"
  unfolding leader_def by (rule Least_le) simp

lemma leader_first: "pon ! n \<noteq> UNREACHABLE \<Longrightarrow> is_first pon (leader pon n)"
  unfolding is_first_def leader_same using not_less_Least unfolding leader_def by metis

lemma leader_cong: "pon ! n = pon ! m \<Longrightarrow> leader pon n = leader pon m"
  by (simp add: leader_def)

lemma leader_of_first: "is_first pon n \<Longrightarrow> leader pon n = n"
  using leader_le [of pon n] leader_same [of pon n] unfolding is_first_def by (metis le_neq_implies_less)

lemma before_leader: "m < leader pon n \<Longrightarrow> pon ! m \<noteq> pon ! n"
  unfolding leader_def by (rule not_less_Least)

lemma find_leader: "n < k \<Longrightarrow> find (\<lambda>m. pon ! m = pon ! n) [0..<k] = Some (leader pon n)"
  unfolding find_Some_iff
  by (rule exI [of _ "leader pon n"]) (use leader_le [of pon n] in \<open>simp add: leader_same before_leader\<close>)

section \<open>The loop over the nodes\<close>

lemma find_snoc: "find P (xs @ [x]) = (case find P xs of None \<Rightarrow> if P x then Some x else None | Some y \<Rightarrow> Some y)"
  by (induction xs) auto

lemma UNREACHABLE_top: "\<not> is_nonterminal UNREACHABLE"
  by (simp add: UNREACHABLE_def is_nonterminal_def)

lemma of_nat_reachable: "i < 2 ^ 31 \<Longrightarrow> of_nat i \<noteq> UNREACHABLE"
  using UNREACHABLE_top is_nonterminal_node by metis

definition canonical_of :: "PartitionId list \<Rightarrow> nat list \<Rightarrow> nat \<Rightarrow> NodeId option" where
  "canonical_of pon xs i = map_option (\<lambda>n. from_node_index (rank pon n)) (find (\<lambda>n. pon ! n = of_nat i) xs)"

definition canonical_inv :: "PartitionId list \<Rightarrow> nat \<Rightarrow> nat list \<Rightarrow> nat \<times> GrowingBitmap \<times> NodeId option list \<Rightarrow> bool" where
  "canonical_inv pon num xs st \<longleftrightarrow> (case st of (next_id, keep, canonical) \<Rightarrow>
     next_id = length (filter (is_first pon) xs) \<and> gb_ok keep \<and> gb_ones keep = set (filter (is_first pon) xs) \<and>
     canonical = map (canonical_of pon xs) [0..<num])"

lemma canonical_step_ok:
  assumes ok: "parts_ok R ns parts pon" and N: "length ns \<le> 2 ^ 31" and n: "n < length pon"
    and st: "canonical_inv pon (length parts) [0..<n] st"
  shows "\<exists>st'. canonical_step pon st n = Some st' \<and> canonical_inv pon (length parts) [0..<Suc n] st'"
proof -
  obtain keep where st: "st = (rank pon n, keep, map (canonical_of pon [0..<n]) [0..<length parts])" "gb_ok keep"
    "gb_ones keep = set (kept pon n)" using st by (auto simp: canonical_inv_def rank_def kept_def)
  have nl: "n < length ns" using n parts_okD(1) [OF ok] by simp
  have few: "length parts \<le> 2 ^ 31" using parts_few [OF ok] N by linarith
  show ?thesis
  proof (cases "n \<in> R")
    case False
    then have u: "pon ! n = UNREACHABLE" using parts_okD(3) [OF ok] nl by blast
    then have nf: "\<not> is_first pon n" by (simp add: is_first_def)
    have same: "canonical_of pon ([0..<n] @ [n]) i = canonical_of pon [0..<n] i" if "i < length parts" for i
      using of_nat_reachable [of i] that few u by (simp add: canonical_of_def find_snoc split: option.split)
    have "canonical_inv pon (length parts) [0..<Suc n] st"
      using st nf same by (simp add: canonical_inv_def rank_def kept_def)
    then show ?thesis using st(1) u n by (simp add: canonical_step_def)
  next
    case True
    then obtain i where i: "i < length parts" "pon ! n = of_nat i" using part_of_node [OF ok] by metis
    have i31: "i < 2 ^ 31" using i(1) few by simp
    have reach: "pon ! n \<noteq> UNREACHABLE" using of_nat_reachable [OF i31] i(2) by simp
    have first: "is_first pon n \<longleftrightarrow> find (\<lambda>m. pon ! m = of_nat i) [0..<n] = None"
      using reach i(2) by (auto simp: is_first_def find_None_iff)
    have other: "canonical_of pon ([0..<n] @ [n]) j = canonical_of pon [0..<n] j" if "j < length parts" "j \<noteq> i" for j
    proof -
      have "pon ! n \<noteq> of_nat j" using of_nat31_eq [of i j] i31 that few i(2) by simp
      then show ?thesis by (simp add: canonical_of_def find_snoc split: option.split)
    qed
    show ?thesis
    proof (cases "is_first pon n")
      case False
      then have "canonical_of pon ([0..<n] @ [n]) i = canonical_of pon [0..<n] i" "canonical_of pon [0..<n] i \<noteq> None"
        using first by (auto simp: canonical_of_def find_snoc split: option.split)
      moreover from this have "canonical_of pon ([0..<n] @ [n]) j = canonical_of pon [0..<n] j" if "j < length parts" for j
        using other [OF that] by (cases "j = i") simp_all
      ultimately have "canonical_inv pon (length parts) [0..<Suc n] st" "canonical_step pon st n = Some st"
        using st False reach i i31 n by (auto simp: canonical_inv_def rank_def kept_def canonical_step_def)
      then show ?thesis by blast
    next
      case True
      obtain keep' c where k: "gb_set keep n = Some (keep', c)" "gb_ok keep'" "gb_ones keep' = insert n (gb_ones keep)"
        using gb_set_ok [OF st(2)] by blast
      let ?c = "(map (canonical_of pon [0..<n]) [0..<length parts])[i := Some (from_node_index (rank pon n))]"
      have now: "canonical_of pon ([0..<n] @ [n]) i = Some (from_node_index (rank pon n))" "canonical_of pon [0..<n] i = None"
        using True first i(2) by (simp_all add: canonical_of_def find_snoc)
      have c: "?c = map (canonical_of pon ([0..<n] @ [n])) [0..<length parts]"
        by (rule nth_equalityI) (auto simp: nth_update_if now other)
      have n31: "n < 2 ^ 31" "rank pon n < 2 ^ 31" using nl N rank_le [of pon n] by linarith+
      have "canonical_step pon st n = Some (rank pon n + 1, keep', ?c)"
        using st(1) reach i i31 n n31 k(1) now(2) by (simp add: canonical_step_def index_new_def)
      moreover have "canonical_inv pon (length parts) [0..<Suc n] (rank pon n + 1, keep', ?c)"
        using c k(2,3) st(3) True by (simp add: canonical_inv_def rank_def kept_def)
      ultimately show ?thesis by blast
    qed
  qed
qed

text \<open>What \<open>Partitions::of\<close> returns for the nodes \<open>R\<close> that the root reaches.\<close>

definition partitions_ok :: "NodeIndex set \<Rightarrow> Next list \<Rightarrow> Partitions \<Rightarrow> bool" where
  "partitions_ok R ns P \<longleftrightarrow> (let pon = partition_of_node P in length pon = length ns \<and> R \<subseteq> {..<length ns} \<and>
     (\<forall>n < length ns. pon ! n = UNREACHABLE \<longleftrightarrow> n \<notin> R) \<and>
     (\<forall>n \<in> R. \<forall>m \<in> R. pon ! n = pon ! m \<longrightarrow> (\<forall>b. toward ns pon n b = toward ns pon m b)) \<and>
     (\<forall>n \<in> R. is_nonterminal (pon ! n) \<and> at (canonical_nodes P) (unat (pon ! n)) = Some (Some (from_node_index (rank pon (leader pon n))))) \<and>
     (\<forall>n. should_keep P n \<longleftrightarrow> n < length ns \<and> is_first pon n))"

lemma nodes_reached:
  assumes g: "nodes_ok (length ns) V ns" and ne: "ns \<noteq> []"
  shows "successors_in ((successor_rel ns)\<^sup>* `` {ROOT}) ns" "ROOT \<in> (successor_rel ns)\<^sup>* `` {ROOT}"
    "(successor_rel ns)\<^sup>* `` {ROOT} \<subseteq> {..<length ns}"
proof -
  obtain gs where gs: "topological_groups ns gs" "set (concat gs) \<subseteq> {..<length ns}" using scc_iterate_ok [OF g ne] by blast
  then show R: "(successor_rel ns)\<^sup>* `` {ROOT} \<subseteq> {..<length ns}" by (simp only: topological_groups_def)
  show "ROOT \<in> (successor_rel ns)\<^sup>* `` {ROOT}" by simp
  have "u \<in> (successor_rel ns)\<^sup>* `` {ROOT}" if "(ROOT, n) \<in> (successor_rel ns)\<^sup>*" "u \<in> successors (ns ! n)" for n u
  proof -
    have "n < length ns" using that(1) R by auto
    then have "(n, u) \<in> successor_rel ns" using that(2) by (simp add: successor_rel_def)
    then show ?thesis using that(1) by (auto intro: rtrancl_into_rtrancl)
  qed
  then show "successors_in ((successor_rel ns)\<^sup>* `` {ROOT}) ns" by (auto simp: successors_in_def)
qed

lemma gb_zeros_ok: "gb_ok (gb_new_all_zeros k)" "gb_ones (gb_new_all_zeros k) = {}"
proof -
  have z: "\<not> data_bit (gb_data (gb_new_all_zeros k)) i" for i
    by (simp add: gb_new_all_zeros_def data_bit_def nth_replicate del: replicate_Suc)
  then show "gb_ones (gb_new_all_zeros k) = {}" by (auto simp: gb_ones_def)
  have "k \<le> 64 * (k div 64) + 64" using mult_div_mod_eq [of 64 k] mod_less_divisor [of 64 k] by linarith
  then show "gb_ok (gb_new_all_zeros k)" using z unfolding gb_ok_def by (simp add: gb_new_all_zeros_def)
qed

lemma partitions_of_ok:
  assumes g: "nodes_ok (length ns) V ns" and ne: "ns \<noteq> []" and N: "length ns \<le> 2 ^ 31" and V: "V < 2 ^ 31" and o: "order_ok ord"
  shows "\<exists>P. partitions_of ord fx ns = Some P \<and> partitions_ok ((successor_rel ns)\<^sup>* `` {ROOT}) ns P"
proof -
  let ?R = "(successor_rel ns)\<^sup>* `` {ROOT}"
  obtain parts0 pon0 where i: "compute_initial_partitions fx ns = Some (parts0, pon0)" "parts_ok ?R ns parts0 pon0" "\<forall>p \<in> set parts0. last_update p = 0"
    using initial_partitions_ok [OF g ne N V] by blast
  have "graph_ok (length ns) V ns pon0" using g parts_okD(1) [OF i(2)] by (simp add: graph_ok_def)
  then obtain parts pon where r: "run_partitioning ord ns parts0 pon0 1 True = Some (parts, pon)" "parts_ok ?R ns parts pon" "stable ns parts pon"
    using run_partitioning_ok [OF i(2) _ N nodes_reached(1) [OF g ne] o, of V True 1] i(3) by fastforce
  let ?s = "(0, gb_new_all_zeros (length ns), replicate (length parts) None) :: nat \<times> GrowingBitmap \<times> NodeId option list"
  have "replicate (length parts) None = map (canonical_of pon []) [0..<length parts]"
    by (rule nth_equalityI) (simp_all add: canonical_of_def)
  then have "canonical_inv pon (length parts) [] ?s" by (simp add: canonical_inv_def gb_zeros_ok)
  moreover have "\<exists>st'. canonical_step pon st n = Some st' \<and> canonical_inv pon (length parts) (xs @ [n]) st'"
    if p: "prefix (xs @ [n]) [0..<length pon]" and st: "canonical_inv pon (length parts) xs st" for xs n st
  proof -
    have "xs @ [n] = take (length (xs @ [n])) [0..<length pon]" using p unfolding prefix_def by (metis append_eq_conv_conj)
    moreover have "length xs < length pon" using prefix_length_le [OF p] by simp
    ultimately have "xs @ [n] = [0..<length xs] @ [length xs]" by simp
    then have x: "xs = [0..<n]" "n < length pon" using \<open>length xs < length pon\<close> by auto
    have "canonical_inv pon (length parts) [0..<n] st" using st unfolding x(1) .
    from canonical_step_ok [OF r(2) N x(2) this]
    show ?thesis unfolding x(1) using upt_Suc_append [of 0 n] by simp
  qed
  ultimately obtain st where st: "run (canonical_step pon) ?s [0..<length pon] = Some st" "canonical_inv pon (length parts) [0..<length pon] st"
    using run_prefix [where P = "canonical_inv pon (length parts)" and es = "[0..<length pon]"] by blast
  obtain k keep canonical where st': "st = (k, keep, canonical)" by (metis prod.exhaust)
  have keep: "gb_ok keep" "gb_ones keep = set (kept pon (length pon))" and canonical: "canonical = map (canonical_of pon [0..<length pon]) [0..<length parts]"
    using st(2) by (simp_all add: st' canonical_inv_def kept_def)
  let ?P = "\<lparr>canonical_nodes = canonical, nodes_to_keep = keep, partition_of_node = pon\<rparr>"
  note p = parts_okD [OF r(2)]
  have few: "length parts \<le> 2 ^ 31" using parts_few [OF r(2)] N by linarith
  have nt: "is_nonterminal (pon ! n) \<and> at canonical (unat (pon ! n)) = Some (Some (from_node_index (rank pon (leader pon n))))" if n: "n \<in> ?R" for n
  proof -
    obtain i where j: "i < length parts" "pon ! n = of_nat i" using part_of_node [OF r(2) n] by metis
    have "n < length pon" using n p(1,2) by auto
    then have "find (\<lambda>m. pon ! m = of_nat i) [0..<length pon] = Some (leader pon n)" using find_leader [of n "length pon" pon] j(2) by simp
    then show ?thesis using j few by (simp add: canonical canonical_of_def)
  qed
  have unr: "pon ! n = UNREACHABLE \<longleftrightarrow> n \<notin> ?R" if "n < length ns" for n
    using p(3) that nt [of n] UNREACHABLE_top by metis
  have same: "toward ns pon n b = toward ns pon m b" if nm: "n \<in> ?R" "m \<in> ?R" "pon ! n = pon ! m" for n m b
  proof -
    obtain i where j: "i < length parts" "n \<in> set (pnodes (parts ! i))" "pon ! n = of_nat i" by (rule part_of_node [OF r(2) nm(1)])
    moreover from this have "m \<in> set (pnodes (parts ! i))" using in_part_iff [OF r(2) N j(1)] nm by metis
    ultimately show ?thesis using r(3) nth_mem [OF j(1)] unfolding stable_def agree_all_def by blast
  qed
  have keeps: "should_keep ?P n \<longleftrightarrow> n < length ns \<and> is_first pon n" for n
    using keep(2) p(1) by (auto simp: should_keep_def gb_get_bit gb_ones_def ones_def kept_def)
  have sel: "partition_of_node ?P = pon" "canonical_nodes ?P = canonical" by simp_all
  have "partitions_ok ?R ns ?P"
    unfolding partitions_ok_def Let_def sel using p(1,2) unr same nt keeps by blast
  moreover have "partitions_of ord fx ns = Some ?P" using i(1) r(1) st(1) by (simp add: partitions_of_def st')
  ultimately show ?thesis by blast
qed

text \<open>C35: the partitioning ends, whatever the hash function and the order of the maps; exactly the nodes
  that the root reaches are in a partition, and two nodes of one partition lead to the same partition,
  to the same value or to failure, for every byte.\<close>

theorem partitions_of_stable:
  assumes "nodes_ok (length ns) V ns" "ns \<noteq> []" "length ns \<le> 2 ^ 31" "V < 2 ^ 31" "order_ok ord"
  shows "\<exists>P. partitions_of ord fx ns = Some P \<and>
    (\<forall>n < length ns. partition_of_node P ! n = UNREACHABLE \<longleftrightarrow> (ROOT, n) \<notin> (successor_rel ns)\<^sup>*) \<and>
    (\<forall>n m b. (ROOT, n) \<in> (successor_rel ns)\<^sup>* \<and> (ROOT, m) \<in> (successor_rel ns)\<^sup>* \<and> partition_of_node P ! n = partition_of_node P ! m \<longrightarrow>
       partition_of (partition_of_node P) (next_get (ns ! n) b) = partition_of (partition_of_node P) (next_get (ns ! m) b))"
proof -
  let ?R = "(successor_rel ns)\<^sup>* `` {ROOT}"
  obtain P where P: "partitions_of ord fx ns = Some P" "partitions_ok ?R ns P" using partitions_of_ok [OF assms] by blast
  let ?pon = "partition_of_node P"
  have len: "length ?pon = length ns" and R: "?R \<subseteq> {..<length ns}"
    and unr: "\<forall>n < length ns. ?pon ! n = UNREACHABLE \<longleftrightarrow> n \<notin> ?R"
    and same: "\<forall>n \<in> ?R. \<forall>m \<in> ?R. ?pon ! n = ?pon ! m \<longrightarrow> (\<forall>b. toward ns ?pon n b = toward ns ?pon m b)"
    using P(2) unfolding partitions_ok_def Let_def by blast+
  have "partition_of ?pon (next_get (ns ! n) b) = Some (toward ns ?pon n b)" if "n \<in> ?R" for n b
  proof (rule partition_of_target)
    show "edge_ok (length ?pon) V (next_get (ns ! n) b)" using that R len nodes_okD(2) [OF assms(1), of n b] by auto
  qed
  then have "partition_of ?pon (next_get (ns ! n) b) = partition_of ?pon (next_get (ns ! m) b)"
    if "n \<in> ?R" "m \<in> ?R" "?pon ! n = ?pon ! m" for n m b using same that by metis
  then show ?thesis using P(1) unr by (intro exI [of _ P]) auto
qed

lemma order_ok_id: "order_ok (\<lambda>m. m)"
  by (simp add: order_ok_def)

theorem partitions_of_stable_witness:
  "\<exists>P. partitions_of (\<lambda>m. m) (\<lambda>_. 0) (nodes example_map) = Some P"
proof -
  have "length (nodes example_map) \<le> 2 ^ 31" "(2 :: nat) < 2 ^ 31" by (simp_all add: example_map_size)
  from partitions_of_stable [OF example_map_size(4,3) this order_ok_id, of "\<lambda>_. 0"] show ?thesis by blast
qed

end
