(* ===== verification/Map_Optimize.thy ===== *)
theory Map_Optimize
  imports Map_Canonical
begin

text \<open>
  Optimising an instruction map (\<open>liblisa/src/instr/map/mod.rs\<close>): equal values are stored once, an edge to a
  node from which only one answer can come gives that answer at once, and nodes that behave alike are
  merged. The optimised map answers as before, and perhaps after fewer bytes.
\<close>

section \<open>Values\<close>

definition dedup_value :: "('a \<Rightarrow> NodeId option) \<times> 'a list \<times> NodeId list \<Rightarrow> 'a \<Rightarrow> (('a \<Rightarrow> NodeId option) \<times> 'a list \<times> NodeId list) option" where
  "dedup_value st v =
     (case st of (val_map, new_values, value_remap) \<Rightarrow>
        (case val_map v of
           Some i \<Rightarrow> Some (val_map, new_values, value_remap @ [i])
         | None \<Rightarrow> do {
             k \<leftarrow> index_new (length new_values);
             let i = from_val_index k;
             Some (val_map(v \<mapsto> i), new_values @ [v], value_remap @ [i])
           }))"

text \<open>\<open>remap_value_indices\<close> and \<open>remap_node_indices\<close> with a closure that may panic.\<close>

definition try_remap_values :: "(ValIndex \<Rightarrow> NodeId option) \<Rightarrow> Next \<Rightarrow> Next option" where
  "try_remap_values f nx = those (map (\<lambda>i. case unpack i of Some (ValIndex v) \<Rightarrow> f v | _ \<Rightarrow> Some i) nx)"

definition try_remap_nodes :: "(NodeIndex \<Rightarrow> NodeId option) \<Rightarrow> Next \<Rightarrow> Next option" where
  "try_remap_nodes f nx = those (map (\<lambda>i. case unpack i of Some (NodeIndex n) \<Rightarrow> f n | _ \<Rightarrow> Some i) nx)"

section \<open>Co-reachability\<close>

datatype CoReachable = CoNone | Single NodeId | Many

fun co_add :: "CoReachable \<Rightarrow> CoReachable \<Rightarrow> CoReachable" where
  "co_add (Single n) CoNone = Single n"
| "co_add Many _ = Many"
| "co_add CoNone r = r"
| "co_add (Single n) (Single m) = (if n = m then Single n else Many)"
| "co_add (Single n) Many = Many"

definition is_top :: "CoReachable \<Rightarrow> bool" where
  "is_top r \<longleftrightarrow> r = Many"

definition is_single :: "CoReachable \<Rightarrow> bool" where
  "is_single r \<longleftrightarrow> (\<exists>e. r = Single e)"

definition co_edge :: "CoReachable list \<Rightarrow> NodeId \<Rightarrow> CoReachable option" where
  "co_edge co e = (case unpack e of Some (NodeIndex n) \<Rightarrow> at co n | _ \<Rightarrow> Some (Single e))"

text \<open>The loops over the edges and over the nodes of a group, which \<open>break 'outer\<close> leaves.\<close>

fun co_edges :: "CoReachable list \<Rightarrow> CoReachable \<Rightarrow> NodeId list \<Rightarrow> CoReachable option" where
  "co_edges co r [] = Some r"
| "co_edges co r (e # es) =
     do { c \<leftarrow> co_edge co e; let r = co_add r c; if is_top r then Some r else co_edges co r es }"

fun co_group :: "Next list \<Rightarrow> CoReachable list \<Rightarrow> CoReachable \<Rightarrow> NodeIndex list \<Rightarrow> CoReachable option" where
  "co_group ns co r [] = Some r"
| "co_group ns co r (n # grp) =
     do { nx \<leftarrow> at ns n; r \<leftarrow> co_edges co r nx; if is_top r then Some r else co_group ns co r grp }"

definition co_step :: "Next list \<Rightarrow> CoReachable list \<times> bool \<Rightarrow> NodeIndex list \<Rightarrow> (CoReachable list \<times> bool) option" where
  "co_step ns st grp =
     do {
       r \<leftarrow> co_group ns (fst st) CoNone grp;
       co \<leftarrow> run (\<lambda>co n. put co n r) (fst st) grp;
       Some (co, snd st \<or> is_single r)
     }"

definition compute_co_reachability :: "Next list \<Rightarrow> (CoReachable list \<times> bool) option" where
  "compute_co_reachability ns =
     do { groups \<leftarrow> scc_iterate ns; run (co_step ns) (replicate (length ns) CoNone, False) groups }"

definition co_target :: "CoReachable list \<Rightarrow> NodeIndex \<Rightarrow> NodeId option" where
  "co_target co n =
     map_option (\<lambda>c. case c of
         Single t \<Rightarrow> (case unpack t of Some (NodeIndex _) \<Rightarrow> from_node_index n | Some (ValIndex v) \<Rightarrow> from_val_index v | None \<Rightarrow> FAIL)
       | _ \<Rightarrow> from_node_index n) (at co n)"

text \<open>Whether every node only leads to one value.\<close>

definition all_match :: "CoReachable list \<Rightarrow> CoReachable \<Rightarrow> ValIndex option" where
  "all_match co c =
     (case c of
        Single t \<Rightarrow> (case unpack t of
            Some (ValIndex v) \<Rightarrow> if list_all (\<lambda>d. d = Single t) co then Some v else None
          | _ \<Rightarrow> None)
      | _ \<Rightarrow> None)"

section \<open>Optimise\<close>

definition remap_needed :: "Partitions \<Rightarrow> nat \<Rightarrow> bool option" where
  "remap_needed P num =
     run (\<lambda>r n. if r then Some True
        else do { i \<leftarrow> index_new n; c \<leftarrow> canonical_node_of P i; Some (c \<noteq> Some (from_node_index i)) }) False [0..<num]"

definition retain_next :: "Partitions \<Rightarrow> bool \<Rightarrow> Next list \<Rightarrow> nat \<times> Next \<Rightarrow> Next list option" where
  "retain_next P remap out e =
     do {
       i \<leftarrow> index_new (fst e);
       let keep = should_keep P i;
       nx \<leftarrow> (if keep \<and> remap then try_remap_nodes (\<lambda>n. Option.bind (canonical_node_of P n) (\<lambda>c. c)) (snd e) else Some (snd e));
       Some (if keep then out @ [nx] else out)
     }"

definition merge_nodes :: "map_order \<Rightarrow> (u32 list \<Rightarrow> u32) \<Rightarrow> 'a InstructionMap \<Rightarrow> 'a InstructionMap option" where
  "merge_nodes ord fx g =
     do {
       P \<leftarrow> partitions_of ord fx (nodes g);
       root \<leftarrow> canonical_node_of P ROOT;
       (case map_option unpack root of
          Some (Some (ValIndex v)) \<Rightarrow> Some (g\<lparr>nodes := [next_new (\<lambda>_. from_val_index v)]\<rparr>)
        | Some None \<Rightarrow> Some map_new
        | _ \<Rightarrow>
            if root \<noteq> Some (from_node_index 0) then None
            else do {
              none \<leftarrow> no_optimizations_possible P;
              if none then Some g
              else do {
                remap \<leftarrow> remap_needed P (length (nodes g));
                ns \<leftarrow> run (retain_next P remap) [] (enumerate 0 (nodes g));
                Some (g\<lparr>nodes := ns\<rparr>)
              }
            })
     }"

definition optimize :: "map_order \<Rightarrow> (u32 list \<Rightarrow> u32) \<Rightarrow> 'a InstructionMap \<Rightarrow> 'a InstructionMap option" where
  "optimize ord fx g =
     (if nodes g = [] then Some g
      else do {
        (_, new_values, value_remap) \<leftarrow> run dedup_value (\<lambda>_. None, [], []) (vals g);
        ns \<leftarrow> (if length new_values \<noteq> length (vals g) then those (map (try_remap_values (at value_remap)) (nodes g)) else Some (nodes g));
        (co, any_remappable) \<leftarrow> compute_co_reachability ns;
        ns \<leftarrow> (if any_remappable then those (map (try_remap_nodes (co_target co)) ns) else Some ns);
        c \<leftarrow> at co 0;
        (case all_match co c of
           Some v \<Rightarrow> Some (g\<lparr>nodes := [next_new (\<lambda>_. from_val_index v)], vals := new_values\<rparr>)
         | None \<Rightarrow> merge_nodes ord fx (g\<lparr>nodes := ns, vals := new_values\<rparr>))
      })"

section \<open>Answers that come sooner\<close>

text \<open>\<open>h\<close> answers whenever \<open>g\<close> does, in the same way, and answers before \<open>g\<close> only if \<open>g\<close> has no other answer.\<close>

definition sooner :: "'a InstructionMap \<Rightarrow> NodeIndex \<Rightarrow> 'a InstructionMap \<Rightarrow> NodeIndex \<Rightarrow> bool" where
  "sooner g n h m \<longleftrightarrow> (\<forall>bs. (look g n bs \<noteq> NeedMoreBytes \<longrightarrow> look h m bs = look g n bs) \<and>
     (look h m bs \<noteq> NeedMoreBytes \<longrightarrow> (\<forall>cs. look g n (bs @ cs) \<in> {NeedMoreBytes, look h m bs})))"

lemma sooner_same: "(\<And>bs. look g n bs = look h m bs) \<Longrightarrow> sooner g n h m"
  by (auto simp: sooner_def look_append)

lemma sooner_trans: "sooner g n h m \<Longrightarrow> sooner h m k l \<Longrightarrow> sooner g n k l"
  unfolding sooner_def by (metis empty_iff insert_iff)

end
