(* ===== verification/Map_Sound.thy ===== *)
theory Map_Sound
  imports Map_Optimize
begin

text \<open>Optimising a map keeps its answers, step by step.\<close>

section \<open>Values\<close>

definition dedup_inv :: "'a list \<Rightarrow> ('a \<Rightarrow> NodeId option) \<times> 'a list \<times> NodeId list \<Rightarrow> bool" where
  "dedup_inv xs st \<longleftrightarrow> (case st of (m, new, remap) \<Rightarrow>
     (\<forall>v i. m v = Some i \<longrightarrow> (\<exists>j < length new. new ! j = v \<and> i = from_val_index j)) \<and> dom m = set new \<and> set new = set xs \<and> distinct new \<and>
     length remap = length xs \<and> length new \<le> length xs \<and> (length new = length xs \<longrightarrow> new = xs) \<and>
     (\<forall>i < length xs. \<exists>j < length new. remap ! i = from_val_index j \<and> new ! j = xs ! i))"

lemma dedup_step:
  assumes "dedup_inv xs st" "length xs < 2 ^ 31"
  shows "\<exists>st'. dedup_value st v = Some st' \<and> dedup_inv (xs @ [v]) st'"
proof -
  obtain m new remap where st: "st = (m, new, remap)" by (metis prod.exhaust)
  have inv: "\<And>v i. m v = Some i \<Longrightarrow> \<exists>j < length new. new ! j = v \<and> i = from_val_index j" "dom m = set new" "set new = set xs" "distinct new"
    "length remap = length xs" "length new \<le> length xs" "length new = length xs \<Longrightarrow> new = xs"
    "\<And>i. i < length xs \<Longrightarrow> \<exists>j < length new. remap ! i = from_val_index j \<and> new ! j = xs ! i"
    using assms(1) by (auto simp: dedup_inv_def st)
  show ?thesis
  proof (cases "m v")
    case (Some i)
    have v: "v \<in> set xs" using inv(2,3) Some by blast
    have "length new \<noteq> length xs + 1" using inv(6) by simp
    moreover have "\<exists>j < length new. (remap @ [i]) ! k = from_val_index j \<and> new ! j = (xs @ [v]) ! k" if "k < length (xs @ [v])" for k
      using inv(1) [OF Some] inv(5) inv(8) [of k] that by (cases "k < length xs") (auto simp: nth_append)
    ultimately have "dedup_inv (xs @ [v]) (m, new, remap @ [i])"
      using inv v unfolding dedup_inv_def prod.case by (simp add: insert_absorb)
    then show ?thesis using Some by (simp add: dedup_value_def st)
  next
    case None
    let ?i = "from_val_index (length new)"
    have v: "v \<notin> set new" using inv(2) None by auto
    have l: "length new < 2 ^ 31" using inv(6) assms(2) by simp
    have "\<exists>j < length (new @ [v]). (new @ [v]) ! j = w \<and> i = from_val_index j" if "(m(v \<mapsto> ?i)) w = Some i" for w i
    proof (cases "w = v")
      case True
      then show ?thesis using that by (intro exI [of _ "length new"]) simp
    next
      case False
      then have "m w = Some i" using that by simp
      then obtain j where "j < length new" "new ! j = w" "i = from_val_index j" using inv(1) by blast
      then show ?thesis by (intro exI [of _ j]) (simp add: nth_append)
    qed
    moreover have "\<exists>j < length (new @ [v]). (remap @ [?i]) ! k = from_val_index j \<and> (new @ [v]) ! j = (xs @ [v]) ! k" if "k < length (xs @ [v])" for k
    proof (cases "k < length xs")
      case True
      then obtain j where "j < length new" "remap ! k = from_val_index j" "new ! j = xs ! k" using inv(8) by blast
      then show ?thesis using True inv(5) by (intro exI [of _ j]) (simp add: nth_append)
    next
      case False
      then have "k = length xs" using that by simp
      then show ?thesis using inv(5) by (intro exI [of _ "length new"]) (simp add: nth_append)
    qed
    ultimately have "dedup_inv (xs @ [v]) (m(v \<mapsto> ?i), new @ [v], remap @ [?i])"
      using inv(2-7) v unfolding dedup_inv_def prod.case by simp
    then show ?thesis using None l by (simp add: dedup_value_def st index_new_def Let_def)
  qed
qed

lemma dedup_ok:
  assumes "length xs < 2 ^ 31"
  shows "\<exists>m new remap. run dedup_value (\<lambda>_. None, [], []) xs = Some (m, new, remap) \<and> dedup_inv xs (m, new, remap)"
proof -
  have "\<exists>st. run dedup_value (\<lambda>_. None, [], []) xs = Some st \<and> dedup_inv xs st"
  proof (rule run_prefix)
    show "dedup_inv [] (\<lambda>_. None, [], [])" by (simp add: dedup_inv_def)
  next
    fix ys v st assume p: "prefix (ys @ [v]) xs" and st: "dedup_inv ys st"
    have "length ys < 2 ^ 31" using prefix_length_le [OF p] assms by simp
    then show "\<exists>st'. dedup_value st v = Some st' \<and> dedup_inv (ys @ [v]) st'" by (rule dedup_step [OF st])
  qed
  then show ?thesis by (metis prod.exhaust)
qed

section \<open>Remapping\<close>

lemma try_remap_nodes_ok:
  assumes "\<And>i n. i \<in> set nx \<Longrightarrow> unpack i = Some (NodeIndex n) \<Longrightarrow> f n = Some (h n)"
  shows "try_remap_nodes f nx = Some (remap_node_indices h nx)"
  unfolding try_remap_nodes_def remap_node_indices_def
  by (rule those_map_Some) (use assms in \<open>auto split: option.split UnpackedNodeId.split\<close>)

lemma try_remap_values_ok:
  assumes "\<And>i n. i \<in> set nx \<Longrightarrow> unpack i = Some (ValIndex n) \<Longrightarrow> f n = Some (h n)"
  shows "try_remap_values f nx = Some (remap_value_indices h nx)"
  unfolding try_remap_values_def remap_value_indices_def
  by (rule those_map_Some) (use assms in \<open>auto split: option.split UnpackedNodeId.split\<close>)

lemma next_get_map: "length nx = 256 \<Longrightarrow> next_get (map f nx) b = f (next_get nx b)"
  unfolding next_get_def using unat_u8_less [of b] by simp

lemma edge_remap_nodes:
  "n < length (nodes g) \<Longrightarrow> length (nodes g ! n) = 256 \<Longrightarrow> edge (g\<lparr>nodes := map (remap_node_indices h) (nodes g), vals := vs\<rparr>) n b =
    (case edge g n b of Some (NodeIndex m) \<Rightarrow> unpack (h m) | e \<Rightarrow> e)"
  unfolding edge_def remap_node_indices_def by (simp add: next_get_map split: option.split UnpackedNodeId.split)

lemma edge_remap_values:
  "n < length (nodes g) \<Longrightarrow> length (nodes g ! n) = 256 \<Longrightarrow> edge (g\<lparr>nodes := map (remap_value_indices h) (nodes g), vals := vs\<rparr>) n b =
    (case edge g n b of Some (ValIndex v) \<Rightarrow> unpack (h v) | e \<Rightarrow> e)"
  unfolding edge_def remap_value_indices_def by (simp add: next_get_map split: option.split UnpackedNodeId.split)

lemma edge_ok_cases:
  "edge_ok N V i \<longleftrightarrow> (case unpack i of None \<Rightarrow> True | Some (NodeIndex n) \<Rightarrow> n < N | Some (ValIndex v) \<Rightarrow> v < V)"
  by (auto simp: edge_ok_def split: option.split UnpackedNodeId.split)

lemma remap_nodes_ok:
  assumes "nodes_ok N V ns" "\<And>m. m < N \<Longrightarrow> edge_ok N' V (h m)" "V \<le> W"
  shows "nodes_ok N' W (map (remap_node_indices h) ns)"
  using assms unfolding nodes_ok_def remap_node_indices_def
  by (fastforce simp: edge_ok_cases split: option.splits UnpackedNodeId.splits)

lemma remap_values_ok:
  assumes "nodes_ok N V ns" "\<And>v. v < V \<Longrightarrow> edge_ok N W (h v)"
  shows "nodes_ok N W (map (remap_value_indices h) ns)"
  using assms unfolding nodes_ok_def remap_value_indices_def
  by (fastforce simp: edge_ok_cases split: option.splits UnpackedNodeId.splits)

lemma look_same:
  assumes g: "imap_ok g" and n: "n < length (nodes g)"
    and e: "\<And>n b. n < length (nodes g) \<Longrightarrow> edge_rel (=) g h (edge g n b) (edge h n b)"
  shows "look g n bs = look h n bs"
proof (rule look_bisimilar [of "\<lambda>n m. n = m \<and> n < length (nodes g)"])
  fix n m b assume nm: "n = m \<and> n < length (nodes g)"
  then show "edge_rel (\<lambda>n m. n = m \<and> n < length (nodes g)) g h (edge g n b) (edge h m b)"
    using e [of n b] edge_node [OF g, of n b] by (auto simp: edge_rel_def split: option.splits UnpackedNodeId.splits)
qed (use n in simp)

text \<open>The first step of optimising: the values.\<close>

lemma dedup_map_ok:
  assumes g: "imap_ok g" and V: "length (vals g) < 2 ^ 31"
  shows "\<exists>m new remap ns. run dedup_value (\<lambda>_. None, [], []) (vals g) = Some (m, new, remap) \<and>
    (if length new \<noteq> length (vals g) then those (map (try_remap_values (at remap)) (nodes g)) else Some (nodes g)) = Some ns \<and>
    imap_ok (g\<lparr>nodes := ns, vals := new\<rparr>) \<and> length ns = length (nodes g) \<and> length new < 2 ^ 31 \<and>
    (\<forall>n < length ns. \<forall>bs. look g n bs = look (g\<lparr>nodes := ns, vals := new\<rparr>) n bs)"
proof -
  obtain m new remap where d: "run dedup_value (\<lambda>_. None, [], []) (vals g) = Some (m, new, remap)" "dedup_inv (vals g) (m, new, remap)"
    using dedup_ok [OF V] by blast
  have inv: "length remap = length (vals g)" "length new \<le> length (vals g)" "length new = length (vals g) \<Longrightarrow> new = vals g"
    "\<And>i. i < length (vals g) \<Longrightarrow> \<exists>j < length new. remap ! i = from_val_index j \<and> new ! j = vals g ! i"
    using d(2) by (auto simp: dedup_inv_def)
  show ?thesis
  proof (cases "length new = length (vals g)")
    case True
    then have "g\<lparr>nodes := nodes g, vals := new\<rparr> = g" using inv(3) by simp
    then show ?thesis using d(1) True g V by simp
  next
    case False
    let ?ns = "map (remap_value_indices (\<lambda>v. remap ! v)) (nodes g)"
    let ?h = "g\<lparr>nodes := ?ns, vals := new\<rparr>"
    have "try_remap_values (at remap) nx = Some (remap_value_indices (\<lambda>v. remap ! v) nx)" if "nx \<in> set (nodes g)" for nx
    proof (rule try_remap_values_ok)
      fix i v assume "i \<in> set nx" "unpack i = Some (ValIndex v)"
      then have "v < length (vals g)" using that imap_okD(2) [OF g] by (auto simp: nodes_ok_def edge_ok_def)
      then show "at remap v = Some (remap ! v)" using inv(1) by simp
    qed
    then have ns: "those (map (try_remap_values (at remap)) (nodes g)) = Some ?ns" by (rule those_map_Some)
    have small: "length new < 2 ^ 31 - 1" using False inv(2) V by simp
    have tv: "\<exists>j < length new. unpack (remap ! v) = Some (ValIndex j) \<and> new ! j = vals g ! v" if v: "v < length (vals g)" for v
    proof -
      obtain j where j: "j < length new" "remap ! v = from_val_index j" "new ! j = vals g ! v" using inv(4) [OF v] by blast
      then show ?thesis using small by (intro exI [of _ j]) simp
    qed
    have "edge_ok (length (nodes g)) (length new) (remap ! v)" if "v < length (vals g)" for v
      using tv [OF that] by (auto simp: edge_ok_cases)
    from remap_values_ok [OF imap_okD(2) [OF g] this]
    have h: "imap_ok ?h" using imap_okD(1,3) [OF g] by (simp add: imap_ok_def)
    have "edge_rel (=) g ?h (edge g n b) (edge ?h n b)" if n: "n < length (nodes g)" for n b
    proof -
      have e: "edge ?h n b = (case edge g n b of Some (ValIndex v) \<Rightarrow> unpack (remap ! v) | e \<Rightarrow> e)"
        by (rule edge_remap_values [OF n nodes_okD(1) [OF imap_okD(2) [OF g] n]])
      show ?thesis
      proof (cases "\<exists>v. edge g n b = Some (ValIndex v)")
        case True
        then obtain v where v: "edge g n b = Some (ValIndex v)" by blast
        from tv [OF edge_val [OF g n v]] show ?thesis using e v by (auto simp: edge_rel_def)
      next
        case False
        then show ?thesis using e by (auto simp: edge_rel_def split: option.split UnpackedNodeId.split)
      qed
    qed
    then have "look g n bs = look ?h n bs" if "n < length (nodes g)" for n bs
      using look_same [OF g that] by blast
    then show ?thesis using d(1) ns False h small by simp
  qed
qed

section \<open>Co-reachability\<close>

text \<open>A class covers another when it allows every answer of it.\<close>

definition co_le :: "CoReachable \<Rightarrow> CoReachable \<Rightarrow> bool" where
  "co_le a b \<longleftrightarrow> a = CoNone \<or> a = b \<or> b = Many"

lemma co_le_refl [simp]: "co_le a a" "co_le CoNone a" "co_le a Many"
  by (simp_all add: co_le_def)

lemma co_le_trans: "co_le a b \<Longrightarrow> co_le b c \<Longrightarrow> co_le a c"
  by (auto simp: co_le_def)

lemma co_le_add: "co_le a (co_add a b)" "co_le b (co_add a b)"
  by (cases a; cases b; simp add: co_le_def)+

definition co_at :: "CoReachable list \<Rightarrow> NodeId \<Rightarrow> CoReachable" where
  "co_at co e = (case unpack e of Some (NodeIndex n) \<Rightarrow> co ! n | _ \<Rightarrow> Single e)"

lemma co_edge_ok: "edge_ok (length co) V e \<Longrightarrow> co_edge co e = Some (co_at co e)"
  by (auto simp: co_edge_def co_at_def edge_ok_cases split: option.splits UnpackedNodeId.splits)

text \<open>A class that is one edge is an edge of the graph.\<close>

definition co_good :: "nat \<Rightarrow> nat \<Rightarrow> CoReachable \<Rightarrow> bool" where
  "co_good N V c \<longleftrightarrow> (\<forall>t. c = Single t \<longrightarrow> edge_ok N V t)"

lemma co_good_add: "co_good N V a \<Longrightarrow> co_good N V b \<Longrightarrow> co_good N V (co_add a b)"
  by (cases a; cases b) (auto simp: co_good_def)

lemma co_good_at: "edge_ok (length co) V e \<Longrightarrow> \<forall>c \<in> set co. co_good N W c \<Longrightarrow> edge_ok N W e \<Longrightarrow> co_good N W (co_at co e)"
proof -
  assume e: "edge_ok (length co) V e" "\<forall>c \<in> set co. co_good N W c" "edge_ok N W e"
  show ?thesis
  proof (cases "\<exists>n. unpack e = Some (NodeIndex n)")
    case True
    then obtain n where "unpack e = Some (NodeIndex n)" "n < length co" using e(1) by (auto simp: edge_ok_def)
    then show ?thesis using e(2) by (simp add: co_at_def)
  next
    case False
    then have "co_at co e = Single e" by (auto simp: co_at_def split: option.split UnpackedNodeId.split)
    then show ?thesis using e(3) by (simp add: co_good_def)
  qed
qed

lemma co_edges_ok:
  "\<forall>e \<in> set es. edge_ok (length co) V e \<Longrightarrow> \<forall>c \<in> set co. co_good (length co) V c \<Longrightarrow> co_good (length co) V r \<Longrightarrow>
    \<exists>r'. co_edges co r es = Some r' \<and> co_le r r' \<and> co_good (length co) V r' \<and> (\<forall>e \<in> set es. co_le (co_at co e) r')"
proof (induction es arbitrary: r)
  case (Cons e es)
  let ?r = "co_add r (co_at co e)"
  have e: "co_edge co e = Some (co_at co e)" using Cons.prems co_edge_ok [of co V e] by simp
  have good: "co_good (length co) V ?r" using Cons.prems co_good_at [of co V e] by (intro co_good_add) simp_all
  show ?case
  proof (cases "?r = Many")
    case True
    then show ?thesis using e by (simp add: is_top_def Let_def co_good_def)
  next
    case False
    obtain r' where r': "co_edges co ?r es = Some r'" "co_le ?r r'" "co_good (length co) V r'" "\<forall>e \<in> set es. co_le (co_at co e) r'"
      using Cons.IH [of ?r] Cons.prems good by auto
    have "co_le r r'" "co_le (co_at co e) r'" using co_le_add [of r "co_at co e"] co_le_add(2) [where a = r and b = "co_at co e"] r'(2) co_le_trans by blast+
    then show ?thesis using e r' False by (simp add: is_top_def Let_def)
  qed
qed simp

lemma co_group_ok:
  "nodes_ok (length co) V ns \<Longrightarrow> set grp \<subseteq> {..<length ns} \<Longrightarrow> \<forall>c \<in> set co. co_good (length co) V c \<Longrightarrow> co_good (length co) V r \<Longrightarrow>
    \<exists>r'. co_group ns co r grp = Some r' \<and> co_le r r' \<and> co_good (length co) V r' \<and> (\<forall>n \<in> set grp. \<forall>e \<in> set (ns ! n). co_le (co_at co e) r')"
proof (induction grp arbitrary: r)
  case (Cons n grp)
  have n: "n < length ns" using Cons.prems(2) by simp
  then have "\<forall>e \<in> set (ns ! n). edge_ok (length co) V e" using Cons.prems(1) nth_mem unfolding nodes_ok_def by blast
  from co_edges_ok [OF this Cons.prems(3,4)] obtain r1 where r1: "co_edges co r (ns ! n) = Some r1" "co_le r r1" "co_good (length co) V r1" "\<forall>e \<in> set (ns ! n). co_le (co_at co e) r1"
    by blast
  show ?case
  proof (cases "r1 = Many")
    case True
    then show ?thesis using n r1 by (simp add: is_top_def)
  next
    case False
    obtain r' where r': "co_group ns co r1 grp = Some r'" "co_le r1 r'" "co_good (length co) V r'" "\<forall>n \<in> set grp. \<forall>e \<in> set (ns ! n). co_le (co_at co e) r'"
      using Cons.IH [of r1] Cons.prems r1(3) by auto
    have "co_le r r'" using r1(2) r'(2) by (rule co_le_trans)
    moreover have "\<forall>e \<in> set (ns ! n). co_le (co_at co e) r'" using r1(4) r'(2) co_le_trans by blast
    ultimately show ?thesis using n r1(1) r'(1,3,4) False by (simp add: is_top_def)
  qed
qed simp

text \<open>After some groups: the classes of their nodes cover those of their edges.\<close>

definition co_covers :: "Next list \<Rightarrow> NodeIndex set \<Rightarrow> CoReachable list \<Rightarrow> bool" where
  "co_covers ns D co \<longleftrightarrow> length co = length ns \<and> (\<forall>n < length ns. n \<notin> D \<longrightarrow> co ! n = CoNone) \<and>
     (\<forall>n \<in> D. successors (ns ! n) \<subseteq> D \<and> (\<forall>e \<in> set (ns ! n). co_le (co_at co e) (co ! n)))"

definition co_inv :: "Next list \<Rightarrow> nat \<Rightarrow> NodeIndex set \<Rightarrow> CoReachable list \<times> bool \<Rightarrow> bool" where
  "co_inv ns V D st \<longleftrightarrow> co_covers ns D (fst st) \<and> (\<forall>c \<in> set (fst st). co_good (length ns) V c) \<and> (\<not> snd st \<longrightarrow> (\<forall>n < length ns. \<not> is_single (fst st ! n)))"

lemma co_at_cong: "(\<And>m. m \<in> successors nx \<Longrightarrow> co' ! m = co ! m) \<Longrightarrow> e \<in> set nx \<Longrightarrow> co_at co' e = co_at co e"
  by (auto simp: co_at_def successors_def split: option.split UnpackedNodeId.split)

lemma co_step_ok:
  assumes g: "nodes_ok (length ns) V ns" and st: "co_inv ns V D st" and grp: "set grp \<subseteq> {..<length ns}" "D \<inter> set grp = {}"
    and closed: "\<forall>n \<in> set grp. successors (ns ! n) \<subseteq> D \<union> set grp"
  shows "\<exists>st'. co_step ns st grp = Some st' \<and> co_inv ns V (D \<union> set grp) st'"
proof -
  obtain co any where s: "st = (co, any)" by (metis prod.exhaust)
  have c: "length co = length ns" "\<And>n. n < length ns \<Longrightarrow> n \<notin> D \<Longrightarrow> co ! n = CoNone" "\<And>n. n \<in> D \<Longrightarrow> successors (ns ! n) \<subseteq> D"
    "\<And>n e. n \<in> D \<Longrightarrow> e \<in> set (ns ! n) \<Longrightarrow> co_le (co_at co e) (co ! n)" "\<And>n. \<not> any \<Longrightarrow> n < length ns \<Longrightarrow> \<not> is_single (co ! n)"
    and good: "\<forall>c \<in> set co. co_good (length co) V c"
    using st by (auto simp: co_inv_def co_covers_def s)
  have "nodes_ok (length co) V ns" using g c(1) by simp
  from co_group_ok [OF this grp(1) good, of CoNone] obtain r where
    r: "co_group ns co CoNone grp = Some r" "co_good (length co) V r" "\<forall>n \<in> set grp. \<forall>e \<in> set (ns ! n). co_le (co_at co e) r"
    by (auto simp: co_good_def)
  have "set grp \<subseteq> {..<length co}" using grp(1) c(1) by simp
  from put_all [OF this, of r] obtain co' where co': "run (\<lambda>co n. put co n r) co grp = Some co'" "length co' = length co"
    "\<And>n. co' ! n = (if n \<in> set grp then r else co ! n)" by blast
  have old: "successors (ns ! n) \<subseteq> D \<union> set grp \<and> (\<forall>e \<in> set (ns ! n). co_le (co_at co' e) (co' ! n))" if n: "n \<in> D" for n
  proof -
    have "co_at co' e = co_at co e" if "e \<in> set (ns ! n)" for e
      using that c(3) [OF n] grp(2) co'(3) by (intro co_at_cong) auto
    moreover have "co' ! n = co ! n" using n grp(2) co'(3) by auto
    ultimately show ?thesis using c(3,4) n by auto
  qed
  have new: "successors (ns ! n) \<subseteq> D \<union> set grp \<and> (\<forall>e \<in> set (ns ! n). co_le (co_at co' e) (co' ! n))" if n: "n \<in> set grp" for n
  proof -
    have "co_le (co_at co' e) r" if e: "e \<in> set (ns ! n)" for e
    proof (cases "\<exists>m \<in> set grp. unpack e = Some (NodeIndex m)")
      case True
      then show ?thesis using co'(3) by (auto simp: co_at_def)
    next
      case False
      then have "co_at co' e = co_at co e" using co'(3) by (auto simp: co_at_def split: option.split UnpackedNodeId.split)
      then show ?thesis using r(3) n e by simp
    qed
    then show ?thesis using closed n co'(3) by simp
  qed
  have "co_covers ns (D \<union> set grp) co'"
    unfolding co_covers_def
  proof (intro conjI allI impI ballI)
    show "co' ! n = CoNone" if "n < length ns" "n \<notin> D \<union> set grp" for n using that c(2) co'(3) by simp
    show "co_le (co_at co' e) (co' ! n)" if "n \<in> D \<union> set grp" "e \<in> set (ns ! n)" for n e using that old new by blast
  qed (use old new c(1) co'(2) in auto)
  moreover have "\<not> is_single (co' ! n)" if "\<not> (any \<or> is_single r)" "n < length ns" for n
    using that c(5) co'(3) by simp
  moreover have "co_good (length ns) V (co' ! n)" if "n < length ns" for n
    using that good r(2) co'(3) c(1) by simp
  then have "\<forall>c \<in> set co'. co_good (length ns) V c" using co'(2) c(1) by (metis in_set_conv_nth)
  ultimately have "co_inv ns V (D \<union> set grp) (co', any \<or> is_single r)" by (simp add: co_inv_def)
  then show ?thesis using r(1) co'(1) by (simp add: co_step_def s)
qed

lemma co_reachability_ok:
  assumes g: "nodes_ok (length ns) V ns" and ne: "ns \<noteq> []"
  shows "\<exists>st. compute_co_reachability ns = Some st \<and> co_inv ns V ((successor_rel ns)\<^sup>* `` {ROOT}) st"
proof -
  obtain gs where gs: "scc_iterate ns = Some gs" "topological_groups ns gs" "set (concat gs) \<subseteq> {..<length ns}"
    using scc_iterate_ok [OF g ne] by blast
  have "\<exists>st. run (co_step ns) (replicate (length ns) CoNone, False) gs = Some st \<and> co_inv ns V (set (concat gs)) st"
  proof (rule run_prefix)
    show "co_inv ns V (set (concat [])) (replicate (length ns) CoNone, False)" by (simp add: co_inv_def co_covers_def is_single_def co_good_def)
  next
    fix xs grp st assume p: "prefix (xs @ [grp]) gs" and st: "co_inv ns V (set (concat xs)) st"
    obtain zs where zs: "gs = xs @ grp # zs" using p by (auto simp: prefix_def)
    then have c: "concat gs = (concat xs @ grp) @ concat zs" by simp
    have "distinct (concat gs)" "closed_groups ns gs" using gs(2) unfolding topological_groups_def by blast+
    then have d: "set grp \<subseteq> {..<length ns}" "set (concat xs) \<inter> set grp = {}"
      using gs(3) unfolding c by (simp_all only: set_append distinct_append le_sup_iff)
    have "successors (ns ! n) \<subseteq> set (concat xs) \<union> set grp" if "n \<in> set grp" for n
      using \<open>closed_groups ns gs\<close> [unfolded closed_groups_def, rule_format, of "length xs" n] that zs by auto
    then show "\<exists>st'. co_step ns st grp = Some st' \<and> co_inv ns V (set (concat (xs @ [grp]))) st'"
      using co_step_ok [OF g st d] by simp
  qed
  moreover have "set (concat gs) = (successor_rel ns)\<^sup>* `` {ROOT}" using gs(2) unfolding topological_groups_def by blast
  ultimately show ?thesis using gs(1) by (simp add: compute_co_reachability_def)
qed

end
