(* ===== verification/Map_Answers.thy ===== *)
theory Map_Answers
  imports Map_Sound
begin

text \<open>
  Optimising does not panic, and the optimised map answers every instruction that the old one answered in
  the same way. It may answer after fewer bytes, when the old map had no other answer for them.
\<close>

section \<open>Edges to nodes with one answer\<close>

lemma next_get_mem: "length nx = 256 \<Longrightarrow> next_get nx b \<in> set nx"
  unfolding next_get_def using unat_u8_less [of b] by simp

definition answer :: "'a InstructionMap \<Rightarrow> NodeId \<Rightarrow> 'a LookupResult" where
  "answer g t = (case unpack t of Some (ValIndex v) \<Rightarrow> Found (vals g ! v) | _ \<Rightarrow> NotPresent)"

lemma answer_not_more [simp]: "answer g t \<noteq> NeedMoreBytes"
  by (simp add: answer_def split: option.split UnpackedNodeId.split)

text \<open>Where a class is a single edge, no other answer comes.\<close>

lemma single_answer:
  assumes g: "imap_ok g" and c: "co_covers (nodes g) D co" and D: "D \<subseteq> {..<length (nodes g)}"
  shows "n \<in> D \<Longrightarrow> co_le (co ! n) (Single t) \<Longrightarrow> look g n bs = NeedMoreBytes \<or> look g n bs = answer g t"
proof (induction bs arbitrary: n)
  case (Cons b bs)
  let ?e = "next_get (nodes g ! n) b"
  have n: "n < length (nodes g)" using Cons.prems(1) D by auto
  have mem: "?e \<in> set (nodes g ! n)" by (rule next_get_mem [OF nodes_okD(1) [OF imap_okD(2) [OF g] n]])
  have "co_le (co_at co ?e) (co ! n)" "successors (nodes g ! n) \<subseteq> D" using c Cons.prems(1) mem unfolding co_covers_def by blast+
  then have e: "co_le (co_at co ?e) (Single t)" "successors (nodes g ! n) \<subseteq> D" using Cons.prems(2) co_le_trans by blast+
  show ?case
  proof (cases "\<exists>m. unpack ?e = Some (NodeIndex m)")
    case True
    then obtain m where m: "unpack ?e = Some (NodeIndex m)" by blast
    then have "m \<in> D" using e(2) mem unfolding successors_def by blast
    moreover have "co_le (co ! m) (Single t)" using e(1) m by (simp add: co_at_def)
    ultimately show ?thesis using Cons.IH [of m] m by (simp add: edge_def)
  next
    case False
    then have "co_at co ?e = Single ?e" by (auto simp: co_at_def split: option.split UnpackedNodeId.split)
    then have "?e = t" using e(1) by (simp add: co_le_def)
    then show ?thesis using False by (auto simp: edge_def answer_def split: option.split UnpackedNodeId.split)
  qed
qed simp

text \<open>An edge to a node becomes the one answer of that node.\<close>

definition shortcut :: "CoReachable list \<Rightarrow> NodeIndex \<Rightarrow> NodeId" where
  "shortcut co n = the (co_target co n)"

lemma shortcut_cases:
  assumes "n < length co" "n < 2 ^ 31"
  obtains (keep) "shortcut co n = from_node_index n"
  | (cut) t where "co ! n = Single t" "\<forall>m. unpack t \<noteq> Some (NodeIndex m)" "shortcut co n = t"
proof (cases "\<exists>t. co ! n = Single t \<and> (\<forall>m. unpack t \<noteq> Some (NodeIndex m))")
  case True
  then obtain t where t: "co ! n = Single t" "\<forall>m. unpack t \<noteq> Some (NodeIndex m)" by blast
  have "shortcut co n = t"
  proof (cases "unpack t")
    case None
    then show ?thesis using t assms by (simp add: shortcut_def co_target_def)
  next
    case (Some u)
    then obtain v where "unpack t = Some (ValIndex v)" using t(2) by (cases u) auto
    moreover from this have "t = from_val_index v" by (simp add: unpack_ValIndex)
    ultimately show ?thesis using t assms by (simp add: shortcut_def co_target_def)
  qed
  then show thesis using cut t by blast
next
  case False
  then have "shortcut co n = from_node_index n"
    using assms by (auto simp: shortcut_def co_target_def split: CoReachable.split option.split UnpackedNodeId.split)
  then show thesis by (rule keep)
qed

lemma look_shortcut:
  assumes g: "imap_ok g" and c: "co_covers (nodes g) D co" and D: "D \<subseteq> {..<length (nodes g)}"
  defines "h \<equiv> g\<lparr>nodes := map (remap_node_indices (shortcut co)) (nodes g)\<rparr>"
  shows "n \<in> D \<Longrightarrow> (look g n bs \<noteq> NeedMoreBytes \<longrightarrow> look h n bs = look g n bs) \<and>
     (look h n bs \<noteq> NeedMoreBytes \<longrightarrow> (\<forall>cs. look g n (bs @ cs) \<in> {NeedMoreBytes, look h n bs}))"
proof (induction bs arbitrary: n)
  case (Cons b bs)
  have n: "n < length (nodes g)" using Cons.prems D by auto
  have len: "length (nodes g ! n) = 256" by (rule nodes_okD(1) [OF imap_okD(2) [OF g] n])
  have eh: "edge h n b = (case edge g n b of Some (NodeIndex m) \<Rightarrow> unpack (shortcut co m) | e \<Rightarrow> e)"
    using edge_remap_nodes [OF n len, where h = "shortcut co" and vs = "vals g" and b = b] by (simp add: h_def)
  have vals: "vals h = vals g" by (simp add: h_def)
  show ?case
  proof (cases "\<exists>m. edge g n b = Some (NodeIndex m)")
    case True
    then obtain m where m: "edge g n b = Some (NodeIndex m)" by blast
    have "successors (nodes g ! n) \<subseteq> D" using c Cons.prems unfolding co_covers_def by blast
    then have mD: "m \<in> D" using m next_get_mem [OF len, of b] unfolding successors_def edge_def by blast
    have small: "m < length co" "m < 2 ^ 31" using mD D c imap_okD(3) [OF g] by (auto simp: co_covers_def)
    show ?thesis
    proof (rule shortcut_cases [OF small])
      assume "shortcut co m = from_node_index m"
      then show ?thesis using Cons.IH [OF mD] m eh small by simp
    next
      fix t assume t: "co ! m = Single t" "\<forall>m. unpack t \<noteq> Some (NodeIndex m)" "shortcut co m = t"
      have "look h n (b # bs) = answer g t"
        using t m eh vals by (auto simp: answer_def split: option.split UnpackedNodeId.split)
      moreover have "look g m cs = NeedMoreBytes \<or> look g m cs = answer g t" for cs
        by (rule single_answer [OF g c D mD]) (simp add: t(1))
      moreover have "look g n (b # cs) = look g m cs" for cs using m by simp
      ultimately show ?thesis using answer_not_more [of g t] unfolding append_Cons by (metis insertCI)
    qed
  next
    case False
    then have "edge h n b = edge g n b" using eh by (simp split: option.splits UnpackedNodeId.splits)
    then show ?thesis using False vals by (auto split: option.split UnpackedNodeId.split)
  qed
qed simp

lemma shortcut_ok:
  assumes g: "imap_ok g" and c: "co_covers (nodes g) D co" and D: "D \<subseteq> {..<length (nodes g)}"
    and good: "\<forall>c \<in> set co. co_good (length (nodes g)) (length (vals g)) c"
  defines "h \<equiv> g\<lparr>nodes := map (remap_node_indices (shortcut co)) (nodes g)\<rparr>"
  shows "those (map (try_remap_nodes (co_target co)) (nodes g)) = Some (nodes h)" "imap_ok h" "n \<in> D \<Longrightarrow> sooner g n h n"
proof -
  have len: "length co = length (nodes g)" using c by (simp add: co_covers_def)
  have "try_remap_nodes (co_target co) nx = Some (remap_node_indices (shortcut co) nx)" if nx: "nx \<in> set (nodes g)" for nx
  proof (rule try_remap_nodes_ok)
    fix i n assume "i \<in> set nx" "unpack i = Some (NodeIndex n)"
    then have "n < length (nodes g)" using nx imap_okD(2) [OF g] by (auto simp: nodes_ok_def edge_ok_def)
    then show "co_target co n = Some (shortcut co n)" using len by (simp add: shortcut_def co_target_def)
  qed
  then show "those (map (try_remap_nodes (co_target co)) (nodes g)) = Some (nodes h)"
    unfolding h_def by (simp add: those_map_Some)
  show "n \<in> D \<Longrightarrow> sooner g n h n" unfolding sooner_def h_def using look_shortcut [OF g c D] by blast
  have "edge_ok (length (nodes g)) (length (vals g)) (shortcut co m)" if m: "m < length (nodes g)" for m
  proof -
    have small: "m < length co" "m < 2 ^ 31" using m len imap_okD(3) [OF g] by simp_all
    show ?thesis
    proof (rule shortcut_cases [OF small])
      assume "shortcut co m = from_node_index m"
      then show ?thesis using m small by (simp add: edge_ok_cases)
    next
      fix t assume t: "co ! m = Single t" "shortcut co m = t"
      show ?thesis using good nth_mem [OF small(1)] t unfolding co_good_def by metis
    qed
  qed
  from remap_nodes_ok [OF imap_okD(2) [OF g] this order_refl]
  show "imap_ok h" using imap_okD(1,3) [OF g] by (simp add: imap_ok_def h_def)
qed

section \<open>Merging nodes\<close>

text \<open>What \<open>Partitions::of\<close> says about a reachable node: its canonical node is the first of its partition.\<close>

lemma partitions_okD:
  assumes "partitions_ok R ns P"
  shows "length (partition_of_node P) = length ns" "R \<subseteq> {..<length ns}"
    "n < length ns \<Longrightarrow> partition_of_node P ! n = UNREACHABLE \<longleftrightarrow> n \<notin> R"
    "n \<in> R \<Longrightarrow> m \<in> R \<Longrightarrow> partition_of_node P ! n = partition_of_node P ! m \<Longrightarrow> toward ns (partition_of_node P) n b = toward ns (partition_of_node P) m b"
    "n \<in> R \<Longrightarrow> is_nonterminal (partition_of_node P ! n)"
    "n \<in> R \<Longrightarrow> at (canonical_nodes P) (unat (partition_of_node P ! n)) =
      Some (Some (from_node_index (rank (partition_of_node P) (leader (partition_of_node P) n))))"
    "should_keep P n \<longleftrightarrow> n < length ns \<and> is_first (partition_of_node P) n"
  using assms unfolding partitions_ok_def Let_def by blast+

definition new_index :: "Partitions \<Rightarrow> NodeIndex \<Rightarrow> NodeIndex" where
  "new_index P n = rank (partition_of_node P) (leader (partition_of_node P) n)"

lemma canonical_node_ok:
  assumes p: "partitions_ok R ns P" and n: "n < length ns"
  shows "canonical_node_of P n = Some (if n \<in> R then Some (from_node_index (new_index P n)) else None)"
proof (cases "n \<in> R")
  case True
  then show ?thesis using n partitions_okD(1) [OF p] partitions_okD(5,6) [OF p True] by (simp add: canonical_node_of_def new_index_def)
next
  case False
  then have "partition_of_node P ! n = UNREACHABLE" using partitions_okD(3) [OF p n] by simp
  then show ?thesis using False n partitions_okD(1) [OF p] UNREACHABLE_top by (simp add: canonical_node_of_def UNREACHABLE_def PID_FAIL_def)
qed

lemma leader_reached:
  assumes p: "partitions_ok R ns P" and n: "n \<in> R"
  shows "leader (partition_of_node P) n \<in> R" "leader (partition_of_node P) n < length ns"
    "is_first (partition_of_node P) (leader (partition_of_node P) n)"
proof -
  let ?pon = "partition_of_node P"
  have l: "n < length ns" using partitions_okD(2) [OF p] n by auto
  then show less: "leader ?pon n < length ns" using leader_le [of ?pon n] by simp
  have "?pon ! n \<noteq> UNREACHABLE" using partitions_okD(3) [OF p l] n by simp
  then show "is_first ?pon (leader ?pon n)" by (rule leader_first)
  show "leader ?pon n \<in> R" using partitions_okD(3) [OF p less] \<open>?pon ! n \<noteq> UNREACHABLE\<close> by (simp add: leader_same)
qed

lemma new_index_bound:
  assumes p: "partitions_ok R ns P" and n: "n \<in> R"
  shows "new_index P n < length (kept (partition_of_node P) (length ns))"
    "kept (partition_of_node P) (length ns) ! new_index P n = leader (partition_of_node P) n"
  using rank_nth [OF leader_reached(3,2) [OF p n]] by (simp_all add: new_index_def)

lemma kept_le: "length (kept pon k) \<le> k"
  unfolding kept_def by (rule order_trans [OF length_filter_le]) simp

text \<open>The kept nodes, with their edges renamed.\<close>

definition merged :: "Partitions \<Rightarrow> Next list \<Rightarrow> Next list" where
  "merged P ns = map (\<lambda>n. remap_node_indices (\<lambda>m. from_node_index (new_index P m)) (ns ! n)) (kept (partition_of_node P) (length ns))"

lemma try_remap_canonical:
  assumes p: "partitions_ok R ns P" and N: "length ns \<le> 2 ^ 31" and g: "nodes_ok (length ns) V ns" and R: "successors_in R ns" and n: "n \<in> R"
  shows "try_remap_nodes (\<lambda>n. Option.bind (canonical_node_of P n) (\<lambda>c. c)) (ns ! n) =
    Some (remap_node_indices (\<lambda>m. from_node_index (new_index P m)) (ns ! n))"
proof (rule try_remap_nodes_ok)
  fix i m assume i: "i \<in> set (ns ! n)" "unpack i = Some (NodeIndex m)"
  then have "m \<in> R" using R n unfolding successors_in_def successors_def by blast
  moreover from this have "m < length ns" using partitions_okD(2) [OF p] by auto
  ultimately show "Option.bind (canonical_node_of P m) (\<lambda>c. c) = Some (from_node_index (new_index P m))"
    using canonical_node_ok [OF p] by simp
qed

lemma run_any: "(\<And>x. x \<in> set xs \<Longrightarrow> f x = Some (Q x)) \<Longrightarrow> run (\<lambda>r x. if r then Some True else f x) r xs = Some (r \<or> (\<exists>x \<in> set xs. Q x))"
  by (induction xs arbitrary: r) auto

lemma run_every: "(\<And>x. x \<in> set xs \<Longrightarrow> f x = Some (Q x)) \<Longrightarrow> run (\<lambda>r x. if \<not> r then Some False else f x) r xs = Some (r \<and> (\<forall>x \<in> set xs. Q x))"
  by (induction xs arbitrary: r) auto

lemma from_node_index_eq: "n < 2 ^ 31 \<Longrightarrow> m < 2 ^ 31 \<Longrightarrow> from_node_index n = from_node_index m \<longleftrightarrow> n = m"
  unfolding from_node_index_def by (rule of_nat31_eq)

lemma new_index_small: "partitions_ok R ns P \<Longrightarrow> length ns \<le> 2 ^ 31 \<Longrightarrow> n \<in> R \<Longrightarrow> new_index P n < 2 ^ 31"
  using new_index_bound(1) [of R ns P n] kept_le [of "partition_of_node P" "length ns"] by linarith

definition unchanged :: "NodeIndex set \<Rightarrow> Partitions \<Rightarrow> NodeIndex \<Rightarrow> bool" where
  "unchanged R P n \<longleftrightarrow> n \<in> R \<and> new_index P n = n"

lemma remap_needed_ok:
  assumes p: "partitions_ok R ns P" and N: "length ns \<le> 2 ^ 31"
  shows "remap_needed P (length ns) = Some (\<exists>n < length ns. \<not> unchanged R P n)"
proof -
  have "(do { i \<leftarrow> index_new n; c \<leftarrow> canonical_node_of P i; Some (c \<noteq> Some (from_node_index i)) }) = Some (\<not> unchanged R P n)"
    if n: "n \<in> set [0..<length ns]" for n
  proof -
    have "n < length ns" "n < 2 ^ 31" using n N by auto
    then show ?thesis
      using canonical_node_ok [OF p] new_index_small [OF p N, of n] by (auto simp: index_new_def unchanged_def from_node_index_eq)
  qed
  from run_any [OF this, of "[0..<length ns]" "\<lambda>x. x" False]
  show ?thesis by (auto simp: remap_needed_def)
qed

lemma no_optimizations_ok:
  assumes p: "partitions_ok R ns P" and N: "length ns \<le> 2 ^ 31"
  shows "no_optimizations_possible P = Some (\<forall>n < length ns. unchanged R P n)"
proof -
  let ?pon = "partition_of_node P"
  have "(do { p \<leftarrow> at ?pon n;
          if p = UNREACHABLE then Some False
          else do { c \<leftarrow> at (canonical_nodes P) (unat p); i \<leftarrow> index_new n; Some (c = Some (from_node_index i)) } }) = Some (unchanged R P n)"
    if n: "n \<in> set [0..<length ?pon]" for n
  proof -
    have "n < length ns" "n < 2 ^ 31" "n < length ?pon" using n N partitions_okD(1) [OF p] by auto
    then show ?thesis
      using partitions_okD(3,6) [OF p, of n] new_index_small [OF p N, of n]
      by (cases "n \<in> R") (auto simp: index_new_def unchanged_def from_node_index_eq new_index_def)
  qed
  from run_every [OF this, of "[0..<length ?pon]" "\<lambda>x. x" True]
  show ?thesis using partitions_okD(1) [OF p] by (auto simp: no_optimizations_possible_def)
qed

lemma retain_next_ok:
  assumes p: "partitions_ok R ns P" and N: "length ns \<le> 2 ^ 31" and g: "nodes_ok (length ns) V ns" and R: "successors_in R ns"
  shows "run (retain_next P True) [] (enumerate 0 ns) = Some (merged P ns)"
proof -
  let ?pon = "partition_of_node P" and ?f = "\<lambda>n. remap_node_indices (\<lambda>m. from_node_index (new_index P m)) (ns ! n)"
  let ?Q = "\<lambda>xs out. out = map ?f (kept ?pon (length xs))"
  have "\<exists>out. run (retain_next P True) [] (enumerate 0 ns) = Some out \<and> ?Q (enumerate 0 ns) out"
  proof (rule run_prefix)
    show "?Q [] []" by (simp add: kept_def)
  next
    fix xs e out assume pre: "prefix (xs @ [e]) (enumerate 0 ns)" and out: "?Q xs out"
    let ?n = "length xs"
    obtain zs where zs: "enumerate 0 ns = xs @ e # zs" using pre by (auto simp: prefix_def)
    have n: "?n < length ns" using arg_cong [OF zs, of length] by simp
    then have e: "e = (?n, ns ! ?n)" using arg_cong [OF zs, of "\<lambda>l. l ! ?n"] by (simp add: nth_enumerate_eq)
    have keep: "should_keep P ?n \<longleftrightarrow> is_first ?pon ?n" using partitions_okD(7) [OF p] n by simp
    show "\<exists>out'. retain_next P True out e = Some out' \<and> ?Q (xs @ [e]) out'"
    proof (cases "is_first ?pon ?n")
      case True
      then have "?n \<in> R" using partitions_okD(3) [OF p n] by (simp add: is_first_def)
      then have "retain_next P True out e = Some (out @ [?f ?n])"
        using try_remap_canonical [OF p N g R] True keep n N e by (simp add: retain_next_def index_new_def)
      then show ?thesis using True out by (simp add: kept_Suc)
    next
      case False
      then show ?thesis using keep n N e out by (simp add: retain_next_def index_new_def kept_Suc)
    qed
  qed
  then show ?thesis by (simp add: merged_def)
qed

lemma merged_look:
  assumes g: "imap_ok g" and p: "partitions_ok R (nodes g) P" and R: "successors_in R (nodes g)"
  defines "h \<equiv> g\<lparr>nodes := merged P (nodes g)\<rparr>"
  shows "n \<in> R \<Longrightarrow> look g n bs = look h (new_index P n) bs"
proof (rule look_bisimilar [of "\<lambda>n m. n \<in> R \<and> m = new_index P n"])
  let ?pon = "partition_of_node P" and ?N = "length (nodes g)"
  note N = imap_okD(3) [OF g]
  fix n m b assume "n \<in> R \<and> m = new_index P n"
  then have n: "n \<in> R" and m: "m = new_index P n" by blast+
  let ?l = "leader ?pon n"
  have l: "?l \<in> R" "?l < ?N" using leader_reached [OF p n] by blast+
  have nN: "n < ?N" using n partitions_okD(2) [OF p] by auto
  have "edge h m b = unpack (next_get (remap_node_indices (\<lambda>m. from_node_index (new_index P m)) (nodes g ! ?l)) b)"
    using new_index_bound [OF p n] by (simp add: edge_def h_def merged_def m)
  also have "\<dots> = (case edge g ?l b of Some (NodeIndex x) \<Rightarrow> unpack (from_node_index (new_index P x)) | e \<Rightarrow> e)"
    using nodes_okD(1) [OF imap_okD(2) [OF g] l(2)]
    by (simp add: edge_def remap_node_indices_def next_get_map split: option.split UnpackedNodeId.split)
  finally have eh: "edge h m b = (case edge g ?l b of Some (NodeIndex x) \<Rightarrow> unpack (from_node_index (new_index P x)) | e \<Rightarrow> e)" .
  have same: "toward (nodes g) ?pon ?l b = toward (nodes g) ?pon n b"
    by (rule partitions_okD(4) [OF p l(1) n]) (rule leader_same)
  have succ: "x \<in> R" if "edge g k b = Some (NodeIndex x)" "k \<in> R" "k < ?N" for k x
    using successor_edge [OF _ nodes_okD(1) [OF imap_okD(2) [OF g] that(3)]] that R unfolding edge_def successors_in_def by blast
  show "edge_rel (\<lambda>n m. n \<in> R \<and> m = new_index P n) g h (edge g n b) (edge h m b)"
  proof (cases "\<exists>x. edge g n b = Some (NodeIndex x)")
    case True
    then obtain x where x: "edge g n b = Some (NodeIndex x)" by blast
    have xR: "x \<in> R" by (rule succ [OF x n nN])
    have t: "toward (nodes g) ?pon n b = ?pon ! x" using x by (simp add: edge_def target_def)
    obtain y where y: "edge g ?l b = Some (NodeIndex y)"
    proof (cases "\<exists>y. edge g ?l b = Some (NodeIndex y)")
      case False
      then have "toward (nodes g) ?pon ?l b = next_get (nodes g ! ?l) b" "\<not> is_nonterminal (next_get (nodes g ! ?l) b)"
        using is_nonterminal_terminal by (auto simp: edge_def target_def split: option.split UnpackedNodeId.split)
      then have "\<not> is_nonterminal (?pon ! x)" using same t by metis
      then show thesis using partitions_okD(5) [OF p xR] by blast
    qed (use that in blast)
    have "toward (nodes g) ?pon ?l b = ?pon ! y" using y by (simp add: edge_def target_def)
    then have "?pon ! y = ?pon ! x" using same t by metis
    then have "new_index P y = new_index P x" using leader_cong [of ?pon y x] by (simp add: new_index_def)
    then show ?thesis using x y eh xR new_index_small [OF p N xR] by (simp add: edge_rel_def)
  next
    case False
    then have "toward (nodes g) ?pon n b = next_get (nodes g ! n) b" by (auto simp: edge_def target_def split: option.split UnpackedNodeId.split)
    moreover have nt: "\<not> is_nonterminal (next_get (nodes g ! n) b)" using False is_nonterminal_terminal by (auto simp: edge_def)
    moreover have "\<exists>y. edge g ?l b = Some (NodeIndex y) \<Longrightarrow> is_nonterminal (toward (nodes g) ?pon ?l b)"
      using succ [OF _ l] partitions_okD(5) [OF p] by (auto simp: edge_def target_def)
    ultimately have no: "\<not> (\<exists>y. edge g ?l b = Some (NodeIndex y))" using same by metis
    then have "toward (nodes g) ?pon ?l b = next_get (nodes g ! ?l) b" by (auto simp: edge_def target_def split: option.split UnpackedNodeId.split)
    then have "next_get (nodes g ! ?l) b = next_get (nodes g ! n) b" using same \<open>toward (nodes g) ?pon n b = next_get (nodes g ! n) b\<close> by metis
    then have "edge g ?l b = edge g n b" by (simp add: edge_def)
    then show ?thesis using eh False by (auto simp: edge_rel_def h_def split: option.split UnpackedNodeId.split)
  qed
qed simp

lemma merged_ok:
  assumes g: "imap_ok g" and p: "partitions_ok R (nodes g) P" and R: "successors_in R (nodes g)" and root: "ROOT \<in> R"
  shows "imap_ok (g\<lparr>nodes := merged P (nodes g)\<rparr>)" "length (merged P (nodes g)) \<le> length (nodes g)"
proof -
  let ?K = "kept (partition_of_node P) (length (nodes g))"
  note N = imap_okD(3) [OF g]
  show le: "length (merged P (nodes g)) \<le> length (nodes g)" by (simp add: merged_def kept_le)
  have "length nx = 256 \<and> (\<forall>i \<in> set nx. edge_ok (length ?K) (length (vals g)) i)" if nx: "nx \<in> set (merged P (nodes g))" for nx
  proof -
    obtain k where k: "k \<in> set ?K" "nx = remap_node_indices (\<lambda>m. from_node_index (new_index P m)) (nodes g ! k)"
      using nx by (auto simp: merged_def)
    then have kN: "k < length (nodes g)" "is_first (partition_of_node P) k" by (auto simp: kept_def)
    then have kR: "k \<in> R" using partitions_okD(3) [OF p kN(1)] by (simp add: is_first_def)
    have "edge_ok (length ?K) (length (vals g)) (case unpack i of Some (NodeIndex m) \<Rightarrow> from_node_index (new_index P m) | _ \<Rightarrow> i)"
      if i: "i \<in> set (nodes g ! k)" for i
    proof (cases "\<exists>m. unpack i = Some (NodeIndex m)")
      case True
      then obtain m where m: "unpack i = Some (NodeIndex m)" by blast
      then have "m \<in> R" using i kR R unfolding successors_in_def successors_def by blast
      then show ?thesis using m new_index_bound(1) [OF p, of m] new_index_small [OF p N, of m] by (simp add: edge_ok_cases)
    next
      case False
      have "edge_ok (length (nodes g)) (length (vals g)) i"
        using imap_okD(2) [OF g] i nth_mem [OF kN(1)] unfolding nodes_ok_def by blast
      then show ?thesis using False by (auto simp: edge_ok_cases split: option.splits UnpackedNodeId.splits)
    qed
    then show ?thesis using k(2) nodes_okD(1) [OF imap_okD(2) [OF g] kN(1)] by (auto simp: remap_node_indices_def)
  qed
  moreover have "length (merged P (nodes g)) = length ?K" by (simp add: merged_def)
  ultimately have "nodes_ok (length (merged P (nodes g))) (length (vals g)) (merged P (nodes g))" by (simp add: nodes_ok_def)
  moreover have "merged P (nodes g) \<noteq> []" using new_index_bound(1) [OF p root] by (auto simp: merged_def)
  ultimately show "imap_ok (g\<lparr>nodes := merged P (nodes g)\<rparr>)" using le N by (simp add: imap_ok_def)
qed

lemma new_root: "partitions_ok R ns P \<Longrightarrow> new_index P ROOT = 0"
  using leader_le [of "partition_of_node P" 0] by (simp add: new_index_def rank_def kept_def ROOT_def)

lemma merge_nodes_ok:
  assumes g: "imap_ok g" and V: "length (vals g) < 2 ^ 31" and o: "order_ok ord"
  shows "\<exists>h. merge_nodes ord fx g = Some h \<and> imap_ok h \<and> (\<forall>bs. look g ROOT bs = look h ROOT bs) \<and> length (nodes h) \<le> length (nodes g)"
proof -
  let ?R = "(successor_rel (nodes g))\<^sup>* `` {ROOT}"
  note N = imap_okD(3) [OF g] and ok = imap_okD(2) [OF g] and ne = imap_okD(1) [OF g]
  note R = nodes_reached [OF ok ne]
  obtain P where P: "partitions_of ord fx (nodes g) = Some P" "partitions_ok ?R (nodes g) P"
    using partitions_of_ok [OF ok ne N V o] by blast
  have root: "canonical_node_of P ROOT = Some (Some (from_node_index 0))"
    using canonical_node_ok [OF P(2), of ROOT] R(2,3) new_root [OF P(2)] by auto
  have pair: "remap_needed P (length (nodes g)) = Some (\<not> all_same) \<and> no_optimizations_possible P = Some all_same"
    if "all_same = (\<forall>n < length (nodes g). unchanged ?R P n)" for all_same
    using remap_needed_ok [OF P(2) N] no_optimizations_ok [OF P(2) N] that by simp
  show ?thesis
  proof (cases "\<forall>n < length (nodes g). unchanged ?R P n")
    case True
    then have "no_optimizations_possible P = Some True" using pair by blast
    then have "merge_nodes ord fx g = Some g" using P(1) root by (simp add: merge_nodes_def)
    then show ?thesis using g by blast
  next
    case False
    then have "no_optimizations_possible P = Some False" "remap_needed P (length (nodes g)) = Some True"
      using pair [of False] by simp_all
    then have "merge_nodes ord fx g = Some (g\<lparr>nodes := merged P (nodes g)\<rparr>)"
      using P(1) root retain_next_ok [OF P(2) N ok R(1)] by (simp add: merge_nodes_def)
    moreover have "look g ROOT bs = look (g\<lparr>nodes := merged P (nodes g)\<rparr>) ROOT bs" for bs
      using merged_look [OF g P(2) R(1,2), of bs] new_root [OF P(2)] by (simp add: ROOT_def)
    ultimately show ?thesis using merged_ok [OF g P(2) R(1,2)] by simp
  qed
qed

section \<open>All of it\<close>

lemma all_match_sooner:
  assumes g: "imap_ok g" and c: "co_covers (nodes g) D co" and D: "D \<subseteq> {..<length (nodes g)}" "ROOT \<in> D"
    and good: "\<forall>c \<in> set co. co_good (length (nodes g)) (length (vals g)) c" and m: "all_match co (co ! 0) = Some v"
  defines "h \<equiv> g\<lparr>nodes := [next_new (\<lambda>_. from_val_index v)]\<rparr>"
  shows "imap_ok h" "sooner g ROOT h ROOT"
proof -
  obtain t where t: "co ! 0 = Single t" "unpack t = Some (ValIndex v)"
    using m by (auto simp: all_match_def split: CoReachable.splits option.splits UnpackedNodeId.splits if_splits)
  have "0 < length co" using D c by (auto simp: ROOT_def co_covers_def)
  then have "co_good (length (nodes g)) (length (vals g)) (co ! 0)" using good nth_mem by blast
  then have v: "v < length (vals g)" using t by (simp add: co_good_def edge_ok_def)
  have v': "v < 2 ^ 31 - 1" "unpack (from_val_index v) = Some (ValIndex v)" using t(2) unpack_ValIndex [of t v] by auto
  show "imap_ok h" using v v' by (auto simp: imap_ok_def h_def nodes_ok_def next_new_def edge_ok_cases)
  have h: "look h ROOT bs = (if bs = [] then NeedMoreBytes else Found (vals g ! v))" for bs
    using v' by (cases bs) (simp_all add: h_def edge_def ROOT_def)
  have a: "look g ROOT bs = NeedMoreBytes \<or> look g ROOT bs = Found (vals g ! v)" for bs
    using single_answer [OF g c D(1,2), of t bs] t by (simp add: ROOT_def answer_def)
  show "sooner g ROOT h ROOT" unfolding sooner_def
  proof (intro allI conjI impI)
    fix bs assume "look g ROOT bs \<noteq> NeedMoreBytes"
    then have "look g ROOT bs = Found (vals g ! v)" "bs \<noteq> []" using a by auto
    then show "look h ROOT bs = look g ROOT bs" using h by simp
  next
    fix bs cs assume "look h ROOT bs \<noteq> NeedMoreBytes"
    then have "look h ROOT bs = Found (vals g ! v)" using h by (simp split: if_splits)
    then show "look g ROOT (bs @ cs) \<in> {NeedMoreBytes, look h ROOT bs}" using a by simp
  qed
qed

lemma optimize_ok:
  assumes g: "imap_ok g" and V: "length (vals g) < 2 ^ 31" and o: "order_ok ord"
  shows "\<exists>h. optimize ord fx g = Some h \<and> imap_ok h \<and> sooner g ROOT h ROOT \<and> length (nodes h) \<le> length (nodes g)"
proof -
  obtain m new remap ns where d: "run dedup_value (\<lambda>_. None, [], []) (vals g) = Some (m, new, remap)"
    "(if length new \<noteq> length (vals g) then those (map (try_remap_values (at remap)) (nodes g)) else Some (nodes g)) = Some ns"
    "imap_ok (g\<lparr>nodes := ns, vals := new\<rparr>)" "length ns = length (nodes g)" "length new < 2 ^ 31"
    "\<forall>n < length ns. \<forall>bs. look g n bs = look (g\<lparr>nodes := ns, vals := new\<rparr>) n bs"
    using dedup_map_ok [OF g V] by blast
  let ?g1 = "g\<lparr>nodes := ns, vals := new\<rparr>"
  have ns1: "nodes ?g1 = ns" "vals ?g1 = new" by simp_all
  have pos: "0 < length ns" using imap_okD(1) [OF g] d(4) by simp
  have s1: "sooner g ROOT ?g1 ROOT" by (rule sooner_same) (use d(6) pos in \<open>simp add: ROOT_def\<close>)
  let ?R = "(successor_rel ns)\<^sup>* `` {ROOT}"
  have ok1: "nodes_ok (length ns) (length new) ns" "ns \<noteq> []" using imap_okD(1,2) [OF d(3)] by simp_all
  note R = nodes_reached [OF ok1]
  obtain co any where co: "compute_co_reachability ns = Some (co, any)" "co_inv ns (length new) ?R (co, any)"
    using co_reachability_ok [OF ok1] by fastforce
  have c: "co_covers (nodes ?g1) ?R co" "\<forall>c \<in> set co. co_good (length (nodes ?g1)) (length (vals ?g1)) c" "\<not> any \<Longrightarrow> \<forall>n < length ns. \<not> is_single (co ! n)"
    using co(2) by (simp_all add: co_inv_def)
  have lco: "length co = length ns" using c(1) by (simp add: co_covers_def)
  have D: "?R \<subseteq> {..<length (nodes ?g1)}" using R(3) by simp
  obtain ns2 where ns2: "(if any then those (map (try_remap_nodes (co_target co)) ns) else Some ns) = Some ns2"
    "imap_ok (?g1\<lparr>nodes := ns2\<rparr>)" "sooner ?g1 ROOT (?g1\<lparr>nodes := ns2\<rparr>) ROOT" "length ns2 = length ns"
  proof (cases any)
    case True
    then show thesis using that [of "map (remap_node_indices (shortcut co)) ns"] shortcut_ok [OF d(3) c(1) D c(2)] R(2) by simp
  next
    case False
    have e: "?g1\<lparr>nodes := ns\<rparr> = ?g1" by (cases g) simp
    show thesis by (rule that [of ns, unfolded e]) (use False d(3) sooner_same [of ?g1 ROOT ?g1 ROOT] in simp_all)
  qed
  let ?g2 = "?g1\<lparr>nodes := ns2\<rparr>"
  have c0: "at co 0 = Some (co ! 0)" using pos lco by simp
  show ?thesis
  proof (cases "all_match co (co ! 0)")
    case (Some v)
    let ?h = "?g1\<lparr>nodes := [next_new (\<lambda>_. from_val_index v)]\<rparr>"
    have "optimize ord fx g = Some ?h"
      using ok1(2) imap_okD(1) [OF g] d(1,2) co(1) ns2(1) c0 Some by (simp add: optimize_def)
    moreover have "imap_ok ?h" "sooner ?g1 ROOT ?h ROOT" by (rule all_match_sooner [OF d(3) c(1) D R(2) c(2) Some])+
    moreover have "length (nodes ?h) \<le> length (nodes g)" using pos unfolding d(4) by (simp add: Suc_le_eq)
    ultimately show ?thesis using sooner_trans [OF s1] by blast
  next
    case None
    obtain h where h: "merge_nodes ord fx ?g2 = Some h" "imap_ok h" "\<forall>bs. look ?g2 ROOT bs = look h ROOT bs" "length (nodes h) \<le> length (nodes ?g2)"
      using merge_nodes_ok [OF ns2(2) _ o, of fx] d(5) by auto
    have g2: "?g2 = g\<lparr>nodes := ns2, vals := new\<rparr>" by (cases g) simp
    have "optimize ord fx g = Some h"
      using ok1(2) imap_okD(1) [OF g] d(1,2) co(1) ns2(1) c0 None h(1) [unfolded g2] by (simp add: optimize_def)
    moreover have "sooner g ROOT h ROOT"
      by (rule sooner_trans [OF sooner_trans [OF s1 ns2(3)] sooner_same]) (use h(3) in simp)
    moreover have "length (nodes h) \<le> length (nodes g)" using h(4) ns2(4) d(4) by simp
    ultimately show ?thesis using h(2) by blast
  qed
qed

text \<open>C36: optimising a well-formed map does not panic and gives a well-formed map with no more nodes. It gives
  every answer that the old map gave. If it answers where the old map wanted more bytes, then no further
  bytes could have given another answer.\<close>

theorem optimize_answers:
  assumes "imap_ok g" "length (vals g) < 2 ^ 31" "order_ok ord"
  shows "\<exists>h. optimize ord fx g = Some h \<and> imap_ok h \<and> length (nodes h) \<le> length (nodes g) \<and>
    (\<forall>bs r. map_get g bs = Some r \<and> r \<noteq> NeedMoreBytes \<longrightarrow> map_get h bs = Some r) \<and>
    (\<forall>bs cs r. map_get h bs = Some r \<and> r \<noteq> NeedMoreBytes \<longrightarrow> map_get g (bs @ cs) \<in> {Some NeedMoreBytes, Some r})"
proof -
  obtain h where h: "optimize ord fx g = Some h" "imap_ok h" "sooner g ROOT h ROOT" "length (nodes h) \<le> length (nodes g)"
    using optimize_ok [OF assms] by blast
  then show ?thesis using map_get_look [OF assms(1)] map_get_look [OF h(2)]
    by (intro exI [of _ h]) (auto simp: sooner_def ROOT_def)
qed

theorem optimize_answers_witness:
  "\<exists>h. optimize (\<lambda>m. m) (\<lambda>_. 0) example_map = Some h \<and> map_get h [0x0f, 0x05] = Some (Found 20)"
proof -
  have "length (vals example_map) < 2 ^ 31" by (simp add: example_map_size)
  from optimize_answers [OF example_map_ok this order_ok_id, of "\<lambda>_. 0"] show ?thesis
    using example_map_get(1) by (metis LookupResult.distinct(1))
qed

end
