(* ===== verification/Map_Union.thy ===== *)
theory Map_Union
  imports Map_Answers
begin

text \<open>
  The union of two instruction maps (\<open>liblisa/src/instr/map/mod.rs\<close>, \<open>union_with_report_overlapping\<close>): a
  product of the two graphs, built into the first from its root. The first hit decides, a tie goes to
  the second map. Then the result is optimised.
\<close>

section \<open>Transitions\<close>

definition transitions :: "Next list \<Rightarrow> u8 \<Rightarrow> NodeId option \<Rightarrow> NodeId option option" where
  "transitions ns b node =
     (case node of
        None \<Rightarrow> Some None
      | Some i \<Rightarrow>
          (case unpack i of
             Some (ValIndex v) \<Rightarrow> Some (Some (from_val_index v))
           | Some (NodeIndex n) \<Rightarrow>
               map_option (\<lambda>nx. case unpack (next_get nx b) of
                   Some (ValIndex v) \<Rightarrow> Some (from_val_index v)
                 | Some (NodeIndex m) \<Rightarrow> Some (from_node_index m)
                 | None \<Rightarrow> None) (at ns n)
           | None \<Rightarrow> Some None))"

text \<open>A pair of positions in the two graphs.\<close>

record T =
  lhs :: "NodeId option"
  rhs :: "NodeId option"

definition val_of :: "NodeId option \<Rightarrow> ValIndex option" where
  "val_of i = (case Option.bind i unpack of Some (ValIndex v) \<Rightarrow> Some v | _ \<Rightarrow> None)"

text \<open>The new edge for a byte, or the pair that it leads to.\<close>

definition union_edge :: "ValIndex list \<Rightarrow> NodeId option \<Rightarrow> NodeId option \<Rightarrow> (NodeId + T) option" where
  "union_edge rhs_value_remap l r =
     (case val_of r of
        Some w \<Rightarrow> map_option (\<lambda>v. Inl (from_val_index v)) (at rhs_value_remap w)
      | None \<Rightarrow>
          (case val_of l of
             Some v \<Rightarrow> Some (Inl (from_val_index v))
           | None \<Rightarrow>
               if l = None \<and> r = None then Some (Inl FAIL)
               else if r = None then map_option Inl l
               else Some (Inr \<lparr>lhs = l, rhs = r\<rparr>)))"

section \<open>The product\<close>

record Product =
  prod_nodes :: "Next list"
  id_map :: "T \<Rightarrow> NodeIndex option"
  prod_frontier :: "(T \<times> NodeIndex) list"

text \<open>\<open>id_map.entry(T { lhs, rhs }).or_insert_with_key(...)\<close>; the top of the frontier comes first.\<close>

definition pair_id :: "Product \<Rightarrow> T \<Rightarrow> (Product \<times> NodeIndex) option" where
  "pair_id st t =
     (case id_map st t of
        Some i \<Rightarrow> Some (st, i)
      | None \<Rightarrow> do {
          i \<leftarrow> index_new (length (prod_nodes st));
          Some (st\<lparr>prod_nodes := prod_nodes st @ [ALL_FAIL], id_map := (id_map st)(t \<mapsto> i), prod_frontier := (t, i) # prod_frontier st\<rparr>, i)
        })"

text \<open>A byte of the pair \<open>t\<close>; \<open>next\<close> has the edges so far, \<open>hits\<close> what was reported to \<open>overlap\<close>.\<close>

definition union_byte :: "Next list \<Rightarrow> ValIndex list \<Rightarrow> T \<Rightarrow> Product \<times> Next \<times> (ValIndex \<times> ValIndex) list \<Rightarrow> u8
    \<Rightarrow> (Product \<times> Next \<times> (ValIndex \<times> ValIndex) list) option" where
  "union_byte other rhs_value_remap t s b =
     (case s of (st, nx, hits) \<Rightarrow> do {
        l \<leftarrow> transitions (prod_nodes st) b (lhs t);
        r \<leftarrow> transitions other b (rhs t);
        e \<leftarrow> union_edge rhs_value_remap l r;
        let hits = (case (val_of l, val_of r) of (Some v, Some w) \<Rightarrow> hits @ [(v, w)] | _ \<Rightarrow> hits);
        (st, i) \<leftarrow> (case e of Inl i \<Rightarrow> Some (st, i) | Inr t \<Rightarrow> map_option (\<lambda>(st, n). (st, from_node_index n)) (pair_id st t));
        Some (st, nx @ [i], hits)
      })"

partial_function (option) union_loop :: "Next list \<Rightarrow> ValIndex list \<Rightarrow> Product \<Rightarrow> (ValIndex \<times> ValIndex) list
    \<Rightarrow> (Next list \<times> (ValIndex \<times> ValIndex) list) option" where
  "union_loop other rhs_value_remap st hits =
     (case prod_frontier st of
        [] \<Rightarrow> Some (prod_nodes st, hits)
      | (t, i) # rest \<Rightarrow> do {
          (st, nx, hits) \<leftarrow> run (union_byte other rhs_value_remap t) (st\<lparr>prod_frontier := rest\<rparr>, [], hits) all_bytes;
          ns \<leftarrow> put (prod_nodes st) i nx;
          union_loop other rhs_value_remap (st\<lparr>prod_nodes := ns\<rparr>) hits
        })"

text \<open>The indices of the values of \<open>other\<close> among those of \<open>self\<close>.\<close>

definition union_value :: "('a \<Rightarrow> ValIndex option) \<times> 'a list \<times> ValIndex list \<Rightarrow> 'a \<Rightarrow> (('a \<Rightarrow> ValIndex option) \<times> 'a list \<times> ValIndex list) option" where
  "union_value s v =
     (case s of (val_map, values, remap) \<Rightarrow>
        (case val_map v of
           Some i \<Rightarrow> Some (val_map, values, remap @ [i])
         | None \<Rightarrow> do { i \<leftarrow> index_new (length values); Some (val_map(v \<mapsto> i), values @ [v], remap @ [i]) }))"

definition value_indices :: "'a list \<Rightarrow> ('a \<Rightarrow> ValIndex option) option" where
  "value_indices vs = run (\<lambda>m (i, v). do { i \<leftarrow> index_new i; Some (m(v \<mapsto> i)) }) (\<lambda>_. None) (enumerate 0 vs)"

definition move_root :: "NodeIndex \<Rightarrow> Next list \<Rightarrow> Next list" where
  "move_root old_root ns = map (remap_node_indices (\<lambda>i. from_node_index (if i = ROOT then old_root else i))) ns"

text \<open>The values that \<open>overlap\<close> is called with come second in the result.\<close>

definition union_with_report_overlapping :: "map_order \<Rightarrow> (u32 list \<Rightarrow> u32) \<Rightarrow> 'a InstructionMap \<Rightarrow> 'a InstructionMap
    \<Rightarrow> ('a InstructionMap \<times> ('a \<times> 'a) list) option" where
  "union_with_report_overlapping ord fx self other =
     (if is_all_fail self then Some (other, [])
      else if is_all_fail other then Some (self, [])
      else do {
        val_map \<leftarrow> value_indices (vals self);
        (_, values, rhs_value_remap) \<leftarrow> run union_value (val_map, vals self, []) (vals other);
        old_root \<leftarrow> index_new (length (nodes self));
        first \<leftarrow> at (nodes self) 0;
        let t = \<lparr>lhs = Some (from_node_index ROOT), rhs = Some (from_node_index ROOT)\<rparr>;
        (ns, hits) \<leftarrow> union_loop (nodes other) rhs_value_remap
          \<lparr>prod_nodes = move_root old_root (nodes self @ [first]), id_map = (\<lambda>_. None)(t \<mapsto> ROOT), prod_frontier = [(t, ROOT)]\<rparr> [];
        pairs \<leftarrow> those (map (\<lambda>(v, w). do { x \<leftarrow> at values v; y \<leftarrow> at (vals other) w; Some (x, y) }) hits);
        result \<leftarrow> optimize ord fx (self\<lparr>nodes := ns, vals := values\<rparr>);
        Some (result, pairs)
      })"

definition union_with :: "map_order \<Rightarrow> (u32 list \<Rightarrow> u32) \<Rightarrow> 'a InstructionMap \<Rightarrow> 'a InstructionMap \<Rightarrow> 'a InstructionMap option" where
  "union_with ord fx self other = map_option fst (union_with_report_overlapping ord fx self other)"

section \<open>The specification\<close>

text \<open>The first value found wins, and the second map at the same length.\<close>

definition union_look :: "'a InstructionMap \<Rightarrow> 'a InstructionMap \<Rightarrow> u8 list \<Rightarrow> 'a LookupResult" where
  "union_look g h bs =
     (case (look g ROOT bs, look h ROOT bs) of
        (Found v, Found w) \<Rightarrow> if consumed h ROOT bs \<le> consumed g ROOT bs then Found w else Found v
      | (Found v, _) \<Rightarrow> Found v
      | (_, Found w) \<Rightarrow> Found w
      | (NotPresent, NotPresent) \<Rightarrow> NotPresent
      | _ \<Rightarrow> NeedMoreBytes)"

text \<open>The same, byte by byte, from a pair of nodes, of which one may be gone.\<close>

definition opt_edge :: "'a InstructionMap \<Rightarrow> NodeIndex option \<Rightarrow> u8 \<Rightarrow> UnpackedNodeId option" where
  "opt_edge g n b = Option.bind n (\<lambda>n. edge g n b)"

fun pair_look :: "'a InstructionMap \<Rightarrow> 'a InstructionMap \<Rightarrow> NodeIndex option \<Rightarrow> NodeIndex option \<Rightarrow> u8 list \<Rightarrow> 'a LookupResult" where
  "pair_look g h l r [] = NeedMoreBytes"
| "pair_look g h l r (b # bs) =
     (case (opt_edge g l b, opt_edge h r b) of
        (_, Some (ValIndex w)) \<Rightarrow> Found (vals h ! w)
      | (Some (ValIndex v), _) \<Rightarrow> Found (vals g ! v)
      | (None, None) \<Rightarrow> NotPresent
      | (Some (NodeIndex n), None) \<Rightarrow> pair_look g h (Some n) None bs
      | (None, Some (NodeIndex m)) \<Rightarrow> pair_look g h None (Some m) bs
      | (Some (NodeIndex n), Some (NodeIndex m)) \<Rightarrow> pair_look g h (Some n) (Some m) bs)"

lemma pair_look_left: "pair_look g h (Some n) None bs = look g n bs"
  by (induction bs arbitrary: n) (auto simp: opt_edge_def split: option.split UnpackedNodeId.split)

lemma pair_look_right: "pair_look g h None (Some m) bs = look h m bs"
  by (induction bs arbitrary: m) (auto simp: opt_edge_def split: option.split UnpackedNodeId.split)

lemma found_consumed: "look g n bs = Found v \<Longrightarrow> 1 \<le> consumed g n bs"
  by (cases bs) (auto split: option.split UnpackedNodeId.split)

lemma pair_look_union:
  "pair_look g h (Some n) (Some m) bs =
     (case (look g n bs, look h m bs) of
        (Found v, Found w) \<Rightarrow> if consumed h m bs \<le> consumed g n bs then Found w else Found v
      | (Found v, _) \<Rightarrow> Found v
      | (_, Found w) \<Rightarrow> Found w
      | (NotPresent, NotPresent) \<Rightarrow> NotPresent
      | _ \<Rightarrow> NeedMoreBytes)"
proof (induction bs arbitrary: n m)
  case (Cons b bs)
  show ?case
  proof (cases "\<exists>x y. edge g n b = Some (NodeIndex x) \<and> edge h m b = Some (NodeIndex y)")
    case True
    then show ?thesis using Cons.IH by (auto simp: opt_edge_def split: LookupResult.split)
  next
    case False
    then show ?thesis
      by (auto simp: opt_edge_def pair_look_left pair_look_right dest: found_consumed
          split: option.splits UnpackedNodeId.splits LookupResult.splits)
  qed
qed simp

end
