(* ===== verification/Map_Product.thy ===== *)
theory Map_Product
  imports Map_Union
begin

text \<open>
  The loop that builds the union ends, and the node of a pair of positions answers as the pair does: the
  identifiers of pairs are never changed, and the nodes of the first graph stay in place behind its root.
\<close>

section \<open>Positions and their edges\<close>

definition pack :: "UnpackedNodeId \<Rightarrow> NodeId" where
  "pack u = (case u of NodeIndex n \<Rightarrow> from_node_index n | ValIndex v \<Rightarrow> from_val_index v)"

lemma pack_unpack: "unpack i = Some u \<Longrightarrow> pack u = i"
  by (cases u) (auto simp: pack_def unpack_NodeIndex unpack_ValIndex)

definition pair :: "NodeIndex option \<Rightarrow> NodeIndex option \<Rightarrow> T" where
  "pair l r = \<lparr>lhs = map_option from_node_index l, rhs = map_option from_node_index r\<rparr>"

text \<open>The first graph with its root moved to the end: node \<open>k\<close> stands for \<open>old_index k\<close>.\<close>

definition with_old_root :: "'a InstructionMap \<Rightarrow> Next list" where
  "with_old_root g = move_root (length (nodes g)) (nodes g @ [nodes g ! 0])"

definition old_index :: "'a InstructionMap \<Rightarrow> NodeIndex \<Rightarrow> NodeIndex" where
  "old_index g k = (if k = length (nodes g) then 0 else k)"

definition moved_edge :: "'a InstructionMap \<Rightarrow> NodeIndex option \<Rightarrow> u8 \<Rightarrow> UnpackedNodeId option" where
  "moved_edge g l b = map_option (\<lambda>u. case u of NodeIndex m \<Rightarrow> NodeIndex (if m = 0 then length (nodes g) else m) | ValIndex v \<Rightarrow> ValIndex v)
     (opt_edge g (map_option (old_index g) l) b)"

lemma length_with_old_root [simp]: "length (with_old_root g) = Suc (length (nodes g))"
  by (simp add: with_old_root_def move_root_def)

lemma old_index_less: "imap_ok g \<Longrightarrow> k \<le> length (nodes g) \<Longrightarrow> old_index g k < length (nodes g)"
  using imap_okD(1) [of g] by (auto simp: old_index_def)

lemma with_old_root_edge:
  assumes g: "imap_ok g" and L: "length (nodes g) < 2 ^ 31" and k: "k \<le> length (nodes g)"
  shows "unpack (next_get (with_old_root g ! k) b) = moved_edge g (Some k) b"
proof -
  let ?f = "\<lambda>i. from_node_index (if i = ROOT then length (nodes g) else i)"
  have n: "old_index g k < length (nodes g)" by (rule old_index_less [OF g k])
  have "with_old_root g ! k = remap_node_indices ?f (nodes g ! old_index g k)"
    using k imap_okD(1) [OF g] by (auto simp: with_old_root_def move_root_def old_index_def nth_append)
  then have "unpack (next_get (with_old_root g ! k) b) = unpack (case edge g (old_index g k) b of Some (NodeIndex m) \<Rightarrow> ?f m | _ \<Rightarrow> next_get (nodes g ! old_index g k) b)"
    using nodes_okD(1) [OF imap_okD(2) [OF g] n] by (simp add: edge_def remap_node_indices_def next_get_map)
  also have "\<dots> = moved_edge g (Some k) b"
    using edge_node [OF g n, of b] L
    by (auto simp: moved_edge_def opt_edge_def ROOT_def edge_def split: option.split UnpackedNodeId.split)
  finally show ?thesis .
qed

lemma moved_edge_bounds:
  assumes g: "imap_ok g" and l: "\<forall>k. l = Some k \<longrightarrow> k \<le> length (nodes g)"
  shows "moved_edge g l b = Some (NodeIndex k) \<Longrightarrow> 0 < k \<and> k \<le> length (nodes g)"
    "moved_edge g l b = Some (ValIndex v) \<Longrightarrow> v < length (vals g)"
proof -
  have n: "old_index g k < length (nodes g)" if "l = Some k" for k using l that old_index_less [OF g] by blast
  have pos: "0 < length (nodes g)" using imap_okD(1) [OF g] by simp
  have cases: "\<exists>j u. l = Some j \<and> edge g (old_index g j) b = Some u \<and>
      x = (case u of NodeIndex m \<Rightarrow> NodeIndex (if m = 0 then length (nodes g) else m) | ValIndex v \<Rightarrow> ValIndex v)"
    if "moved_edge g l b = Some x" for x
    using that by (cases l) (auto simp: moved_edge_def opt_edge_def)
  show "0 < k \<and> k \<le> length (nodes g)" if e: "moved_edge g l b = Some (NodeIndex k)"
  proof -
    obtain j u where j: "l = Some j" "edge g (old_index g j) b = Some u"
      "NodeIndex k = (case u of NodeIndex m \<Rightarrow> NodeIndex (if m = 0 then length (nodes g) else m) | ValIndex v \<Rightarrow> ValIndex v)"
      using cases [OF e] by blast
    then show ?thesis using edge_node [OF g n [OF j(1)], of b] pos by (cases u) (auto split: if_splits)
  qed
  show "v < length (vals g)" if e: "moved_edge g l b = Some (ValIndex v)"
  proof -
    obtain j u where j: "l = Some j" "edge g (old_index g j) b = Some u"
      "ValIndex v = (case u of NodeIndex m \<Rightarrow> NodeIndex (if m = 0 then length (nodes g) else m) | ValIndex v \<Rightarrow> ValIndex v)"
      using cases [OF e] by blast
    then show ?thesis using edge_val [OF g n [OF j(1)], of b] by (cases u) auto
  qed
qed

lemma opt_edge_bounds:
  assumes h: "imap_ok h" and r: "\<forall>k. r = Some k \<longrightarrow> k < length (nodes h)"
  shows "opt_edge h r b = Some (NodeIndex k) \<Longrightarrow> k < length (nodes h)" "opt_edge h r b = Some (ValIndex v) \<Longrightarrow> v < length (vals h)"
  using edge_node [OF h, of _ b] edge_val [OF h, of _ b] r by (auto simp: opt_edge_def bind_eq_Some_conv)

lemma transitions_ok:
  assumes "\<forall>k. l = Some k \<longrightarrow> k < length ns \<and> k < 2 ^ 31 \<and> unpack (next_get (ns ! k) b) = e" "l = None \<longrightarrow> e = None"
  shows "transitions ns b (map_option from_node_index l) = Some (map_option pack e)"
proof (cases l)
  case None
  then show ?thesis using assms(2) by (simp add: transitions_def)
next
  case (Some k)
  then have "k < length ns" "k < 2 ^ 31" "unpack (next_get (ns ! k) b) = e" using assms(1) by blast+
  then show ?thesis using Some by (auto simp: transitions_def pack_def split: option.split UnpackedNodeId.split)
qed

lemma val_of_pack:
  assumes "\<forall>v. u = Some (ValIndex v) \<longrightarrow> v < 2 ^ 31 - 1" "\<forall>n. u = Some (NodeIndex n) \<longrightarrow> n < 2 ^ 31"
  shows "val_of (map_option pack u) = (case u of Some (ValIndex v) \<Rightarrow> Some v | _ \<Rightarrow> None)"
proof (cases u)
  case (Some x)
  then have "unpack (pack x) = Some x" using assms by (cases x) (simp_all add: pack_def)
  then show ?thesis using Some by (simp add: val_of_def)
qed (simp add: val_of_def)

text \<open>What the new edge of a pair is, once identifiers are given.\<close>

definition edge_fits :: "'a InstructionMap \<Rightarrow> 'a InstructionMap \<Rightarrow> ValIndex list \<Rightarrow> (T \<Rightarrow> NodeIndex option) \<Rightarrow> NodeIndex option \<Rightarrow> NodeIndex option \<Rightarrow> u8 \<Rightarrow> NodeId \<Rightarrow> bool" where
  "edge_fits g h remap ids l r b i \<longleftrightarrow>
     (case (moved_edge g l b, opt_edge h r b) of
        (_, Some (ValIndex w)) \<Rightarrow> i = from_val_index (remap ! w)
      | (Some (ValIndex v), _) \<Rightarrow> i = from_val_index v
      | (None, None) \<Rightarrow> i = FAIL
      | (Some (NodeIndex n), None) \<Rightarrow> i = from_node_index n
      | (None, Some (NodeIndex m)) \<Rightarrow> (\<exists>n. ids (pair None (Some m)) = Some n \<and> i = from_node_index n)
      | (Some (NodeIndex k), Some (NodeIndex m)) \<Rightarrow> (\<exists>n. ids (pair (Some k) (Some m)) = Some n \<and> i = from_node_index n))"

lemma edge_fits_mono: "edge_fits g h remap ids l r b i \<Longrightarrow> ids \<subseteq>\<^sub>m ids' \<Longrightarrow> edge_fits g h remap ids' l r b i"
  unfolding edge_fits_def map_le_def by (auto split: option.splits UnpackedNodeId.splits) (metis domI)+

section \<open>The invariant\<close>

definition in_range :: "'a InstructionMap \<Rightarrow> 'a InstructionMap \<Rightarrow> NodeIndex option \<Rightarrow> NodeIndex \<Rightarrow> bool" where
  "in_range g h l m \<longleftrightarrow> m < length (nodes h) \<and> (\<forall>k. l = Some k \<longrightarrow> k \<le> length (nodes g) \<and> (k = 0 \<longrightarrow> m = 0))"

definition pairs :: "'a InstructionMap \<Rightarrow> 'a InstructionMap \<Rightarrow> T set" where
  "pairs g h = {pair l (Some m) |l m. in_range g h l m}"

definition root_pair :: T where
  "root_pair = pair (Some 0) (Some 0)"

text \<open>The union has room: all pairs and nodes can be numbered, and so can the values.\<close>

definition room :: "'a InstructionMap \<Rightarrow> 'a InstructionMap \<Rightarrow> ValIndex list \<Rightarrow> nat \<Rightarrow> bool" where
  "room g h remap W \<longleftrightarrow> imap_ok g \<and> imap_ok h \<and> (length (nodes g) + 2) * (length (nodes h) + 1) \<le> 2 ^ 31 \<and>
     length remap = length (vals h) \<and> (\<forall>w \<in> set remap. w < W) \<and> length (vals g) \<le> W \<and> length (vals h) < 2 ^ 31 \<and> W < 2 ^ 31"

definition num_pairs :: "'a InstructionMap \<Rightarrow> 'a InstructionMap \<Rightarrow> nat" where
  "num_pairs g h = (length (nodes g) + 2) * length (nodes h)"

lemma pairs_finite: "finite (pairs g h)" "card (pairs g h) \<le> num_pairs g h"
proof -
  let ?L = "insert None (Some ` {..length (nodes g)})"
  have sub: "pairs g h \<subseteq> (\<lambda>(l, m). pair l (Some m)) ` (?L \<times> {..<length (nodes h)})"
  proof
    fix t assume "t \<in> pairs g h"
    then obtain l m where t: "t = pair l (Some m)" "in_range g h l m" by (auto simp: pairs_def)
    then have "l \<in> ?L" "m < length (nodes h)" by (cases l; auto simp: in_range_def)+
    then show "t \<in> (\<lambda>(l, m). pair l (Some m)) ` (?L \<times> {..<length (nodes h)})" using t(1) by force
  qed
  then show "finite (pairs g h)" by (rule finite_subset) simp
  have "card ?L = length (nodes g) + 2" by (subst card_insert_disjoint) (auto simp: card_image)
  then have "card (?L \<times> {..<length (nodes h)}) = num_pairs g h" by (simp add: card_cartesian_product num_pairs_def)
  then show "card (pairs g h) \<le> num_pairs g h"
    using card_mono [OF _ sub] card_image_le [of "?L \<times> {..<length (nodes h)}" "\<lambda>(l, m). pair l (Some m)"] by fastforce
qed

lemma room_small:
  assumes "room g h remap W"
  shows "length (nodes g) < 2 ^ 31" "length (nodes h) < 2 ^ 31" "length (nodes g) + num_pairs g h < 2 ^ 31"
proof -
  have *: "(length (nodes g) + 2) * (length (nodes h) + 1) \<le> 2 ^ 31" and h: "nodes h \<noteq> []"
    using assms imap_okD(1) [of h] by (auto simp: room_def)
  have e: "(length (nodes g) + 2) * (length (nodes h) + 1) = num_pairs g h + (length (nodes g) + 2)" by (simp add: num_pairs_def)
  show "length (nodes g) + num_pairs g h < 2 ^ 31" using * e by linarith
  then show "length (nodes g) < 2 ^ 31" by linarith
  have "length (nodes h) \<le> num_pairs g h" by (simp add: num_pairs_def)
  then show "length (nodes h) < 2 ^ 31" using * e by linarith
qed

definition node_fits :: "'a InstructionMap \<Rightarrow> 'a InstructionMap \<Rightarrow> ValIndex list \<Rightarrow> (T \<Rightarrow> NodeIndex option) \<Rightarrow> NodeIndex option \<Rightarrow> NodeIndex \<Rightarrow> Next \<Rightarrow> bool" where
  "node_fits g h remap ids l m nx \<longleftrightarrow> length nx = 256 \<and> (\<forall>b. edge_fits g h remap ids l (Some m) b (next_get nx b))"

text \<open>The pairs of \<open>cur\<close> are neither on the frontier nor done.\<close>

definition prod_inv :: "'a InstructionMap \<Rightarrow> 'a InstructionMap \<Rightarrow> ValIndex list \<Rightarrow> T set \<Rightarrow> Product \<Rightarrow> bool" where
  "prod_inv g h remap cur st \<longleftrightarrow> (let ids = id_map st; ns = prod_nodes st; todo = fst ` set (prod_frontier st) \<union> cur; L = length (nodes g) in
     length ns = L + card (dom ids) \<and> dom ids \<subseteq> pairs g h \<and> inj_on ids (dom ids) \<and> ids root_pair = Some 0 \<and>
     (\<forall>k. 0 < k \<and> k \<le> L \<longrightarrow> ns ! k = with_old_root g ! k) \<and> (root_pair \<in> todo \<longrightarrow> ns ! 0 = with_old_root g ! 0) \<and>
     (\<forall>t n. ids t = Some n \<longrightarrow> n < length ns \<and> (n \<noteq> 0 \<longrightarrow> L < n)) \<and>
     (\<forall>(t, n) \<in> set (prod_frontier st). ids t = Some n) \<and> distinct (map fst (prod_frontier st)) \<and> fst ` set (prod_frontier st) \<inter> cur = {} \<and>
     (\<forall>l m n. in_range g h l m \<longrightarrow> ids (pair l (Some m)) = Some n \<longrightarrow> pair l (Some m) \<notin> todo \<longrightarrow> node_fits g h remap ids l m (ns ! n)))"

lemma prod_invD:
  assumes "prod_inv g h remap cur st"
  shows "length (prod_nodes st) = length (nodes g) + card (dom (id_map st))" "dom (id_map st) \<subseteq> pairs g h" "inj_on (id_map st) (dom (id_map st))"
    "id_map st root_pair = Some 0" "0 < k \<Longrightarrow> k \<le> length (nodes g) \<Longrightarrow> prod_nodes st ! k = with_old_root g ! k"
    "root_pair \<in> fst ` set (prod_frontier st) \<union> cur \<Longrightarrow> prod_nodes st ! 0 = with_old_root g ! 0"
    "id_map st t = Some n \<Longrightarrow> n < length (prod_nodes st)" "id_map st t = Some n \<Longrightarrow> n \<noteq> 0 \<Longrightarrow> length (nodes g) < n"
    "(t, n) \<in> set (prod_frontier st) \<Longrightarrow> id_map st t = Some n" "distinct (map fst (prod_frontier st))" "fst ` set (prod_frontier st) \<inter> cur = {}"
    "in_range g h l m \<Longrightarrow> id_map st (pair l (Some m)) = Some n \<Longrightarrow> pair l (Some m) \<notin> fst ` set (prod_frontier st) \<union> cur \<Longrightarrow>
      node_fits g h remap (id_map st) l m (prod_nodes st ! n)"
proof -
  note inv = assms [unfolded prod_inv_def Let_def]
  note r1 = inv [THEN conjunct2] and r2 = inv [THEN conjunct2, THEN conjunct2]
  note r4 = r2 [THEN conjunct2, THEN conjunct2]
  note r6 = r4 [THEN conjunct2, THEN conjunct2]
  note r8 = r6 [THEN conjunct2, THEN conjunct2]
  note r10 = r8 [THEN conjunct2, THEN conjunct2]
  show "length (prod_nodes st) = length (nodes g) + card (dom (id_map st))" by (rule inv [THEN conjunct1])
  show "dom (id_map st) \<subseteq> pairs g h" by (rule r1 [THEN conjunct1])
  show "inj_on (id_map st) (dom (id_map st))" by (rule r2 [THEN conjunct1])
  show "id_map st root_pair = Some 0" by (rule r2 [THEN conjunct2, THEN conjunct1])
  show "0 < k \<Longrightarrow> k \<le> length (nodes g) \<Longrightarrow> prod_nodes st ! k = with_old_root g ! k" using r4 [THEN conjunct1] by blast
  show "root_pair \<in> fst ` set (prod_frontier st) \<union> cur \<Longrightarrow> prod_nodes st ! 0 = with_old_root g ! 0" by (rule r4 [THEN conjunct2, THEN conjunct1, THEN mp])
  show "id_map st t = Some n \<Longrightarrow> n < length (prod_nodes st)" "id_map st t = Some n \<Longrightarrow> n \<noteq> 0 \<Longrightarrow> length (nodes g) < n"
    using r6 [THEN conjunct1] by blast+
  show "(t, n) \<in> set (prod_frontier st) \<Longrightarrow> id_map st t = Some n" using r6 [THEN conjunct2, THEN conjunct1] by blast
  show "distinct (map fst (prod_frontier st))" by (rule r8 [THEN conjunct1])
  show "fst ` set (prod_frontier st) \<inter> cur = {}" by (rule r8 [THEN conjunct2, THEN conjunct1])
  show "in_range g h l m \<Longrightarrow> id_map st (pair l (Some m)) = Some n \<Longrightarrow> pair l (Some m) \<notin> fst ` set (prod_frontier st) \<union> cur \<Longrightarrow>
      node_fits g h remap (id_map st) l m (prod_nodes st ! n)" by (rule r10 [rule_format])
qed

lemma prod_invI:
  assumes "length ns = length (nodes g) + card (dom ids)" "dom ids \<subseteq> pairs g h" "inj_on ids (dom ids)"
    "ids root_pair = Some 0" "\<And>k. 0 < k \<Longrightarrow> k \<le> length (nodes g) \<Longrightarrow> ns ! k = with_old_root g ! k"
    "root_pair \<in> fst ` set F \<union> cur \<Longrightarrow> ns ! 0 = with_old_root g ! 0"
    "\<And>t n. ids t = Some n \<Longrightarrow> n < length ns" "\<And>t n. ids t = Some n \<Longrightarrow> n \<noteq> 0 \<Longrightarrow> length (nodes g) < n"
    "\<And>t n. (t, n) \<in> set F \<Longrightarrow> ids t = Some n" "distinct (map fst F)" "fst ` set F \<inter> cur = {}"
    "\<And>l m n. in_range g h l m \<Longrightarrow> ids (pair l (Some m)) = Some n \<Longrightarrow> pair l (Some m) \<notin> fst ` set F \<union> cur \<Longrightarrow> node_fits g h remap ids l m (ns ! n)"
  shows "prod_inv g h remap cur \<lparr>prod_nodes = ns, id_map = ids, prod_frontier = F\<rparr>"
proof -
  have "\<forall>(t, n) \<in> set F. ids t = Some n" using assms(9) by blast
  then show ?thesis using assms unfolding prod_inv_def Let_def Product.select_convs by blast
qed

definition todo_measure :: "'a InstructionMap \<Rightarrow> 'a InstructionMap \<Rightarrow> Product \<Rightarrow> nat" where
  "todo_measure g h st = 2 * (num_pairs g h - card (dom (id_map st))) + length (prod_frontier st)"

lemma node_fits_mono: "node_fits g h remap ids l m nx \<Longrightarrow> ids \<subseteq>\<^sub>m ids' \<Longrightarrow> node_fits g h remap ids' l m nx"
  using edge_fits_mono unfolding node_fits_def by blast

lemma pair_id_ok:
  assumes r: "room g h remap W" and inv: "prod_inv g h remap cur st" and t: "t \<in> pairs g h" and cur: "cur \<subseteq> dom (id_map st)"
  shows "\<exists>st' n. pair_id st t = Some (st', n) \<and> prod_inv g h remap cur st' \<and> id_map st \<subseteq>\<^sub>m id_map st' \<and> id_map st' t = Some n \<and> n < 2 ^ 31 \<and>
    todo_measure g h st' \<le> todo_measure g h st"
proof -
  note i = prod_invD [OF inv]
  have fin: "finite (dom (id_map st))" by (rule finite_subset [OF i(2) pairs_finite(1)])
  have few: "card (dom (id_map st)) \<le> num_pairs g h" using card_mono [OF pairs_finite(1) i(2)] pairs_finite(2) [of g h] by simp
  have len: "length (prod_nodes st) < 2 ^ 31" using i(1) few room_small(3) [OF r] by linarith
  show ?thesis
  proof (cases "id_map st t")
    case (Some n)
    then show ?thesis using inv i(7) [OF Some] len by (auto simp: pair_id_def)
  next
    case None
    let ?n = "length (prod_nodes st)" and ?ids = "(id_map st)(t \<mapsto> length (prod_nodes st))"
    have step: "pair_id st t = Some (\<lparr>prod_nodes = prod_nodes st @ [ALL_FAIL], id_map = ?ids, prod_frontier = (t, ?n) # prod_frontier st\<rparr>, ?n)"
      using None len by (cases st) (simp add: pair_id_def index_new_def)
    have mono: "id_map st \<subseteq>\<^sub>m ?ids" using None by (auto simp: map_le_def)
    have t_new: "t \<notin> fst ` set (prod_frontier st) \<union> cur"
    proof
      assume "t \<in> fst ` set (prod_frontier st) \<union> cur"
      then have "t \<in> dom (id_map st)" using i(9) cur by auto
      then show False using None by blast
    qed
    have dom: "dom ?ids = insert t (dom (id_map st))" by auto
    have t0: "t \<notin> dom (id_map st)" using None by blast
    have "root_pair \<noteq> t" using i(4) None by auto
    have pos: "0 < ?n" using i(1,4) fin by (auto simp: card_gt_0_iff)
    have "prod_inv g h remap cur \<lparr>prod_nodes = prod_nodes st @ [ALL_FAIL], id_map = ?ids, prod_frontier = (t, ?n) # prod_frontier st\<rparr>"
    proof (rule prod_invI)
      show "length (prod_nodes st @ [ALL_FAIL]) = length (nodes g) + card (dom ?ids)" unfolding dom using i(1) fin t0 by simp
      show "dom ?ids \<subseteq> pairs g h" unfolding dom using i(2) t by blast
      show "inj_on ?ids (dom ?ids)" unfolding dom using i(3,7) t0 by (auto simp: inj_on_def) (metis less_irrefl domI)+
      show "?ids root_pair = Some 0" using i(4) \<open>root_pair \<noteq> t\<close> by simp
      show "(prod_nodes st @ [ALL_FAIL]) ! k = with_old_root g ! k" if "0 < k" "k \<le> length (nodes g)" for k
      proof -
        have "card (dom (id_map st)) > 0" using i(4) fin by (auto simp: card_gt_0_iff)
        then have "k < ?n" using that(2) i(1) by linarith
        then show ?thesis using i(5) [OF that] by (simp add: nth_append)
      qed
      show "(prod_nodes st @ [ALL_FAIL]) ! 0 = with_old_root g ! 0" if "root_pair \<in> fst ` set ((t, ?n) # prod_frontier st) \<union> cur"
        using that i(6) \<open>root_pair \<noteq> t\<close> pos by (auto simp: nth_append)
      show "k < length (prod_nodes st @ [ALL_FAIL])" if "?ids u = Some k" for u k
        using that i(7) [of u k] by (auto split: if_splits)
      show "length (nodes g) < k" if "?ids u = Some k" "k \<noteq> 0" for u k
      proof (cases "u = t")
        case True
        have "card (dom (id_map st)) > 0" using i(4) fin by (auto simp: card_gt_0_iff)
        then show ?thesis using that(1) True i(1) by simp
      next
        case False
        then show ?thesis using that i(8) [of u k] by simp
      qed
      show "?ids u = Some k" if "(u, k) \<in> set ((t, ?n) # prod_frontier st)" for u k
        using that i(9) [of u k] None by (auto split: if_splits)
      show "distinct (map fst ((t, ?n) # prod_frontier st))" using i(10) t_new by (simp add: image_iff) 
      show "fst ` set ((t, ?n) # prod_frontier st) \<inter> cur = {}" using i(11) t_new by simp
      show "node_fits g h remap ?ids l m ((prod_nodes st @ [ALL_FAIL]) ! k)"
        if a: "in_range g h l m" "?ids (pair l (Some m)) = Some k" "pair l (Some m) \<notin> fst ` set ((t, ?n) # prod_frontier st) \<union> cur" for l m k
      proof -
        have b: "id_map st (pair l (Some m)) = Some k" "pair l (Some m) \<notin> fst ` set (prod_frontier st) \<union> cur"
          using a(2,3) by (auto split: if_splits)
        have "node_fits g h remap (id_map st) l m (prod_nodes st ! k)" by (rule i(12) [OF a(1) b])
        then show ?thesis using node_fits_mono [OF _ mono] i(7) [OF b(1)] by (simp add: nth_append)
      qed
    qed
    moreover have "card (dom ?ids) = Suc (card (dom (id_map st)))" unfolding dom using fin t0 by simp
    moreover have "insert t (dom (id_map st)) \<subseteq> pairs g h" using i(2) t by blast
    then have "Suc (card (dom (id_map st))) \<le> num_pairs g h"
      using card_mono [OF pairs_finite(1), of "insert t (dom (id_map st))" g h] pairs_finite(2) [of g h] fin t0 by simp
    ultimately show ?thesis using step mono len by (auto simp: todo_measure_def)
  qed
qed

section \<open>The loop\<close>

definition hits_ok :: "'a InstructionMap \<Rightarrow> 'a InstructionMap \<Rightarrow> (ValIndex \<times> ValIndex) list \<Rightarrow> bool" where
  "hits_ok g h hits \<longleftrightarrow> (\<forall>(v, w) \<in> set hits. v < length (vals g) \<and> w < length (vals h))"

lemma bind_edge:
  "(do { e \<leftarrow> ue; (st, i) \<leftarrow> (case e of Inl i \<Rightarrow> Some (st, i) | Inr t \<Rightarrow> map_option (\<lambda>(st, n). (st, from_node_index n)) (pair_id st t)); Some (st, nx @ [i], hits) }) =
    map_option (\<lambda>(st, i). (st, nx @ [i], hits))
      (Option.bind ue (\<lambda>e. case e of Inl i \<Rightarrow> Some (st, i) | Inr t \<Rightarrow> map_option (\<lambda>(st, n). (st, from_node_index n)) (pair_id st t)))"
proof (cases ue)
  case (Some e)
  then show ?thesis
  proof (cases e)
    case (Inr t)
    then show ?thesis using Some by (cases "pair_id st t") auto
  qed simp
qed simp

lemma union_byte_ok:
  assumes r: "room g h remap W" and inv: "prod_inv g h remap {t} st" and lm: "in_range g h l m" and t: "t = pair l (Some m)"
    and i: "id_map st t = Some i" and hits: "hits_ok g h hits"
  shows "\<exists>st' e hits'. union_byte (nodes h) remap t (st, nx, hits) b = Some (st', nx @ [e], hits') \<and> prod_inv g h remap {t} st' \<and>
    id_map st \<subseteq>\<^sub>m id_map st' \<and> edge_fits g h remap (id_map st') l (Some m) b e \<and> todo_measure g h st' \<le> todo_measure g h st \<and> hits_ok g h hits'"
proof -
  have g: "imap_ok g" and h: "imap_ok h" and rl: "length remap = length (vals h)" using r by (simp_all add: room_def)
  let ?l = "moved_edge g l b" and ?r = "opt_edge h (Some m) b"
  have m: "m < length (nodes h)" and l: "\<forall>k. l = Some k \<longrightarrow> k \<le> length (nodes g)" and l0: "l = Some 0 \<Longrightarrow> m = 0"
    using lm by (auto simp: in_range_def)
  have len: "length (nodes g) < length (prod_nodes st)"
    using prod_invD(1,2,4) [OF inv] finite_subset [OF _ pairs_finite(1), of _ g h] by (auto simp: card_gt_0_iff)
  have el: "unpack (next_get (prod_nodes st ! k) b) = ?l" if k: "l = Some k" for k
  proof -
    have "prod_nodes st ! k = with_old_root g ! k"
    proof (cases "k = 0")
      case True
      then have "root_pair \<in> fst ` set (prod_frontier st) \<union> {t}" using l0 k t by (simp add: root_pair_def)
      then show ?thesis using prod_invD(6) [OF inv] True by blast
    next
      case False
      then show ?thesis using prod_invD(5) [OF inv, of k] l k by simp
    qed
    then show ?thesis using with_old_root_edge [OF g room_small(1) [OF r], of k b] l k by simp
  qed
  have tl: "transitions (prod_nodes st) b (lhs t) = Some (map_option pack ?l)"
    unfolding t pair_def T.select_convs
    by (rule transitions_ok) (use el l len room_small(1) [OF r] in \<open>auto simp: moved_edge_def opt_edge_def\<close>)
  have tr: "transitions (nodes h) b (rhs t) = Some (map_option pack ?r)"
    unfolding t pair_def T.select_convs
    by (rule transitions_ok) (use m room_small(2) [OF r] in \<open>auto simp: opt_edge_def edge_def\<close>)
  have small: "v < 2 ^ 31 - 1" if "?l = Some (ValIndex v) \<or> ?r = Some (ValIndex v)" for v
  proof -
    have "\<exists>i. unpack i = Some (ValIndex v)" using that el by (cases l) (auto simp: moved_edge_def opt_edge_def edge_def)
    then show ?thesis using unpack_ValIndex by blast
  qed
  have nl: "0 < k \<and> k \<le> length (nodes g)" if "?l = Some (NodeIndex k)" for k by (rule moved_edge_bounds(1) [OF g l that])
  have vl: "v < length (vals g)" if "?l = Some (ValIndex v)" for v by (rule moved_edge_bounds(2) [OF g l that])
  have nr: "k < length (nodes h)" if "?r = Some (NodeIndex k)" for k using opt_edge_bounds(1) [OF h _ that] m by simp
  have vr: "v < length (vals h)" if "?r = Some (ValIndex v)" for v using opt_edge_bounds(2) [OF h _ that] m by simp
  have ol: "val_of (map_option pack ?l) = (case ?l of Some (ValIndex v) \<Rightarrow> Some v | _ \<Rightarrow> None)"
    by (rule val_of_pack) (use small nl room_small(1) [OF r] in fastforce)+
  have or: "val_of (map_option pack ?r) = (case ?r of Some (ValIndex v) \<Rightarrow> Some v | _ \<Rightarrow> None)"
    by (rule val_of_pack) (use small nr room_small(2) [OF r] in fastforce)+
  let ?hits = "case (val_of (map_option pack ?l), val_of (map_option pack ?r)) of (Some v, Some w) \<Rightarrow> hits @ [(v, w)] | _ \<Rightarrow> hits"
  have hits': "hits_ok g h ?hits"
    using hits vl vr unfolding ol or by (auto simp: hits_ok_def split: option.splits UnpackedNodeId.splits)
  have byte: "union_byte (nodes h) remap t (st, nx, hits) b = map_option (\<lambda>(st, i). (st, nx @ [i], ?hits))
      (Option.bind (union_edge remap (map_option pack ?l) (map_option pack ?r))
        (\<lambda>e. case e of Inl i \<Rightarrow> Some (st, i) | Inr t \<Rightarrow> map_option (\<lambda>(st, n). (st, from_node_index n)) (pair_id st t)))"
    unfolding union_byte_def prod.case tl tr bind.bind_lunit Let_def
    by (rule bind_edge)
  show ?thesis
  proof (cases "\<exists>k. ?r = Some (NodeIndex k) \<and> (\<forall>v. ?l \<noteq> Some (ValIndex v))")
    case True
    then obtain k where k: "?r = Some (NodeIndex k)" "\<forall>v. ?l \<noteq> Some (ValIndex v)" by blast
    obtain j where j: "?l = map_option NodeIndex j" using k(2) by (cases ?l; cases "the ?l") (auto intro: that [of None] that [of "Some _"])
    have p: "union_edge remap (map_option pack ?l) (map_option pack ?r) = Some (Inr (pair j (Some k)))"
      unfolding union_edge_def ol or using k(1) j by (cases j) (simp_all add: pair_def pack_def)
    have "in_range g h j k" using nr [OF k(1)] nl j by (cases j) (auto simp: in_range_def)
    then have "pair j (Some k) \<in> pairs g h" by (auto simp: pairs_def)
    from pair_id_ok [OF r inv this] i obtain st' n where st': "pair_id st (pair j (Some k)) = Some (st', n)" "prod_inv g h remap {t} st'"
      "id_map st \<subseteq>\<^sub>m id_map st'" "id_map st' (pair j (Some k)) = Some n" "todo_measure g h st' \<le> todo_measure g h st" by blast
    have "edge_fits g h remap (id_map st') l (Some m) b (from_node_index n)"
      using k(1) j st'(4) by (cases j) (simp_all add: edge_fits_def)
    then show ?thesis using byte p st' hits' by simp
  next
    case False
    have "\<exists>e. union_edge remap (map_option pack ?l) (map_option pack ?r) = Some (Inl e) \<and> edge_fits g h remap (id_map st) l (Some m) b e"
    proof (cases ?r)
      case None
      then show ?thesis unfolding union_edge_def ol or
        by (cases ?l; cases "the ?l") (simp_all add: edge_fits_def pack_def)
    next
      case (Some u)
      show ?thesis
      proof (cases u)
        case (NodeIndex k)
        then obtain v where "?l = Some (ValIndex v)" using False Some by blast
        then show ?thesis unfolding union_edge_def ol or using Some NodeIndex by (simp add: edge_fits_def)
      next
        case (ValIndex w)
        then have "at remap w = Some (remap ! w)" using vr Some rl by simp
        then show ?thesis unfolding union_edge_def ol or using Some ValIndex by (simp add: edge_fits_def split: option.split UnpackedNodeId.split)
      qed
    qed
    then show ?thesis using byte inv hits' by auto
  qed
qed

lemma union_node_ok:
  assumes r: "room g h remap W" and inv: "prod_inv g h remap {t} st" and lm: "in_range g h l m" and t: "t = pair l (Some m)"
    and i: "id_map st t = Some i" and hits: "hits_ok g h hits"
  shows "\<exists>st' nx hits'. run (union_byte (nodes h) remap t) (st, [], hits) all_bytes = Some (st', nx, hits') \<and> prod_inv g h remap {t} st' \<and>
    id_map st \<subseteq>\<^sub>m id_map st' \<and> node_fits g h remap (id_map st') l m nx \<and> todo_measure g h st' \<le> todo_measure g h st \<and> hits_ok g h hits'"
proof -
  let ?P = "\<lambda>xs (st', nx, hits'). prod_inv g h remap {t} st' \<and> id_map st \<subseteq>\<^sub>m id_map st' \<and> length nx = length xs \<and>
    (\<forall>j < length xs. edge_fits g h remap (id_map st') l (Some m) (xs ! j) (nx ! j)) \<and> todo_measure g h st' \<le> todo_measure g h st \<and> hits_ok g h hits'"
  have "\<exists>s. run (union_byte (nodes h) remap t) (st, [], hits) all_bytes = Some s \<and> ?P all_bytes s"
  proof (rule run_prefix)
    show "?P [] (st, [], hits)" using inv hits by simp
  next
    fix xs b s assume "?P xs s"
    then obtain st1 nx hits1 where s: "s = (st1, nx, hits1)" and P: "prod_inv g h remap {t} st1" "id_map st \<subseteq>\<^sub>m id_map st1" "length nx = length xs"
      "\<forall>j < length xs. edge_fits g h remap (id_map st1) l (Some m) (xs ! j) (nx ! j)" "todo_measure g h st1 \<le> todo_measure g h st" "hits_ok g h hits1"
      by (cases s) auto
    have i1: "id_map st1 t = Some i" using P(2) i by (metis domI map_le_def)
    from union_byte_ok [OF r P(1) lm t i1 P(6), of nx b] obtain st2 e hits2 where
      b: "union_byte (nodes h) remap t s b = Some (st2, nx @ [e], hits2)" "prod_inv g h remap {t} st2" "id_map st1 \<subseteq>\<^sub>m id_map st2"
      "edge_fits g h remap (id_map st2) l (Some m) b e" "todo_measure g h st2 \<le> todo_measure g h st1" "hits_ok g h hits2" unfolding s by blast
    have "id_map st \<subseteq>\<^sub>m id_map st2" using P(2) b(3) by (rule map_le_trans)
    moreover have "edge_fits g h remap (id_map st2) l (Some m) ((xs @ [b]) ! j) ((nx @ [e]) ! j)" if "j < length (xs @ [b])" for j
    proof (cases "j < length xs")
      case True
      then have "edge_fits g h remap (id_map st1) l (Some m) (xs ! j) (nx ! j)" using P(4) by blast
      then show ?thesis using True P(3) edge_fits_mono [OF _ b(3)] by (simp add: nth_append)
    next
      case False
      then have "j = length xs" using that by simp
      then show ?thesis using P(3) b(4) by (simp add: nth_append)
    qed
    ultimately have "?P (xs @ [b]) (st2, nx @ [e], hits2)" using b(2,5,6) P(3,5) by simp
    then show "\<exists>s'. union_byte (nodes h) remap t s b = Some s' \<and> ?P (xs @ [b]) s'" using b(1) by blast
  qed
  then obtain st' nx hits' where s: "run (union_byte (nodes h) remap t) (st, [], hits) all_bytes = Some (st', nx, hits')" "?P all_bytes (st', nx, hits')"
    by auto
  have "edge_fits g h remap (id_map st') l (Some m) b (next_get nx b)" for b
  proof -
    have "all_bytes ! unat b = b" using unat_u8_less [of b] by simp
    moreover have "edge_fits g h remap (id_map st') l (Some m) (all_bytes ! unat b) (nx ! unat b)"
      using s(2) unat_u8_less [of b] unfolding length_all_bytes prod.case by blast
    ultimately show ?thesis by (simp add: next_get_def)
  qed
  then show ?thesis using s by (auto simp: node_fits_def)
qed

lemma put_node_ok:
  assumes r: "room g h remap W" and inv: "prod_inv g h remap {t} st" and lm: "in_range g h l m" and t: "t = pair l (Some m)"
    and i: "id_map st t = Some i" and fits: "node_fits g h remap (id_map st) l m nx"
  shows "prod_inv g h remap {} (st\<lparr>prod_nodes := (prod_nodes st)[i := nx]\<rparr>)"
proof -
  note v = prod_invD [OF inv]
  have same: "u = t" if "id_map st u = Some i" for u using v(3) that i unfolding inj_on_def by (metis domI)
  have "prod_inv g h remap {} \<lparr>prod_nodes = (prod_nodes st)[i := nx], id_map = id_map st, prod_frontier = prod_frontier st\<rparr>"
  proof (rule prod_invI)
    show "(prod_nodes st)[i := nx] ! k = with_old_root g ! k" if "0 < k" "k \<le> length (nodes g)" for k
    proof -
      have "i \<noteq> k" using v(8) [OF i] that by auto
      then show ?thesis using v(5) [OF that] by simp
    qed
    show "(prod_nodes st)[i := nx] ! 0 = with_old_root g ! 0" if f: "root_pair \<in> fst ` set (prod_frontier st) \<union> {}"
    proof -
      have "root_pair \<noteq> t" using v(11) f by auto
      then have "i \<noteq> 0" using same [of root_pair] v(4) by metis
      then show ?thesis using v(6) f by simp
    qed
    show "node_fits g h remap (id_map st) l' m' ((prod_nodes st)[i := nx] ! n)"
      if a: "in_range g h l' m'" "id_map st (pair l' (Some m')) = Some n" "pair l' (Some m') \<notin> fst ` set (prod_frontier st) \<union> {}" for l' m' n
    proof (cases "pair l' (Some m') = t")
      case True
      then have n: "n = i" using a(2) i by simp
      have k: "k < 2 ^ 31" if "l'' = Some k" "in_range g h l'' m''" for l'' m'' k
        using that room_small(1) [OF r] by (auto simp: in_range_def)
      have "l' = l" "m' = m"
        using True t a(1) lm room_small(1,2) [OF r]
        by (auto simp: pair_def in_range_def from_node_index_eq map_option_case split: option.splits)
      then show ?thesis using fits n v(7) [OF i] by simp
    next
      case False
      then have "i \<noteq> n" using same a(2) by auto
      then show ?thesis using v(12) [OF a(1,2)] a(3) False by simp
    qed
  qed (use v in auto)
  then show ?thesis by (cases st) simp
qed

lemma union_loop_ok:
  "room g h remap W \<Longrightarrow> prod_inv g h remap {} st \<Longrightarrow> hits_ok g h hits \<Longrightarrow>
    \<exists>st' hits'. union_loop (nodes h) remap st hits = Some (prod_nodes st', hits') \<and> prod_inv g h remap {} st' \<and> prod_frontier st' = [] \<and> hits_ok g h hits'"
proof (induction "todo_measure g h st" arbitrary: st hits rule: less_induct)
  case less
  show ?case
  proof (cases "prod_frontier st")
    case Nil
    then show ?thesis using less.prems by (subst union_loop.simps) auto
  next
    case (Cons e rest)
    obtain t i where e: "e = (t, i)" by (metis prod.exhaust)
    let ?st = "st\<lparr>prod_frontier := rest\<rparr>"
    note v = prod_invD [OF less.prems(2)]
    have i: "id_map st t = Some i" using v(9) [of t i] Cons e by simp
    then have "t \<in> pairs g h" using v(2) by blast
    then obtain l m where lm: "in_range g h l m" "t = pair l (Some m)" by (auto simp: pairs_def)
    have t: "t \<notin> fst ` set rest" using v(10) Cons e by simp
    have todo: "fst ` set rest \<union> {t} = fst ` set (prod_frontier st) \<union> {}" using Cons e by auto
    have "prod_inv g h remap {t} \<lparr>prod_nodes = prod_nodes st, id_map = id_map st, prod_frontier = rest\<rparr>"
    proof (rule prod_invI)
      show "id_map st u = Some n" if "(u, n) \<in> set rest" for u n using v(9) that Cons by simp
      show "distinct (map fst rest)" using v(10) Cons by simp
      show "fst ` set rest \<inter> {t} = {}" using t by simp
      show "node_fits g h remap (id_map st) l m (prod_nodes st ! n)"
        if "in_range g h l m" "id_map st (pair l (Some m)) = Some n" "pair l (Some m) \<notin> fst ` set rest \<union> {t}" for l m n
        using v(12) that unfolding todo by blast
      show "prod_nodes st ! 0 = with_old_root g ! 0" if "root_pair \<in> fst ` set rest \<union> {t}" using v(6) that unfolding todo by blast
    qed (use v(1-5,7,8) in blast)+
    then have inv: "prod_inv g h remap {t} ?st" by (cases st) simp
    have i': "id_map ?st t = Some i" using i by simp
    from union_node_ok [OF less.prems(1) inv lm i' less.prems(3)] obtain st1 nx hits1 where
      n: "run (union_byte (nodes h) remap t) (?st, [], hits) all_bytes = Some (st1, nx, hits1)" "prod_inv g h remap {t} st1"
      "id_map ?st \<subseteq>\<^sub>m id_map st1" "node_fits g h remap (id_map st1) l m nx" "todo_measure g h st1 \<le> todo_measure g h ?st" "hits_ok g h hits1"
      by blast
    have i1: "id_map st1 t = Some i" using n(3) i' by (metis domI map_le_def)
    let ?st2 = "st1\<lparr>prod_nodes := (prod_nodes st1)[i := nx]\<rparr>"
    have inv2: "prod_inv g h remap {} ?st2" by (rule put_node_ok [OF less.prems(1) n(2) lm i1 n(4)])
    have "todo_measure g h ?st < todo_measure g h st" using Cons by (simp add: todo_measure_def)
    then have "todo_measure g h ?st2 < todo_measure g h st" using n(5) by (simp add: todo_measure_def)
    from less.hyps [OF this less.prems(1) inv2 n(6)] obtain st' hits' where
      "union_loop (nodes h) remap ?st2 hits1 = Some (prod_nodes st', hits')" "prod_inv g h remap {} st'" "prod_frontier st' = []" "hits_ok g h hits'"
      by blast
    moreover have "union_loop (nodes h) remap st hits = union_loop (nodes h) remap ?st2 hits1"
      using Cons e n(1) prod_invD(7) [OF n(2) i1] by (subst union_loop.simps) simp
    ultimately show ?thesis by auto
  qed
qed

end
