(* ===== verification/Map_Merge.thy ===== *)
theory Map_Merge
  imports Map_Product
begin

text \<open>The union answers as the first of the two maps that finds a value.\<close>

section \<open>The product answers as the pair\<close>

text \<open>The values of the union hold those of both maps.\<close>

definition values_ok :: "'a InstructionMap \<Rightarrow> 'a InstructionMap \<Rightarrow> ValIndex list \<Rightarrow> 'a list \<Rightarrow> bool" where
  "values_ok g h remap vs \<longleftrightarrow> length (vals g) \<le> length vs \<and> length remap = length (vals h) \<and> (\<forall>v < length (vals g). vs ! v = vals g ! v) \<and>
     (\<forall>w < length (vals h). remap ! w < length vs \<and> vs ! (remap ! w) = vals h ! w)"

definition finished :: "'a InstructionMap \<Rightarrow> 'a InstructionMap \<Rightarrow> ValIndex list \<Rightarrow> 'a list \<Rightarrow> Product \<Rightarrow> bool" where
  "finished g h remap vs st \<longleftrightarrow> room g h remap (length vs) \<and> values_ok g h remap vs \<and> prod_inv g h remap {} st \<and> prod_frontier st = []"

definition product :: "'a InstructionMap \<Rightarrow> 'a list \<Rightarrow> Product \<Rightarrow> 'a InstructionMap" where
  "product g vs st = g\<lparr>nodes := prod_nodes st, vals := vs\<rparr>"

lemma product_sel [simp]: "nodes (product g vs st) = prod_nodes st" "vals (product g vs st) = vs"
  by (simp_all add: product_def)

lemma finishedD:
  assumes "finished g h remap vs st"
  shows "imap_ok g" "imap_ok h" "room g h remap (length vs)" "prod_inv g h remap {} st" "length (nodes g) < length (prod_nodes st)"
    "length (prod_nodes st) < 2 ^ 31" "v < length (vals g) \<Longrightarrow> vs ! v = vals g ! v \<and> v < length vs \<and> v < 2 ^ 31 - 1"
    "w < length (vals h) \<Longrightarrow> vs ! (remap ! w) = vals h ! w \<and> remap ! w < length vs \<and> remap ! w < 2 ^ 31 - 1"
    "in_range g h l m \<Longrightarrow> id_map st (pair l (Some m)) = Some n \<Longrightarrow> node_fits g h remap (id_map st) l m (prod_nodes st ! n)"
proof -
  show f: "imap_ok g" "imap_ok h" "room g h remap (length vs)" "prod_inv g h remap {} st" using assms by (simp_all add: finished_def room_def)
  note v = prod_invD [OF f(4)]
  have fin: "finite (dom (id_map st))" by (rule finite_subset [OF v(2) pairs_finite(1)])
  then show "length (nodes g) < length (prod_nodes st)" using v(1,4) by (auto simp: card_gt_0_iff)
  have "card (dom (id_map st)) \<le> num_pairs g h" using card_mono [OF pairs_finite(1) v(2)] pairs_finite(2) [of g h] by simp
  then show "length (prod_nodes st) < 2 ^ 31" using v(1) room_small(3) [OF f(3)] by linarith
  have W: "length vs < 2 ^ 31" using f(3) by (simp add: room_def)
  show "v < length (vals g) \<Longrightarrow> vs ! v = vals g ! v \<and> v < length vs \<and> v < 2 ^ 31 - 1"
    "w < length (vals h) \<Longrightarrow> vs ! (remap ! w) = vals h ! w \<and> remap ! w < length vs \<and> remap ! w < 2 ^ 31 - 1"
    using assms W by (force simp: finished_def values_ok_def)+
  show "in_range g h l m \<Longrightarrow> id_map st (pair l (Some m)) = Some n \<Longrightarrow> node_fits g h remap (id_map st) l m (prod_nodes st ! n)"
    using v(12) assms by (simp add: finished_def)
qed

text \<open>The nodes of the first map.\<close>

lemma product_old_edge:
  assumes f: "finished g h remap vs st" and k: "0 < k" "k \<le> length (nodes g)"
  shows "edge (product g vs st) k b = moved_edge g (Some k) b"
  using with_old_root_edge [OF finishedD(1) [OF f] room_small(1) [OF finishedD(3) [OF f]] k(2), of b] prod_invD(5) [OF finishedD(4) [OF f] k]
  by (simp add: edge_def)

lemma product_old_look:
  assumes f: "finished g h remap vs st" and k: "0 < k" "k \<le> length (nodes g)"
  shows "look g (old_index g k) bs = look (product g vs st) k bs"
proof (rule look_bisimilar [of "\<lambda>n k. 0 < k \<and> k \<le> length (nodes g) \<and> n = old_index g k"])
  fix n k b assume "0 < k \<and> k \<le> length (nodes g) \<and> n = old_index g k"
  then have k: "0 < k" "k \<le> length (nodes g)" and n: "n = old_index g k" by blast+
  note g = finishedD(1) [OF f]
  have nL: "n < length (nodes g)" using old_index_less [OF g k(2)] n by simp
  have e: "edge (product g vs st) k b = map_option (\<lambda>u. case u of NodeIndex m \<Rightarrow> NodeIndex (if m = 0 then length (nodes g) else m) | ValIndex v \<Rightarrow> ValIndex v) (edge g n b)"
    using product_old_edge [OF f k, of b] by (simp add: moved_edge_def opt_edge_def n)
  show "edge_rel (\<lambda>n k. 0 < k \<and> k \<le> length (nodes g) \<and> n = old_index g k) g (product g vs st) (edge g n b) (edge (product g vs st) k b)"
  proof (cases "\<exists>x. edge g n b = Some (NodeIndex x)")
    case True
    then obtain x where x: "edge g n b = Some (NodeIndex x)" by blast
    then show ?thesis using e edge_node [OF g nL x] imap_okD(1) [OF g]
      by (auto simp: edge_rel_def old_index_def)
  next
    case False
    then show ?thesis using e edge_val [OF g nL, of b] finishedD(7) [OF f]
      by (auto simp: edge_rel_def split: option.split UnpackedNodeId.split)
  qed
qed (use k in simp)

text \<open>The nodes of the pairs.\<close>

lemma product_look:
  assumes f: "finished g h remap vs st"
  shows "in_range g h l m \<Longrightarrow> id_map st (pair l (Some m)) = Some i \<Longrightarrow>
    look (product g vs st) i bs = pair_look g h (map_option (old_index g) l) (Some m) bs"
proof (induction bs arbitrary: l m i)
  case (Cons b bs)
  note g = finishedD(1) [OF f] and h = finishedD(2) [OF f]
  let ?l = "opt_edge g (map_option (old_index g) l) b" and ?r = "opt_edge h (Some m) b"
  have l: "\<forall>k. l = Some k \<longrightarrow> k \<le> length (nodes g)" and m: "m < length (nodes h)" using Cons.prems(1) by (auto simp: in_range_def)
  have fits: "edge_fits g h remap (id_map st) l (Some m) b (next_get (prod_nodes st ! i) b)"
    using finishedD(9) [OF f Cons.prems] by (simp add: node_fits_def)
  have ml: "moved_edge g l b = map_option (\<lambda>u. case u of NodeIndex x \<Rightarrow> NodeIndex (if x = 0 then length (nodes g) else x) | ValIndex v \<Rightarrow> ValIndex v) ?l"
    by (simp add: moved_edge_def)
  have lb: "\<forall>k. map_option (old_index g) l = Some k \<longrightarrow> k < length (nodes g)" using l old_index_less [OF g] by auto
  have nl: "x < length (nodes g)" if "?l = Some (NodeIndex x)" for x by (rule opt_edge_bounds(1) [OF g lb that])
  have vl: "v < length (vals g)" if "?l = Some (ValIndex v)" for v by (rule opt_edge_bounds(2) [OF g lb that])
  have nr: "k < length (nodes h)" if "?r = Some (NodeIndex k)" for k using opt_edge_bounds(1) [OF h _ that] m by simp
  have vr: "v < length (vals h)" if "?r = Some (ValIndex v)" for v using opt_edge_bounds(2) [OF h _ that] m by simp
  have id: "n < 2 ^ 31" if "id_map st t = Some n" for n t
    using prod_invD(7) [OF finishedD(4) [OF f] that] finishedD(6) [OF f] by linarith
  have old: "old_index g (if x = 0 then length (nodes g) else x) = x" if "x < length (nodes g)" for x using that by (simp add: old_index_def)
  consider (right) w where "?r = Some (ValIndex w)"
    | (left) v where "?l = Some (ValIndex v)" "\<forall>w. ?r \<noteq> Some (ValIndex w)"
    | (none) "?l = None" "?r = None"
    | (only_left) x where "?l = Some (NodeIndex x)" "?r = None"
    | (only_right) y where "?l = None" "?r = Some (NodeIndex y)"
    | (both) x y where "?l = Some (NodeIndex x)" "?r = Some (NodeIndex y)"
    by (cases ?l; cases ?r; metis UnpackedNodeId.exhaust option.sel option.distinct(1))
  then show ?case
  proof cases
    case right
    then have "next_get (prod_nodes st ! i) b = from_val_index (remap ! w)" using fits by (simp add: edge_fits_def split: option.splits UnpackedNodeId.splits)
    then show ?thesis using right finishedD(8) [OF f vr [OF right]] by (auto simp: edge_def split: option.split UnpackedNodeId.split)
  next
    case left
    then have "next_get (prod_nodes st ! i) b = from_val_index v" using fits by (auto simp: edge_fits_def ml split: option.splits UnpackedNodeId.splits)
    then show ?thesis using left finishedD(7) [OF f vl [OF left(1)]] by (auto simp: edge_def split: option.split UnpackedNodeId.split)
  next
    case none
    then have "next_get (prod_nodes st ! i) b = FAIL" using fits by (simp add: edge_fits_def ml)
    then show ?thesis using none by (simp add: edge_def)
  next
    case only_left
    let ?k = "if x = 0 then length (nodes g) else x"
    have k: "0 < ?k" "?k \<le> length (nodes g)" using nl [OF only_left(1)] by auto
    have "next_get (prod_nodes st ! i) b = from_node_index ?k" using fits only_left by (simp add: edge_fits_def ml)
    then have "look (product g vs st) i (b # bs) = look (product g vs st) ?k bs"
      using k(2) room_small(1) [OF finishedD(3) [OF f]] by (simp add: edge_def)
    also have "\<dots> = look g x bs" using product_old_look [OF f k, of bs] old [OF nl [OF only_left(1)]] by simp
    finally show ?thesis using only_left by (simp add: pair_look_left)
  next
    case only_right
    then obtain n where n: "id_map st (pair None (Some y)) = Some n" "next_get (prod_nodes st ! i) b = from_node_index n"
      using fits by (auto simp: edge_fits_def ml)
    have "in_range g h None y" using nr [OF only_right(2)] by (simp add: in_range_def)
    from Cons.IH [OF this n(1)] show ?thesis using only_right n(2) id [OF n(1)] by (simp add: edge_def)
  next
    case both
    let ?k = "if x = 0 then length (nodes g) else x"
    obtain n where n: "id_map st (pair (Some ?k) (Some y)) = Some n" "next_get (prod_nodes st ! i) b = from_node_index n"
      using fits both by (auto simp: edge_fits_def ml)
    have "in_range g h (Some ?k) y" using nr [OF both(2)] nl [OF both(1)] by (auto simp: in_range_def)
    from Cons.IH [OF this n(1)] show ?thesis using both n(2) id [OF n(1)] old [OF nl [OF both(1)]] by (simp add: edge_def)
  qed
qed simp

section \<open>The product is well-formed\<close>

lemma product_ids:
  assumes f: "finished g h remap vs st" and n: "n < length (prod_nodes st)" "n = 0 \<or> length (nodes g) < n"
  shows "\<exists>t. id_map st t = Some n"
proof -
  note v = prod_invD [OF finishedD(4) [OF f]]
  let ?S = "insert 0 {length (nodes g)<..<length (prod_nodes st)}" and ?f = "\<lambda>t. the (id_map st t)"
  have fin: "finite (dom (id_map st))" by (rule finite_subset [OF v(2) pairs_finite(1)])
  have inj: "inj_on ?f (dom (id_map st))" using v(3) unfolding inj_on_def by (metis domD option.sel)
  have sub: "?f ` dom (id_map st) \<subseteq> ?S"
  proof
    fix k assume "k \<in> ?f ` dom (id_map st)"
    then obtain t where t: "id_map st t = Some k" by auto
    show "k \<in> ?S" using v(7,8) [OF t] by auto
  qed
  have "card ?S = Suc (length (prod_nodes st) - Suc (length (nodes g)))" by simp
  also have "\<dots> = card (dom (id_map st))" using v(1) finishedD(5) [OF f] by linarith
  also have "\<dots> = card (?f ` dom (id_map st))" using card_image [OF inj] by simp
  finally have "?f ` dom (id_map st) = ?S" using card_subset_eq [OF _ sub] by simp
  moreover have "n \<in> ?S" using n by auto
  ultimately obtain t where "t \<in> dom (id_map st)" "n = the (id_map st t)" by blast
  then show ?thesis by auto
qed

lemma edge_fits_cases:
  assumes "edge_fits g h remap ids l r b i"
  obtains (fail) "i = FAIL" | (old) n where "moved_edge g l b = Some (NodeIndex n)" "i = from_node_index n"
  | (left) v where "moved_edge g l b = Some (ValIndex v)" "i = from_val_index v"
  | (right) w where "opt_edge h r b = Some (ValIndex w)" "i = from_val_index (remap ! w)"
  | (new) t n where "ids t = Some n" "i = from_node_index n"
proof (cases "opt_edge h r b")
  case None
  then show thesis using assms that
    by (cases "moved_edge g l b"; cases "the (moved_edge g l b)") (simp_all add: edge_fits_def)
next
  case (Some u)
  then show thesis using assms that
    by (cases u; cases "moved_edge g l b"; cases "the (moved_edge g l b)") (auto simp: edge_fits_def)
qed

lemma fits_edge_ok:
  assumes f: "finished g h remap vs st" and lm: "in_range g h l m" and e: "edge_fits g h remap (id_map st) l (Some m) b i"
  shows "edge_ok (length (prod_nodes st)) (length vs) i"
proof -
  note g = finishedD(1) [OF f] and h = finishedD(2) [OF f]
  have l: "\<forall>k. l = Some k \<longrightarrow> k \<le> length (nodes g)" and m: "\<forall>k. Some m = Some k \<longrightarrow> k < length (nodes h)"
    using lm by (auto simp: in_range_def)
  have node: "edge_ok (length (prod_nodes st)) (length vs) (from_node_index n)" if "n < length (prod_nodes st)" for n
    using that finishedD(6) [OF f] by (simp add: edge_ok_cases)
  have val: "edge_ok (length (prod_nodes st)) (length vs) (from_val_index v)" if "v < length vs" "v < 2 ^ 31 - 1" for v
    using that by (simp add: edge_ok_cases)
  have id: "n < length (prod_nodes st)" if "id_map st t = Some n" for t n by (rule prod_invD(7) [OF finishedD(4) [OF f] that])
  have fail: "edge_ok (length (prod_nodes st)) (length vs) FAIL" by (simp add: edge_ok_cases)
  note b = moved_edge_bounds [OF g l, of b] opt_edge_bounds [OF h m, of b]
  from e show ?thesis
  proof (cases rule: edge_fits_cases)
    case (old n)
    have "n < length (prod_nodes st)" using b(1) [OF old(1)] finishedD(5) [OF f] by linarith
    then show ?thesis unfolding old(2) by (rule node)
  next
    case (left v)
    show ?thesis unfolding left(2) using finishedD(7) [OF f b(2) [OF left(1)]] by (intro val) simp_all
  next
    case (right w)
    show ?thesis unfolding right(2) using finishedD(8) [OF f b(4) [OF right(1)]] by (intro val) simp_all
  next
    case (new t n)
    show ?thesis unfolding new(2) by (rule node [OF id [OF new(1)]])
  qed (use fail in simp)
qed

lemma product_ok:
  assumes f: "finished g h remap vs st"
  shows "imap_ok (product g vs st)"
proof -
  note g = finishedD(1) [OF f] and v = prod_invD [OF finishedD(4) [OF f]]
  let ?ok = "\<lambda>nx. length nx = 256 \<and> (\<forall>b. edge_ok (length (prod_nodes st)) (length vs) (next_get nx b))"
  have each: "?ok (prod_nodes st ! n)" if n: "n < length (prod_nodes st)" for n
  proof (cases "0 < n \<and> n \<le> length (nodes g)")
    case True
    have "edge_ok (length (prod_nodes st)) (length vs) (next_get (prod_nodes st ! n) b)" for b
    proof -
      have e: "unpack (next_get (prod_nodes st ! n) b) = moved_edge g (Some n) b"
        using product_old_edge [OF f, of n b] True by (simp add: edge_def)
      have "\<forall>k. Some n = Some k \<longrightarrow> k \<le> length (nodes g)" using True by simp
      from moved_edge_bounds [OF g this, of b]
      show ?thesis unfolding edge_ok_def e using finishedD(5,7) [OF f] by (metis le_less_trans)
    qed
    moreover have "length (with_old_root g ! n) = 256"
      using True imap_okD(1) [OF g] nodes_okD(1) [OF imap_okD(2) [OF g]]
      by (auto simp: with_old_root_def move_root_def remap_node_indices_def nth_append)
    ultimately show ?thesis using v(5) [of n] True by simp
  next
    case False
    then obtain t where t: "id_map st t = Some n" using product_ids [OF f n] by auto
    then have "t \<in> pairs g h" using v(2) by blast
    then obtain l m where lm: "in_range g h l m" "t = pair l (Some m)" by (auto simp: pairs_def)
    have "node_fits g h remap (id_map st) l m (prod_nodes st ! n)" using finishedD(9) [OF f lm(1)] t lm(2) by simp
    then show ?thesis using fits_edge_ok [OF f lm(1)] unfolding node_fits_def by blast
  qed
  have "length nx = 256 \<and> (\<forall>i \<in> set nx. edge_ok (length (prod_nodes st)) (length vs) i)" if "nx \<in> set (prod_nodes st)" for nx
  proof -
    obtain n where "n < length (prod_nodes st)" "nx = prod_nodes st ! n" using \<open>nx \<in> set (prod_nodes st)\<close> by (metis in_set_conv_nth)
    then have ok: "?ok nx" using each by blast
    have "edge_ok (length (prod_nodes st)) (length vs) i" if i: "i \<in> set nx" for i
    proof -
      obtain j where j: "j < 256" "i = nx ! j" using i ok by (metis in_set_conv_nth)
      then have "i = next_get nx (of_nat j)" by (simp add: next_get_def unat_of_nat)
      then show ?thesis using ok by simp
    qed
    then show ?thesis using ok by blast
  qed
  then have "nodes_ok (length (prod_nodes st)) (length vs) (prod_nodes st)" by (simp add: nodes_ok_def)
  then show ?thesis using finishedD(5,6) [OF f] by (auto simp: imap_ok_def)
qed

section \<open>The values\<close>

lemma value_indices_ok:
  assumes "length vs \<le> 2 ^ 31"
  shows "\<exists>m. value_indices vs = Some m \<and> (\<forall>v i. m v = Some i \<longrightarrow> i < length vs \<and> vs ! i = v)"
proof -
  let ?P = "\<lambda>xs m. \<forall>v i. m v = Some i \<longrightarrow> i < length xs \<and> vs ! i = v"
  have "\<exists>m. run (\<lambda>m (i, v). do { i \<leftarrow> index_new i; Some (m(v \<mapsto> i)) }) (\<lambda>_. None) (enumerate 0 vs) = Some m \<and> ?P (enumerate 0 vs) m"
  proof (rule run_prefix)
    show "?P [] (\<lambda>_. None)" by simp
  next
    fix xs e m assume pre: "prefix (xs @ [e]) (enumerate 0 vs)" and P: "?P xs m"
    obtain zs where zs: "enumerate 0 vs = xs @ e # zs" using pre by (auto simp: prefix_def)
    have n: "length xs < length vs" using arg_cong [OF zs, of length] by simp
    then have e: "e = (length xs, vs ! length xs)" using arg_cong [OF zs, of "\<lambda>l. l ! length xs"] by (simp add: nth_enumerate_eq)
    have "k < length (xs @ [e]) \<and> vs ! k = u" if "(m(vs ! length xs \<mapsto> length xs)) u = Some k" for u k
      using that P [rule_format, of u k] by (cases "u = vs ! length xs") auto
    then have "?P (xs @ [e]) (m(vs ! length xs \<mapsto> length xs))" by blast
    moreover have "(case e of (i, v) \<Rightarrow> do { i \<leftarrow> index_new i; Some (m(v \<mapsto> i)) }) = Some (m(vs ! length xs \<mapsto> length xs))"
      unfolding e using n assms by (simp add: index_new_def)
    ultimately show "\<exists>m'. (case e of (i, v) \<Rightarrow> do { i \<leftarrow> index_new i; Some (m(v \<mapsto> i)) }) = Some m' \<and> ?P (xs @ [e]) m'" by blast
  qed
  then show ?thesis by (auto simp: value_indices_def)
qed

definition union_value_inv :: "'a list \<Rightarrow> 'a list \<Rightarrow> ('a \<Rightarrow> ValIndex option) \<times> 'a list \<times> ValIndex list \<Rightarrow> bool" where
  "union_value_inv gs xs s \<longleftrightarrow> (case s of (m, vs, remap) \<Rightarrow>
     (\<forall>v i. m v = Some i \<longrightarrow> i < length vs \<and> vs ! i = v) \<and> prefix gs vs \<and> length vs \<le> length gs + length xs \<and> length remap = length xs \<and>
     (\<forall>w < length xs. remap ! w < length vs \<and> vs ! (remap ! w) = xs ! w))"

lemma union_value_step:
  assumes inv: "union_value_inv gs xs s" and len: "length gs + length xs < 2 ^ 31"
  shows "\<exists>s'. union_value s v = Some s' \<and> union_value_inv gs (xs @ [v]) s'"
proof -
  obtain m vs remap where s: "s = (m, vs, remap)" by (metis prod.exhaust)
  have i: "\<And>v i. m v = Some i \<Longrightarrow> i < length vs \<and> vs ! i = v" "prefix gs vs" "length vs \<le> length gs + length xs" "length remap = length xs"
    "\<And>w. w < length xs \<Longrightarrow> remap ! w < length vs \<and> vs ! (remap ! w) = xs ! w"
    using inv by (auto simp: union_value_inv_def s)
  show ?thesis
  proof (cases "m v")
    case (Some k)
    have "(remap @ [k]) ! w < length vs \<and> vs ! ((remap @ [k]) ! w) = (xs @ [v]) ! w" if "w < length (xs @ [v])" for w
      using that i(4,5) i(1) [OF Some] by (cases "w < length xs") (auto simp: nth_append less_Suc_eq)
    then have "union_value_inv gs (xs @ [v]) (m, vs, remap @ [k])" using i by (simp add: union_value_inv_def)
    then show ?thesis using Some by (simp add: union_value_def s)
  next
    case None
    let ?k = "length vs"
    have "prefix gs (vs @ [v])" using i(2) by (simp add: prefix_append)
    moreover have "k < length (vs @ [v]) \<and> (vs @ [v]) ! k = u" if "(m(v \<mapsto> ?k)) u = Some k" for u k
      using that i(1) [of u k] by (auto simp: nth_append split: if_splits)
    moreover have "(remap @ [?k]) ! w < length (vs @ [v]) \<and> (vs @ [v]) ! ((remap @ [?k]) ! w) = (xs @ [v]) ! w" if "w < length (xs @ [v])" for w
      using that i(4) i(5) [of w] by (cases "w < length xs") (auto simp: nth_append less_Suc_eq)
    ultimately have "union_value_inv gs (xs @ [v]) (m(v \<mapsto> ?k), vs @ [v], remap @ [?k])"
      using i(3,4) unfolding union_value_inv_def prod.case by simp
    then show ?thesis using None i(3) len by (simp add: union_value_def s index_new_def)
  qed
qed

lemma union_values_ok:
  assumes "length (vals g) + length (vals h) < 2 ^ 31"
  shows "\<exists>m0 m vs remap. value_indices (vals g) = Some m0 \<and> run union_value (m0, vals g, []) (vals h) = Some (m, vs, remap) \<and>
    values_ok g h remap vs \<and> length vs < 2 ^ 31"
proof -
  obtain m0 where m0: "value_indices (vals g) = Some m0" "\<forall>v i. m0 v = Some i \<longrightarrow> i < length (vals g) \<and> vals g ! i = v"
    using value_indices_ok [of "vals g"] assms by auto
  have "\<exists>s. run union_value (m0, vals g, []) (vals h) = Some s \<and> union_value_inv (vals g) (vals h) s"
  proof (rule run_prefix)
    show "union_value_inv (vals g) [] (m0, vals g, [])" using m0(2) by (simp add: union_value_inv_def)
  next
    fix xs v s assume p: "prefix (xs @ [v]) (vals h)" and s: "union_value_inv (vals g) xs s"
    have "length (vals g) + length xs < 2 ^ 31" using prefix_length_le [OF p] assms by simp
    then show "\<exists>s'. union_value s v = Some s' \<and> union_value_inv (vals g) (xs @ [v]) s'" by (rule union_value_step [OF s])
  qed
  then obtain m vs remap where r: "run union_value (m0, vals g, []) (vals h) = Some (m, vs, remap)" "union_value_inv (vals g) (vals h) (m, vs, remap)"
    by (metis prod.exhaust)
  have "prefix (vals g) vs" using r(2) by (simp add: union_value_inv_def)
  then have "values_ok g h remap vs" using r(2) by (auto simp: values_ok_def union_value_inv_def prefix_def nth_append)
  then show ?thesis using m0(1) r assms by (auto simp: union_value_inv_def)
qed

section \<open>The union\<close>

lemma all_fail_look: "is_all_fail g \<Longrightarrow> look g ROOT bs = (if bs = [] then NeedMoreBytes else NotPresent)"
  using unat_u8_less by (cases bs) (simp_all add: is_all_fail_def ROOT_def edge_def ALL_FAIL_def next_get_def)

lemma union_look_fail:
  "is_all_fail g \<Longrightarrow> union_look g h bs = look h ROOT bs" "is_all_fail h \<Longrightarrow> union_look g h bs = look g ROOT bs"
  using all_fail_look [of g bs] all_fail_look [of h bs]
  by (cases bs; auto simp: union_look_def split: LookupResult.splits option.splits UnpackedNodeId.splits)+

lemma start_ok:
  assumes r: "room g h remap W"
  shows "prod_inv g h remap {} \<lparr>prod_nodes = with_old_root g, id_map = (\<lambda>_. None)(root_pair \<mapsto> ROOT), prod_frontier = [(root_pair, ROOT)]\<rparr>"
proof (rule prod_invI)
  have "nodes h \<noteq> []" using r imap_okD(1) by (auto simp: room_def)
  then show "dom ((\<lambda>_. None)(root_pair \<mapsto> ROOT)) \<subseteq> pairs g h"
    by (auto simp: pairs_def root_pair_def in_range_def intro!: exI [of _ "Some 0"])
  show "node_fits g h remap ((\<lambda>_. None)(root_pair \<mapsto> ROOT)) l m (with_old_root g ! n)"
    if "((\<lambda>_. None)(root_pair \<mapsto> ROOT)) (pair l (Some m)) = Some n" "pair l (Some m) \<notin> fst ` set [(root_pair, ROOT)] \<union> {}" for l m n
    using that by (simp split: if_splits)
qed (auto simp: ROOT_def split: if_splits)

lemma union_ok:
  assumes g: "imap_ok g" and h: "imap_ok h" and N: "(length (nodes g) + 2) * (length (nodes h) + 1) \<le> 2 ^ 31"
    and V: "length (vals g) + length (vals h) < 2 ^ 31" and o: "order_ok ord"
  shows "\<exists>u pairs. union_with_report_overlapping ord fx g h = Some (u, pairs) \<and> imap_ok u \<and>
    (\<forall>bs. (union_look g h bs \<noteq> NeedMoreBytes \<longrightarrow> look u ROOT bs = union_look g h bs) \<and>
      (look u ROOT bs \<noteq> NeedMoreBytes \<longrightarrow> (\<forall>cs. union_look g h (bs @ cs) \<in> {NeedMoreBytes, look u ROOT bs})))"
proof -
  have same: "look u ROOT (bs @ cs) \<in> {NeedMoreBytes, look u ROOT bs}" if "look u ROOT bs \<noteq> NeedMoreBytes" for u :: "'a InstructionMap" and bs cs
    using look_append [OF that] by simp
  consider "is_all_fail g" | "\<not> is_all_fail g" "is_all_fail h" | (both) "\<not> is_all_fail g" "\<not> is_all_fail h" by blast
  then show ?thesis
  proof cases
    case 1
    then show ?thesis using h same [of h] by (simp add: union_with_report_overlapping_def union_look_fail)
  next
    case 2
    then show ?thesis using g same [of g] by (simp add: union_with_report_overlapping_def union_look_fail)
  next
    case both
    obtain m0 m vs remap where v: "value_indices (vals g) = Some m0" "run union_value (m0, vals g, []) (vals h) = Some (m, vs, remap)"
      "values_ok g h remap vs" "length vs < 2 ^ 31" using union_values_ok [OF V] by blast
    have remap: "\<forall>w \<in> set remap. w < length vs" using v(3) by (auto simp: values_ok_def in_set_conv_nth)
    have r: "room g h remap (length vs)" using g h N v(3,4) V remap by (simp add: room_def values_ok_def)
    let ?st = "\<lparr>prod_nodes = with_old_root g, id_map = (\<lambda>_. None)(root_pair \<mapsto> ROOT), prod_frontier = [(root_pair, ROOT)]\<rparr>"
    have "hits_ok g h []" by (simp add: hits_ok_def)
    from union_loop_ok [OF r start_ok [OF r] this] obtain st hits where
      l: "union_loop (nodes h) remap ?st [] = Some (prod_nodes st, hits)" "prod_inv g h remap {} st" "prod_frontier st = []" "hits_ok g h hits"
      by blast
    have f: "finished g h remap vs st" using r v(3) l(2,3) by (simp add: finished_def)
    obtain pairs where pairs: "those (map (\<lambda>(v, w). do { x \<leftarrow> at vs v; y \<leftarrow> at (vals h) w; Some (x, y) }) hits) = Some pairs"
    proof -
      have each: "(case e of (v, w) \<Rightarrow> do { x \<leftarrow> at vs v; y \<leftarrow> at (vals h) w; Some (x, y) }) = Some (vs ! fst e, vals h ! snd e)"
        if e: "e \<in> set hits" for e
      proof -
        have "fst e < length (vals g)" "snd e < length (vals h)" using l(4) e by (auto simp: hits_ok_def)
        then show ?thesis using v(3) by (cases e) (simp add: values_ok_def)
      qed
      have "those (map (\<lambda>(v, w). do { x \<leftarrow> at vs v; y \<leftarrow> at (vals h) w; Some (x, y) }) hits) = Some (map (\<lambda>e. (vs ! fst e, vals h ! snd e)) hits)"
        by (rule those_map_Some) (rule each)
      then show thesis by (rule that)
    qed
    obtain u where u: "optimize ord fx (product g vs st) = Some u" "imap_ok u" "sooner (product g vs st) ROOT u ROOT"
      using optimize_ok [OF product_ok [OF f] _ o, of fx] v(4) by auto
    have lu: "look (product g vs st) ROOT bs = union_look g h bs" for bs
    proof -
      have "id_map st (pair (Some 0) (Some 0)) = Some 0" using prod_invD(4) [OF l(2)] by (simp add: root_pair_def)
      moreover have "in_range g h (Some 0) 0" using imap_okD(1) [OF h] by (simp add: in_range_def)
      ultimately have "look (product g vs st) 0 bs = pair_look g h (Some (old_index g 0)) (Some 0) bs"
        using product_look [OF f] by fastforce
      moreover have "old_index g 0 = 0" using imap_okD(1) [OF g] by (simp add: old_index_def)
      ultimately show ?thesis unfolding union_look_def ROOT_def by (simp add: pair_look_union)
    qed
    have first: "at (nodes g) 0 = Some (nodes g ! 0)" using imap_okD(1) [OF g] by simp
    have old: "index_new (length (nodes g)) = Some (length (nodes g))" using room_small(1) [OF r] by (simp add: index_new_def)
    have t: "\<lparr>lhs = Some (from_node_index ROOT), rhs = Some (from_node_index ROOT)\<rparr> = root_pair" by (simp add: root_pair_def pair_def ROOT_def)
    have "union_with_report_overlapping ord fx g h = Some (u, pairs)"
      using both v(1,2) old first l(1) pairs u(1)
      by (simp add: union_with_report_overlapping_def Let_def t with_old_root_def product_def)
    then show ?thesis using u(2,3) unfolding sooner_def lu by blast
  qed
qed

text \<open>C37: the union of two well-formed maps does not panic and gives a well-formed map. Of two values that the
  maps find for the same bytes it gives the one that is found first, and that of the second map when
  both end at the same byte; otherwise it gives the one that is found, and fails when both maps fail. As
  after optimising, it may answer as soon as no other answer is left.\<close>

theorem union_with_answers:
  assumes "imap_ok g" "imap_ok h" "(length (nodes g) + 2) * (length (nodes h) + 1) \<le> 2 ^ 31" "length (vals g) + length (vals h) < 2 ^ 31" "order_ok ord"
  shows "\<exists>u. union_with ord fx g h = Some u \<and> imap_ok u \<and>
    (\<forall>bs. union_look g h bs \<noteq> NeedMoreBytes \<longrightarrow> map_get u bs = Some (union_look g h bs)) \<and>
    (\<forall>bs cs r. map_get u bs = Some r \<and> r \<noteq> NeedMoreBytes \<longrightarrow> union_look g h (bs @ cs) \<in> {NeedMoreBytes, r})"
proof -
  obtain u pairs where u: "union_with_report_overlapping ord fx g h = Some (u, pairs)" "imap_ok u"
    "\<forall>bs. (union_look g h bs \<noteq> NeedMoreBytes \<longrightarrow> look u ROOT bs = union_look g h bs) \<and>
      (look u ROOT bs \<noteq> NeedMoreBytes \<longrightarrow> (\<forall>cs. union_look g h (bs @ cs) \<in> {NeedMoreBytes, look u ROOT bs}))"
    using union_ok [OF assms] by blast
  have get: "map_get u bs = Some (look u ROOT bs)" for bs using map_get_look [OF u(2)] by (simp add: ROOT_def)
  have "union_with ord fx g h = Some u" using u(1) by (simp add: union_with_def)
  moreover have "\<forall>bs. union_look g h bs \<noteq> NeedMoreBytes \<longrightarrow> map_get u bs = Some (union_look g h bs)" using u(3) get by simp
  moreover have "\<forall>bs cs r. map_get u bs = Some r \<and> r \<noteq> NeedMoreBytes \<longrightarrow> union_look g h (bs @ cs) \<in> {NeedMoreBytes, r}"
  proof (intro allI impI)
    fix bs cs r assume a: "map_get u bs = Some r \<and> r \<noteq> NeedMoreBytes"
    then have "look u ROOT bs = r" using get by simp
    then show "union_look g h (bs @ cs) \<in> {NeedMoreBytes, r}" using u(3) a by blast
  qed
  ultimately show ?thesis using u(2) by (intro exI [of _ u] conjI)
qed

theorem union_with_answers_witness:
  "\<exists>u. union_with (\<lambda>m. m) (\<lambda>_. 0) example_map (matching_any 30) = Some u \<and> map_get u [0x0f] = Some (Found 30)"
proof -
  have any: "imap_ok (matching_any (30 :: nat))"
    using next_new_ok [of 1 1 "\<lambda>_. from_val_index 0"] by (simp add: imap_ok_def nodes_ok_def matching_any_def edge_ok_def)
  have "union_look example_map (matching_any 30) [0x0f] = Found 30"
    by (simp add: union_look_def example_map_def matching_any_def edge_def ROOT_def)
  moreover have "(length (nodes example_map) + 2) * (length (nodes (matching_any (30 :: nat))) + 1) \<le> 2 ^ 31"
    "length (vals example_map) + length (vals (matching_any (30 :: nat))) < 2 ^ 31" by (simp_all add: example_map_size matching_any_def)
  note union_with_answers [OF example_map_ok any this order_ok_id, of "\<lambda>_. 0"]
  ultimately show ?thesis by (metis LookupResult.distinct(1))
qed

end
