(* ===== verification/Map_Scc_Groups.thy ===== *)
theory Map_Scc_Groups
  imports Map_Scc
begin

text \<open>
  The groups that the search of \<open>liblisa/src/instr/map/components.rs\<close> reports are the strongly connected
  components of the part of the graph that the root reaches. The stack is ordered by reachability, each of
  its nodes reaches a node of the stack at or below its low link, and the low link of a node that is done
  lies below its own index: so all nodes above a frontier node reach that node, and a node whose low link
  stayed at its own index is reached by everything that is reported with it.
\<close>

abbreviation reaches :: "Next list \<Rightarrow> NodeIndex \<Rightarrow> NodeIndex \<Rightarrow> bool" where
  "reaches ns a b \<equiv> (a, b) \<in> (successor_rel ns)\<^sup>*"

definition connected :: "Next list \<Rightarrow> NodeIndex list \<Rightarrow> bool" where
  "connected ns g \<longleftrightarrow> (\<forall>a \<in> set g. \<forall>b \<in> set g. reaches ns a b)"

text \<open>The node reaches some node of the stack at or below its low link; when the search is done with it,
  the low link is below its index.\<close>

definition returns :: "Next list \<Rightarrow> Components \<Rightarrow> NodeIndex \<Rightarrow> bool" where
  "returns ns c w \<longleftrightarrow> (\<exists>u \<in> set (stack c). ix c u \<le> low c w \<and> reaches ns w u) \<and>
     (w \<notin> fst ` set (frontier c) \<longrightarrow> low c w < ix c w)"

definition scc_conn :: "Next list \<Rightarrow> Components \<Rightarrow> bool" where
  "scc_conn ns c \<longleftrightarrow> (\<forall>g \<in> set (reported c). connected ns g) \<and> sorted_wrt (\<lambda>b a. reaches ns a b) (stack c) \<and>
     (\<forall>w \<in> set (stack c). returns ns c w)"

lemma segments_distinct:
  assumes "segments P S F" "F = (v, it) # rest" "distinct S"
  shows "\<exists>A B. S = A @ v # B \<and> (\<forall>w \<in> set A. w \<notin> fst ` set F)"
proof -
  obtain A B where S: "S = A @ v # B" "segments P B rest" using assms(1,2) by auto
  have "fst ` set rest \<subseteq> set B" using segments_subset [OF S(2)] .
  then have "\<forall>w \<in> set A. w \<notin> fst ` set F" using assms(2,3) S(1) by auto
  then show ?thesis using S(1) by blast
qed

text \<open>Every node above a frontier node reaches it, and so does every node below.\<close>

lemma stack_reaches_top:
  assumes inv: "scc_inv ns c" and conn: "scc_conn ns c" and S: "stack c = A @ v # B"
    and A: "\<forall>w \<in> set A. w \<notin> fst ` set (frontier c)"
    and w: "w \<in> set (stack c)"
  shows "reaches ns w v"
  using w
proof (induction "ix c w" arbitrary: w rule: less_induct)
  case less
  have below: "reaches ns u v" if "u \<in> set (v # B)" for u
    using conn that S by (auto simp: scc_conn_def sorted_wrt_append)
  show ?case
  proof (cases "w \<in> set A")
    case True
    then have "low c w < ix c w" "\<exists>u \<in> set (stack c). ix c u \<le> low c w \<and> reaches ns w u"
      using conn A less.prems by (auto simp: scc_conn_def returns_def)
    then obtain u where u: "u \<in> set (stack c)" "ix c u < ix c w" "reaches ns w u" by fastforce
    then show ?thesis using less.hyps [of u] by (meson rtrancl_trans)
  next
    case False
    then show ?thesis using below less.prems S by auto
  qed
qed

lemma low_le_ix:
  assumes "scc_inv ns c" "scc_conn ns c" "w \<in> set (stack c)"
  shows "low c w \<le> ix c w"
proof (cases "w \<in> fst ` set (frontier c)")
  case True
  then show ?thesis using assms(1) unfolding scc_inv_def by blast
next
  case False
  then show ?thesis using assms(2,3) by (simp add: scc_conn_def returns_def less_imp_le)
qed

section \<open>Each step keeps it\<close>

text \<open>Lowering a link to the index of a node that is reached and on the stack.\<close>

lemma lower_conn:
  assumes conn: "scc_conn ns c" and v: "v < length (info c)"
    and u: "u \<in> set (stack c)" "ix c u \<le> l" "reaches ns v u"
  shows "scc_conn ns (set_lowlink v l c)"
proof -
  have same: "ix (set_lowlink v l c) = ix c" by (simp add: fun_eq_iff ix_def set_lowlink_info)
  have low: "low (set_lowlink v l c) w = (if w = v then min (low c v) l else low c w)" for w
    using v by (simp add: low_def set_lowlink_info)
  have "returns ns (set_lowlink v l c) w" if "returns ns c w" for w
    using that u unfolding returns_def by (auto simp: same low min_def)
  then show ?thesis using conn by (simp add: scc_conn_def)
qed

lemma advance_conn:
  assumes "scc_conn ns c" "fst ` set F = fst ` set (frontier c)"
  shows "scc_conn ns (c\<lparr>frontier := F\<rparr>)"
  using assms by (simp add: scc_conn_def returns_def frontier_irrelevant)

lemma enter_conn:
  assumes inv: "scc_inv ns c" and conn: "scc_conn ns c" and f: "frontier c = (v, e # it) # rest"
    and w: "unpack e = Some (NodeIndex w)" "w < length ns" "\<not> discovered c w"
  shows "scc_conn ns (scc_enter ns w (c\<lparr>frontier := (v, it) # rest\<rparr>))"
proof -
  let ?c = "scc_enter ns w (c\<lparr>frontier := (v, it) # rest\<rparr>)"
  have len: "length (info c) = length ns" and all: "set (stack c @ concat (reported c)) = {w. discovered c w}"
    and dist: "distinct (stack c)" and seg: "segments (segment_ok ns c) (stack c) (frontier c)"
    using inv by (auto simp: scc_inv_def)
  obtain A B where S: "stack c = A @ v # B" "\<forall>w \<in> set A. w \<notin> fst ` set (frontier c)"
    using segments_distinct [OF seg f dist] by blast
  have fields: "stack ?c = w # stack c" "fst ` set (frontier ?c) = insert w (fst ` set (frontier c))" "reported ?c = reported c"
    using f by (auto simp: scc_enter_def)
  have neq: "u \<noteq> w" if "u \<in> set (stack c)" for u using that all w(3) by auto
  have new: "ix ?c w = low ?c w" using w(2) len by (simp add: scc_enter_def ix_def low_def)
  have same: "ix ?c u = ix c u" "low ?c u = low c u" if "u \<noteq> w" for u using that by (simp_all add: scc_enter_def ix_def low_def)
  have "(v, w) \<in> successor_rel ns"
  proof -
    obtain pre where "ns ! v = pre @ e # it" using seg f by (auto simp: segment_ok_def)
    moreover have "v < length ns" using S(1) all len by (auto simp: discovered_def)
    ultimately show ?thesis using w(1) by (auto simp: successor_rel_def successors_def)
  qed
  then have reach: "reaches ns u w" if "u \<in> set (stack c)" for u
    using stack_reaches_top [OF inv conn S that] by (meson rtrancl.rtrancl_into_rtrancl)
  have "returns ns ?c u" if u: "u \<in> set (stack c)" for u
  proof -
    obtain x where "x \<in> set (stack c)" "ix c x \<le> low c u" "reaches ns u x" "u \<notin> fst ` set (frontier c) \<longrightarrow> low c u < ix c u"
      using conn u by (auto simp: scc_conn_def returns_def)
    then show ?thesis using neq [of x] neq [OF u] by (auto simp: returns_def fields same)
  qed
  moreover have "returns ns ?c w" using new by (auto simp: returns_def fields)
  ultimately show ?thesis using conn reach by (simp add: scc_conn_def fields)
qed

lemma leave_conn:
  assumes conn: "scc_conn ns c" and f: "frontier c = (v, it) # rest" and l: "low c v < ix c v"
  shows "scc_conn ns (c\<lparr>frontier := rest\<rparr>)"
  using assms by (auto simp: scc_conn_def returns_def frontier_irrelevant)

text \<open>The report: everything above the node reaches it, and it reaches everything above.\<close>

lemma report_conn:
  assumes inv: "scc_inv ns c" and conn: "scc_conn ns c" and f: "frontier c = (v, []) # rest"
  shows "scc_conn ns ((report_group v c)\<lparr>frontier := rest\<rparr>)"
proof -
  have len: "length (info c) = length ns" and all: "set (stack c @ concat (reported c)) = {w. discovered c w}"
    and dist: "distinct (stack c)" and seg: "segments (segment_ok ns c) (stack c) (frontier c)"
    and sorted: "sorted_wrt (\<lambda>a b. ix c b < ix c a) (stack c)"
    using inv by (auto simp: scc_inv_def)
  obtain A B where S: "stack c = A @ v # B" "\<forall>w \<in> set A. w \<notin> fst ` set (frontier c)"
    using segments_distinct [OF seg f dist] by blast
  have tw: "takeWhile (\<lambda>w. w \<noteq> v) (stack c) = A"
    using dist unfolding S(1) by (subst takeWhile_append2) auto
  let ?g = "rev (A @ [v])"
  have r: "report_group v c = c\<lparr>reported := reported c @ [?g], info := leave_stack (info c) ?g, stack := B\<rparr>"
    unfolding report_group_def Let_def tw using S(1) by simp
  let ?c = "(report_group v c)\<lparr>frontier := rest\<rparr>"
  have fields: "reported ?c = reported c @ [?g]" "stack ?c = B" "frontier ?c = rest" by (simp_all add: r)
  have less: "w < length (info c)" if "w \<in> set (stack c)" for w using that all by (auto simp: discovered_def)
  have same: "ix ?c w = ix c w" "low ?c w = low c w" if "w \<in> set (stack c)" for w
    using less [OF that] by (simp_all add: ix_def low_def report_group_info)
  have "connected ns ?g"
  proof -
    have up: "reaches ns w v" if "w \<in> set (A @ [v])" for w
      using stack_reaches_top [OF inv conn S] that S(1) by auto
    moreover have "reaches ns v w" if "w \<in> set (A @ [v])" for w
      using conn that S(1) by (auto simp: scc_conn_def sorted_wrt_append)
    ultimately show ?thesis unfolding connected_def by (metis rtrancl_trans set_rev)
  qed
  moreover have "returns ns ?c w" if w: "w \<in> set B" for w
  proof -
    have st: "w \<in> set (stack c)" using w S(1) by simp
    obtain u where u: "u \<in> set (stack c)" "ix c u \<le> low c w" "reaches ns w u" and d: "w \<notin> fst ` set (frontier c) \<longrightarrow> low c w < ix c w"
      using conn st by (auto simp: scc_conn_def returns_def)
    have "ix c u \<le> ix c w" using u(2) low_le_ix [OF inv conn st] by simp
    moreover have "ix c w < ix c x" if "x \<in> set (A @ [v])" for x
      using sorted w that S(1) by (auto simp: sorted_wrt_append)
    ultimately have "u \<notin> set (A @ [v])" by (meson leD)
    then have "u \<in> set B" using u(1) S(1) by auto
    moreover have "w \<noteq> v" using w dist S(1) by auto
    ultimately have "w \<notin> fst ` set rest \<longrightarrow> low ?c w < ix ?c w" "ix ?c u \<le> low ?c w" using u d f by (simp_all add: same [OF st] same [OF u(1)])
    then show ?thesis using u(3) \<open>u \<in> set B\<close> unfolding returns_def fields by blast
  qed
  moreover have "sorted_wrt (\<lambda>b a. reaches ns a b) B" using conn S(1) by (simp add: scc_conn_def sorted_wrt_append)
  ultimately show ?thesis using conn by (simp add: scc_conn_def fields)
qed

text \<open>Lowering a link that is already lower.\<close>

lemma lower_beyond: "v < length (info c) \<Longrightarrow> low c v \<le> l \<Longrightarrow> set_lowlink v l c = c"
  by (simp add: set_lowlink_def low_def min_absorb1)

lemma edge_step_conn:
  assumes inv: "scc_inv ns c" and conn: "scc_conn ns c" and f: "frontier c = (v, e # it) # rest"
    and step: "scc_step ns c = Some c'"
  shows "scc_conn ns c'"
proof -
  let ?d = "c\<lparr>frontier := (v, it) # rest\<rparr>"
  have len: "length (info c) = length ns" and onst: "\<forall>w < length ns. on_stack (info c ! w) \<longleftrightarrow> w \<in> set (stack c)"
    using inv by (auto simp: scc_inv_def)
  have v: "v < length (info c)" using step f by (auto simp: scc_step_def split: if_splits)
  have d: "scc_conn ns ?d" by (rule advance_conn [OF conn]) (simp add: f)
  obtain pre where pre: "ns ! v = pre @ e # it" using inv f by (auto simp: scc_inv_def segment_ok_def)
  consider "c' = ?d" | w where "unpack e = Some (NodeIndex w)" "w < length ns" "\<not> discovered c w" "c' = scc_enter ns w ?d"
    | w where "unpack e = Some (NodeIndex w)" "w < length ns" "on_stack (info c ! w)" "c' = set_lowlink v (ix c w) ?d"
    using step f v len
    by (auto simp: scc_step_def Let_def discovered_def ix_def split: option.splits UnpackedNodeId.splits if_splits)
  then show ?thesis
  proof cases
    case 1
    then show ?thesis using d by simp
  next
    case 2
    then show ?thesis using enter_conn [OF inv conn f] by blast
  next
    case 3
    have "reaches ns v w" using 3(1) pre v len by (auto simp: successor_rel_def successors_def)
    then have "scc_conn ns (set_lowlink v (ix c w) ?d)"
      using lower_conn [OF d, of v w "ix c w"] v 3 onst
      by (simp add: frontier_irrelevant)
    then show ?thesis using 3(4) by simp
  qed
qed

lemma leave_step_conn:
  assumes inv: "scc_inv ns c" and conn: "scc_conn ns c" and f: "frontier c = (v, []) # rest"
    and step: "scc_step ns c = Some c'"
  shows "scc_conn ns c'"
proof -
  have all: "set (stack c @ concat (reported c)) = {w. discovered c w}"
    and sorted: "sorted_wrt (\<lambda>a b. ix c b < ix c a) (stack c)" and lows: "\<forall>f \<in> fst ` set (frontier c). low c f \<le> ix c f"
    using inv by (auto simp: scc_inv_def)
  obtain A B where S: "stack c = A @ v # B" "segments (segment_ok ns c) B rest" using inv f by (auto simp: scc_inv_def)
  have dv: "discovered c v" using S(1) all by auto
  then have i: "v < length (info c)" "tarjan_index (info c ! v) = Some (ix c v)" by (auto simp: discovered_def ix_def)
  let ?r = "low c v = ix c v"
  let ?d = "(if ?r then report_group v c else c)\<lparr>frontier := rest\<rparr>"
  have d: "scc_conn ns ?d"
    using report_conn [OF inv conn f] leave_conn [OF conn f] lows f by (cases ?r) (auto simp: le_less)
  have c': "c' = (case rest of [] \<Rightarrow> ?d | (p, _) # _ \<Rightarrow> set_lowlink p (low c v) ?d)"
    using step f i by (auto simp: scc_step_def Let_def low_def report_group_info split: list.splits)
  show ?thesis
  proof (cases rest)
    case Nil
    then show ?thesis using c' d by simp
  next
    case (Cons q rest')
    obtain p pit where q: "q = (p, pit)" by (cases q)
    have pB: "p \<in> set B" using S(2) Cons q by auto
    then have p: "p < length (info ?d)" using S(1) all by (auto simp: discovered_def report_group_info)
    have "\<exists>u \<in> set (stack c). ix c u \<le> low c v \<and> reaches ns v u" "reaches ns p v"
      using conn S(1) pB by (auto simp: scc_conn_def returns_def sorted_wrt_append)
    then obtain u where u: "u \<in> set (stack c)" "ix c u \<le> low c v" "reaches ns p u" by (meson rtrancl_trans)
    have "scc_conn ns (set_lowlink p (low c v) ?d)"
    proof (cases ?r)
      case True
      have "low c p \<le> ix c p" "ix c p < ix c v" using lows f Cons q sorted S(1) pB by (auto simp: sorted_wrt_append)
      then have "low ?d p \<le> low c v" using True p by (simp add: low_def report_group_info)
      then show ?thesis using lower_beyond [OF p] d by simp
    next
      case False
      then show ?thesis using lower_conn [OF d p] u by (simp add: frontier_irrelevant)
    qed
    then show ?thesis using c' Cons q by simp
  qed
qed

lemma scc_step_conn:
  assumes "scc_inv ns c" "scc_conn ns c" "frontier c \<noteq> []" "scc_step ns c = Some c'"
  shows "scc_conn ns c'"
proof -
  obtain v it rest where f: "frontier c = (v, it) # rest" using assms(3) by (cases "frontier c") auto
  then show ?thesis using edge_step_conn [OF assms(1,2)] leave_step_conn [OF assms(1,2)] assms(4) by (cases it) blast+
qed

lemma scc_run_conn:
  "scc_run ns c = Some c' \<Longrightarrow> scc_inv ns c \<Longrightarrow> scc_conn ns c \<Longrightarrow> nodes_ok (length ns) V ns \<Longrightarrow> scc_conn ns c'"
proof (induction ns c rule: scc_run.induct)
  case (1 ns c)
  show ?case
  proof (cases "frontier c = []")
    case True
    then show ?thesis using 1 by (simp add: scc_run.simps [of ns c])
  next
    case False
    obtain d where d: "scc_step ns c = Some d" "scc_inv ns d" using scc_step_inv [OF 1(3,5) False] by blast
    then show ?thesis
      using 1(1) [OF False d(1)] 1(2,5) scc_step_conn [OF 1(3,4) False d(1)] False by (simp add: scc_run.simps [of ns c])
  qed
qed

section \<open>The groups are the components\<close>

lemma scc_iterate_connected:
  assumes "nodes_ok (length ns) V ns" "ns \<noteq> []" "scc_iterate ns = Some gs" "g \<in> set gs"
  shows "connected ns g"
proof -
  let ?c = "\<lparr>info = replicate (length ns) \<lparr>on_stack = False, tarjan_index = None, lowlink = 0\<rparr>, stack = [], next_index = 0,
          frontier = [], reported = []\<rparr>"
  let ?r = "scc_enter ns ROOT ?c"
  have root: "ROOT < length ns" using assms(2) by (simp add: ROOT_def)
  have "scc_conn ns ?r" using root by (simp add: scc_conn_def returns_def scc_enter_def ix_def low_def)
  moreover obtain c where "scc_run ns ?r = Some c" "gs = reported c"
    using assms(3) root by (auto simp: scc_iterate_def)
  ultimately show ?thesis
    using scc_run_conn [OF _ scc_start_inv [OF assms(2)] _ assms(1)] assms(4) by (auto simp: scc_conn_def)
qed

lemma in_take_groups:
  assumes "x \<in> set (concat (take (Suc k) gs))" "k < length gs"
  obtains j where "j \<le> k" "x \<in> set (gs ! j)" "j < length gs"
proof -
  obtain g where "g \<in> set (take (Suc k) gs)" "x \<in> set g" using assms(1) by auto
  then obtain j where j: "j < length (take (Suc k) gs)" "x \<in> set (take (Suc k) gs ! j)" by (metis in_set_conv_nth)
  then show ?thesis using that [of j] by auto
qed

text \<open>Edges only lead back: a group is never left and entered again.\<close>

lemma closed_groups_back:
  assumes cl: "closed_groups ns gs" and r: "reaches ns a b" and k: "k < length gs" and a: "a \<in> set (concat (take (Suc k) gs))"
  shows "b \<in> set (concat (take (Suc k) gs))"
  using r a
proof (induction rule: converse_rtrancl_induct)
  case (step x y)
  obtain j where jj: "j \<le> k" "x \<in> set (gs ! j)" "j < length gs" using step.prems k by (rule in_take_groups)
  have "y \<in> set (concat (take (Suc j) gs))" using cl jj step.hyps(1) unfolding closed_groups_def successor_rel_def by blast
  then have "y \<in> set (concat (take (Suc k) gs))" using set_take_subset_set_take [of "Suc j" "Suc k" gs] jj(1) by auto
  then show ?case by (rule step.IH)
qed simp

lemma mutual_same_group:
  assumes cl: "closed_groups ns gs" and d: "distinct (concat gs)"
    and ab: "reaches ns a b" "reaches ns b a" and a: "a \<in> set (concat gs)"
  shows "\<exists>g \<in> set gs. a \<in> set g \<and> b \<in> set g"
proof -
  obtain g where "g \<in> set gs" "a \<in> set g" using a by auto
  then obtain k where k: "k < length gs" "a \<in> set (gs ! k)" by (metis in_set_conv_nth)
  have "a \<in> set (concat (take (Suc k) gs))" using k by (auto simp: take_Suc_conv_app_nth)
  then have "b \<in> set (concat (take (Suc k) gs))" by (rule closed_groups_back [OF cl ab(1) k(1)])
  then obtain j where j: "j \<le> k" "b \<in> set (gs ! j)" "j < length gs"
    using k(1) by (rule in_take_groups)
  have "b \<in> set (concat (take (Suc j) gs))" using j by (auto simp: take_Suc_conv_app_nth)
  then have "a \<in> set (concat (take (Suc j) gs))" by (rule closed_groups_back [OF cl ab(2) j(3)])
  then obtain i where i: "i \<le> j" "a \<in> set (gs ! i)" "i < length gs"
    using j(3) by (rule in_take_groups)
  have "i = k"
  proof (rule ccontr)
    assume "i \<noteq> k"
    then have ik: "i < k" using i(1) j(1) by simp
    have "gs ! i \<in> set (take k gs)" using ik i(3) by (metis in_set_conv_nth length_take min_less_iff_conj nth_take)
    then have "a \<in> set (concat (take k gs))" using i(2) by auto
    moreover have "distinct (concat (take k gs) @ concat (drop k gs))" using d by (metis append_take_drop_id concat_append)
    moreover have "a \<in> set (concat (drop k gs))" using k by (simp add: Cons_nth_drop_Suc [symmetric])
    ultimately show False by auto
  qed
  then have "j = k" using i(1) j(1) by simp
  then show ?thesis using k j by (metis nth_mem)
qed

text \<open>C34: the search for strongly connected components ends, and what it reports are the strongly
  connected components of the part of the graph that the root reaches: each node that the root reaches is
  reported exactly once, and no other; two of these nodes are in one group exactly when each reaches the
  other. The groups come in reverse topological order: every edge leads into the group of its node or into
  a group that was reported before. The map is well formed: each edge leads to a node of the map.\<close>

theorem scc_iterate_components:
  assumes "nodes_ok (length ns) V ns" "ns \<noteq> []"
  shows "\<exists>gs. scc_iterate ns = Some gs \<and> distinct (concat gs) \<and> set (concat gs) = (successor_rel ns)\<^sup>* `` {ROOT} \<and>
    (\<forall>a \<in> set (concat gs). \<forall>b. (\<exists>g \<in> set gs. a \<in> set g \<and> b \<in> set g) \<longleftrightarrow>
       (a, b) \<in> (successor_rel ns)\<^sup>* \<and> (b, a) \<in> (successor_rel ns)\<^sup>*) \<and>
    (\<forall>k < length gs. \<forall>w \<in> set (gs ! k). successors (ns ! w) \<subseteq> set (concat (take (Suc k) gs)))"
proof -
  obtain gs where gs: "scc_iterate ns = Some gs" "topological_groups ns gs" using scc_iterate_ok [OF assms] by blast
  note facts = gs(2) [unfolded topological_groups_def]
  have "(\<exists>g \<in> set gs. a \<in> set g \<and> b \<in> set g) \<longleftrightarrow> reaches ns a b \<and> reaches ns b a" if "a \<in> set (concat gs)" for a b
    using scc_iterate_connected [OF assms gs(1)] mutual_same_group [OF _ _ _ _ that] facts by (auto simp: connected_def)
  then show ?thesis using gs(1) facts unfolding closed_groups_def by blast
qed

definition cycle_nodes :: "Next list" where
  "cycle_nodes =
     [next_new (\<lambda>b. if b = 0 then from_node_index 1 else FAIL),
      next_new (\<lambda>b. if b = 0 then from_node_index 0 else if b = 1 then from_node_index 2 else FAIL),
      next_new (\<lambda>b. FAIL)]"

lemma cycle_nodes_ok: "nodes_ok (length cycle_nodes) 0 cycle_nodes" "cycle_nodes \<noteq> []"
proof -
  let ?ok = "\<lambda>nx. length nx = 256 \<and> (\<forall>i \<in> set nx. edge_ok 3 0 i)"
  have "?ok (next_new (\<lambda>b. if b = 0 then from_node_index 1 else FAIL))" by (rule next_new_ok) (simp add: edge_ok_def)
  moreover have "?ok (next_new (\<lambda>b. if b = 0 then from_node_index 0 else if b = 1 then from_node_index 2 else FAIL))"
    by (rule next_new_ok) (simp add: edge_ok_def)
  moreover have "?ok (next_new (\<lambda>b. FAIL))" by (rule next_new_ok) (simp add: edge_ok_def)
  ultimately have "nodes_ok 3 0 cycle_nodes" unfolding nodes_ok_def cycle_nodes_def by simp
  then show "nodes_ok (length cycle_nodes) 0 cycle_nodes" by (simp add: cycle_nodes_def eval_nat_numeral)
qed (simp add: cycle_nodes_def)

lemma next_new_successors: "successors (next_new f) = {u. \<exists>b. unpack (f b) = Some (NodeIndex u)}"
proof -
  have "b \<in> set all_bytes" for b :: u8
  proof -
    have "unat b < 256" using unsigned_less [of b] by simp
    then have "all_bytes ! unat b = b" "unat b < length all_bytes" by simp_all
    then show ?thesis by (metis nth_mem)
  qed
  then have "set (next_new f) = range f" by (auto simp: next_new_def)
  then show ?thesis by (auto simp: successors_def)
qed

lemma cycle_nodes_reach:
  "reaches cycle_nodes 0 1" "reaches cycle_nodes 1 0" "reaches cycle_nodes 0 2" "\<not> reaches cycle_nodes 2 0"
proof -
  have e: "(0, 1) \<in> successor_rel cycle_nodes" "(1, 0) \<in> successor_rel cycle_nodes" "(1, 2) \<in> successor_rel cycle_nodes"
    by (auto simp: successor_rel_def cycle_nodes_def next_new_successors intro: exI [of _ 0] exI [of _ 1])
  then show "reaches cycle_nodes 0 1" "reaches cycle_nodes 1 0" "reaches cycle_nodes 0 2" by (blast intro: rtrancl_trans)+
  have "(2, u) \<notin> successor_rel cycle_nodes" for u by (auto simp: successor_rel_def cycle_nodes_def next_new_successors)
  then show "\<not> reaches cycle_nodes 2 0" by (metis converse_rtranclE zero_neq_numeral)
qed

text \<open>Nodes 0 and 1 are on a cycle that leads to node 2: two groups.\<close>

theorem scc_iterate_components_witness:
  "\<exists>gs. scc_iterate cycle_nodes = Some gs \<and> (\<exists>g \<in> set gs. 0 \<in> set g \<and> 1 \<in> set g) \<and> 2 \<in> set (concat gs) \<and>
     \<not> (\<exists>g \<in> set gs. 0 \<in> set g \<and> 2 \<in> set g)"
proof -
  obtain gs where gs: "scc_iterate cycle_nodes = Some gs" "set (concat gs) = (successor_rel cycle_nodes)\<^sup>* `` {ROOT}"
    and mutual: "\<forall>a \<in> set (concat gs). \<forall>b. (\<exists>g \<in> set gs. a \<in> set g \<and> b \<in> set g) \<longleftrightarrow> reaches cycle_nodes a b \<and> reaches cycle_nodes b a"
    using scc_iterate_components [OF cycle_nodes_ok] by blast
  have "0 \<in> set (concat gs)" "2 \<in> set (concat gs)" using gs(2) cycle_nodes_reach(3) by (auto simp: ROOT_def)
  then show ?thesis using gs(1) mutual cycle_nodes_reach by blast
qed

end
