(* ===== verification/Cg_Blocks.thy ===== *)
theory Cg_Blocks
  imports MIR_Val
begin

text \<open>
  The basic blocks of the middle intermediate representation (\<open>sem86-core/src/codegen/mir/bb.rs\<close>): what a
  block does, where it may continue, which values it uses, and the builder that fills the blocks of a
  control-flow graph one after the other. Exceptions, handlers and registers only pass through; they are type variables.
\<close>

section \<open>Blocks\<close>

type_synonym BbId = nat

definition BB_ROOT :: BbId where "BB_ROOT = 0"

datatype 'r CommitDest =
    CommitReg 'r
  | CommitFixed DataSize u16
  | CommitDynamic DataSize ValId

datatype ('x, 'h, 'r) BbSeq =
    Store "(VarId \<times> ValId) list"
  | ReadMemoryUnchecked VarId ValId u8
  | WriteMemoryUnchecked ValId ValId u8
  | Log string
  | SetException 'x ValId
  | SetHandler 'h ValId ValId
  | Commit "('r CommitDest \<times> ValId) list"

datatype BbFallible =
    PortOut ValId ValId u8
  | PortIn ValId VarId u8
  | ReadMemory VarId ValId u8
  | WriteMemory ValId ValId u8
  | ReadDescriptor ValId bool bool VarId VarId VarId VarId

datatype ('x, 'h, 'r) Bb =
    Jump BbId
  | Br ValId BbId BbId
  | Seq "('x, 'h, 'r) BbSeq" BbId
  | Fallible BbFallible BbId BbId
  | CommitAndExit "u64 option" "('r CommitDest \<times> ValId) list" "ValId option" "ValId option" bool

type_synonym ('x, 'h, 'r) BbGraph = "('x, 'h, 'r) Bb list"

fun dest_values :: "'r CommitDest \<Rightarrow> ValId list" where
  "dest_values (CommitReg _) = []"
| "dest_values (CommitFixed _ _) = []"
| "dest_values (CommitDynamic _ offset) = [offset]"

fun seq_values :: "('x, 'h, 'r) BbSeq \<Rightarrow> ValId list" where
  "seq_values (Store values) = map snd values"
| "seq_values (ReadMemoryUnchecked _ addr _) = [addr]"
| "seq_values (WriteMemoryUnchecked val addr _) = [val, addr]"
| "seq_values (Log _) = []"
| "seq_values (SetException _ code) = [code]"
| "seq_values (SetHandler _ a b) = [a, b]"
| "seq_values (Commit values) = concat (map (\<lambda>(dest, v). v # dest_values dest) values)"

fun fallible_values :: "BbFallible \<Rightarrow> ValId list" where
  "fallible_values (PortOut port val _) = [port, val]"
| "fallible_values (PortIn port _ _) = [port]"
| "fallible_values (ReadMemory _ addr _) = [addr]"
| "fallible_values (WriteMemory val addr _) = [val, addr]"
| "fallible_values (ReadDescriptor selector _ _ _ _ _ _) = [selector]"

fun bb_next_blocks :: "('x, 'h, 'r) Bb \<Rightarrow> BbId list" where
  "bb_next_blocks (Jump next) = [next]"
| "bb_next_blocks (Br _ if_zero if_nonzero) = [if_zero, if_nonzero]"
| "bb_next_blocks (Seq _ next) = [next]"
| "bb_next_blocks (Fallible _ if_ok if_exception) = [if_ok, if_exception]"
| "bb_next_blocks (CommitAndExit _ _ _ _ _) = []"

fun option_list :: "'a option \<Rightarrow> 'a list" where
  "option_list None = []"
| "option_list (Some x) = [x]"

fun bb_referenced_values :: "('x, 'h, 'r) Bb \<Rightarrow> ValId list" where
  "bb_referenced_values (Jump _) = []"
| "bb_referenced_values (Br cond _ _) = [cond]"
| "bb_referenced_values (Seq entry _) = seq_values entry"
| "bb_referenced_values (Fallible op _ _) = fallible_values op"
| "bb_referenced_values (CommitAndExit _ values last_jump_condition k _) =
     concat (map (\<lambda>(dest, v). v # dest_values dest) values) @ option_list last_jump_condition @ option_list k"

end
