(* ===== verification/Cg_Dominators.thy ===== *)
theory Cg_Dominators
  imports Cg_Blocks "HOL-Library.Monad_Syntax"
begin

text \<open>
  Dominators of a control-flow graph (\<open>sem86-core/src/codegen/lir/dominator.rs\<close>), after Cooper, Harvey
  and Kennedy: a depth-first search numbers the blocks in reverse postorder, and immediate dominators
  are computed as nearest common ancestors of the predecessors until nothing changes.

  The stack of the search has its top first. A number \<open>dn_n\<close> is 0 for a block that was not reached, 1
  for one that was, and later the position in reverse postorder plus 2. An index out of range and
  \<open>unwrap\<close> of nothing are \<open>None\<close>.
\<close>

section \<open>The tree\<close>

record DomNode =
  dn_n :: nat
  dn_idom :: "BbId option"
  dn_predecessors :: "BbId list"

record DominatorTree =
  dt_nodes :: "DomNode list"
  dt_postorder :: "BbId list"

definition visit_next :: "BbId \<Rightarrow> DomNode list \<times> (bool \<times> BbId) list \<Rightarrow> BbId \<Rightarrow> (DomNode list \<times> (bool \<times> BbId) list) option" where
  "visit_next bid st next =
     (case st of (nodes, stack) \<Rightarrow>
        if next < length nodes
        then Some (nodes[next := (nodes ! next)\<lparr>dn_predecessors := dn_predecessors (nodes ! next) @ [bid]\<rparr>],
                   if dn_n (nodes ! next) = 0 then (True, next) # stack else stack)
        else None)"

partial_function (option) dt_search ::
  "('x, 'h, 'r) BbGraph \<Rightarrow> DomNode list \<Rightarrow> BbId list \<Rightarrow> (bool \<times> BbId) list \<Rightarrow> (DomNode list \<times> BbId list) option" where
  "dt_search bb nodes postorder stack =
     (case stack of
        [] \<Rightarrow> Some (nodes, postorder)
      | (is_entry, bid) # stack \<Rightarrow>
          if bid < length nodes then
            (let nodes = nodes[bid := (nodes ! bid)\<lparr>dn_n := 1\<rparr>] in
             if is_entry then
               do { (nodes, stack) \<leftarrow> run (visit_next bid) (nodes, (False, bid) # stack) (bb_next_blocks (bb ! bid));
                    dt_search bb nodes postorder stack }
             else dt_search bb nodes (postorder @ [bid]) stack)
          else None)"

partial_function (option) dt_lca :: "DomNode list \<Rightarrow> BbId \<Rightarrow> BbId \<Rightarrow> BbId option" where
  "dt_lca nodes a b =
     (if a < length nodes \<and> b < length nodes then
        if dn_n (nodes ! a) < dn_n (nodes ! b) then do { b \<leftarrow> dn_idom (nodes ! b); dt_lca nodes a b }
        else if dn_n (nodes ! a) = dn_n (nodes ! b) then Some a
        else do { a \<leftarrow> dn_idom (nodes ! a); dt_lca nodes a b }
      else None)"

fun reduce_opt :: "('a \<Rightarrow> 'a \<Rightarrow> 'a option) \<Rightarrow> 'a list \<Rightarrow> 'a option" where
  "reduce_opt f [] = None"
| "reduce_opt f (x # xs) = run f x xs"

definition compute_idom :: "DomNode list \<Rightarrow> BbId \<Rightarrow> BbId option" where
  "compute_idom nodes bid =
     (if bid < length nodes then reduce_opt (dt_lca nodes) (dn_predecessors (nodes ! bid)) else None)"

definition number_block :: "DomNode list \<Rightarrow> nat \<times> BbId \<Rightarrow> DomNode list option" where
  "number_block nodes entry =
     (case entry of (index, bid) \<Rightarrow>
        do { idom \<leftarrow> compute_idom nodes bid;
             Some (nodes[bid := (nodes ! bid)\<lparr>dn_idom := Some idom, dn_n := 2 + index\<rparr>]) })"

definition update_idom :: "DomNode list \<times> bool \<Rightarrow> BbId \<Rightarrow> (DomNode list \<times> bool) option" where
  "update_idom st bid =
     (case st of (nodes, unchanged) \<Rightarrow>
        do { idom \<leftarrow> compute_idom nodes bid;
             Some (if dn_idom (nodes ! bid) \<noteq> Some idom then (nodes[bid := (nodes ! bid)\<lparr>dn_idom := Some idom\<rparr>], False)
                   else (nodes, unchanged)) })"

partial_function (option) dt_iterate :: "DomNode list \<Rightarrow> BbId list \<Rightarrow> DomNode list option" where
  "dt_iterate nodes order =
     do { (nodes, unchanged) \<leftarrow> run update_idom (nodes, True) order;
          if unchanged then Some nodes else dt_iterate nodes order }"

definition dt_initialize :: "DominatorTree \<Rightarrow> DominatorTree option" where
  "dt_initialize t =
     (let order = drop 1 (rev (dt_postorder t)); nodes = dt_nodes t in
      if BB_ROOT < length nodes then
        do { nodes \<leftarrow> run number_block (nodes[BB_ROOT := (nodes ! BB_ROOT)\<lparr>dn_n := 2\<rparr>]) (enumerate 0 order);
             nodes \<leftarrow> dt_iterate nodes order;
             Some (t\<lparr>dt_nodes := nodes\<rparr>) }
      else None)"

definition dominator_tree :: "('x, 'h, 'r) BbGraph \<Rightarrow> DominatorTree option" where
  "dominator_tree bb =
     do { (nodes, postorder) \<leftarrow> dt_search bb (replicate (length bb) \<lparr>dn_n = 0, dn_idom = None, dn_predecessors = []\<rparr>) [] [(True, BB_ROOT)];
          dt_initialize \<lparr>dt_nodes = nodes, dt_postorder = postorder\<rparr> }"

partial_function (option) dt_climb :: "DomNode list \<Rightarrow> BbId \<Rightarrow> nat \<Rightarrow> BbId \<Rightarrow> bool option" where
  "dt_climb nodes dominator dominator_n other =
     (if other < length nodes then
        if dominator_n < dn_n (nodes ! other) then
          (case dn_idom (nodes ! other) of
             Some idom \<Rightarrow> dt_climb nodes dominator dominator_n idom
           | None \<Rightarrow> Some False)
        else Some (dominator_n = dn_n (nodes ! other) \<and> dominator = other)
      else None)"

definition dt_dominates :: "DominatorTree \<Rightarrow> BbId \<Rightarrow> BbId \<Rightarrow> bool option" where
  "dt_dominates t dominator other =
     (if dominator < length (dt_nodes t) then dt_climb (dt_nodes t) dominator (dn_n (dt_nodes t ! dominator)) other else None)"

definition dt_lca_many :: "DominatorTree \<Rightarrow> BbId list \<Rightarrow> BbId option" where
  "dt_lca_many t ids = reduce_opt (dt_lca (dt_nodes t)) ids"

section \<open>Paths and dominance\<close>

definition flow_edges :: "('x, 'h, 'r) BbGraph \<Rightarrow> (BbId \<times> BbId) set" where
  "flow_edges bb = {(u, v). u < length bb \<and> v \<in> set (bb_next_blocks (bb ! u))}"

fun flow_path :: "('x, 'h, 'r) BbGraph \<Rightarrow> BbId list \<Rightarrow> bool" where
  "flow_path bb [] = False"
| "flow_path bb [x] = (x < length bb)"
| "flow_path bb (x # y # p) = ((x, y) \<in> flow_edges bb \<and> flow_path bb (y # p))"

text \<open>\<open>d\<close> dominates \<open>v\<close>: it is on every path from the entry to \<open>v\<close>.\<close>

definition flow_dominates :: "('x, 'h, 'r) BbGraph \<Rightarrow> BbId \<Rightarrow> BbId \<Rightarrow> bool" where
  "flow_dominates bb d v \<longleftrightarrow> (\<forall>p. flow_path bb p \<and> hd p = BB_ROOT \<and> last p = v \<longrightarrow> d \<in> set p)"

definition flow_reachable :: "('x, 'h, 'r) BbGraph \<Rightarrow> BbId set" where
  "flow_reachable bb = {v. (BB_ROOT, v) \<in> (flow_edges bb)\<^sup>*}"

text \<open>The graphs of the code generator: there are no loops, the entry has at most one successor, and the
  first target of a branch is a block of its own, which only that branch leads to.\<close>

definition flow_ok :: "('x, 'h, 'r) BbGraph \<Rightarrow> bool" where
  "flow_ok bb \<longleftrightarrow> bb \<noteq> [] \<and> (\<forall>u < length bb. \<forall>v \<in> set (bb_next_blocks (bb ! u)). v < length bb) \<and>
     acyclic (flow_edges bb) \<and> length (bb_next_blocks (bb ! BB_ROOT)) \<le> 1 \<and>
     (\<forall>u < length bb. \<forall>x y. bb_next_blocks (bb ! u) = [x, y] \<longrightarrow>
        x \<noteq> y \<and> (\<forall>w < length bb. x \<in> set (bb_next_blocks (bb ! w)) \<longrightarrow> w = u))"

lemma flow_path_snoc: "p \<noteq> [] \<Longrightarrow> flow_path bb (p @ [v]) \<longleftrightarrow> flow_path bb p \<and> (last p, v) \<in> flow_edges bb \<and> v < length bb"
  by (induction bb p rule: flow_path.induct) (auto simp: flow_edges_def)

lemma flow_path_reachable: "flow_path bb p \<Longrightarrow> (hd p, last p) \<in> (flow_edges bb)\<^sup>*"
  by (induction bb p rule: flow_path.induct) (auto intro: converse_rtrancl_into_rtrancl)

lemma flow_ok_edges: "flow_ok bb \<Longrightarrow> (u, v) \<in> flow_edges bb \<Longrightarrow> u < length bb \<and> v < length bb"
  by (auto simp: flow_ok_def flow_edges_def)

lemma flow_reachable_less: "flow_ok bb \<Longrightarrow> v \<in> flow_reachable bb \<Longrightarrow> v < length bb"
proof -
  assume ok: "flow_ok bb" and "v \<in> flow_reachable bb"
  then have "(BB_ROOT, v) \<in> (flow_edges bb)\<^sup>*" by (simp add: flow_reachable_def)
  then show "v < length bb"
    by (cases rule: rtranclE) (use ok flow_ok_edges [OF ok] in \<open>auto simp: flow_ok_def BB_ROOT_def\<close>)
qed

lemma reachable_flow_path:
  assumes "flow_ok bb" "v \<in> flow_reachable bb"
  obtains p where "flow_path bb p" "hd p = BB_ROOT" "last p = v"
proof -
  have "(BB_ROOT, v) \<in> (flow_edges bb)\<^sup>*" using assms(2) by (simp add: flow_reachable_def)
  then have "\<exists>p. flow_path bb p \<and> hd p = BB_ROOT \<and> last p = v"
  proof induction
    case base
    show ?case using assms(1) by (intro exI [of _ "[BB_ROOT]"]) (auto simp: flow_ok_def BB_ROOT_def)
  next
    case (step u v)
    then obtain p where p: "flow_path bb p" "hd p = BB_ROOT" "last p = u" by blast
    then have "p \<noteq> []" by auto
    then show ?case using p step(2) flow_ok_edges [OF assms(1) step(2)]
      by (intro exI [of _ "p @ [v]"]) (simp add: flow_path_snoc)
  qed
  with that show ?thesis by blast
qed

lemma flow_dominates_root: "flow_ok bb \<Longrightarrow> flow_dominates bb d BB_ROOT \<Longrightarrow> d = BB_ROOT"
  unfolding flow_dominates_def by (drule spec [of _ "[BB_ROOT]"]) (simp add: flow_ok_def BB_ROOT_def)

lemma root_dominates: "flow_dominates bb BB_ROOT v"
  unfolding flow_dominates_def by (metis flow_path.simps(1) hd_in_set)

lemma flow_dominates_step:
  assumes "flow_ok bb" "v \<noteq> BB_ROOT" "v < length bb"
  shows "flow_dominates bb d v \<longleftrightarrow> d = v \<or> (\<forall>u \<in> flow_reachable bb. (u, v) \<in> flow_edges bb \<longrightarrow> flow_dominates bb d u)"
proof
  assume dom: "flow_dominates bb d v"
  show "d = v \<or> (\<forall>u \<in> flow_reachable bb. (u, v) \<in> flow_edges bb \<longrightarrow> flow_dominates bb d u)"
  proof (rule disjCI)
    assume new: "\<not> (\<forall>u \<in> flow_reachable bb. (u, v) \<in> flow_edges bb \<longrightarrow> flow_dominates bb d u)"
    then obtain u p where p: "(u, v) \<in> flow_edges bb" "flow_path bb p" "hd p = BB_ROOT" "last p = u" "d \<notin> set p"
      unfolding flow_dominates_def by blast
    then have "p \<noteq> []" by auto
    then have "d \<in> set (p @ [v])" using dom p assms(3) unfolding flow_dominates_def
      by (metis flow_path_snoc hd_append2 last_snoc)
    then show "d = v" using p(5) by simp
  qed
next
  assume r: "d = v \<or> (\<forall>u \<in> flow_reachable bb. (u, v) \<in> flow_edges bb \<longrightarrow> flow_dominates bb d u)"
  show "flow_dominates bb d v" unfolding flow_dominates_def
  proof (intro allI impI)
    fix p assume p: "flow_path bb p \<and> hd p = BB_ROOT \<and> last p = v"
    then obtain q where q: "p = q @ [v]" by (metis append_butlast_last_id flow_path.simps(1))
    show "d \<in> set p"
    proof (cases "q = []")
      case True
      with p q assms(2) show ?thesis by simp
    next
      case False
      then have path: "flow_path bb q" "(last q, v) \<in> flow_edges bb" "hd q = BB_ROOT" using p q by (auto simp: flow_path_snoc)
      then have "last q \<in> flow_reachable bb" using flow_path_reachable [OF path(1)] by (simp add: flow_reachable_def)
      then have "d = v \<or> flow_dominates bb d (last q)" using r path(2) by blast
      then show ?thesis using path q unfolding flow_dominates_def by auto
    qed
  qed
qed

end
