(* ===== verification/Cg_Dom_Search.thy ===== *)
theory Cg_Dom_Search
  imports Cg_Dominators
begin

text \<open>
  The search of the dominator tree visits each reachable block once, lists it after all blocks that it
  leads to, and records its predecessors.
\<close>

section \<open>Entering a block\<close>

abbreviation succs :: "('x, 'h, 'r) BbGraph \<Rightarrow> BbId \<Rightarrow> BbId list" where
  "succs bb u \<equiv> bb_next_blocks (bb ! u)"

lemma nth_update_eq: "xs[i := x] ! j = (if i = j \<and> i < length xs then x else xs ! j)"
  by (cases "i < length xs") (auto simp: nth_list_update not_less list_update_beyond)

lemma visit_run:
  assumes "\<forall>x \<in> set xs. x < length ns"
  shows "\<exists>ns'. run (visit_next u) (ns, st) xs = Some (ns', rev (map (Pair True) (filter (\<lambda>x. dn_n (ns ! x) = 0) xs)) @ st) \<and>
    length ns' = length ns \<and> (\<forall>i < length ns. dn_n (ns' ! i) = dn_n (ns ! i) \<and> dn_idom (ns' ! i) = dn_idom (ns ! i) \<and>
      set (dn_predecessors (ns' ! i)) = set (dn_predecessors (ns ! i)) \<union> (if i \<in> set xs then {u} else {}))"
  using assms
proof (induction xs arbitrary: ns st)
  case (Cons x xs)
  let ?ns = "ns[x := (ns ! x)\<lparr>dn_predecessors := dn_predecessors (ns ! x) @ [u]\<rparr>]"
  let ?st = "if dn_n (ns ! x) = 0 then (True, x) # st else st"
  have n: "dn_n (?ns ! i) = dn_n (ns ! i)" "dn_idom (?ns ! i) = dn_idom (ns ! i)" for i by (simp_all add: nth_update_eq)
  have p: "i < length ns \<Longrightarrow> set (dn_predecessors (?ns ! i)) = set (dn_predecessors (ns ! i)) \<union> (if i = x then {u} else {})" for i
    by (simp add: nth_update_eq)
  have len: "length ?ns = length ns" by simp
  have step: "visit_next u (ns, st) x = Some (?ns, ?st)" using Cons.prems by (simp add: visit_next_def)
  have "\<forall>y \<in> set xs. y < length ?ns" using Cons.prems by simp
  from Cons.IH [OF this, of ?st] obtain ns' where ns':
    "run (visit_next u) (?ns, ?st) xs = Some (ns', rev (map (Pair True) (filter (\<lambda>x. dn_n (?ns ! x) = 0) xs)) @ ?st)"
    "length ns' = length ?ns" "\<forall>i < length ?ns. dn_n (ns' ! i) = dn_n (?ns ! i) \<and> dn_idom (ns' ! i) = dn_idom (?ns ! i) \<and>
      set (dn_predecessors (ns' ! i)) = set (dn_predecessors (?ns ! i)) \<union> (if i \<in> set xs then {u} else {})" by blast
  have "run (visit_next u) (ns, st) (x # xs) = Some (ns', rev (map (Pair True) (filter (\<lambda>x. dn_n (ns ! x) = 0) (x # xs))) @ st)"
    using step ns'(1) n(1) by simp
  moreover have "\<forall>i < length ns. dn_n (ns' ! i) = dn_n (ns ! i) \<and> dn_idom (ns' ! i) = dn_idom (ns ! i) \<and>
      set (dn_predecessors (ns' ! i)) = set (dn_predecessors (ns ! i)) \<union> (if i \<in> set (x # xs) then {u} else {})"
    using ns'(3) n p by auto
  ultimately show ?case using ns'(2) len by auto
qed simp

section \<open>The invariant of the search\<close>

definition covered :: "('x, 'h, 'r) BbGraph \<Rightarrow> BbId list \<Rightarrow> (bool \<times> BbId) list \<Rightarrow> bool" where
  "covered bb post stack \<longleftrightarrow> (\<forall>s1 w s2. stack = s1 @ (False, w) # s2 \<longrightarrow>
     (\<forall>x \<in> snd ` set s1. (w, x) \<in> (flow_edges bb)\<^sup>+) \<and> set (succs bb w) \<subseteq> set post \<union> snd ` set s1)"

definition topological :: "('x, 'h, 'r) BbGraph \<Rightarrow> BbId list \<Rightarrow> bool" where
  "topological bb post \<longleftrightarrow> (\<forall>p1 w p2. post = p1 @ w # p2 \<longrightarrow> set (succs bb w) \<subseteq> set p1)"

definition bottom_ok :: "BbId list \<Rightarrow> (bool \<times> BbId) list \<Rightarrow> bool" where
  "bottom_ok post stack \<longleftrightarrow> (if stack = [] then post \<noteq> [] \<and> last post = BB_ROOT else snd (last stack) = BB_ROOT)"

definition search_inv :: "('x, 'h, 'r) BbGraph \<Rightarrow> DomNode list \<Rightarrow> BbId list \<Rightarrow> (bool \<times> BbId) list \<Rightarrow> bool" where
  "search_inv bb ns post stack \<longleftrightarrow> length ns = length bb \<and> distinct (post @ map snd stack) \<and>
     set post \<union> snd ` set stack \<subseteq> flow_reachable bb \<and>
     (\<forall>i < length bb. dn_idom (ns ! i) = None \<and> dn_n (ns ! i) = (if i \<in> set post \<or> (False, i) \<in> set stack then 1 else 0) \<and>
        set (dn_predecessors (ns ! i)) = {u. (u \<in> set post \<or> (False, u) \<in> set stack) \<and> (u, i) \<in> flow_edges bb}) \<and>
     (\<forall>x. (True, x) \<in> set (tl stack) \<longrightarrow> (\<exists>w y. (False, w) \<in> set stack \<and> succs bb w = [x, y])) \<and>
     covered bb post stack \<and> topological bb post \<and> bottom_ok post stack"

lemma search_invD:
  assumes "search_inv bb ns post stack"
  shows "length ns = length bb" "distinct (post @ map snd stack)" "set post \<union> snd ` set stack \<subseteq> flow_reachable bb"
    "\<And>i. i < length bb \<Longrightarrow> dn_idom (ns ! i) = None"
    "\<And>i. i < length bb \<Longrightarrow> dn_n (ns ! i) = (if i \<in> set post \<or> (False, i) \<in> set stack then 1 else 0)"
    "\<And>i. i < length bb \<Longrightarrow> set (dn_predecessors (ns ! i)) = {u. (u \<in> set post \<or> (False, u) \<in> set stack) \<and> (u, i) \<in> flow_edges bb}"
    "\<And>x. (True, x) \<in> set (tl stack) \<Longrightarrow> \<exists>w y. (False, w) \<in> set stack \<and> succs bb w = [x, y]"
    "covered bb post stack" "topological bb post" "bottom_ok post stack"
  using assms unfolding search_inv_def by blast+

lemma flow_ok_succs: "flow_ok bb \<Longrightarrow> u < length bb \<Longrightarrow> v \<in> set (succs bb u) \<Longrightarrow> v < length bb \<and> (u, v) \<in> flow_edges bb"
  by (auto simp: flow_ok_def flow_edges_def)

lemma flow_ok_branch:
  assumes "flow_ok bb" "u < length bb" "succs bb u = [x, y]"
  shows "x \<noteq> y" "w < length bb \<Longrightarrow> x \<in> set (succs bb w) \<Longrightarrow> w = u"
  using assms unfolding flow_ok_def by blast+

lemma flow_acyclic: "flow_ok bb \<Longrightarrow> (u, v) \<in> flow_edges bb \<Longrightarrow> (v, u) \<in> (flow_edges bb)\<^sup>+ \<Longrightarrow> False"
  unfolding flow_ok_def acyclic_def by (meson trancl_into_trancl2)

lemma flow_no_loop: "flow_ok bb \<Longrightarrow> (u, u) \<notin> flow_edges bb"
  unfolding flow_ok_def acyclic_def by blast

text \<open>The number of successors is at most two.\<close>

lemma succs_cases: obtains "succs bb u = []" | x where "succs bb u = [x]" | x y where "succs bb u = [x, y]"
  by (cases "bb ! u") auto

definition pushed :: "('x, 'h, 'r) BbGraph \<Rightarrow> DomNode list \<Rightarrow> BbId \<Rightarrow> BbId list" where
  "pushed bb ns u = rev (filter (\<lambda>x. x \<noteq> u \<and> dn_n (ns ! x) = 0) (succs bb u))"

lemma set_pushed: "x \<in> set (pushed bb ns u) \<longleftrightarrow> x \<in> set (succs bb u) \<and> x \<noteq> u \<and> dn_n (ns ! x) = 0"
  by (auto simp: pushed_def)

lemma pushed_distinct: "flow_ok bb \<Longrightarrow> u < length bb \<Longrightarrow> distinct (pushed bb ns u)"
  by (cases rule: succs_cases [of bb u]) (auto simp: pushed_def dest: flow_ok_branch(1))

lemma pushed_length: "length (pushed bb ns u) \<le> 2"
  by (cases rule: succs_cases [of bb u]) (auto simp: pushed_def)

lemma pushed_tl: "x \<in> set (tl (pushed bb ns u)) \<Longrightarrow> \<exists>y. succs bb u = [x, y]"
  by (cases rule: succs_cases [of bb u]) (auto simp: pushed_def split: if_splits)

section \<open>Leaving a block\<close>

lemma topological_snoc:
  assumes "topological bb post" "set (succs bb u) \<subseteq> set post"
  shows "topological bb (post @ [u])"
  unfolding topological_def
proof (intro allI impI)
  fix p1 w p2 assume p: "post @ [u] = p1 @ w # p2"
  show "set (succs bb w) \<subseteq> set p1"
  proof (cases p2 rule: rev_cases)
    case Nil
    with p assms(2) show ?thesis by simp
  next
    case (snoc q z)
    with p have "post = p1 @ w # q" by simp
    with assms(1) show ?thesis unfolding topological_def by blast
  qed
qed

lemma search_leave:
  assumes "search_inv bb ns post ((False, u) # st)"
  shows "search_inv bb (ns[u := (ns ! u)\<lparr>dn_n := 1\<rparr>]) (post @ [u]) st"
proof -
  note i = search_invD [OF assms]
  have [simp]: "(False, u) \<notin> set st" and u: "u \<notin> set post" using i(2) by (auto simp: image_iff)
  have succ: "set (succs bb u) \<subseteq> set post" using i(8) unfolding covered_def by (drule_tac spec [of _ "[]"]) simp
  have "covered bb (post @ [u]) st" unfolding covered_def
  proof (intro allI impI)
    fix s1 w s2 assume st: "st = s1 @ (False, w) # s2"
    then have "(False, u) # st = ((False, u) # s1) @ (False, w) # s2" by simp
    with i(8) have "(\<forall>x \<in> snd ` set ((False, u) # s1). (w, x) \<in> (flow_edges bb)\<^sup>+) \<and> set (succs bb w) \<subseteq> set post \<union> snd ` set ((False, u) # s1)"
      unfolding covered_def by blast
    then show "(\<forall>x \<in> snd ` set s1. (w, x) \<in> (flow_edges bb)\<^sup>+) \<and> set (succs bb w) \<subseteq> set (post @ [u]) \<union> snd ` set s1" by auto
  qed
  moreover have "topological bb (post @ [u])" using i(9) succ by (rule topological_snoc)
  moreover have "bottom_ok (post @ [u]) st" using i(10) by (simp add: bottom_ok_def split: if_splits)
  moreover have "\<exists>w y. (False, w) \<in> set st \<and> succs bb w = [x, y]" if "(True, x) \<in> set (tl st)" for x
  proof -
    from that have "(True, x) \<in> set (tl ((False, u) # st))" by (cases st) auto
    then obtain w y where w: "(False, w) \<in> set ((False, u) # st)" "succs bb w = [x, y]" using i(7) by blast
    have "x \<in> snd ` set st" using that by (cases st) force+
    then have "x \<notin> set post" using i(2) by auto
    then have "w \<noteq> u" using w(2) succ by auto
    with w show ?thesis by auto
  qed
  moreover have "distinct ((post @ [u]) @ map snd st)" using i(2) by auto
  moreover have "set (post @ [u]) \<union> snd ` set st \<subseteq> flow_reachable bb" using i(3) by auto
  moreover have "dn_n (ns[u := (ns ! u)\<lparr>dn_n := 1\<rparr>] ! j) = (if j \<in> set (post @ [u]) \<or> (False, j) \<in> set st then 1 else 0)"
    if "j < length bb" for j using i(1) i(5) [OF that] that by (auto simp: nth_update_eq)
  moreover have "dn_idom (ns[u := (ns ! u)\<lparr>dn_n := 1\<rparr>] ! j) = None \<and> set (dn_predecessors (ns[u := (ns ! u)\<lparr>dn_n := 1\<rparr>] ! j)) =
      {w. (w \<in> set (post @ [u]) \<or> (False, w) \<in> set st) \<and> (w, j) \<in> flow_edges bb}"
    if "j < length bb" for j using i(1) i(4) [OF that] i(6) [OF that] that by (auto simp: nth_update_eq)
  ultimately show ?thesis unfolding search_inv_def using i(1) by simp
qed

section \<open>Entering a block keeps the invariant\<close>

lemma covered_reach:
  assumes "covered bb post ((b, u) # st)" "(False, w) \<in> set st"
  shows "(w, u) \<in> (flow_edges bb)\<^sup>+"
proof -
  obtain s1 s2 where "st = s1 @ (False, w) # s2" using assms(2) by (auto dest: split_list)
  then have "(b, u) # st = ((b, u) # s1) @ (False, w) # s2" by simp
  then have "\<forall>x \<in> snd ` set ((b, u) # s1). (w, x) \<in> (flow_edges bb)\<^sup>+" using assms(1) unfolding covered_def by blast
  then show ?thesis by simp
qed

lemma covered_enter:
  assumes "covered bb post ((True, u) # st)" "flow_ok bb" "u < length bb" "set xs \<subseteq> set (succs bb u)"
    "\<forall>v \<in> set (succs bb u). v \<in> set post \<or> v \<in> set xs"
  shows "covered bb post (map (Pair True) xs @ (False, u) # st)"
  unfolding covered_def
proof (intro allI impI)
  fix s1 w s2 assume eq: "map (Pair True) xs @ (False, u) # st = s1 @ (False, w) # s2"
  have edge: "(u, x) \<in> flow_edges bb" if "x \<in> set xs" for x using that assms(2-4) flow_ok_succs by blast
  have notin: "(False, w) \<notin> set (map (Pair True) xs)" by auto
  show "(\<forall>x \<in> snd ` set s1. (w, x) \<in> (flow_edges bb)\<^sup>+) \<and> set (succs bb w) \<subseteq> set post \<union> snd ` set s1"
  proof (cases "s1 = map (Pair True) xs")
    case True
    then have "w = u" using eq by simp
    with True edge assms(5) show ?thesis by (force simp: image_image)
  next
    case False
    then obtain t where t: "s1 = map (Pair True) xs @ (False, u) # t" "st = t @ (False, w) # s2"
      using eq notin by (auto simp: append_eq_append_conv2 Cons_eq_append_conv append_eq_Cons_conv dest: arg_cong [where f = set])
    then have "(True, u) # st = ((True, u) # t) @ (False, w) # s2" by simp
    then have old: "(\<forall>x \<in> snd ` set ((True, u) # t). (w, x) \<in> (flow_edges bb)\<^sup>+) \<and> set (succs bb w) \<subseteq> set post \<union> snd ` set ((True, u) # t)"
      using assms(1) unfolding covered_def by blast
    then have "(w, x) \<in> (flow_edges bb)\<^sup>+" if "x \<in> set xs" for x using edge [OF that] by auto
    with old t(1) show ?thesis by auto
  qed
qed

lemma search_enter:
  assumes inv: "search_inv bb ns post ((True, u) # st)" and ok: "flow_ok bb"
    and ns': "length ns' = length bb" "\<forall>i < length bb. dn_n (ns' ! i) = (if i = u then 1 else dn_n (ns ! i)) \<and> dn_idom (ns' ! i) = dn_idom (ns ! i) \<and>
      set (dn_predecessors (ns' ! i)) = set (dn_predecessors (ns ! i)) \<union> (if i \<in> set (succs bb u) then {u} else {})"
  shows "search_inv bb ns' post (map (Pair True) (pushed bb ns u) @ (False, u) # st)" (is "search_inv bb ns' post ?st")
proof -
  note i = search_invD [OF inv]
  let ?P = "pushed bb ns u"
  have u: "u < length bb" "u \<notin> set post" "(False, u) \<notin> set st" "u \<in> flow_reachable bb"
    using i(2,3) flow_reachable_less [OF ok] by (auto simp: image_iff)
  have less: "x \<in> set (succs bb u) \<Longrightarrow> x < length bb" for x using flow_ok_succs [OF ok u(1)] by blast
  have edge: "x \<in> set (succs bb u) \<Longrightarrow> (u, x) \<in> flow_edges bb" for x using flow_ok_succs [OF ok u(1)] by blast
  have P: "x \<in> set ?P \<Longrightarrow> x \<in> set (succs bb u) \<and> x \<noteq> u \<and> x \<notin> set post \<and> (False, x) \<notin> set st" for x
    using i(5) [OF less, of x] by (auto simp: set_pushed split: if_splits)
  have fresh: "x \<notin> snd ` set st" if "x \<in> set ?P" for x
  proof
    assume "x \<in> snd ` set st"
    then obtain b where "(b, x) \<in> set st" by auto
    then have "(True, x) \<in> set st" using P [OF that] by (cases b) auto
    then obtain w y where w: "(False, w) \<in> set ((True, u) # st)" "succs bb w = [x, y]" using i(7) [of x] by auto
    then have "w < length bb" using i(3) flow_reachable_less [OF ok] by force
    from flow_ok_branch(2) [OF ok this w(2) u(1)] P [OF that] have "u = w" by blast
    with w(1) u(3) show False by auto
  qed
  have done_or_pushed: "\<forall>v \<in> set (succs bb u). v \<in> set post \<or> v \<in> set ?P"
  proof
    fix v assume v: "v \<in> set (succs bb u)"
    show "v \<in> set post \<or> v \<in> set ?P"
    proof (rule ccontr)
      assume n: "\<not> (v \<in> set post \<or> v \<in> set ?P)"
      have "v \<noteq> u" using edge [OF v] flow_no_loop [OF ok] by blast
      then have "(False, v) \<in> set st" using n v i(5) [OF less [OF v]] by (auto simp: set_pushed split: if_splits)
      from covered_reach [OF i(8) this] edge [OF v] show False using flow_acyclic [OF ok] by blast
    qed
  qed
  have mem: "(False, j) \<in> set ?st \<longleftrightarrow> j = u \<or> (False, j) \<in> set st" for j by auto
  have dist: "distinct (post @ map snd ?st)"
    using i(2) pushed_distinct [OF ok u(1)] P fresh by (auto simp: comp_def)
  have reach: "set post \<union> snd ` set ?st \<subseteq> flow_reachable bb"
  proof -
    have "x \<in> flow_reachable bb" if "x \<in> set ?P" for x
      using u(4) edge P [OF that] unfolding flow_reachable_def by (auto intro: rtrancl_into_rtrancl)
    then show ?thesis using i(3) u(4) by (auto simp: image_Un image_image)
  qed
  have first: "\<exists>w y. (False, w) \<in> set ?st \<and> succs bb w = [x, y]" if "(True, x) \<in> set (tl ?st)" for x
  proof (cases "?P")
    case Nil
    with that have "(True, x) \<in> set st" by simp
    with i(7) [of x] show ?thesis by auto
  next
    case (Cons z zs)
    with that have "x \<in> set (tl ?P) \<or> (True, x) \<in> set st" by auto
    then show ?thesis using pushed_tl [of x bb ns u] i(7) [of x] by auto
  qed
  have cov: "covered bb post ?st" using covered_enter [OF i(8) ok u(1) _ done_or_pushed] P by blast
  have bot: "bottom_ok post ?st" using i(10) by (simp add: bottom_ok_def split: if_splits)
  have "dn_idom (ns' ! j) = None \<and> dn_n (ns' ! j) = (if j \<in> set post \<or> (False, j) \<in> set ?st then 1 else 0)"
    if "j < length bb" for j
    using ns'(2) that i(4) [OF that] i(5) [OF that] mem [of j] by auto
  moreover have "set (dn_predecessors (ns' ! j)) = {w. (w \<in> set post \<or> (False, w) \<in> set ?st) \<and> (w, j) \<in> flow_edges bb}"
    if "j < length bb" for j
    using ns'(2) that i(6) [OF that] edge [of j] u(1) unfolding mem by (auto simp: flow_edges_def)
  ultimately show ?thesis unfolding search_inv_def using dist reach first cov i(9) bot ns'(1) by blast
qed

section \<open>The whole search\<close>

definition unentered :: "DomNode list \<Rightarrow> nat" where
  "unentered ns = length (filter (\<lambda>d. dn_n d = 0) ns)"

lemma unentered_update:
  assumes "length ns' = length ns" "u < length ns" "dn_n (ns ! u) = 0" "\<forall>i < length ns. dn_n (ns' ! i) = (if i = u then 1 else dn_n (ns ! i))"
  shows "unentered ns = Suc (unentered ns')"
proof -
  have "{i. i < length ns \<and> dn_n (ns ! i) = 0} = insert u {i. i < length ns' \<and> dn_n (ns' ! i) = 0}"
    using assms by (auto split: if_splits)
  moreover have "u \<notin> {i. i < length ns' \<and> dn_n (ns' ! i) = 0}" using assms by auto
  ultimately show ?thesis by (simp add: unentered_def length_filter_conv_card)
qed

lemma search_total:
  assumes "search_inv bb ns post stack" "flow_ok bb"
  shows "\<exists>ns' post'. dt_search bb ns post stack = Some (ns', post') \<and> search_inv bb ns' post' []"
  using assms(1)
proof (induction "3 * unentered ns + length stack" arbitrary: ns post stack rule: less_induct)
  case less
  note i = search_invD [OF less.prems]
  show ?case
  proof (cases stack)
    case Nil
    with less.prems show ?thesis by (simp add: dt_search.simps)
  next
    case (Cons e st)
    obtain b u where e: "e = (b, u)" by (cases e)
    have u: "u < length bb" using i(3) flow_reachable_less [OF assms(2)] Cons e by auto
    let ?ns = "ns[u := (ns ! u)\<lparr>dn_n := 1\<rparr>]"
    show ?thesis
    proof (cases b)
      case True
      have n0: "dn_n (ns ! u) = 0" using i(2) i(5) [OF u] Cons e True by (auto simp: image_iff)
      have "\<forall>x \<in> set (succs bb u). x < length ?ns" using flow_ok_succs [OF assms(2) u] i(1) by auto
      from visit_run [OF this, of u "(False, u) # st"] obtain ns' where ns':
        "run (visit_next u) (?ns, (False, u) # st) (succs bb u) = Some (ns', rev (map (Pair True) (filter (\<lambda>x. dn_n (?ns ! x) = 0) (succs bb u))) @ (False, u) # st)"
        "length ns' = length ?ns" "\<forall>i < length ?ns. dn_n (ns' ! i) = dn_n (?ns ! i) \<and> dn_idom (ns' ! i) = dn_idom (?ns ! i) \<and>
          set (dn_predecessors (ns' ! i)) = set (dn_predecessors (?ns ! i)) \<union> (if i \<in> set (succs bb u) then {u} else {})" by blast
      have push: "rev (map (Pair True) (filter (\<lambda>x. dn_n (?ns ! x) = 0) (succs bb u))) = map (Pair True) (pushed bb ns u)"
        using u i(1) by (auto simp: pushed_def rev_map nth_update_eq intro!: arg_cong [where f = "map (Pair True)"] arg_cong [where f = rev] filter_cong)
      have len: "length ns' = length bb" using ns'(2) i(1) by simp
      have eff: "\<forall>i < length bb. dn_n (ns' ! i) = (if i = u then 1 else dn_n (ns ! i)) \<and> dn_idom (ns' ! i) = dn_idom (ns ! i) \<and>
          set (dn_predecessors (ns' ! i)) = set (dn_predecessors (ns ! i)) \<union> (if i \<in> set (succs bb u) then {u} else {})"
        using ns'(3) i(1) u by (auto simp: nth_update_eq)
      let ?st = "map (Pair True) (pushed bb ns u) @ (False, u) # st"
      have inv: "search_inv bb ns' post ?st"
        using search_enter [OF _ assms(2) len eff] less.prems Cons e True by simp
      have "unentered ns = Suc (unentered ns')" using unentered_update [of ns' ns u] len i(1) u n0 eff by simp
      then have "3 * unentered ns' + length ?st < 3 * unentered ns + length stack"
        using pushed_length [of bb ns u] Cons by simp
      from less.hyps [OF this inv] have ex: "\<exists>ns'' post'. dt_search bb ns' post ?st = Some (ns'', post') \<and> search_inv bb ns'' post' []" .
      have "dt_search bb ns post stack = dt_search bb ns' post ?st"
        unfolding dt_search.simps [of bb ns post stack] using Cons e True u i(1) ns'(1) push by simp
      with ex show ?thesis by simp
    next
      case False
      have inv: "search_inv bb ?ns (post @ [u]) st" using search_leave [of bb ns post u st] less.prems Cons e False by simp
      have "dn_n (ns ! u) = 1" using i(5) [OF u] Cons e False by auto
      then have "(ns ! u)\<lparr>dn_n := 1\<rparr> = ns ! u" by (cases "ns ! u") simp
      then have "?ns = ns" by (metis list_update_id)
      then have "3 * unentered ?ns + length st < 3 * unentered ns + length stack" using Cons by simp
      from less.hyps [OF this inv] have ex: "\<exists>ns'' post'. dt_search bb ?ns (post @ [u]) st = Some (ns'', post') \<and> search_inv bb ns'' post' []" .
      have "dt_search bb ns post stack = dt_search bb ?ns (post @ [u]) st"
        unfolding dt_search.simps [of bb ns post stack] using Cons e False u i(1) by simp
      with ex show ?thesis by simp
    qed
  qed
qed

text \<open>What the search gives: the reachable blocks, each after all its successors, and predecessors.\<close>

lemma search_result:
  assumes "flow_ok bb"
  shows "\<exists>ns post. dt_search bb (replicate (length bb) \<lparr>dn_n = 0, dn_idom = None, dn_predecessors = []\<rparr>) [] [(True, BB_ROOT)] = Some (ns, post) \<and>
    length ns = length bb \<and> distinct post \<and> set post = flow_reachable bb \<and> topological bb post \<and> post \<noteq> [] \<and> last post = BB_ROOT \<and>
    (\<forall>i < length bb. dn_idom (ns ! i) = None \<and> dn_n (ns ! i) = (if i \<in> flow_reachable bb then 1 else 0) \<and>
      set (dn_predecessors (ns ! i)) = {u \<in> flow_reachable bb. (u, i) \<in> flow_edges bb})"
proof -
  have "BB_ROOT \<in> flow_reachable bb" by (simp add: flow_reachable_def)
  then have "search_inv bb (replicate (length bb) \<lparr>dn_n = 0, dn_idom = None, dn_predecessors = []\<rparr>) [] [(True, BB_ROOT)]"
    by (auto simp: search_inv_def covered_def topological_def bottom_ok_def Cons_eq_append_conv)
  from search_total [OF this assms] obtain ns post where r:
    "dt_search bb (replicate (length bb) \<lparr>dn_n = 0, dn_idom = None, dn_predecessors = []\<rparr>) [] [(True, BB_ROOT)] = Some (ns, post)"
    "search_inv bb ns post []" by blast
  note i = search_invD [OF r(2)]
  have "v \<in> set post" if "(BB_ROOT, v) \<in> (flow_edges bb)\<^sup>*" for v
    using that
  proof induction
    case base
    show ?case using i(10) last_in_set [of post] by (auto simp: bottom_ok_def)
  next
    case (step u v)
    then obtain p1 p2 where p: "post = p1 @ u # p2" by (auto dest: split_list)
    then have "set (succs bb u) \<subseteq> set p1" using i(9) unfolding topological_def by blast
    then show ?case using step(2) p by (auto simp: flow_edges_def)
  qed
  then have "set post = flow_reachable bb" using i(3) by (auto simp: flow_reachable_def)
  then show ?thesis using r(1) i by (intro exI [of _ ns] exI [of _ post]) (auto simp: bottom_ok_def)
qed

end
