(* ===== verification/Cg_Dom_Sound.thy ===== *)
theory Cg_Dom_Sound
  imports Cg_Dom_Search
begin

text \<open>
  The dominator tree is right: numbering the blocks in reverse postorder gives the immediate
  dominators at once, the iteration confirms them, and the queries answer by paths, except that the
  entry shares its number with the block after it.
\<close>

section \<open>Trees of immediate dominators\<close>

text \<open>\<open>order\<close> lists the reachable blocks but the entry, each after the blocks that lead to it.\<close>

definition order_ok :: "('x, 'h, 'r) BbGraph \<Rightarrow> BbId list \<Rightarrow> bool" where
  "order_ok bb order \<longleftrightarrow> distinct order \<and> BB_ROOT \<notin> set order \<and> insert BB_ROOT (set order) = flow_reachable bb \<and>
     (\<forall>j < length order. \<forall>u \<in> flow_reachable bb. (u, order ! j) \<in> flow_edges bb \<longrightarrow>
        (if j = 0 then u = BB_ROOT else \<exists>i < j. u = order ! i))"

text \<open>\<open>c\<close> is the immediate dominator of the block at position \<open>j\<close>.\<close>

definition idom_at :: "('x, 'h, 'r) BbGraph \<Rightarrow> BbId list \<Rightarrow> nat \<Rightarrow> BbId \<Rightarrow> bool" where
  "idom_at bb order j c \<longleftrightarrow> (if j = 0 then c = BB_ROOT else \<exists>i < j. c = order ! i) \<and>
     (\<forall>d. flow_dominates bb d (order ! j) \<longleftrightarrow> d = order ! j \<or> flow_dominates bb d c)"

definition tree_ok :: "('x, 'h, 'r) BbGraph \<Rightarrow> BbId list \<Rightarrow> DomNode list \<Rightarrow> nat \<Rightarrow> bool" where
  "tree_ok bb order ns k \<longleftrightarrow> length ns = length bb \<and> dn_n (ns ! BB_ROOT) = 2 \<and> dn_idom (ns ! BB_ROOT) = None \<and>
     (\<forall>j < k. dn_n (ns ! (order ! j)) = 2 + j \<and> (\<exists>c. dn_idom (ns ! (order ! j)) = Some c \<and> idom_at bb order j c)) \<and>
     (\<forall>i < length bb. set (dn_predecessors (ns ! i)) = {u \<in> flow_reachable bb. (u, i) \<in> flow_edges bb})"

lemma tree_okD:
  assumes "tree_ok bb order ns k"
  shows "length ns = length bb" "dn_n (ns ! BB_ROOT) = 2" "dn_idom (ns ! BB_ROOT) = None"
    "\<And>j. j < k \<Longrightarrow> dn_n (ns ! (order ! j)) = 2 + j"
    "\<And>j. j < k \<Longrightarrow> \<exists>c. dn_idom (ns ! (order ! j)) = Some c \<and> idom_at bb order j c"
    "\<And>i. i < length bb \<Longrightarrow> set (dn_predecessors (ns ! i)) = {u \<in> flow_reachable bb. (u, i) \<in> flow_edges bb}"
  using assms unfolding tree_ok_def by blast+

lemma order_less: "flow_ok bb \<Longrightarrow> order_ok bb order \<Longrightarrow> j < length order \<Longrightarrow> order ! j < length bb"
  unfolding order_ok_def by (metis flow_reachable_less insertCI nth_mem)

lemma root_less: "flow_ok bb \<Longrightarrow> BB_ROOT < length bb"
  by (simp add: flow_ok_def BB_ROOT_def)

text \<open>A dominator is the entry or comes no later.\<close>

lemma dominator_earlier:
  assumes "flow_ok bb" "tree_ok bb order ns k" "j < k" "flow_dominates bb d (order ! j)"
  shows "d = BB_ROOT \<or> (\<exists>i \<le> j. d = order ! i)"
  using assms(3,4)
proof (induction j rule: less_induct)
  case (less j)
  from tree_okD(5) [OF assms(2) less.prems(1)] obtain c where c: "idom_at bb order j c" by blast
  show ?case
  proof (cases "d = order ! j")
    case False
    then have d: "flow_dominates bb d c" using c less.prems(2) by (simp add: idom_at_def)
    show ?thesis
    proof (cases "j = 0")
      case True
      then have "c = BB_ROOT" using c by (simp add: idom_at_def)
      then show ?thesis using d flow_dominates_root [OF assms(1)] by blast
    next
      case False
      then obtain i where i: "i < j" "c = order ! i" using c by (auto simp: idom_at_def)
      have "d = BB_ROOT \<or> (\<exists>l \<le> i. d = order ! l)" using less.IH [OF i(1)] i less.prems(1) d by simp
      with i(1) show ?thesis by (metis less_imp_le order_trans)
    qed
  qed auto
qed

lemma self_dominates: "flow_dominates bb v v"
  unfolding flow_dominates_def by (metis flow_path.simps(1) last_in_set)

lemma position_dominates:
  assumes "flow_ok bb" "order_ok bb order" "tree_ok bb order ns k" "i < length order" "j < k" "k \<le> length order" "flow_dominates bb (order ! i) (order ! j)"
  shows "i \<le> j"
proof -
  have "order ! i \<noteq> BB_ROOT" "distinct order" using assms(2,4) unfolding order_ok_def by (auto simp: in_set_conv_nth)
  moreover have "order ! i = BB_ROOT \<or> (\<exists>l \<le> j. order ! i = order ! l)" by (rule dominator_earlier [OF assms(1,3,5,7)])
  ultimately show ?thesis using assms(4-6) by (metis nth_eq_iff_index_eq order_le_less_trans order_less_le_trans)
qed

section \<open>Nearest common dominators\<close>

text \<open>Blocks are compared by their dominators.\<close>

definition common :: "('x, 'h, 'r) BbGraph \<Rightarrow> BbId set \<Rightarrow> BbId \<Rightarrow> bool" where
  "common bb A c \<longleftrightarrow> (\<forall>d. flow_dominates bb d c \<longleftrightarrow> (\<forall>a \<in> A. flow_dominates bb d a))"

lemma lca_at:
  assumes "flow_ok bb" "order_ok bb order" "tree_ok bb order ns k" "k \<le> length order" "i < k" "j < k"
  shows "\<exists>m. m \<le> i \<and> m \<le> j \<and> dt_lca ns (order ! i) (order ! j) = Some (order ! m) \<and> common bb {order ! i, order ! j} (order ! m)"
  using assms(5,6)
proof (induction "i + j" arbitrary: i j rule: less_induct)
  case less
  have less_n: "order ! i < length ns" "order ! j < length ns"
    using order_less [OF assms(1,2)] less.prems assms(4) tree_okD(1) [OF assms(3)] by simp_all
  note n = tree_okD(4) [OF assms(3) less.prems(1)] tree_okD(4) [OF assms(3) less.prems(2)]
  show ?case
  proof (cases i j rule: linorder_cases)
    case l: less
    from tree_okD(5) [OF assms(3) less.prems(2)] obtain c where c: "dn_idom (ns ! (order ! j)) = Some c" "idom_at bb order j c" by blast
    then obtain p where p: "p < j" "c = order ! p" using l by (auto simp: idom_at_def split: if_splits)
    from less.hyps [of i p] less.prems p obtain m where m: "m \<le> i" "m \<le> p" "dt_lca ns (order ! i) (order ! p) = Some (order ! m)"
      "common bb {order ! i, order ! p} (order ! m)" by auto
    have "dt_lca ns (order ! i) (order ! j) = Some (order ! m)"
      unfolding dt_lca.simps [of ns "order ! i" "order ! j"] using less_n n l c p m(3) by simp
    moreover have "\<not> flow_dominates bb (order ! j) (order ! i)"
      using position_dominates [OF assms(1-3) _ less.prems(1) assms(4), of j] less.prems assms(4) l by auto
    then have "common bb {order ! i, order ! j} (order ! m)" using m(4) c(2) p(2) unfolding common_def idom_at_def by auto
    ultimately show ?thesis using m(1,2) p(1) by (intro exI [of _ m]) simp
  next
    case equal
    then have "dt_lca ns (order ! i) (order ! j) = Some (order ! i)"
      unfolding dt_lca.simps [of ns "order ! i" "order ! j"] using less_n by simp
    then show ?thesis using equal by (intro exI [of _ i]) (simp add: common_def)
  next
    case g: greater
    from tree_okD(5) [OF assms(3) less.prems(1)] obtain c where c: "dn_idom (ns ! (order ! i)) = Some c" "idom_at bb order i c" by blast
    then obtain p where p: "p < i" "c = order ! p" using g by (auto simp: idom_at_def split: if_splits)
    from less.hyps [of p j] less.prems p obtain m where m: "m \<le> p" "m \<le> j" "dt_lca ns (order ! p) (order ! j) = Some (order ! m)"
      "common bb {order ! p, order ! j} (order ! m)" by auto
    have "dt_lca ns (order ! i) (order ! j) = Some (order ! m)"
      unfolding dt_lca.simps [of ns "order ! i" "order ! j"] using less_n n g c p m(3) by simp
    moreover have "\<not> flow_dominates bb (order ! i) (order ! j)"
      using position_dominates [OF assms(1-3) _ less.prems(2) assms(4), of i] less.prems assms(4) g by auto
    then have "common bb {order ! i, order ! j} (order ! m)" using m(4) c(2) p(2) unfolding common_def idom_at_def by auto
    ultimately show ?thesis using m(1,2) p(1) by (intro exI [of _ m]) simp
  qed
qed

lemma common_insert: "common bb {a, b} c \<Longrightarrow> common bb (insert c A) m \<Longrightarrow> common bb (insert a (insert b A)) m"
  by (auto simp: common_def)

lemma reduce_lca:
  assumes "flow_ok bb" "order_ok bb order" "tree_ok bb order ns k" "k \<le> length order" "i < k" "\<forall>p \<in> set ps. \<exists>j < k. p = order ! j"
  shows "\<exists>m \<le> i. run (dt_lca ns) (order ! i) ps = Some (order ! m) \<and> common bb (insert (order ! i) (set ps)) (order ! m)"
  using assms(5,6)
proof (induction ps arbitrary: i)
  case Nil
  then show ?case by (intro exI [of _ i]) (simp add: common_def)
next
  case (Cons p ps)
  then obtain j where j: "j < k" "p = order ! j" by auto
  from lca_at [OF assms(1-4) Cons.prems(1) j(1)] obtain m where m: "m \<le> i" "dt_lca ns (order ! i) p = Some (order ! m)"
    "common bb {order ! i, p} (order ! m)" using j(2) by blast
  from Cons.IH [of m] Cons.prems m(1) obtain l where l: "l \<le> m" "run (dt_lca ns) (order ! m) ps = Some (order ! l)"
    "common bb (insert (order ! m) (set ps)) (order ! l)" by auto
  have "common bb (insert (order ! i) (set (p # ps))) (order ! l)" using common_insert [OF m(3) l(3)] by simp
  then show ?case using m(1,2) l by (intro exI [of _ l]) simp
qed

lemma lca_same: "a < length ns \<Longrightarrow> dt_lca ns a a = Some a"
  by (simp add: dt_lca.simps)

lemma run_lca_same: "a < length ns \<Longrightarrow> set ps \<subseteq> {a} \<Longrightarrow> run (dt_lca ns) a ps = Some a"
  by (induction ps) (auto simp: lca_same)

text \<open>Computing the immediate dominator of a block from its predecessors.\<close>

lemma compute_idom_at:
  assumes "flow_ok bb" "order_ok bb order" "tree_ok bb order ns k" "k \<le> length order" "j \<le> k" "j < length order"
  shows "\<exists>c. compute_idom ns (order ! j) = Some c \<and> idom_at bb order j c"
proof -
  let ?v = "order ! j" and ?ps = "dn_predecessors (ns ! (order ! j))"
  have "?v \<in> set order" using assms(6) by simp
  then have v: "?v < length bb" "?v \<noteq> BB_ROOT" "?v \<in> flow_reachable bb"
    using order_less [OF assms(1,2,6)] assms(2) unfolding order_ok_def by (blast, metis, blast)
  have preds: "set ?ps = {u \<in> flow_reachable bb. (u, ?v) \<in> flow_edges bb}" by (rule tree_okD(6) [OF assms(3) v(1)])
  have "(BB_ROOT, ?v) \<in> (flow_edges bb)\<^sup>*" using v(3) by (simp add: flow_reachable_def)
  then obtain u where "(BB_ROOT, u) \<in> (flow_edges bb)\<^sup>*" "(u, ?v) \<in> flow_edges bb" using v(2) by (metis rtranclE)
  then have "set ?ps \<noteq> {}" using preds by (auto simp: flow_reachable_def)
  then obtain p ps where p: "?ps = p # ps" by (cases ?ps) auto
  have compute: "compute_idom ns ?v = run (dt_lca ns) p ps"
    using v(1) tree_okD(1) [OF assms(3)] p by (simp add: compute_idom_def)
  have pos: "\<forall>u \<in> set ?ps. if j = 0 then u = BB_ROOT else \<exists>i < j. u = order ! i"
    using assms(2,6) preds unfolding order_ok_def by blast
  have step: "flow_dominates bb d ?v \<longleftrightarrow> d = ?v \<or> (\<forall>u \<in> set ?ps. flow_dominates bb d u)" for d
    using flow_dominates_step [OF assms(1) v(2,1), of d] unfolding preds by blast
  show ?thesis
  proof (cases "j = 0")
    case True
    then have all: "set (p # ps) \<subseteq> {BB_ROOT}" using pos p by auto
    then have "compute_idom ns ?v = Some BB_ROOT"
      unfolding compute using run_lca_same [of BB_ROOT ns ps] root_less [OF assms(1)] tree_okD(1) [OF assms(3)] by auto
    moreover have "set ?ps = {BB_ROOT}" using all p by auto
    then have "idom_at bb order j BB_ROOT" unfolding idom_at_def using True step by simp
    ultimately show ?thesis by blast
  next
    case False
    then obtain i where i: "i < j" "p = order ! i" using pos p by auto
    have "\<forall>q \<in> set ps. \<exists>l < k. q = order ! l"
    proof
      fix q assume "q \<in> set ps"
      then have "\<exists>i < j. q = order ! i" using pos p False by simp
      then obtain i where "i < j" "q = order ! i" by blast
      then show "\<exists>l < k. q = order ! l" using assms(5) by (intro exI [of _ i]) simp
    qed
    moreover have "i < k" using i(1) assms(5) by simp
    ultimately obtain m where m: "m \<le> i" "run (dt_lca ns) (order ! i) ps = Some (order ! m)"
      "common bb (insert (order ! i) (set ps)) (order ! m)" using reduce_lca [OF assms(1-4)] by blast
    then have "idom_at bb order j (order ! m)"
      unfolding idom_at_def using False i step p by (auto simp: common_def intro: exI [of _ m])
    with m(2) i(2) compute show ?thesis by auto
  qed
qed

lemma idom_at_unique:
  assumes "flow_ok bb" "order_ok bb order" "tree_ok bb order ns k" "k \<le> length order" "j < k" "idom_at bb order j c" "idom_at bb order j c'"
  shows "c = c'"
proof (cases "j = 0")
  case False
  then obtain a b where ab: "a < j" "c = order ! a" "b < j" "c' = order ! b" using assms(6,7) by (auto simp: idom_at_def)
  have "order ! a \<noteq> order ! j" "order ! b \<noteq> order ! j"
    using assms(2,4,5) ab nth_eq_iff_index_eq [of order] by (auto simp: order_ok_def)
  then have "flow_dominates bb c c'" "flow_dominates bb c' c"
    using assms(6,7) ab self_dominates unfolding idom_at_def by blast+
  then have "a \<le> b" "b \<le> a" using position_dominates [OF assms(1-3)] assms(4,5) ab by auto
  with ab show ?thesis by simp
qed (use assms in \<open>simp add: idom_at_def\<close>)

section \<open>Initialisation and iteration\<close>

lemma number_step:
  assumes "flow_ok bb" "order_ok bb order" "tree_ok bb order ns k" "k < length order"
  shows "\<exists>ns'. number_block ns (k, order ! k) = Some ns' \<and> tree_ok bb order ns' (Suc k)"
proof -
  obtain c where c: "compute_idom ns (order ! k) = Some c" "idom_at bb order k c"
    using compute_idom_at [OF assms(1-3) _ order_refl assms(4)] assms(4) by auto
  let ?ns = "ns[order ! k := (ns ! (order ! k))\<lparr>dn_idom := Some c, dn_n := 2 + k\<rparr>]"
  have len: "order ! k < length ns" using order_less [OF assms(1,2,4)] tree_okD(1) [OF assms(3)] by simp
  have "order ! k \<in> set order" using assms(4) by simp
  then have root: "order ! k \<noteq> BB_ROOT" using assms(2) unfolding order_ok_def by metis
  have other: "order ! j \<noteq> order ! k" if "j < k" for j
    using that assms(2,4) nth_eq_iff_index_eq [of order j k] by (auto simp: order_ok_def)
  have "tree_ok bb order ?ns (Suc k)" unfolding tree_ok_def
  proof (intro conjI allI impI)
    show "length ?ns = length bb" using tree_okD(1) [OF assms(3)] by simp
    show "dn_n (?ns ! BB_ROOT) = 2" "dn_idom (?ns ! BB_ROOT) = None"
      using tree_okD(2,3) [OF assms(3)] root by (simp_all add: nth_update_eq)
  next
    fix j assume "j < Suc k"
    then consider "j = k" | "j < k" by linarith
    then show "dn_n (?ns ! (order ! j)) = 2 + j" "\<exists>c. dn_idom (?ns ! (order ! j)) = Some c \<and> idom_at bb order j c"
      using c(2) len other [of j] tree_okD(4,5) [OF assms(3), of j] by (cases; simp add: nth_update_eq)+
  next
    fix i assume "i < length bb"
    from tree_okD(6) [OF assms(3) this]
    show "set (dn_predecessors (?ns ! i)) = {u \<in> flow_reachable bb. (u, i) \<in> flow_edges bb}" by (simp add: nth_update_eq)
  qed
  with c(1) show ?thesis by (simp add: number_block_def)
qed

lemma number_run:
  assumes "flow_ok bb" "order_ok bb order" "tree_ok bb order ns k" "k \<le> length order"
  shows "\<exists>ns'. run number_block ns (enumerate k (drop k order)) = Some ns' \<and> tree_ok bb order ns' (length order)"
  using assms(3,4)
proof (induction "length order - k" arbitrary: ns k)
  case (Suc n)
  then have k: "k < length order" by simp
  then have d: "enumerate k (drop k order) = (k, order ! k) # enumerate (Suc k) (drop (Suc k) order)"
    by (simp add: Cons_nth_drop_Suc [symmetric])
  from number_step [OF assms(1,2) Suc.prems(1) k] obtain ns1 where ns1: "number_block ns (k, order ! k) = Some ns1" "tree_ok bb order ns1 (Suc k)" by blast
  have "n = length order - Suc k" using Suc.hyps(2) by simp
  from Suc.hyps(1) [OF this ns1(2)] k have "\<exists>ns'. run number_block ns1 (enumerate (Suc k) (drop (Suc k) order)) = Some ns' \<and> tree_ok bb order ns' (length order)" by simp
  then show ?case unfolding d using ns1(1) by simp
qed simp

text \<open>The iteration finds nothing to change.\<close>

lemma update_none:
  assumes "flow_ok bb" "order_ok bb order" "tree_ok bb order ns (length order)" "j < length order"
  shows "update_idom (ns, b) (order ! j) = Some (ns, b)"
proof -
  obtain c where c: "compute_idom ns (order ! j) = Some c" "idom_at bb order j c"
    using compute_idom_at [OF assms(1-3) order_refl _ assms(4)] assms(4) by auto
  obtain c' where c': "dn_idom (ns ! (order ! j)) = Some c'" "idom_at bb order j c'" using tree_okD(5) [OF assms(3,4)] by blast
  have "c = c'" by (rule idom_at_unique [OF assms(1-3) order_refl assms(4) c(2) c'(2)])
  with c(1) c'(1) show ?thesis by (simp add: update_idom_def)
qed

lemma iterate_once:
  assumes "flow_ok bb" "order_ok bb order" "tree_ok bb order ns (length order)"
  shows "dt_iterate ns order = Some ns"
proof -
  have step: "update_idom (ns, b) v = Some (ns, b)" if "v \<in> set order" for v b
    using that update_none [OF assms] by (auto simp: in_set_conv_nth)
  have "run update_idom (ns, True) vs = Some (ns, True)" if "set vs \<subseteq> set order" for vs
    using that by (induction vs) (simp_all add: step)
  then show ?thesis by (simp add: dt_iterate.simps)
qed

text \<open>An edge leads to an earlier place of the postorder.\<close>

lemma topological_edge:
  assumes "topological bb post" "u \<in> set post" "(u, v) \<in> flow_edges bb"
  obtains p1 p2 where "post = p1 @ u # p2" "v \<in> set p1"
proof -
  obtain p1 p2 where p: "post = p1 @ u # p2" using assms(2) by (auto dest: split_list)
  then have "set (succs bb u) \<subseteq> set p1" using assms(1) unfolding topological_def by blast
  with p assms(3) that show ?thesis by (auto simp: flow_edges_def)
qed

text \<open>The last block of the postorder before the entry is the one the entry leads to.\<close>

lemma root_target_last:
  assumes "distinct (ps @ [BB_ROOT])" "set (ps @ [BB_ROOT]) = flow_reachable bb" "topological bb (ps @ [BB_ROOT])" "succs bb BB_ROOT = [v]" "ps \<noteq> []"
  shows "last ps = v"
proof -
  have "last ps \<in> set ps" using assms(5) by simp
  then have l: "(BB_ROOT, last ps) \<in> (flow_edges bb)\<^sup>*" "last ps \<noteq> BB_ROOT" using assms(1,2) by (auto simp: flow_reachable_def)
  then obtain w where w: "(BB_ROOT, w) \<in> (flow_edges bb)\<^sup>*" "(w, last ps) \<in> flow_edges bb" by (metis rtranclE)
  then have "w \<in> set (ps @ [BB_ROOT])" using assms(2) by (simp add: flow_reachable_def)
  from topological_edge [OF assms(3) this w(2)] obtain q1 q2 where q: "ps @ [BB_ROOT] = q1 @ w # q2" "last ps \<in> set q1" .
  show ?thesis
  proof (cases q2 rule: rev_cases)
    case Nil
    with q w(2) assms(4) show ?thesis by (simp add: flow_edges_def)
  next
    case (snoc q3 z)
    then have "ps = q1 @ w # q3" using q(1) by simp
    then have "last ps \<in> insert w (set q3)" "distinct (q1 @ w # q3)" using assms(1) by auto
    with q(2) show ?thesis by auto
  qed
qed

lemma order_of_search:
  assumes "flow_ok bb" "distinct post" "set post = flow_reachable bb" "topological bb post" "post \<noteq> []" "last post = BB_ROOT"
  shows "order_ok bb (drop 1 (rev post))"
proof -
  obtain ps where ps: "post = ps @ [BB_ROOT]" using assms(5,6) by (metis append_butlast_last_id)
  have before: "(if j = 0 then u = BB_ROOT else \<exists>i < j. u = rev ps ! i)"
    if j: "j < length ps" and u: "u \<in> flow_reachable bb" and e: "(u, rev ps ! j) \<in> flow_edges bb" for j u
  proof -
    let ?v = "rev ps ! j"
    from topological_edge [OF assms(4) _ e] u assms(3) obtain p1 p2 where p: "post = p1 @ u # p2" "?v \<in> set p1" by blast
    show ?thesis
    proof (cases p2 rule: rev_cases)
      case Nil
      then have root: "u = BB_ROOT" using p(1) ps by simp
      have "?v \<in> set (succs bb BB_ROOT)" using e root by (simp add: flow_edges_def)
      moreover have "length (succs bb BB_ROOT) \<le> 1" using assms(1) unfolding flow_ok_def by blast
      ultimately have "succs bb BB_ROOT = [?v]" by (cases "succs bb BB_ROOT") auto
      moreover have "ps \<noteq> []" using j by auto
      ultimately have "last ps = ?v" using root_target_last [of ps bb ?v] assms(2-4) ps by simp
      moreover have "last ps = rev ps ! 0" using j by (cases ps rule: rev_cases) auto
      moreover have "rev ps ! 0 = ?v \<longleftrightarrow> 0 = j" using assms(2) ps j by (intro nth_eq_iff_index_eq) auto
      ultimately show ?thesis using root by simp
    next
      case (snoc p3 z)
      then have rp: "rev ps = rev p3 @ u # rev p1" using p(1) ps by simp
      have "\<not> j \<le> length p3"
      proof
        assume "j \<le> length p3"
        then have "?v = (rev p3 @ [u]) ! j" "j < length (rev p3 @ [u])" unfolding rp by (simp_all add: nth_append)
        then have "?v \<in> set (u # p3)" using nth_mem [of j "rev p3 @ [u]"] by auto
        with p(2) show False using assms(2) p(1) snoc by auto
      qed
      then show ?thesis using rp by (auto intro!: exI [of _ "length p3"] simp: nth_append)
    qed
  qed
  have "order_ok bb (rev ps)" unfolding order_ok_def using assms(2,3) ps before by auto
  then show ?thesis using ps by simp
qed

lemma dominator_tree_ok:
  assumes "flow_ok bb"
  shows "\<exists>t order. dominator_tree bb = Some t \<and> order_ok bb order \<and> tree_ok bb order (dt_nodes t) (length order)"
proof -
  let ?z = "\<lparr>dn_n = 0, dn_idom = None, dn_predecessors = []\<rparr>"
  obtain ns post where s: "dt_search bb (replicate (length bb) ?z) [] [(True, BB_ROOT)] = Some (ns, post)"
    "length ns = length bb" "distinct post" "set post = flow_reachable bb" "topological bb post" "post \<noteq> []" "last post = BB_ROOT"
    "\<forall>i < length bb. dn_idom (ns ! i) = None \<and> dn_n (ns ! i) = (if i \<in> flow_reachable bb then 1 else 0) \<and>
      set (dn_predecessors (ns ! i)) = {u \<in> flow_reachable bb. (u, i) \<in> flow_edges bb}"
    using search_result [OF assms] by blast
  let ?order = "drop 1 (rev post)" and ?ns = "ns[BB_ROOT := (ns ! BB_ROOT)\<lparr>dn_n := 2\<rparr>]"
  have order: "order_ok bb ?order" by (rule order_of_search [OF assms s(3-7)])
  have "tree_ok bb ?order ?ns 0" using s(2,8) root_less [OF assms] by (simp add: tree_ok_def nth_update_eq)
  from number_run [OF assms order this] obtain ns' where ns': "run number_block ?ns (enumerate 0 ?order) = Some ns'"
    "tree_ok bb ?order ns' (length ?order)" by auto
  have it: "dt_iterate ns' ?order = Some ns'" by (rule iterate_once [OF assms order ns'(2)])
  have "dominator_tree bb = Some \<lparr>dt_nodes = ns', dt_postorder = post\<rparr>"
    unfolding dominator_tree_def s(1) dt_initialize_def Let_def using ns'(1) it root_less [OF assms] s(2) by simp
  then show ?thesis using order ns'(2) by (intro exI [of _ "\<lparr>dt_nodes = ns', dt_postorder = post\<rparr>"] exI [of _ ?order]) simp
qed

section \<open>Queries\<close>

lemma climb_at:
  assumes "flow_ok bb" "order_ok bb order" "tree_ok bb order ns (length order)" "i < length order" "j < length order"
  shows "dt_climb ns (order ! i) (2 + i) (order ! j) = Some (flow_dominates bb (order ! i) (order ! j))"
  using assms(5)
proof (induction j rule: less_induct)
  case (less j)
  have len: "order ! j < length ns" using order_less [OF assms(1,2) less.prems] tree_okD(1) [OF assms(3)] by simp
  have n: "dn_n (ns ! (order ! j)) = 2 + j" by (rule tree_okD(4) [OF assms(3) less.prems])
  have eq: "order ! i = order ! j \<longleftrightarrow> i = j" using assms(2,4) less.prems nth_eq_iff_index_eq [of order i j] by (auto simp: order_ok_def)
  show ?case
  proof (cases "i < j")
    case True
    obtain c where c: "dn_idom (ns ! (order ! j)) = Some c" "idom_at bb order j c" using tree_okD(5) [OF assms(3) less.prems] by blast
    then obtain l where l: "l < j" "c = order ! l" using True by (auto simp: idom_at_def split: if_splits)
    have "flow_dominates bb (order ! i) (order ! j) \<longleftrightarrow> flow_dominates bb (order ! i) (order ! l)"
      using c(2) l(2) eq True by (auto simp: idom_at_def)
    then show ?thesis unfolding dt_climb.simps [of ns "order ! i" "2 + i" "order ! j"]
      using less.IH [OF l(1)] less.prems l len n True c(1) by simp
  next
    case False
    then have "flow_dominates bb (order ! i) (order ! j) \<longleftrightarrow> i = j"
      using position_dominates [OF assms(1-4) less.prems order_refl] self_dominates by auto
    then show ?thesis unfolding dt_climb.simps [of ns "order ! i" "2 + i" "order ! j"] using False len n eq by auto
  qed
qed

lemma climb_root:
  assumes "flow_ok bb" "order_ok bb order" "tree_ok bb order ns (length order)" "j < length order"
  shows "dt_climb ns BB_ROOT 2 (order ! j) = Some False"
  using assms(4)
proof (induction j rule: less_induct)
  case (less j)
  have len: "order ! j < length ns" using order_less [OF assms(1,2) less.prems] tree_okD(1) [OF assms(3)] by simp
  have n: "dn_n (ns ! (order ! j)) = 2 + j" by (rule tree_okD(4) [OF assms(3) less.prems])
  have "order ! j \<noteq> BB_ROOT" using assms(2) less.prems unfolding order_ok_def by (metis nth_mem)
  moreover obtain c where c: "dn_idom (ns ! (order ! j)) = Some c" "idom_at bb order j c" using tree_okD(5) [OF assms(3) less.prems] by blast
  moreover have "dt_climb ns BB_ROOT 2 c = Some False" if nz: "j \<noteq> 0"
  proof -
    obtain l where l: "l < j" "c = order ! l" using c(2) nz by (auto simp: idom_at_def split: if_splits)
    then show ?thesis using less.IH [OF l(1)] less.prems by simp
  qed
  ultimately show ?case unfolding dt_climb.simps [of ns BB_ROOT 2 "order ! j"] using len n by auto
qed

lemma reachable_cases:
  assumes "order_ok bb order" "v \<in> flow_reachable bb"
  obtains "v = BB_ROOT" | j where "j < length order" "v = order ! j"
  using assms by (metis in_set_conv_nth insertE order_ok_def)

lemma climb_from_root:
  assumes "flow_ok bb" "tree_ok bb order ns k" "2 \<le> n"
  shows "dt_climb ns d n BB_ROOT = Some (n = 2 \<and> d = BB_ROOT)"
  using root_less [OF assms(1)] tree_okD(1,2) [OF assms(2)] assms(3) by (simp add: dt_climb.simps)

text \<open>C38: in a control-flow graph without loops, whose entry has at most one successor and in which the first
  of two targets of a branch has no other predecessor (\<open>flow_ok\<close>), the computation of the dominator
  tree ends without a panic, and \<open>dominates\<close> tells whether the first block is on every path from the entry to the
  second; only of the entry itself, which shares its number with the next block, it is never said that
  it dominates another block.\<close>

theorem dominator_tree_dominates:
  assumes "flow_ok bb"
  shows "\<exists>t. dominator_tree bb = Some t \<and> (\<forall>d \<in> flow_reachable bb. \<forall>v \<in> flow_reachable bb.
    dt_dominates t d v = Some (if d = BB_ROOT then v = BB_ROOT else flow_dominates bb d v))"
proof -
  obtain t order where t: "dominator_tree bb = Some t" "order_ok bb order" "tree_ok bb order (dt_nodes t) (length order)"
    using dominator_tree_ok [OF assms] by blast
  have "dt_dominates t d v = Some (if d = BB_ROOT then v = BB_ROOT else flow_dominates bb d v)"
    if d: "d \<in> flow_reachable bb" and v: "v \<in> flow_reachable bb" for d v
  proof -
    have pos: "order ! j \<noteq> BB_ROOT" if "j < length order" for j using t(2) that unfolding order_ok_def by (metis nth_mem)
    have "d < length (dt_nodes t)" using flow_reachable_less [OF assms d] tree_okD(1) [OF t(3)] by simp
    then have dom: "dt_dominates t d v = dt_climb (dt_nodes t) d (dn_n (dt_nodes t ! d)) v" by (simp add: dt_dominates_def)
    show ?thesis
    proof (cases rule: reachable_cases [OF t(2) d])
      case 1
      then show ?thesis unfolding dom using tree_okD(2) [OF t(3)] climb_from_root [OF assms t(3)] climb_root [OF assms t(2,3)] pos
        by (cases rule: reachable_cases [OF t(2) v]) auto
    next
      case (2 i)
      then have n: "dn_n (dt_nodes t ! d) = 2 + i" using tree_okD(4) [OF t(3)] by simp
      show ?thesis
      proof (cases rule: reachable_cases [OF t(2) v])
        case 1
        then have "\<not> flow_dominates bb d v" using flow_dominates_root [OF assms] 2 pos by auto
        then show ?thesis unfolding dom n using climb_from_root [OF assms t(3), of "2 + i" d] 1 2 pos by auto
      next
        case v: (2 j)
        then show ?thesis unfolding dom n using climb_at [OF assms t(2,3) \<open>i < length order\<close> v(1)] 2 pos by simp
      qed
    qed
  qed
  with t(1) show ?thesis by blast
qed

lemma lca_root:
  assumes "flow_ok bb" "order_ok bb order" "tree_ok bb order ns (length order)" "j < length order"
  shows "dt_lca ns BB_ROOT (order ! j) = Some BB_ROOT"
  using assms(4)
proof (induction j rule: less_induct)
  case (less j)
  have len: "order ! j < length ns" "BB_ROOT < length ns"
    using order_less [OF assms(1,2) less.prems] tree_okD(1) [OF assms(3)] root_less [OF assms(1)] by simp_all
  note n = tree_okD(2) [OF assms(3)] tree_okD(4) [OF assms(3) less.prems]
  obtain c where c: "dn_idom (ns ! (order ! j)) = Some c" "idom_at bb order j c" using tree_okD(5) [OF assms(3) less.prems] by blast
  have "dt_lca ns BB_ROOT c = Some BB_ROOT" if nz: "j \<noteq> 0"
  proof -
    obtain l where l: "l < j" "c = order ! l" using c(2) nz by (auto simp: idom_at_def split: if_splits)
    then show ?thesis using less.IH [OF l(1)] less.prems by simp
  qed
  then show ?case unfolding dt_lca.simps [of ns BB_ROOT "order ! j"] using len n c(1) by (cases "j = 0") auto
qed

lemma run_lca_root:
  assumes "flow_ok bb" "order_ok bb order" "tree_ok bb order ns (length order)" "\<forall>p \<in> set ps. \<exists>j < length order. p = order ! j"
  shows "run (dt_lca ns) BB_ROOT ps = Some BB_ROOT"
  using assms(4) by (induction ps) (auto simp: lca_root [OF assms(1-3)])

text \<open>C39: in a control-flow graph without loops, whose entry has at most one successor and in which the first
  of two targets of a branch has no other predecessor (\<open>flow_ok\<close>), the nearest common ancestor of
  reachable blocks, of which at most the first is the entry, is a block whose dominators are exactly the
  blocks that dominate them all: it is the last place that every path to any of them passes. Outside
  these graphs it can be wrong: for an entry with two successors, see \<open>entry_branch_lca\<close> and
  \<open>entry_branch_not_dominated\<close>, for shared targets \<open>shared_target_panics\<close>.\<close>

theorem lca_many_nearest:
  assumes "flow_ok bb" "dominator_tree bb = Some t" "ids \<noteq> []" "set ids \<subseteq> flow_reachable bb" "BB_ROOT \<notin> set (tl ids)"
  shows "\<exists>c \<in> flow_reachable bb. dt_lca_many t ids = Some c \<and>
    (\<forall>d. flow_dominates bb d c \<longleftrightarrow> (\<forall>v \<in> set ids. flow_dominates bb d v))"
proof -
  obtain order where t: "order_ok bb order" "tree_ok bb order (dt_nodes t) (length order)"
    using dominator_tree_ok [OF assms(1)] assms(2) by auto
  obtain v vs where ids: "ids = v # vs" using assms(3) by (cases ids) auto
  have vs: "\<forall>p \<in> set vs. \<exists>j < length order. p = order ! j"
    using assms(4,5) t(1) ids by (auto simp: in_set_conv_nth order_ok_def) (metis in_set_conv_nth insertE subset_iff)
  have v: "v \<in> flow_reachable bb" using assms(4) ids by simp
  show ?thesis
  proof (cases rule: reachable_cases [OF t(1) v])
    case 1
    have "dt_lca_many t ids = Some BB_ROOT" using run_lca_root [OF assms(1) t vs] ids 1 by (simp add: dt_lca_many_def)
    moreover have "flow_dominates bb d BB_ROOT \<longleftrightarrow> (\<forall>w \<in> set ids. flow_dominates bb d w)" for d
      using flow_dominates_root [OF assms(1), of d] root_dominates ids 1 by auto
    ultimately show ?thesis using v 1 by blast
  next
    case (2 i)
    from reduce_lca [OF assms(1) t order_refl 2(1) vs] obtain m where m: "m \<le> i"
      "run (dt_lca (dt_nodes t)) v vs = Some (order ! m)" "common bb (insert v (set vs)) (order ! m)" using 2(2) by blast
    have "order ! m \<in> flow_reachable bb" using m(1) 2(1) t(1) unfolding order_ok_def by (metis insertCI nth_mem order_le_less_trans)
    then show ?thesis using m ids by (auto simp: dt_lca_many_def common_def)
  qed
qed

section \<open>Examples\<close>

lemma flow_acyclicI: "\<forall>u < length bb. \<forall>v \<in> set (succs bb u). u < v \<Longrightarrow> acyclic (flow_edges bb)"
  by (rule wf_acyclic, rule wf_subset [OF wf_less_than]) (auto simp: flow_edges_def)

definition exit_block :: "(unit, unit, unit) Bb" where
  "exit_block = CommitAndExit None [] None None True"

definition diamond :: "(unit, unit, unit) BbGraph" where
  "diamond = [Jump 1, Br 0 2 3, Jump 4, Jump 4, exit_block]"

lemma diamond_ok: "flow_ok diamond"
  unfolding flow_ok_def
proof (intro conjI)
  show "acyclic (flow_edges diamond)"
    by (rule flow_acyclicI) (simp add: diamond_def exit_block_def less_Suc_eq numeral_eq_Suc All_less_Suc)
qed (simp_all add: diamond_def exit_block_def BB_ROOT_def numeral_eq_Suc All_less_Suc)

lemma diamond_reachable: "{0, 1, 2, 3, 4} \<subseteq> flow_reachable diamond"
proof -
  have e: "(0, 1) \<in> flow_edges diamond" "(1, 2) \<in> flow_edges diamond" "(1, 3) \<in> flow_edges diamond" "(2, 4) \<in> flow_edges diamond"
    by (simp_all add: flow_edges_def diamond_def)
  then have "(0, 1) \<in> (flow_edges diamond)\<^sup>*" by blast
  moreover from this have "(0, 2) \<in> (flow_edges diamond)\<^sup>*" "(0, 3) \<in> (flow_edges diamond)\<^sup>*" using e by (meson rtrancl_into_rtrancl)+
  moreover from this have "(0, 4) \<in> (flow_edges diamond)\<^sup>*" using e by (meson rtrancl_into_rtrancl)
  ultimately show ?thesis by (auto simp: flow_reachable_def BB_ROOT_def)
qed

theorem dominator_tree_dominates_witness:
  "\<exists>t. dominator_tree diamond = Some t \<and> dt_dominates t 1 4 = Some (flow_dominates diamond 1 4) \<and> dt_dominates t 0 4 = Some False"
  using dominator_tree_dominates [OF diamond_ok] diamond_reachable by (fastforce simp: BB_ROOT_def)

theorem lca_many_nearest_witness:
  "\<exists>t c. dominator_tree diamond = Some t \<and> dt_lca_many t [2, 3] = Some c \<and> (\<forall>d. flow_dominates diamond d c \<longleftrightarrow> flow_dominates diamond d 2 \<and> flow_dominates diamond d 3)"
proof -
  obtain t where t: "dominator_tree diamond = Some t" using dominator_tree_ok [OF diamond_ok] by blast
  from lca_many_nearest [OF diamond_ok this, of "[2, 3]"] diamond_reachable show ?thesis using t by (auto simp: BB_ROOT_def)
qed

text \<open>Rules to evaluate the loops on concrete graphs.\<close>

lemma eval_search:
  "dt_search bb ns post [] = Some (ns, post)"
  "u < length ns \<Longrightarrow> dt_search bb ns post ((False, u) # st) = dt_search bb (ns[u := (ns ! u)\<lparr>dn_n := 1\<rparr>]) (post @ [u]) st"
  "u < length ns \<Longrightarrow> run (visit_next u) (ns[u := (ns ! u)\<lparr>dn_n := 1\<rparr>], (False, u) # st) (succs bb u) = Some (ns', st') \<Longrightarrow>
     dt_search bb ns post ((True, u) # st) = dt_search bb ns' post st'"
  by (simp_all add: dt_search.simps [where stack = "[]"] dt_search.simps [where stack = "(b, v) # s" for b v s])

lemma eval_lca:
  "a < length ns \<Longrightarrow> b < length ns \<Longrightarrow> dn_n (ns ! a) = dn_n (ns ! b) \<Longrightarrow> dt_lca ns a b = Some a"
  "a < length ns \<Longrightarrow> b < length ns \<Longrightarrow> dn_n (ns ! a) < dn_n (ns ! b) \<Longrightarrow> dn_idom (ns ! b) = Some c \<Longrightarrow> dt_lca ns a b = dt_lca ns a c"
  "a < length ns \<Longrightarrow> b < length ns \<Longrightarrow> dn_n (ns ! b) < dn_n (ns ! a) \<Longrightarrow> dn_idom (ns ! a) = Some c \<Longrightarrow> dt_lca ns a b = dt_lca ns c b"
  "a < length ns \<Longrightarrow> b < length ns \<Longrightarrow> dn_n (ns ! b) < dn_n (ns ! a) \<Longrightarrow> dn_idom (ns ! a) = None \<Longrightarrow> dt_lca ns a b = None"
  by (simp_all add: dt_lca.simps [of ns a b])

lemma eval_iterate: "run update_idom (ns, True) order = Some (ns', True) \<Longrightarrow> dt_iterate ns order = Some ns'"
  by (simp add: dt_iterate.simps)

lemma eval_climb:
  "v < length ns \<Longrightarrow> \<not> n < dn_n (ns ! v) \<Longrightarrow> dt_climb ns d n v = Some (n = dn_n (ns ! v) \<and> d = v)"
  by (simp add: dt_climb.simps)

lemmas dominator_eval = eval_search eval_lca eval_iterate eval_climb visit_next_def dominator_tree_def dt_initialize_def
  number_block_def update_idom_def compute_idom_def dt_lca_many_def dt_dominates_def Let_def

text \<open>The hypotheses are needed. When the entry branches, the entry and its first target have the same
  number, and a value used in both targets is placed in the first one, which does not dominate the other.\<close>

lemma entry_branch_lca:
  "map_option (\<lambda>t. (dt_lca_many t [1, 2], dt_dominates t 0 1)) (dominator_tree [Br 0 1 2, exit_block, exit_block]) = Some (Some 1, Some False)"
  by (simp add: dominator_eval exit_block_def BB_ROOT_def)

lemma entry_branch_not_dominated: "\<not> flow_dominates [Br 0 1 2, exit_block, exit_block] 1 2"
proof
  assume "flow_dominates [Br 0 1 2, exit_block, exit_block] 1 2"
  then have "1 \<in> set [0, 2 :: nat]" unfolding flow_dominates_def by (drule_tac spec [of _ "[0, 2]"]) (simp add: flow_edges_def BB_ROOT_def)
  then show False by simp
qed

text \<open>When the block behind the first target of a branch is also reached through the second one, it is entered twice,
  and the numbering starts with a block whose predecessor has no number yet: a panic.\<close>

lemma shared_target_panics: "dominator_tree [Jump 1, Br 0 3 2, Jump 3, exit_block] = None"
  by (simp add: dominator_eval exit_block_def BB_ROOT_def)

end
