(* ===== verification/Cg_UnionFind.thy ===== *)
theory Cg_UnionFind
  imports Prelude
begin

text \<open>
  The disjoint sets of the equality graph (\<open>sem86-core/src/codegen/mir/union_find.rs\<close>): union by rank
  with path compression. Ranks grow strictly towards the root, so the loops end; a root of rank \<open>k\<close> has
  at least \<open>2 ^ k\<close> elements below it, so they are short; and the groups are the equivalence classes of
  the pairs that were joined. An index out of range is \<open>None\<close>.
\<close>

section \<open>The structure\<close>

record UnionFind =
  uf_parent :: "nat list"
  uf_rank :: "nat list"

definition uf_new :: "nat \<Rightarrow> UnionFind" where
  "uf_new n = \<lparr>uf_parent = [0..<n], uf_rank = replicate n 0\<rparr>"

definition uf_resize :: "UnionFind \<Rightarrow> nat \<Rightarrow> UnionFind" where
  "uf_resize u new_len =
     (if length (uf_parent u) < new_len
      then \<lparr>uf_parent = uf_parent u @ [length (uf_parent u)..<new_len],
            uf_rank = take new_len (uf_rank u) @ replicate (new_len - length (uf_rank u)) 0\<rparr>
      else u)"

text \<open>The two loops of \<open>find\<close>.\<close>

partial_function (option) uf_root :: "nat list \<Rightarrow> nat \<Rightarrow> nat option" where
  "uf_root p x = (if x < length p then if p ! x \<noteq> x then uf_root p (p ! x) else Some x else None)"

partial_function (option) uf_compress :: "nat list \<Rightarrow> nat \<Rightarrow> nat \<Rightarrow> nat list option" where
  "uf_compress p root x =
     (if x < length p then if p ! x \<noteq> root then uf_compress (p[x := root]) root (p ! x) else Some p else None)"

definition uf_find :: "UnionFind \<Rightarrow> nat \<Rightarrow> (UnionFind \<times> nat) option" where
  "uf_find u x =
     (case uf_root (uf_parent u) x of
        None \<Rightarrow> None
      | Some root \<Rightarrow> map_option (\<lambda>p. (u\<lparr>uf_parent := p\<rparr>, root)) (uf_compress (uf_parent u) root x))"

definition uf_link :: "UnionFind \<Rightarrow> nat \<Rightarrow> nat \<Rightarrow> (UnionFind \<times> nat) option" where
  "uf_link u root_x root_y =
     (if root_x < length (uf_rank u) \<and> root_y < length (uf_rank u) \<and> root_x < length (uf_parent u) \<and> root_y < length (uf_parent u) then
        (let (root_x, root_y) = (if uf_rank u ! root_x < uf_rank u ! root_y then (root_y, root_x) else (root_x, root_y));
             u = u\<lparr>uf_parent := (uf_parent u)[root_y := root_x]\<rparr>;
             u = (if uf_rank u ! root_x = uf_rank u ! root_y then u\<lparr>uf_rank := (uf_rank u)[root_x := uf_rank u ! root_x + 1]\<rparr> else u) in
         Some (u, root_x))
      else None)"

definition uf_union :: "UnionFind \<Rightarrow> nat \<Rightarrow> nat \<Rightarrow> (UnionFind \<times> nat option) option" where
  "uf_union u x y =
     (case uf_find u x of
        None \<Rightarrow> None
      | Some (u, root_x) \<Rightarrow>
          (case uf_find u y of
             None \<Rightarrow> None
           | Some (u, root_y) \<Rightarrow>
               if root_x \<noteq> root_y then map_option (\<lambda>(u, r). (u, Some r)) (uf_link u root_x root_y)
               else Some (u, None)))"

definition uf_in_same_group :: "UnionFind \<Rightarrow> nat \<Rightarrow> nat \<Rightarrow> (UnionFind \<times> bool) option" where
  "uf_in_same_group u x y =
     (case uf_find u x of
        None \<Rightarrow> None
      | Some (u, root_x) \<Rightarrow> map_option (\<lambda>(u, root_y). (u, root_x = root_y)) (uf_find u y))"

section \<open>Roots\<close>

text \<open>Ranks grow towards the root.\<close>

definition forest :: "nat list \<Rightarrow> nat list \<Rightarrow> bool" where
  "forest p rk \<longleftrightarrow> length rk = length p \<and> (\<forall>x < length p. p ! x < length p \<and> (p ! x \<noteq> x \<longrightarrow> rk ! x < rk ! (p ! x)))"

lemma forestD:
  assumes "forest p rk" "x < length p"
  shows "p ! x < length p" "p ! x \<noteq> x \<Longrightarrow> rk ! x < rk ! (p ! x)"
  using assms by (simp_all add: forest_def)

definition top_rank :: "nat list \<Rightarrow> nat" where
  "top_rank rk = Max (insert 0 (set rk))"

lemma rank_le_top: "x < length rk \<Longrightarrow> rk ! x \<le> top_rank rk"
  by (simp add: top_rank_def)

lemma climb_induct [consumes 2, case_names root step]:
  assumes "forest p rk" "x < length p"
    and "\<And>x. x < length p \<Longrightarrow> p ! x = x \<Longrightarrow> P x"
    and "\<And>x. x < length p \<Longrightarrow> p ! x \<noteq> x \<Longrightarrow> P (p ! x) \<Longrightarrow> P x"
  shows "P x"
  using assms(2)
proof (induction "top_rank rk - rk ! x" arbitrary: x rule: less_induct)
  case less
  show ?case
  proof (cases "p ! x = x")
    case False
    note f = forestD [OF assms(1) less.prems]
    have "rk ! (p ! x) \<le> top_rank rk" using f(1) assms(1) by (intro rank_le_top) (simp add: forest_def)
    then have "top_rank rk - rk ! (p ! x) < top_rank rk - rk ! x" using f(2) [OF False] by linarith
    with less.hyps f(1) have "P (p ! x)" by blast
    then show ?thesis using assms(4) less.prems False by blast
  qed (use assms(3) less.prems in blast)
qed

lemma uf_root_simps:
  "x < length p \<Longrightarrow> p ! x = x \<Longrightarrow> uf_root p x = Some x"
  "x < length p \<Longrightarrow> p ! x \<noteq> x \<Longrightarrow> uf_root p x = uf_root p (p ! x)"
  by (simp_all add: uf_root.simps [of p x])

lemma uf_root_total:
  assumes "forest p rk" "x < length p"
  shows "\<exists>r < length p. uf_root p x = Some r \<and> p ! r = r \<and> rk ! x \<le> rk ! r \<and> (rk ! x = rk ! r \<longrightarrow> x = r)"
  using assms
proof (induction x rule: climb_induct)
  case (step x)
  then obtain r where "r < length p" "uf_root p (p ! x) = Some r" "p ! r = r" "rk ! (p ! x) \<le> rk ! r" by blast
  then show ?case using step forestD(2) [OF assms(1) step(1,2)] by (intro exI [of _ r]) (simp add: uf_root_simps(2))
qed (auto simp: uf_root_simps(1))

definition root_of :: "nat list \<Rightarrow> nat \<Rightarrow> nat" where
  "root_of p x = the (uf_root p x)"

lemma root_of:
  assumes "forest p rk" "x < length p"
  shows "uf_root p x = Some (root_of p x)" "root_of p x < length p" "p ! root_of p x = root_of p x"
    "rk ! x \<le> rk ! root_of p x" "rk ! x = rk ! root_of p x \<Longrightarrow> x = root_of p x"
  using uf_root_total [OF assms] by (auto simp: root_of_def)

lemma root_of_root: "x < length p \<Longrightarrow> p ! x = x \<Longrightarrow> root_of p x = x"
  by (simp add: root_of_def uf_root_simps(1))

lemma root_of_parent: "x < length p \<Longrightarrow> root_of p (p ! x) = root_of p x"
  by (cases "p ! x = x") (simp_all add: root_of_def uf_root_simps(2))

text \<open>Two changes of a forest: a node is linked to the root above it, or a root to another root.\<close>

lemma nth_list_update_if: "xs[i := a] ! j = (if i = j \<and> i < length xs then a else xs ! j)"
  by (cases "i < length xs") (auto simp: nth_list_update not_less list_update_beyond)

lemma shortcut:
  assumes "forest p rk" "x < length p"
  shows "forest (p[x := root_of p x]) rk" "y < length p \<Longrightarrow> root_of (p[x := root_of p x]) y = root_of p y"
proof -
  let ?p = "p[x := root_of p x]"
  note r = root_of [OF assms]
  show f: "forest ?p rk" unfolding forest_def
  proof (intro conjI allI impI)
    show "length rk = length ?p" using assms(1) by (simp add: forest_def)
    fix z assume z: "z < length ?p"
    then show "?p ! z < length ?p" using r(2) forestD(1) [OF assms(1)] by (auto simp: nth_list_update_if)
    assume "?p ! z \<noteq> z"
    then show "rk ! z < rk ! (?p ! z)"
      using z r(4,5) forestD(2) [OF assms(1), of z] by (cases "z = x") (auto simp: nth_list_update_if le_less)
  qed
  assume "y < length p"
  with assms(1) show "root_of ?p y = root_of p y"
  proof (induction y rule: climb_induct)
    case (root y)
    then have "?p ! y = y" using root_of_root [OF root] by (simp add: nth_list_update_if)
    then show ?case using root by (simp add: root_of_root)
  next
    case (step y)
    show ?case
    proof (cases "y = x")
      case True
      have "root_of ?p (?p ! y) = root_of ?p y" using step(1) by (simp add: root_of_parent)
      moreover have "root_of ?p (root_of p x) = root_of p x"
        using r(2,3) step(2) True by (intro root_of_root) (auto simp: nth_list_update_if)
      ultimately show ?thesis using True step(1) by simp
    next
      case False
      then have "root_of ?p y = root_of ?p (p ! y)" using root_of_parent [of y ?p] step(1) by simp
      then show ?thesis using step(1,3) by (simp add: root_of_parent)
    qed
  qed
qed

text \<open>Path compression changes neither the forest property nor any root.\<close>

lemma uf_compress_ok:
  assumes "forest p rk" "x < length p" "root_of p x = r"
  shows "\<exists>p'. uf_compress p r x = Some p' \<and> forest p' rk \<and> length p' = length p \<and> (\<forall>y < length p. root_of p' y = root_of p y)"
  using assms
proof (induction "top_rank rk - rk ! x" arbitrary: p x rule: less_induct)
  case less
  show ?case
  proof (cases "p ! x = r")
    case True
    then show ?thesis using less.prems by (intro exI [of _ p]) (simp add: uf_compress.simps [of p])
  next
    case False
    then have ne: "p ! x \<noteq> x" using root_of_root [OF less.prems(2)] less.prems(3) by auto
    let ?p = "p[x := r]"
    note f = forestD [OF less.prems(1,2)]
    have p: "forest ?p rk" "\<And>y. y < length p \<Longrightarrow> root_of ?p y = root_of p y"
      using shortcut [OF less.prems(1,2)] less.prems(3) by auto
    have "rk ! (p ! x) \<le> top_rank rk" using f(1) less.prems(1) by (intro rank_le_top) (simp add: forest_def)
    then have "top_rank rk - rk ! (p ! x) < top_rank rk - rk ! x" using f(2) [OF ne] by linarith
    moreover have "root_of ?p (p ! x) = r" using p(2) f(1) root_of_parent [OF less.prems(2)] less.prems(3) by simp
    ultimately obtain p' where p': "uf_compress ?p r (p ! x) = Some p'" "forest p' rk" "length p' = length ?p"
      "\<forall>y < length ?p. root_of p' y = root_of ?p y"
      using less.hyps [of "p ! x" ?p] p(1) f(1) by auto
    have "uf_compress p r x = Some p'" using p'(1) False less.prems(2) by (simp add: uf_compress.simps [of p r x])
    then show ?thesis using p'(2-4) p(2) by (intro exI [of _ p']) simp
  qed
qed

section \<open>The invariant\<close>

text \<open>Besides, a root of rank \<open>k\<close> has a group of at least \<open>2 ^ k\<close> elements.\<close>

definition uf_group :: "nat list \<Rightarrow> nat \<Rightarrow> nat set" where
  "uf_group p r = {x. x < length p \<and> root_of p x = r}"

definition uf_ok :: "UnionFind \<Rightarrow> bool" where
  "uf_ok u \<longleftrightarrow> forest (uf_parent u) (uf_rank u) \<and>
     (\<forall>r < length (uf_parent u). uf_parent u ! r = r \<longrightarrow> 2 ^ (uf_rank u ! r) \<le> card (uf_group (uf_parent u) r))"

definition same_group :: "UnionFind \<Rightarrow> (nat \<times> nat) set" where
  "same_group u = {(x, y). x < length (uf_parent u) \<and> y < length (uf_parent u) \<and> root_of (uf_parent u) x = root_of (uf_parent u) y}"

lemma uf_okD:
  assumes "uf_ok u"
  shows "forest (uf_parent u) (uf_rank u)" "length (uf_rank u) = length (uf_parent u)"
    "\<And>r. r < length (uf_parent u) \<Longrightarrow> uf_parent u ! r = r \<Longrightarrow> 2 ^ (uf_rank u ! r) \<le> card (uf_group (uf_parent u) r)"
  using assms by (auto simp: uf_ok_def forest_def)

lemma finite_group [simp]: "finite (uf_group p r)"
  by (simp add: uf_group_def)

lemma root_iff: "forest p rk \<Longrightarrow> r < length p \<Longrightarrow> p ! r = r \<longleftrightarrow> root_of p r = r"
  using root_of(3) [of p rk r] root_of_root [of r p] by auto

lemma same_roots:
  assumes "uf_ok u" "forest p' (uf_rank u)" "length p' = length (uf_parent u)" "\<forall>y < length p'. root_of p' y = root_of (uf_parent u) y"
  shows "uf_ok (u\<lparr>uf_parent := p'\<rparr>)" "same_group (u\<lparr>uf_parent := p'\<rparr>) = same_group u"
proof -
  have "uf_group p' r = uf_group (uf_parent u) r" for r using assms(3,4) by (auto simp: uf_group_def)
  moreover have "p' ! r = r \<longleftrightarrow> uf_parent u ! r = r" if "r < length p'" for r
    using root_iff [OF assms(2) that] root_iff [OF uf_okD(1) [OF assms(1)], of r] assms(3,4) that by simp
  ultimately show "uf_ok (u\<lparr>uf_parent := p'\<rparr>)" using assms(1-3) by (simp add: uf_ok_def)
  show "same_group (u\<lparr>uf_parent := p'\<rparr>) = same_group u" using assms(3,4) by (auto simp: same_group_def)
qed

lemma uf_find_ok:
  assumes "uf_ok u" "x < length (uf_parent u)"
  shows "\<exists>u'. uf_find u x = Some (u', root_of (uf_parent u) x) \<and> uf_ok u' \<and> uf_rank u' = uf_rank u \<and>
    length (uf_parent u') = length (uf_parent u) \<and> (\<forall>y < length (uf_parent u). root_of (uf_parent u') y = root_of (uf_parent u) y) \<and>
    same_group u' = same_group u"
proof -
  note f = uf_okD(1) [OF assms(1)]
  obtain p' where p': "uf_compress (uf_parent u) (root_of (uf_parent u) x) x = Some p'" "forest p' (uf_rank u)"
    "length p' = length (uf_parent u)" "\<forall>y < length (uf_parent u). root_of p' y = root_of (uf_parent u) y"
    using uf_compress_ok [OF f assms(2) refl] by blast
  then have "uf_find u x = Some (u\<lparr>uf_parent := p'\<rparr>, root_of (uf_parent u) x)"
    using root_of(1) [OF f assms(2)] by (simp add: uf_find_def)
  then show ?thesis using same_roots [OF assms(1) p'(2,3)] p'(3,4) by (intro exI [of _ "u\<lparr>uf_parent := p'\<rparr>"]) simp
qed

section \<open>Joining two groups\<close>

definition linked_rank :: "nat list \<Rightarrow> nat \<Rightarrow> nat \<Rightarrow> nat list" where
  "linked_rank rk a b = (if rk ! a = rk ! b then rk[a := rk ! a + 1] else rk)"

lemma link_forest:
  assumes "forest p rk" "a < length p" "b < length p" "p ! a = a" "p ! b = b" "a \<noteq> b" "rk ! b \<le> rk ! a"
  shows "forest (p[b := a]) (linked_rank rk a b)"
    "y < length p \<Longrightarrow> root_of (p[b := a]) y = (if root_of p y = b then a else root_of p y)"
proof -
  let ?p = "p[b := a]" and ?rk = "linked_rank rk a b"
  have len: "length rk = length p" using assms(1) by (simp add: forest_def)
  have rk: "rk ! z \<le> ?rk ! z" "z \<noteq> a \<Longrightarrow> ?rk ! z = rk ! z" "rk ! b < ?rk ! a" for z
    using assms(2,7) len by (auto simp: linked_rank_def nth_list_update_if)
  show "forest ?p ?rk" unfolding forest_def
  proof (intro conjI allI impI)
    show "length ?rk = length ?p" using len by (simp add: linked_rank_def)
    fix z assume z: "z < length ?p"
    then show "?p ! z < length ?p" using assms(2) forestD(1) [OF assms(1)] by (auto simp: nth_list_update_if)
    assume ne: "?p ! z \<noteq> z"
    show "?rk ! z < ?rk ! (?p ! z)"
    proof (cases "z = b")
      case True
      then show ?thesis using assms(3,6) rk(2,3) by simp
    next
      case False
      then have "p ! z \<noteq> z" "z \<noteq> a" using ne assms(4) by auto
      then have "?rk ! z < rk ! (p ! z)" using rk(2) z forestD(2) [OF assms(1), of z] by simp
      then show ?thesis using rk(1) [of "p ! z"] False by simp
    qed
  qed
  assume "y < length p"
  with assms(1) show "root_of ?p y = (if root_of p y = b then a else root_of p y)"
  proof (induction y rule: climb_induct)
    case (root y)
    have a: "root_of ?p a = a" using assms(2,4,6) by (intro root_of_root) auto
    show ?case
    proof (cases "y = b")
      case True
      then have "root_of ?p y = root_of ?p a" using root_of_parent [of y ?p] root(1) by simp
      then show ?thesis using a True root by (simp add: root_of_root)
    next
      case False
      then have "root_of ?p y = y" using root by (intro root_of_root) auto
      then show ?thesis using False root by (simp add: root_of_root)
    qed
  next
    case (step y)
    then have "y \<noteq> b" using assms(5) by auto
    then have "root_of ?p y = root_of ?p (p ! y)" using root_of_parent [of y ?p] step(1) by simp
    then show ?case using step(1,3) by (simp add: root_of_parent)
  qed
qed

lemma link_ok:
  assumes u: "uf_ok u" and r: "a < length (uf_parent u)" "b < length (uf_parent u)" "uf_parent u ! a = a" "uf_parent u ! b = b" "a \<noteq> b"
    and rank: "uf_rank u ! b \<le> uf_rank u ! a"
  shows "uf_ok \<lparr>uf_parent = (uf_parent u)[b := a], uf_rank = linked_rank (uf_rank u) a b\<rparr>"
proof -
  let ?p = "uf_parent u" and ?rk = "uf_rank u"
  let ?p' = "?p[b := a]" and ?rk' = "linked_rank ?rk a b"
  note l = link_forest [OF uf_okD(1) [OF u] r rank]
  have ga: "uf_group ?p' a = uf_group ?p a \<union> uf_group ?p b" using l(2) r(5) by (auto simp: uf_group_def)
  have disj: "uf_group ?p a \<inter> uf_group ?p b = {}" using r(5) by (auto simp: uf_group_def)
  have "2 ^ (?rk' ! c) \<le> card (uf_group ?p' c)" if c: "c < length ?p'" "?p' ! c = c" for c
  proof (cases "c = a")
    case True
    have "card (uf_group ?p' a) = card (uf_group ?p a) + card (uf_group ?p b)" using disj unfolding ga by (simp add: card_Un_disjoint)
    moreover have "2 ^ (?rk ! a) \<le> card (uf_group ?p a)" "2 ^ (?rk ! b) \<le> card (uf_group ?p b)" using uf_okD(3) [OF u] r by auto
    moreover have "?rk' ! a = ?rk ! a + (if ?rk ! a = ?rk ! b then 1 else 0)"
      using r(1) uf_okD(2) [OF u] by (simp add: linked_rank_def)
    ultimately show ?thesis using True by (auto split: if_splits)
  next
    case False
    then have "c \<noteq> b" using c(2) r(2) by auto
    then have "?p ! c = c" using c by simp
    moreover have "uf_group ?p' c = uf_group ?p c" using l(2) False \<open>c \<noteq> b\<close> by (auto simp: uf_group_def)
    moreover have "?rk' ! c = ?rk ! c" using False by (simp add: linked_rank_def)
    ultimately show ?thesis using uf_okD(3) [OF u, of c] c(1) by simp
  qed
  with l(1) show ?thesis by (simp add: uf_ok_def)
qed

text \<open>The relation that joining \<open>x\<close> and \<open>y\<close> gives: the equivalence closure with one more pair.\<close>

definition joined :: "(nat \<times> nat) set \<Rightarrow> nat \<Rightarrow> nat \<Rightarrow> (nat \<times> nat) set" where
  "joined E x y = (E \<union> {(x, y), (y, x)})\<^sup>+"

lemma joined_commute: "joined E x y = joined E y x"
  by (simp add: joined_def insert_commute)

lemma joined_group:
  assumes "\<And>v w. (v, w) \<in> E \<longleftrightarrow> v < n \<and> w < n \<and> f v = f w" "x < n" "y < n"
    and "\<And>v. v < n \<Longrightarrow> g v = (if f v = f y then f x else f v)"
  shows "joined E x y = {(v, w). v < n \<and> w < n \<and> g v = g w}"
proof -
  let ?R = "E \<union> {(x, y), (y, x)}"
  have "(v, w) \<in> ?R\<^sup>+ \<Longrightarrow> v < n \<and> w < n \<and> g v = g w" for v w
    by (induction rule: trancl_induct) (use assms in auto)
  moreover have "(v, w) \<in> ?R\<^sup>+" if vw: "v < n" "w < n" "g v = g w" for v w
  proof (cases "f v = f w")
    case True
    then show ?thesis using vw assms(1) by blast
  next
    case False
    then consider "f v = f y" "f w = f x" | "f v = f x" "f w = f y" using vw assms(4) [of v] assms(4) [of w] by (auto split: if_splits)
    then show ?thesis
    proof cases
      case 1
      then have "(v, y) \<in> E" "(x, w) \<in> E" using assms(1) [of v y] assms(1) [of x w] assms(2,3) vw by simp_all
      then have "(v, y) \<in> ?R" "(y, x) \<in> ?R" "(x, w) \<in> ?R" by blast+
      then show ?thesis by (meson r_into_trancl trancl_trans)
    next
      case 2
      then have "(v, x) \<in> E" "(y, w) \<in> E" using assms(1) [of v x] assms(1) [of y w] assms(2,3) vw by simp_all
      then have "(v, x) \<in> ?R" "(x, y) \<in> ?R" "(y, w) \<in> ?R" by blast+
      then show ?thesis by (meson r_into_trancl trancl_trans)
    qed
  qed
  ultimately show ?thesis unfolding joined_def by (intro equalityI subrelI) blast+
qed

lemma joined_same:
  assumes "(x, y) \<in> same_group u"
  shows "joined (same_group u) x y = same_group u"
proof -
  have "same_group u \<union> {(x, y), (y, x)} = same_group u" using assms by (auto simp: same_group_def)
  moreover have "trans (same_group u)" by (auto simp: same_group_def trans_def)
  ultimately show ?thesis by (simp add: joined_def trancl_id)
qed

lemma joined_link:
  assumes "uf_ok u" "x < length (uf_parent u)" "y < length (uf_parent u)" "p' = (uf_parent u)[b := a]"
    "a = root_of (uf_parent u) x" "b = root_of (uf_parent u) y" "a \<noteq> b" "uf_rank u ! b \<le> uf_rank u ! a"
  shows "uf_ok \<lparr>uf_parent = p', uf_rank = linked_rank (uf_rank u) a b\<rparr>"
    "same_group \<lparr>uf_parent = p', uf_rank = rk'\<rparr> = joined (same_group u) x y"
proof -
  let ?p = "uf_parent u"
  note f = uf_okD(1) [OF assms(1)]
  have ab: "a < length ?p" "b < length ?p" "?p ! a = a" "?p ! b = b"
    using root_of(2,3) [OF f assms(2)] root_of(2,3) [OF f assms(3)] assms(5,6) by simp_all
  show "uf_ok \<lparr>uf_parent = p', uf_rank = linked_rank (uf_rank u) a b\<rparr>"
    using link_ok [OF assms(1) ab assms(7,8)] assms(4) by simp
  have g: "root_of p' v = (if root_of ?p v = root_of ?p y then root_of ?p x else root_of ?p v)" if "v < length ?p" for v
    using link_forest(2) [OF f ab assms(7,8) that] assms(4-6) by simp
  have "joined (same_group u) x y = {(v, w). v < length ?p \<and> w < length ?p \<and> root_of p' v = root_of p' w}"
    by (rule joined_group [where f = "root_of ?p"]) (use assms(2,3) g in \<open>auto simp: same_group_def\<close>)
  then show "same_group \<lparr>uf_parent = p', uf_rank = rk'\<rparr> = joined (same_group u) x y"
    using assms(4) by (simp add: same_group_def)
qed

lemma uf_link_ok:
  assumes "uf_ok u" "x < length (uf_parent u)" "y < length (uf_parent u)" "a = root_of (uf_parent u) x" "b = root_of (uf_parent u) y" "a \<noteq> b"
  shows "\<exists>u' r. uf_link u a b = Some (u', r) \<and> uf_ok u' \<and> length (uf_parent u') = length (uf_parent u) \<and>
    same_group u' = joined (same_group u) x y"
proof -
  note f = uf_okD(1,2) [OF assms(1)]
  have ab: "a < length (uf_parent u)" "b < length (uf_parent u)"
    using root_of(2) [OF f(1) assms(2)] root_of(2) [OF f(1) assms(3)] assms(4,5) by simp_all
  show ?thesis
  proof (cases "uf_rank u ! a < uf_rank u ! b")
    case True
    let ?u = "\<lparr>uf_parent = (uf_parent u)[a := b], uf_rank = linked_rank (uf_rank u) b a\<rparr>"
    have "uf_link u a b = Some (?u, b)" using True ab f(2) by (cases u) (simp add: uf_link_def linked_rank_def)
    then show ?thesis
      using joined_link [OF assms(1,3,2) refl assms(5,4) _ less_imp_le [OF True]] assms(6) joined_commute by auto
  next
    case False
    let ?u = "\<lparr>uf_parent = (uf_parent u)[b := a], uf_rank = linked_rank (uf_rank u) a b\<rparr>"
    have "uf_link u a b = Some (?u, a)" using False ab f(2) by (cases u) (simp add: uf_link_def linked_rank_def)
    then show ?thesis using joined_link [OF assms(1,2,3) refl assms(4,5,6)] False by auto
  qed
qed

lemma uf_union_ok:
  assumes "uf_ok u" "x < length (uf_parent u)" "y < length (uf_parent u)"
  shows "\<exists>u' r. uf_union u x y = Some (u', r) \<and> uf_ok u' \<and> length (uf_parent u') = length (uf_parent u) \<and>
    same_group u' = joined (same_group u) x y \<and> (r = None \<longleftrightarrow> (x, y) \<in> same_group u)"
proof -
  let ?p = "uf_parent u"
  obtain u1 where u1: "uf_find u x = Some (u1, root_of ?p x)" "uf_ok u1" "length (uf_parent u1) = length ?p"
    "\<forall>z < length ?p. root_of (uf_parent u1) z = root_of ?p z" "same_group u1 = same_group u"
    using uf_find_ok [OF assms(1,2)] by blast
  obtain u2 where u2: "uf_find u1 y = Some (u2, root_of ?p y)" "uf_ok u2" "length (uf_parent u2) = length ?p"
    "\<forall>z < length ?p. root_of (uf_parent u2) z = root_of ?p z" "same_group u2 = same_group u"
    using uf_find_ok [of u1 y] u1 assms(3) by auto
  have same: "(x, y) \<in> same_group u \<longleftrightarrow> root_of ?p x = root_of ?p y" using assms(2,3) by (simp add: same_group_def)
  show ?thesis
  proof (cases "root_of ?p x = root_of ?p y")
    case True
    have "uf_union u x y = Some (u2, None)" using u1(1) u2(1) True by (simp add: uf_union_def)
    then show ?thesis using u2(2,3,5) True same joined_same by auto
  next
    case False
    from uf_link_ok [OF u2(2), of x y "root_of ?p x" "root_of ?p y"] u2(3,4,5) assms(2,3) False obtain u3 r where
      u3: "uf_link u2 (root_of ?p x) (root_of ?p y) = Some (u3, r)" "uf_ok u3" "length (uf_parent u3) = length ?p"
      "same_group u3 = joined (same_group u) x y" by auto
    have "uf_union u x y = Some (u3, Some r)" using u1(1) u2(1) u3(1) False by (simp add: uf_union_def)
    then show ?thesis using u3(2-4) False same by auto
  qed
qed

lemma uf_in_same_group_ok:
  assumes "uf_ok u" "x < length (uf_parent u)" "y < length (uf_parent u)"
  shows "\<exists>u'. uf_in_same_group u x y = Some (u', (x, y) \<in> same_group u) \<and> uf_ok u' \<and>
    length (uf_parent u') = length (uf_parent u) \<and> same_group u' = same_group u"
proof -
  obtain u1 where u1: "uf_find u x = Some (u1, root_of (uf_parent u) x)" "uf_ok u1" "length (uf_parent u1) = length (uf_parent u)"
    "\<forall>z < length (uf_parent u). root_of (uf_parent u1) z = root_of (uf_parent u) z" "same_group u1 = same_group u"
    using uf_find_ok [OF assms(1,2)] by blast
  obtain u2 where u2: "uf_find u1 y = Some (u2, root_of (uf_parent u) y)" "uf_ok u2" "length (uf_parent u2) = length (uf_parent u)"
    "same_group u2 = same_group u" using uf_find_ok [of u1 y] u1 assms(3) by auto
  have "uf_in_same_group u x y = Some (u2, (x, y) \<in> same_group u)"
    using u1(1) u2(1) assms(2,3) by (simp add: uf_in_same_group_def same_group_def)
  with u2(2-4) show ?thesis by blast
qed

section \<open>Growing\<close>

lemma root_of_append:
  assumes "forest p rk" "y < length p"
  shows "root_of (p @ q) y = root_of p y"
  using assms
proof (induction y rule: climb_induct)
  case (root y)
  then show ?case by (simp add: root_of_root nth_append)
next
  case (step y)
  then have "root_of (p @ q) y = root_of (p @ q) (p ! y)" using root_of_parent [of y "p @ q"] by (simp add: nth_append)
  then show ?case using step by (simp add: root_of_parent)
qed

lemma uf_resize_ok:
  assumes "uf_ok u"
  shows "uf_ok (uf_resize u m)" "length (uf_parent (uf_resize u m)) = max (length (uf_parent u)) m"
    "same_group (uf_resize u m) = same_group u \<union> Id_on {length (uf_parent u)..<m}"
proof -
  let ?n = "length (uf_parent u)" and ?p' = "uf_parent u @ [length (uf_parent u)..<m]"
  note f = uf_okD(1,2) [OF assms]
  have eq: "uf_resize u m = \<lparr>uf_parent = ?p', uf_rank = uf_rank u @ replicate (m - ?n) 0\<rparr>"
    using f(2) by (cases u) (auto simp: uf_resize_def)
  have old: "root_of ?p' y = root_of (uf_parent u) y" "root_of (uf_parent u) y < ?n" if "y < ?n" for y
    using that root_of_append [OF f(1)] root_of(2) [OF f(1)] by auto
  have new: "root_of ?p' y = y" if "?n \<le> y" "y < m" for y using that by (intro root_of_root) (auto simp: nth_append)
  have "forest ?p' (uf_rank u @ replicate (m - ?n) 0)"
    using f forestD [OF f(1)] by (auto simp: forest_def nth_append not_less) (metis trans_less_add1)
  moreover have "2 ^ ((uf_rank u @ replicate (m - ?n) 0) ! r) \<le> card (uf_group ?p' r)" if "r < length ?p'" "?p' ! r = r" for r
  proof (cases "r < ?n")
    case True
    then have "uf_group (uf_parent u) r \<subseteq> uf_group ?p' r" using old by (auto simp: uf_group_def)
    then have "card (uf_group (uf_parent u) r) \<le> card (uf_group ?p' r)" by (simp add: card_mono)
    moreover have "2 ^ (uf_rank u ! r) \<le> card (uf_group (uf_parent u) r)" using uf_okD(3) [OF assms True] that(2) True by (simp add: nth_append)
    ultimately show ?thesis using True f(2) by (simp add: nth_append)
  next
    case False
    then have "r \<in> uf_group ?p' r" using new that by (simp add: uf_group_def)
    then have "0 < card (uf_group ?p' r)" by (auto simp: card_gt_0_iff)
    then show ?thesis using False that(1) f(2) by (simp add: nth_append)
  qed
  ultimately show "uf_ok (uf_resize u m)" unfolding eq by (simp add: uf_ok_def)
  show "length (uf_parent (uf_resize u m)) = max ?n m" unfolding eq by simp
  have "root_of ?p' v = root_of ?p' w \<longleftrightarrow> (if v < ?n \<and> w < ?n then root_of (uf_parent u) v = root_of (uf_parent u) w else v = w)"
    if "v < length ?p'" "w < length ?p'" for v w
    using that old [of v] old [of w] new [of v] new [of w] by (cases "v < ?n"; cases "w < ?n") auto
  then show "same_group (uf_resize u m) = same_group u \<union> Id_on {?n..<m}"
    unfolding eq by (auto simp: same_group_def Id_on_iff split: if_splits)
qed

lemma uf_new_ok: "uf_ok (uf_new n)" "same_group (uf_new n) = Id_on {..<n}" "length (uf_parent (uf_new n)) = n"
proof -
  have "uf_ok \<lparr>uf_parent = [], uf_rank = []\<rparr>" by (simp add: uf_ok_def forest_def)
  from uf_resize_ok [OF this, of n] show "uf_ok (uf_new n)" "same_group (uf_new n) = Id_on {..<n}" "length (uf_parent (uf_new n)) = n"
    by (auto simp: uf_new_def uf_resize_def same_group_def lessThan_atLeast0 split: if_splits)
qed

section \<open>Sequences of operations\<close>

datatype UfOp = Resize nat | Join nat nat | Ask nat nat

text \<open>The answers: whether a join changed anything, and whether two elements are in the same group.\<close>

fun uf_step :: "UnionFind \<times> bool list \<Rightarrow> UfOp \<Rightarrow> (UnionFind \<times> bool list) option" where
  "uf_step (u, out) (Resize n) = Some (uf_resize u n, out)"
| "uf_step (u, out) (Join x y) = map_option (\<lambda>(u, r). (u, out @ [r \<noteq> None])) (uf_union u x y)"
| "uf_step (u, out) (Ask x y) = map_option (\<lambda>(u, b). (u, out @ [b])) (uf_in_same_group u x y)"

fun uf_spec :: "nat \<times> (nat \<times> nat) set \<times> bool list \<Rightarrow> UfOp \<Rightarrow> nat \<times> (nat \<times> nat) set \<times> bool list" where
  "uf_spec (n, E, out) (Resize m) = (max n m, E \<union> Id_on {n..<m}, out)"
| "uf_spec (n, E, out) (Join x y) = (n, joined E x y, out @ [(x, y) \<notin> E])"
| "uf_spec (n, E, out) (Ask x y) = (n, E, out @ [(x, y) \<in> E])"

fun uf_admits :: "nat \<times> (nat \<times> nat) set \<times> bool list \<Rightarrow> UfOp \<Rightarrow> bool" where
  "uf_admits (n, _, _) (Resize _) = True"
| "uf_admits (n, _, _) (Join x y) = (x < n \<and> y < n)"
| "uf_admits (n, _, _) (Ask x y) = (x < n \<and> y < n)"

definition uf_abs :: "UnionFind \<times> bool list \<Rightarrow> nat \<times> (nat \<times> nat) set \<times> bool list" where
  "uf_abs = (\<lambda>(u, out). (length (uf_parent u), same_group u, out))"

interpretation union_find: refined_machine uf_step "\<lambda>(u, _). uf_ok u" uf_abs uf_spec uf_admits
proof
  fix s e assume s: "case s of (u, _) \<Rightarrow> uf_ok u" and e: "uf_admits (uf_abs s) e"
  obtain u out where [simp]: "s = (u, out)" by (cases s)
  have ok: "uf_ok u" using s by simp
  show "\<exists>s'. uf_step s e = Some s' \<and> (case s' of (u, _) \<Rightarrow> uf_ok u) \<and> uf_abs s' = uf_spec (uf_abs s) e"
  proof (cases e)
    case (Resize n)
    then show ?thesis using uf_resize_ok [OF ok, of n] by (simp add: uf_abs_def)
  next
    case (Join x y)
    then have "x < length (uf_parent u)" "y < length (uf_parent u)" using e by (simp_all add: uf_abs_def)
    from uf_union_ok [OF ok this] show ?thesis using Join by (auto simp: uf_abs_def)
  next
    case (Ask x y)
    then have "x < length (uf_parent u)" "y < length (uf_parent u)" using e by (simp_all add: uf_abs_def)
    from uf_in_same_group_ok [OF ok this] show ?thesis using Ask by (auto simp: uf_abs_def)
  qed
qed

text \<open>A path to a root has at most as many steps as the logarithm of the number of elements.\<close>

lemma uf_rank_bound:
  assumes "uf_ok u" "x < length (uf_parent u)"
  shows "2 ^ (uf_rank u ! x) \<le> length (uf_parent u)"
proof -
  note f = uf_okD(1) [OF assms(1)]
  let ?r = "root_of (uf_parent u) x"
  note r = root_of [OF f assms(2)]
  have "2 ^ (uf_rank u ! x) \<le> (2 :: nat) ^ (uf_rank u ! ?r)" using r(4) by (intro power_increasing) simp_all
  also have "\<dots> \<le> card (uf_group (uf_parent u) ?r)" by (rule uf_okD(3) [OF assms(1) r(2,3)])
  also have "\<dots> \<le> card {..<length (uf_parent u)}" by (rule card_mono) (auto simp: uf_group_def)
  finally show ?thesis by simp
qed

text \<open>C40: union-find answers by the equivalence closure of the pairs that were joined. From \<open>n\<close> single
  elements on, any sequence of joins, queries and enlargements within the size ends without a panic,
  joins report whether they changed anything, queries whether the elements are equivalent; and ranks stay
  logarithmic in the number of elements.\<close>

theorem union_find_refines:
  assumes "admitted uf_spec uf_admits (n, Id_on {..<n}, []) ops"
  shows "\<exists>u out. run uf_step (uf_new n, []) ops = Some (u, out) \<and>
    (length (uf_parent u), same_group u, out) = foldl uf_spec (n, Id_on {..<n}, []) ops \<and>
    (\<forall>x < length (uf_parent u). 2 ^ (uf_rank u ! x) \<le> length (uf_parent u))"
proof -
  have start: "uf_abs (uf_new n, []) = (n, Id_on {..<n}, [])" by (simp add: uf_abs_def uf_new_ok)
  have "\<exists>s. run uf_step (uf_new n, []) ops = Some s \<and> (case s of (u, _) \<Rightarrow> uf_ok u) \<and> uf_abs s = foldl uf_spec (uf_abs (uf_new n, [])) ops"
    by (rule union_find.run_refines) (simp_all add: uf_new_ok start assms)
  then show ?thesis using uf_rank_bound unfolding start by (auto simp: uf_abs_def)
qed

theorem union_find_refines_witness:
  "\<exists>u E. run uf_step (uf_new 3, []) [Join 0 1, Resize 5, Join 4 1, Ask 0 4, Ask 2 4] = Some (u, [True, True, (0, 4) \<in> E, (2, 4) \<in> E]) \<and>
     E = joined (joined (Id_on {..<3}) 0 1 \<union> Id_on {3..<5}) 4 1 \<and> uf_ok (uf_new 3)"
proof -
  have id: "(0 :: nat, 1) \<notin> Id_on {..<3}" by auto
  have a: "joined (Id_on {..<3}) 0 (1 :: nat) \<subseteq> {..<3} \<times> {..<3}"
    unfolding joined_def by (rule trancl_subset_Sigma) auto
  then have "(4, 1) \<notin> joined (Id_on {..<3}) 0 (1 :: nat) \<union> Id_on {3..<5}" by auto
  then show ?thesis
    using union_find_refines [of 3 "[Join 0 1, Resize 5, Join 4 1, Ask 0 4, Ask 2 4]"] id uf_new_ok(1) [of 3] by auto
qed

end
