(* ===== verification/Spec2Isabelle.thy ===== *)
theory Spec2Isabelle
  imports Prelude IL_Ops MIR_Sound Hw_Pic Hw_Pit Hw_Apic Hw_Lapic Bitmap_Growing Mem_Paged Map_Merge Map_Scc_Groups Cg_Dom_Sound Cg_UnionFind
begin

text \<open>
  Sem86 emulates a 386 PC. Instructions are given by encodings with formal semantics. The decoder finds
  the encoding of an instruction in a graph over its bytes, the code generator turns the semantics of a
  page of instructions into a graph of values and compiles it, and the compiled code works on the CPU
  state and on the emulated memory, with devices behind ports and memory-mapped ranges. This
  development follows the parts that carry logic of their own and can be read without the generated
  code: each theory is a translation of one or a few source files, with what makes them correct.

  \<^bold>\<open>Conventions.\<close> Integers are words of their Rust width, and arithmetic is that of the release profile
  (it wraps, shift amounts are reduced); \<open>usize\<close> is \<open>nat\<close> where it counts things in memory, and the
  theories say where that matters. A panic (a failed assertion, an index out of range, \<open>unwrap\<close> of
  nothing, \<open>todo!\<close>) is the result \<open>None\<close>. Mutable state is passed and returned. A loop that is not
  structurally recursive is a \<open>partial_function\<close> in the option monad; where a theorem speaks of its result it also
  says that there is one, so it covers termination and the absence of panics. Structures of atomics
  that threads share are plain records: an operation is one step, and sequences of operations are
  lists of events that \<open>run\<close> executes. Fields, variants and functions keep their names; a prefix
  (\<open>gb_\<close>, \<open>md_\<close>) tells the types apart.

  \<^bold>\<open>Theories.\<close> Paths are relative to the sources of the repository.

  \<^item> \<open>Prelude\<close>: machine integers, bit counting, and the interfaces that components share. The locales
    are \<open>invariant_machine\<close> (every operation keeps an invariant), \<open>total_machine\<close> (and admitted
    operations do not panic), \<open>refined_machine\<close> (operations implement those of an abstract machine),
    \<open>snapshot_device\<close> and \<open>fallible_snapshot_device\<close> (a restored device behaves as the saved one) and
    \<open>bit_container\<close> (bits that implement a set). They are interpreted for the legacy interrupt
    controllers, the timer, both APICs, the bitmaps, the metadata map and the memory.

  \<^item> \<open>IL_Ops\<close>: operators of the intermediate language (\<open>sem86-core/src/il/mod.rs\<close>) on 128-bit values,
    operand conversion, \<open>DataSize\<close> (\<open>codegen/mod.rs\<close>) and \<open>Size\<close> (\<open>liblisa/src/state/locs.rs\<close>).

  \<^item> \<open>MIR_Val\<close>, \<open>MIR_Sem\<close>, \<open>MIR_Contract\<close>, \<open>MIR_Binop\<close>, \<open>MIR_Extract\<close>, \<open>MIR_Sound\<close>: the value builder of the
    code generator (\<open>sem86-core/src/codegen/mir/val.rs\<close>), hash-consing with several hundred lines of
    peephole simplifications. \<open>MIR_Sem\<close> gives a value graph its meaning in an environment. The
    contract of each operation says that the new node has the value of the expression asked for and
    that old nodes keep theirs. \<open>binop\<close> and \<open>extract\<close> call each other; the model has a fuel argument,
    and the contract includes that fuel above a weight of the operands suffices. One unfolding is
    proved in the locale \<open>val_recursion\<close>, and the same is done for \<open>combine_old_and_new\<close> in the locale \<open>combine_call\<close>.

  \<^item> \<open>Hw_Pic\<close>: the interrupt request counter of the CPU (\<open>hw/intr.rs\<close>) and the pair of 8259
    controllers (\<open>hw/pic/legacy.rs\<close>). The invariant ties the counter to the controllers, so the CPU
    is told of an interrupt exactly while one can be fetched.

  \<^item> \<open>Hw_Pit\<close>: the 8254 timer (\<open>hw/pit.rs\<close>) and the ticker and synchronous clock (\<open>time.rs\<close>) that run its
    interrupt. The flag that a registered timer shares with the device is a cell of the bus, cleared
    when either is dropped, and a timer waits in a channel until the clock moves. Many ticks at once do
    what single ticks do in the modes 0, 2 and 3, and up to 65535 ticks in the modes 4 and 5.

  \<^item> \<open>Hw_Apic\<close>, \<open>Hw_Lapic\<close>: bit sets, the I/O APIC and interrupt lines (\<open>hw/pic/mod.rs\<close>, \<open>io.rs\<close>), the
    local APIC (\<open>local.rs\<close>). No interrupt that was sent is lost, whatever the guest reads and writes, and
    the highest priority comes first; which accesses panic is stated exactly.

  \<^item> \<open>Bitmap_Slice\<close>, \<open>Bitmap_Growing\<close>: bitmaps (\<open>liblisa/src/utils/bitmap/\<close>). Growing bitmaps refine lists
    of booleans under every edit, searches find the first bit, dense sets are sets.

  \<^item> \<open>Mem_Metadata\<close>, \<open>Mem_Host\<close>, \<open>Mem_Walk\<close>, \<open>Mem_Translation\<close>, \<open>Mem_Access\<close>, \<open>Mem_Flat\<close>, \<open>Mem_Paged\<close>: the
    emulated memory (\<open>sem86-arch/src/mem/\<close>, the page faults of \<open>exceptions.rs\<close>). Host memory is a store
    of shared memory objects that are mapped into a linear and a physical view. Page walks are
    compared with one description of address translation by levels. Without paging the memory
    refines an array of bytes; with paging each access is the translated access or the page fault.
    Devices are a record of functions; the notification of the first write to a clean frame is handed
    the memory, as in the code. The refinements are for devices that read it and do not write to it.

  \<^item> \<open>Map_Node\<close>, \<open>Map_Scc\<close>, \<open>Map_Scc_Groups\<close>, \<open>Map_Partition\<close>, \<open>Map_Split\<close>, \<open>Map_Rounds\<close>, \<open>Map_Stable\<close>,
    \<open>Map_Initial\<close>, \<open>Map_Canonical\<close>, \<open>Map_Optimize\<close>, \<open>Map_Sound\<close>, \<open>Map_Answers\<close>, \<open>Map_Union\<close>, \<open>Map_Product\<close>, \<open>Map_Merge\<close>: the graphs of the decoder
    (\<open>liblisa/src/instr/map/\<close>): lookup, strongly connected components, partitions of nodes that behave
    alike, optimisation and union. The loops end without a panic, the partition is stable whatever the
    hash function, and the optimised graph and the union give the answers they should. The groups of the
    search are the strongly connected components, in reverse topological order.

  \<^item> \<open>Cg_Blocks\<close>, \<open>Cg_Dominators\<close>, \<open>Cg_Dom_Search\<close>, \<open>Cg_Dom_Sound\<close>, \<open>Cg_UnionFind\<close>: basic blocks
    (\<open>codegen/mir/bb.rs\<close>), their dominator tree (\<open>codegen/lir/dominator.rs\<close>) and disjoint sets
    (\<open>codegen/mir/union_find.rs\<close>). Dominance is specified by paths from the entry. The theorems are for
    the graphs of \<open>flow_ok\<close> (no loops, an entry with at most one successor, first targets of branches
    that nothing else leads to); lemmas show what goes wrong for others. Union-find answers by the
    equivalence closure of the joined pairs.

  \<^bold>\<open>Parameters.\<close> What the repository only uses is an argument: the SoftFloat operations, the hash
  function \<open>fx\<close> and the order \<open>ord\<close> in which a hash map iterates (any function, respectively any order
  that lists each entry once), lookups in the range map of the physical address space, the devices
  behind memory-mapped ranges, the time. Witnesses instantiate them with concrete functions.

  \<^bold>\<open>Bounds.\<close> Node and value indices of instruction maps stay below \<open>2 ^ 31\<close>, which the packing of edges
  needs and the code asserts in part; instructions have up to 15 bytes; a physical address space of
  the flat memory is below 4 GiB. Where the code breaks its own bound, a lemma shows it.

  \<^bold>\<open>Where the code is not right.\<close> Deviations found on the way are stated as lemmas on concrete inputs
  next to the theorem whose hypothesis excludes them, e.g. byte swaps of 64-bit operands, a shift by
  128, \<open>remove_back\<close> of bitmaps, writes across pages, a supervisor write that opens a page to user mode,
  rotations whose documented count is another, flags in \<open>CR3\<close> that move the page directory, a restored
  interrupt controller that keeps a stale request.

  \<^bold>\<open>Not modelled.\<close> Generated code and its back ends (their meaning is that of LLVM, Cranelift and the host
  processor), the threads and raw pointers of the instruction cache and the clock, files, sockets,
  sound and windows of the host, macros and traits that only dispatch, and devices whose
  behaviour is mostly tables. Debug output, logging, serialisation and statistics are left out everywhere.
\<close>

end
